(* ===== verification/TLRPC_Prelude.thy ===== *)
theory TLRPC_Prelude
  imports Main "HOL-Library.Word"
begin

text \<open>
  Shared vocabulary of the development.  Bytes are 8-bit words and a Go byte slice is a list of
  them.  A Go \<open>int32\<close>, \<open>int64\<close>, \<open>uint32\<close> or \<open>uint64\<close> value is an
  \<^typ>\<open>int\<close> in the range of its type; wherever the code does arithmetic or a conversion
  that can leave the range, the wrap-around is written out with \<open>wrap32\<close>, \<open>wrap64\<close>,
  \<open>u32\<close> and \<open>u64\<close>.  A point in time is the number of nanoseconds since the Go zero
  time, so the zero time is \<open>0\<close>; a duration is a number of nanoseconds.  The error values of
  the packages are datatypes, one per package, joined in \<open>go_error\<close>, which also has a value for
  a panic.  Code that may fail and
  that reads or writes a stream is a function of type \<open>('s, 'a) io\<close>: from a state to a result
  (an error or a value) and the state it leaves behind, also when it fails.
\<close>

section \<open>Types\<close>

type_synonym byte = "8 word"
type_synonym bytes = "byte list"
type_synonym gotime = int
type_synonym duration = int

datatype io_error = EOF | UnexpectedEOF | ShortWrite

datatype context_error = Canceled | DeadlineExceeded

datatype mtproto_error =
    InvalidBool | StringTooLong | VectorTooLong | DecodedBytesLimit | WrapperCountLimit
  | ContainerCountLimit | VectorCountLimit | ObjectNodeLimit | ObjectDepthLimit
  | NegativeDecodeLimits | InvalidVectorConstructor int | InvalidVectorLength int

datatype message_error =
    MsgKeyMismatch | InvalidMessageLength | EncodedBytesLimit | EncodedObjectDepthLimit
  | EncodedObjectNodesLimit | DecodedPayloadTooLarge | GzipExpansionRatio | GzipWorkLimit
  | GzipFormat | NegativeOutputLimit | NegativeEncodeLimit

datatype tl_error =
    WrongConstructor int int | NegativeMessageBytes int | InvalidFutureSaltsCount int
  | FutureSaltsCountLimit int | InitConnectionOptions

datatype transport_error =
    InvalidLength | PayloadTooLarge | QuickAck int | TransportErrorCode int
  | InvalidObfuscatedHeader | ClientProtocol | UnknownObfuscatedTag int | InvalidKeySize int

datatype protocol_error =
    SessionIDMismatch | BadServerSaltValue | MessageIDTooLow | MessageIDTooHigh | MessageIDFormat
  | ReplayMessageID | SequenceNoTooLow | SequenceNoTooHigh | ExpectedNonContentSequence
  | ExpectedContentSequence | InvalidMessageKind | InvalidConfig

datatype session_error =
    SessionNotFound | SessionKeyMismatch | LeaseLost | LeaseReleased | LeaseInactive
  | LeaseGenerationExhausted

datatype retention_error =
    InvalidCapacity | InvalidTTL | Expired | InvalidSessionCapacity | InvalidMessageCapacity
  | ReliabilityCapacity int

datatype request_error =
    InvokeAfterFailed | InvokeAfterTimeout | InvalidActiveCapacity int | InvalidActiveID int
  | DuplicateActiveRequest int | ActiveCapacity int | BarrierFull | BarrierAborted

datatype runtime_error =
    InvalidInbound | InvalidIntent | InvalidSessionMutation | InboundBodyTooShort
  | TrailingContainerData | TrailingControlData | InvalidDisconnectDelay | WrapperDepth
  | InvalidLayer | InvalidNestedQuery | InvalidInvokeAfter | WriterClosed
  | RetainedMessageNotFound int | EncodedPayloadTooLarge | ControlRouterMissing
  | ApplicationDispatcherMissing | WriterConfig | WriterOperation | ControlDependencies

datatype frame_error =
    FrameTooShort | AuthKeyMismatch | AuthKeySourceMissing | ConnectionConfig
  | ConnectionProtocol | HandshakeAuthKeyMismatch | ConnectionSessionCapacity int

datatype crypto_error =
    AuthKeyNotFound | TemporaryKeyUnsupported | TemporaryKeyAlreadyBound | TemporaryKeyExpiry
  | InvalidKeyBinding | InvalidDH | HandshakeRequest | RSAPadLength | RSAPadDecrypt | RSAPadHash
  | RSADecryption | ServerKeyNotFound

datatype handshake_error =
    HandshakeConfig | HandshakeCapacity | HandshakeExpired | HandshakeClosed | InvalidHandshake
  | UnsupportedMessage | InvalidDHExponent | CompatClient

datatype go_error =
    IOError io_error
  | ContextError context_error
  | MTProtoError mtproto_error
  | MessageError message_error
  | TLError tl_error
  | TransportError transport_error
  | ProtocolError protocol_error
  | SessionError session_error
  | RetentionError retention_error
  | RequestError request_error
  | RuntimeError runtime_error
  | FrameError frame_error
  | CryptoError crypto_error
  | HandshakeError handshake_error
  | Panic
  | BadMessageError int int int int protocol_error

section \<open>Machine integers\<close>

definition wrap32 :: "int \<Rightarrow> int" where
  "wrap32 x = (x + 2 ^ 31) mod 2 ^ 32 - 2 ^ 31"

definition wrap64 :: "int \<Rightarrow> int" where
  "wrap64 x = (x + 2 ^ 63) mod 2 ^ 64 - 2 ^ 63"

definition u32 :: "int \<Rightarrow> int" where
  "u32 x = x mod 2 ^ 32"

definition u64 :: "int \<Rightarrow> int" where
  "u64 x = x mod 2 ^ 64"

definition in_i32 :: "int \<Rightarrow> bool" where
  "in_i32 x \<longleftrightarrow> - (2 ^ 31) \<le> x \<and> x < 2 ^ 31"

definition in_i64 :: "int \<Rightarrow> bool" where
  "in_i64 x \<longleftrightarrow> - (2 ^ 63) \<le> x \<and> x < 2 ^ 63"

definition in_u32 :: "int \<Rightarrow> bool" where
  "in_u32 x \<longleftrightarrow> 0 \<le> x \<and> x < 2 ^ 32"

definition in_u64 :: "int \<Rightarrow> bool" where
  "in_u64 x \<longleftrightarrow> 0 \<le> x \<and> x < 2 ^ 64"

definition max_i32 :: int where "max_i32 = 2 ^ 31 - 1"
definition max_i64 :: int where "max_i64 = 2 ^ 63 - 1"

section \<open>Little-endian bytes\<close>

text \<open>\<open>encoding/binary\<close>'s little-endian order: \<open>le_bytes k v\<close> is what
  \<open>PutUint32\<close> (\<open>k = 4\<close>) and \<open>PutUint64\<close> (\<open>k = 8\<close>) store, \<open>le_int\<close> what
  \<open>Uint32\<close> and \<open>Uint64\<close> read.\<close>

fun le_bytes :: "nat \<Rightarrow> int \<Rightarrow> bytes" where
  "le_bytes 0 v = []"
| "le_bytes (Suc k) v = word_of_int v # le_bytes k (v div 256)"

fun le_int :: "bytes \<Rightarrow> int" where
  "le_int [] = 0"
| "le_int (b # bs) = uint b + 256 * le_int bs"

text \<open>\<open>bs[i:j]\<close>\<close>

definition slice :: "nat \<Rightarrow> nat \<Rightarrow> bytes \<Rightarrow> bytes" where
  "slice i j bs = take (j - i) (drop i bs)"

section \<open>Time\<close>

text \<open>Nanoseconds from the Go zero time (1 January of year 1) to the Unix epoch.\<close>

definition unix_epoch :: gotime where "unix_epoch = 62135596800 * 1000000000"
definition second :: duration where "second = 1000000000"
definition time_Unix :: "int \<Rightarrow> gotime" where "time_Unix s = unix_epoch + s * second"
definition Unix_of :: "gotime \<Rightarrow> int" where "Unix_of t = (t - unix_epoch) div second"
definition Nanosecond_of :: "gotime \<Rightarrow> int" where "Nanosecond_of t = (t - unix_epoch) mod second"
definition IsZero :: "gotime \<Rightarrow> bool" where "IsZero t \<longleftrightarrow> t = 0"

section \<open>Fallible computations over a state\<close>

type_synonym ('s, 'a) io = "'s \<Rightarrow> (go_error + 'a) \<times> 's"

definition ret :: "'a \<Rightarrow> ('s, 'a) io" where
  "ret x = (\<lambda>s. (Inr x, s))"

definition raise :: "go_error \<Rightarrow> ('s, 'a) io" where
  "raise e = (\<lambda>s. (Inl e, s))"

definition andThen :: "('s, 'a) io \<Rightarrow> ('a \<Rightarrow> ('s, 'b) io) \<Rightarrow> ('s, 'b) io" where
  "andThen m f = (\<lambda>s. case m s of (Inl e, s') \<Rightarrow> (Inl e, s') | (Inr x, s') \<Rightarrow> f x s')"

text \<open>\<open>for i := 0; i < n; i++ { x, err := m(); if err != nil { return err }; xs = append(xs, x) }\<close>\<close>

fun repeatM :: "nat \<Rightarrow> ('s, 'a) io \<Rightarrow> ('s, 'a list) io" where
  "repeatM 0 m = ret []"
| "repeatM (Suc n) m = andThen m (\<lambda>x. andThen (repeatM n m) (\<lambda>xs. ret (x # xs)))"

text \<open>\<open>for _, x := range xs { if err := f(x); err != nil { return err } }\<close>\<close>

fun forEach :: "'a list \<Rightarrow> ('a \<Rightarrow> ('s, unit) io) \<Rightarrow> ('s, unit) io" where
  "forEach [] f = ret ()"
| "forEach (x # xs) f = andThen (f x) (\<lambda>_. forEach xs f)"

section \<open>Collections of facts\<close>

named_theorems range_defs \<open>ranges of the machine integer types\<close>
named_theorems emit_intros \<open>what a serializer writes\<close>
named_theorems parse_intros \<open>what a deserializer reads\<close>

lemmas [range_defs] = in_i32_def in_i64_def in_u32_def in_u64_def

section \<open>Facts about machine integers\<close>

lemma wrap32_id [simp]: "in_i32 x \<Longrightarrow> wrap32 x = x"
  by (simp add: wrap32_def in_i32_def)

lemma wrap64_id [simp]: "in_i64 x \<Longrightarrow> wrap64 x = x"
  by (simp add: wrap64_def in_i64_def)

lemma wrap32_range [simp, intro]: "in_i32 (wrap32 x)"
  by (simp add: wrap32_def in_i32_def)

lemma wrap64_range [simp, intro]: "in_i64 (wrap64 x)"
  by (simp add: wrap64_def in_i64_def)

lemma u32_range [simp, intro]: "in_u32 (u32 x)"
  by (simp add: u32_def in_u32_def)

lemma u64_range [simp, intro]: "in_u64 (u64 x)"
  by (simp add: u64_def in_u64_def)

lemma u32_id [simp]: "in_u32 x \<Longrightarrow> u32 x = x"
  by (simp add: u32_def in_u32_def)

lemma u64_id [simp]: "in_u64 x \<Longrightarrow> u64 x = x"
  by (simp add: u64_def in_u64_def)

lemma wrap32_mod: "wrap32 (x mod 2 ^ 32) = wrap32 x"
  by (simp add: wrap32_def mod_simps)

lemma wrap64_mod: "wrap64 (x mod 2 ^ 64) = wrap64 x"
  by (simp add: wrap64_def mod_simps)

lemma wrap32_u32 [simp]: "wrap32 (u32 x) = wrap32 x"
  by (simp only: u32_def wrap32_mod)

lemma wrap64_u64 [simp]: "wrap64 (u64 x) = wrap64 x"
  by (simp only: u64_def wrap64_mod)

lemma u32_wrap32 [simp]: "u32 (wrap32 x) = u32 x"
  by (simp add: u32_def wrap32_def mod_simps)

lemma u64_wrap64 [simp]: "u64 (wrap64 x) = u64 x"
  by (simp add: u64_def wrap64_def mod_simps)

section \<open>Facts about bytes\<close>

lemma length_le_bytes [simp]: "length (le_bytes k v) = k"
  by (induction k arbitrary: v) auto

lemma le_int_nonneg [simp]: "0 \<le> le_int bs"
  by (induction bs) auto

lemma le_int_less: "le_int bs < 256 ^ length bs"
proof (induction bs)
  case (Cons b bs)
  have "uint b < 256" using uint_lt2p [of b] by simp
  with Cons show ?case by simp
qed simp

lemma uint_byte_of_int: "uint (word_of_int v :: byte) = v mod 256"
  by (simp add: uint_word_of_int)

lemma uint_byte_of_nat: "uint (word_of_nat n :: byte) = int n mod 256"
  using uint_byte_of_int [of "int n"] by simp

lemma le_int_le_bytes: "le_int (le_bytes k v) = v mod 256 ^ k"
proof (induction k arbitrary: v)
  case (Suc k)
  have "v mod 256 + 256 * (v div 256 mod 256 ^ k) = v mod (256 * 256 ^ k)"
    by (rule zmod_zmult2_eq [symmetric, THEN trans [OF add.commute]]) simp
  with Suc show ?case by (simp add: uint_byte_of_int)
qed simp

lemma le_bytes_le_int: "le_bytes (length bs) (le_int bs) = bs"
proof (induction bs)
  case (Cons b bs)
  have b: "0 \<le> uint b" "uint b < 256" using uint_lt2p [of b] by simp_all
  then have "(uint b + 256 * le_int bs) div 256 = le_int bs" by simp
  moreover have "(word_of_int (uint b + 256 * le_int bs) :: byte) = b"
    using uint_byte_of_int [of "uint b + 256 * le_int bs"] b
    by (intro word_uint_eqI) simp
  ultimately show ?case using Cons by simp
qed simp

lemma le_bytes_mod: "le_bytes k (v mod 256 ^ k) = le_bytes k v"
  using le_bytes_le_int [of "le_bytes k v"] by (simp add: le_int_le_bytes)

lemma le_int_4 [simp]: "le_int (le_bytes 4 v) = v mod 2 ^ 32"
  using le_int_le_bytes [of 4 v] by simp

lemma le_int_8 [simp]: "le_int (le_bytes 8 v) = v mod 2 ^ 64"
  using le_int_le_bytes [of 8 v] by simp

lemma le_int_u32: "length bs = 4 \<Longrightarrow> in_u32 (le_int bs)"
  using le_int_less [of bs] by (simp add: in_u32_def)

lemma le_int_u64: "length bs = 8 \<Longrightarrow> in_u64 (le_int bs)"
  using le_int_less [of bs] by (simp add: in_u64_def)

lemma le_bytes_inject: "le_bytes k v = le_bytes k w \<longleftrightarrow> v mod 256 ^ k = w mod 256 ^ k"
  by (metis le_bytes_mod le_int_le_bytes)

lemma length_slice: "i \<le> j \<Longrightarrow> j \<le> length bs \<Longrightarrow> length (slice i j bs) = j - i"
  by (simp add: slice_def)

section \<open>Facts about fallible computations\<close>

lemma ret_apply [simp]: "ret x s = (Inr x, s)"
  by (simp add: ret_def)

lemma raise_apply [simp]: "raise e s = (Inl e, s)"
  by (simp add: raise_def)

lemma andThen_Inr [simp]: "m s = (Inr x, s') \<Longrightarrow> andThen m f s = f x s'"
  by (simp add: andThen_def)

lemma andThen_Inl [simp]: "m s = (Inl e, s') \<Longrightarrow> andThen m f s = (Inl e, s')"
  by (simp add: andThen_def)

lemma andThen_Inr_iff:
  "andThen m f s = (Inr y, t) \<longleftrightarrow> (\<exists>x s'. m s = (Inr x, s') \<and> f x s' = (Inr y, t))"
  by (auto simp: andThen_def split: prod.splits sum.splits)

lemma andThen_ret [simp]: "andThen (ret x) f = f x"
  by (simp add: andThen_def ret_def)

lemma andThen_raise [simp]: "andThen (raise e) f = raise e"
  by (simp add: andThen_def raise_def)

lemma andThen_assoc: "andThen (andThen m f) g = andThen m (\<lambda>x. andThen (f x) g)"
  by (auto simp: andThen_def fun_eq_iff split: prod.splits sum.splits)

lemma andThen_cong_state:
  "m s = m' s \<Longrightarrow> (\<And>x t. m' s = (Inr x, t) \<Longrightarrow> f x t = g x t) \<Longrightarrow> andThen m f s = andThen m' g s"
  by (auto simp: andThen_def split: prod.splits sum.splits)

lemma repeatM_length: "repeatM n m s = (Inr xs, t) \<Longrightarrow> length xs = n"
  by (induction n arbitrary: s xs) (auto simp: andThen_Inr_iff)

section \<open>Facts about time\<close>

lemma Unix_of_time_Unix [simp]: "Unix_of (time_Unix s) = s"
  by (simp add: Unix_of_def time_Unix_def second_def)

lemma time_Unix_less_iff [simp]: "time_Unix a < time_Unix b \<longleftrightarrow> a < b"
  by (simp add: time_Unix_def second_def)

lemma time_Unix_le_iff [simp]: "time_Unix a \<le> time_Unix b \<longleftrightarrow> a \<le> b"
  by (simp add: time_Unix_def second_def)

end
