(* ===== verification/Budget_Reader.thy ===== *)
theory Budget_Reader
  imports TLRPC_Prelude
begin

text \<open>
  The stream decoder of \<open>mtproto/deserialize.go\<close>: the decode limits and the budget shared by
  one logical decode, the reader that charges every byte to the budget, the primitive readers on
  top of it and the vector loops.  A reader is the unread bytes of a \<open>bytes.Reader\<close> together
  with the budget of the \<open>BudgetReader\<close> around it, or no budget for the bare
  \<open>bytes.Reader\<close>; the budget is the one shared through the pointer in the code, so it is
  threaded with the reader.  \<open>io.ReadFull\<close> and \<open>io.ReadAll\<close> are the loops of the
  standard library over \<open>Read\<close>.
\<close>

section \<open>Limits and budget\<close>

record DecodeLimits =
  MaxDecodedBytes :: int
  MaxWrappers :: int
  MaxContainers :: int
  MaxVectorElements :: int
  MaxObjectNodes :: int
  MaxObjectDepth :: int
  MaxGzipRatio :: int
  MaxGzipWorkBytes :: int

record DecodeBudget =
  limits :: DecodeLimits
  decodedBytes :: int
  wrapperCount :: int
  containerCount :: int
  vectorElements :: int
  objectNodes :: int
  objectDepth :: int
  gzipWorkBytes :: int

definition HardMaxVectorElements :: int where "HardMaxVectorElements = 2 ^ 20"
definition DefaultMaxDecodedBytes :: int where "DefaultMaxDecodedBytes = 16 * 2 ^ 20"
definition DefaultMaxWrappers :: int where "DefaultMaxWrappers = 16"
definition DefaultMaxContainers :: int where "DefaultMaxContainers = 64"
definition DefaultMaxVectorElements :: int where "DefaultMaxVectorElements = 2 ^ 16"
definition DefaultMaxObjectNodes :: int where "DefaultMaxObjectNodes = 2 ^ 18"
definition DefaultMaxObjectDepth :: int where "DefaultMaxObjectDepth = 128"
definition DefaultMaxGzipExpansionRatio :: int where "DefaultMaxGzipExpansionRatio = 128"
definition DefaultMaxGzipWorkBytes :: int where "DefaultMaxGzipWorkBytes = 32 * 2 ^ 20"

definition zeroLimits :: DecodeLimits where
  "zeroLimits = \<lparr>MaxDecodedBytes = 0, MaxWrappers = 0, MaxContainers = 0, MaxVectorElements = 0,
     MaxObjectNodes = 0, MaxObjectDepth = 0, MaxGzipRatio = 0, MaxGzipWorkBytes = 0\<rparr>"

definition orDefault :: "int \<Rightarrow> int \<Rightarrow> int" where
  "orDefault x d = (if x = 0 then d else x)"

definition normalizeDecodeLimits :: "DecodeLimits \<Rightarrow> go_error + DecodeLimits" where
  "normalizeDecodeLimits l =
     (if MaxDecodedBytes l < 0 \<or> MaxWrappers l < 0 \<or> MaxContainers l < 0 \<or>
         MaxVectorElements l < 0 \<or> MaxObjectNodes l < 0 \<or> MaxObjectDepth l < 0 \<or>
         MaxGzipRatio l < 0 \<or> MaxGzipWorkBytes l < 0
      then Inl (MTProtoError NegativeDecodeLimits)
      else Inr \<lparr>MaxDecodedBytes = orDefault (MaxDecodedBytes l) DefaultMaxDecodedBytes,
        MaxWrappers = orDefault (MaxWrappers l) DefaultMaxWrappers,
        MaxContainers = orDefault (MaxContainers l) DefaultMaxContainers,
        MaxVectorElements = orDefault (MaxVectorElements l) DefaultMaxVectorElements,
        MaxObjectNodes = orDefault (MaxObjectNodes l) DefaultMaxObjectNodes,
        MaxObjectDepth = orDefault (MaxObjectDepth l) DefaultMaxObjectDepth,
        MaxGzipRatio = orDefault (MaxGzipRatio l) DefaultMaxGzipExpansionRatio,
        MaxGzipWorkBytes = orDefault (MaxGzipWorkBytes l) DefaultMaxGzipWorkBytes\<rparr>)"

definition NewDecodeBudget :: "DecodeLimits \<Rightarrow> go_error + DecodeBudget" where
  "NewDecodeBudget l =
     (case normalizeDecodeLimits l of
        Inl e \<Rightarrow> Inl e
      | Inr n \<Rightarrow> Inr \<lparr>limits = n, decodedBytes = 0, wrapperCount = 0, containerCount = 0,
          vectorElements = 0, objectNodes = 0, objectDepth = 0, gzipWorkBytes = 0\<rparr>)"

section \<open>Readers\<close>

record reader =
  rdata :: bytes
  rbudget :: "DecodeBudget option"

text \<open>\<open>bytes.Reader.Read\<close> into a buffer of \<open>n\<close> bytes.\<close>

definition bytes_Read :: "nat \<Rightarrow> bytes \<Rightarrow> bytes \<times> go_error option \<times> bytes" where
  "bytes_Read n d = (if d = [] then ([], Some (IOError EOF), d) else (take n d, None, drop n d))"

definition BudgetReader_Read :: "nat \<Rightarrow> reader \<Rightarrow> bytes \<times> go_error option \<times> reader" where
  "BudgetReader_Read n r =
     (case rbudget r of
        None \<Rightarrow> (case bytes_Read n (rdata r) of (got, e, d) \<Rightarrow> (got, e, r\<lparr>rdata := d\<rparr>))
      | Some b \<Rightarrow>
          if rdata r = [] then ([], Some (IOError EOF), r)
          else
            (let remaining = MaxDecodedBytes (limits b) - decodedBytes b in
             if remaining \<le> 0 then ([], Some (MTProtoError DecodedBytesLimit), r)
             else
               (let p = (if int n > remaining then nat remaining else n);
                    b1 = b\<lparr>decodedBytes := decodedBytes b + int p\<rparr>
                in case bytes_Read p (rdata r) of (got, e, d) \<Rightarrow>
                   (got, e, r\<lparr>rdata := d,
                      rbudget := Some (b1\<lparr>decodedBytes :=
                        decodedBytes b1 - (int p - int (length got))\<rparr>)\<rparr>))))"

definition BudgetReader_Len :: "reader \<Rightarrow> int" where
  "BudgetReader_Len r =
     (case rbudget r of
        None \<Rightarrow> int (length (rdata r))
      | Some b \<Rightarrow>
          (let remaining = MaxDecodedBytes (limits b) - decodedBytes b;
               remaining = (if remaining < 0 then 0 else remaining)
           in if int (length (rdata r)) < remaining then int (length (rdata r)) else remaining))"

lemma BudgetReader_Read_progress:
  "BudgetReader_Read n r = (got, None, r') \<Longrightarrow> 0 < n \<Longrightarrow>
     length (rdata r') < length (rdata r)"
  by (auto simp: BudgetReader_Read_def bytes_Read_def Let_def split: option.splits if_splits)

text \<open>\<open>io.ReadFull\<close>, that is \<open>io.ReadAtLeast\<close> with the whole buffer.\<close>

function ReadFull_loop :: "nat \<Rightarrow> bytes \<Rightarrow> (reader, bytes) io" where
  "ReadFull_loop need acc r =
     (if need \<le> length acc then (Inr acc, r)
      else case BudgetReader_Read (need - length acc) r of
        (got, None, r') \<Rightarrow> ReadFull_loop need (acc @ got) r'
      | (got, Some e, r') \<Rightarrow>
          (if need \<le> length (acc @ got) then (Inr (acc @ got), r')
           else if acc @ got \<noteq> [] \<and> e = IOError EOF then (Inl (IOError UnexpectedEOF), r')
           else (Inl e, r')))"
  by pat_completeness auto
termination
  by (relation "measure (\<lambda>(need, acc, r). length (rdata r))")
    (auto dest!: BudgetReader_Read_progress [OF sym])

definition ReadFull :: "nat \<Rightarrow> (reader, bytes) io" where
  "ReadFull n = ReadFull_loop n []"

text \<open>\<open>io.ReadAll\<close>: reads into the free part of its buffer until end of file.  The buffer
  starts at 512 bytes; the size of each read does not matter, see \<open>ReadAll_chunk\<close> below.\<close>

function ReadAll_loop :: "nat \<Rightarrow> bytes \<Rightarrow> (reader, bytes) io" where
  "ReadAll_loop chunk acc r =
     (case BudgetReader_Read (Suc chunk) r of
        (got, None, r') \<Rightarrow> ReadAll_loop chunk (acc @ got) r'
      | (got, Some e, r') \<Rightarrow> (if e = IOError EOF then (Inr (acc @ got), r') else (Inl e, r')))"
  by pat_completeness auto
termination
  by (relation "measure (\<lambda>(chunk, acc, r). length (rdata r))")
    (auto dest!: BudgetReader_Read_progress [OF sym])

definition ReadAll :: "(reader, bytes) io" where
  "ReadAll = ReadAll_loop 511 []"

declare ReadFull_loop.simps [simp del] ReadAll_loop.simps [simp del]

section \<open>Accounting for objects, wrappers, containers and vectors\<close>

definition EnterObject :: "(reader, unit) io" where
  "EnterObject r =
     (case rbudget r of
        None \<Rightarrow> (Inr (), r)
      | Some b \<Rightarrow>
          if objectNodes b \<ge> MaxObjectNodes (limits b) then (Inl (MTProtoError ObjectNodeLimit), r)
          else if objectDepth b \<ge> MaxObjectDepth (limits b)
          then (Inl (MTProtoError ObjectDepthLimit), r)
          else (Inr (), r\<lparr>rbudget := Some (b\<lparr>objectNodes := objectNodes b + 1,
                                            objectDepth := objectDepth b + 1\<rparr>)\<rparr>))"

text \<open>The function \<open>EnterObject\<close> returns, deferred by the caller.\<close>

definition LeaveObject :: "reader \<Rightarrow> reader" where
  "LeaveObject r = r\<lparr>rbudget := map_option (\<lambda>b. b\<lparr>objectDepth := objectDepth b - 1\<rparr>) (rbudget r)\<rparr>"

text \<open>\<open>leave, err := EnterObject(r); if err != nil { return err }; defer leave(); body\<close>\<close>

definition withinObject :: "(reader, 'a) io \<Rightarrow> (reader, 'a) io" where
  "withinObject m = andThen EnterObject (\<lambda>_ r. case m r of (x, r') \<Rightarrow> (x, LeaveObject r'))"

definition ConsumeWrapper :: "(reader, unit) io" where
  "ConsumeWrapper r =
     (case rbudget r of
        None \<Rightarrow> (Inr (), r)
      | Some b \<Rightarrow>
          if wrapperCount b \<ge> MaxWrappers (limits b) then (Inl (MTProtoError WrapperCountLimit), r)
          else (Inr (), r\<lparr>rbudget := Some (b\<lparr>wrapperCount := wrapperCount b + 1\<rparr>)\<rparr>))"

definition ConsumeContainer :: "(reader, unit) io" where
  "ConsumeContainer r =
     (case rbudget r of
        None \<Rightarrow> (Inr (), r)
      | Some b \<Rightarrow>
          if containerCount b \<ge> MaxContainers (limits b)
          then (Inl (MTProtoError ContainerCountLimit), r)
          else (Inr (), r\<lparr>rbudget := Some (b\<lparr>containerCount := containerCount b + 1\<rparr>)\<rparr>))"

definition consumeVectorElements :: "int \<Rightarrow> (reader, unit) io" where
  "consumeVectorElements count r =
     (case rbudget r of
        None \<Rightarrow> (Inr (), r)
      | Some b \<Rightarrow>
          if count > MaxVectorElements (limits b) - vectorElements b
          then (Inl (MTProtoError VectorCountLimit), r)
          else (Inr (), r\<lparr>rbudget := Some (b\<lparr>vectorElements := vectorElements b + count\<rparr>)\<rparr>))"

section \<open>Primitive readers\<close>

definition BoolTrue :: int where "BoolTrue = 0x997275b5"
definition BoolFalse :: int where "BoolFalse = 0xbc799737"
definition VectorConstructorID :: int where "VectorConstructorID = 0x1cb5c415"

definition ReadUint32 :: "(reader, int) io" where
  "ReadUint32 = andThen (ReadFull 4) (\<lambda>buf. ret (le_int buf))"

definition ReadInt32 :: "(reader, int) io" where
  "ReadInt32 = andThen ReadUint32 (\<lambda>v. ret (wrap32 v))"

definition ReadUint64 :: "(reader, int) io" where
  "ReadUint64 = andThen (ReadFull 8) (\<lambda>buf. ret (le_int buf))"

definition ReadInt64 :: "(reader, int) io" where
  "ReadInt64 = andThen ReadUint64 (\<lambda>v. ret (wrap64 v))"

definition ReadInt128 :: "(reader, bytes) io" where
  "ReadInt128 = ReadFull 16"

definition ReadInt256 :: "(reader, bytes) io" where
  "ReadInt256 = ReadFull 32"

text \<open>A \<open>float64\<close> is kept as its 64 bits.\<close>

definition ReadDouble :: "(reader, int) io" where
  "ReadDouble = ReadUint64"

definition ReadSizedBytes :: "int \<Rightarrow> (reader, bytes) io" where
  "ReadSizedBytes n r =
     (if n < 0 then (Inl (MessageError InvalidMessageLength), r)
      else if n > BudgetReader_Len r then (Inl (IOError UnexpectedEOF), r)
      else ReadFull (nat n) r)"

definition ReadBytes :: "(reader, bytes) io" where
  "ReadBytes =
     andThen (ReadFull 1) (\<lambda>sizeBuf.
       let first = uint (hd sizeBuf) in
       if first = 255 then raise (MessageError InvalidMessageLength)
       else
         andThen (if first < 254 then ret (first, 1)
                  else andThen (ReadFull 3) (\<lambda>b. ret (le_int (b @ [0]), 4)))
           (\<lambda>(len, headerSize).
              if len > max_i32 then raise (MTProtoError StringTooLong)
              else andThen (ReadSizedBytes len) (\<lambda>data.
                let padding = (4 - ((headerSize + len) mod 4)) mod 4 in
                if padding > 0 then andThen (ReadFull (nat padding)) (\<lambda>_. ret data)
                else ret data)))"

definition ReadString :: "(reader, bytes) io" where
  "ReadString = ReadBytes"

definition ReadBool :: "(reader, bool) io" where
  "ReadBool = andThen ReadUint32 (\<lambda>v.
     if v = BoolTrue then ret True
     else if v = BoolFalse then ret False
     else raise (MTProtoError InvalidBool))"

text \<open>The element callback of the vector readers appends what it reads to the caller's slice, so
  it is a reader of one element and the vector reader returns the slice.\<close>

definition vectorCount :: "int \<Rightarrow> (reader, int) io" where
  "vectorCount maxElements =
     andThen ReadInt32 (\<lambda>count.
       if count < 0 then raise (MTProtoError (InvalidVectorLength count))
       else if count > maxElements then raise (MTProtoError VectorTooLong)
       else andThen (consumeVectorElements count) (\<lambda>_. ret count))"

definition vectorBody :: "int \<Rightarrow> (reader, 'a) io \<Rightarrow> (reader, 'a list) io" where
  "vectorBody maxElements fn = andThen (vectorCount maxElements) (\<lambda>count. repeatM (nat count) fn)"

definition ReadVectorBounded :: "int \<Rightarrow> (reader, 'a) io \<Rightarrow> (reader, 'a list) io" where
  "ReadVectorBounded maxElements fn =
     (if maxElements < 0 then raise (MTProtoError VectorTooLong)
      else andThen ReadUint32 (\<lambda>ctor.
        if ctor \<noteq> VectorConstructorID then raise (MTProtoError (InvalidVectorConstructor ctor))
        else vectorBody maxElements fn))"

definition ReadVector :: "(reader, 'a) io \<Rightarrow> (reader, 'a list) io" where
  "ReadVector fn = ReadVectorBounded HardMaxVectorElements fn"

definition ReadBareVectorBounded :: "int \<Rightarrow> (reader, 'a) io \<Rightarrow> (reader, 'a list) io" where
  "ReadBareVectorBounded maxElements fn =
     (if maxElements < 0 then raise (MTProtoError VectorTooLong)
      else vectorBody maxElements fn)"

section \<open>What the readers do\<close>

text \<open>The bytes a reader can still deliver, and the reader after \<open>n\<close> bytes, \<open>v\<close> vector
  elements and \<open>k\<close> object nodes were taken from it.\<close>

definition avail :: "reader \<Rightarrow> nat" where
  "avail r = (case rbudget r of
      None \<Rightarrow> length (rdata r)
    | Some b \<Rightarrow> min (length (rdata r)) (nat (MaxDecodedBytes (limits b) - decodedBytes b)))"

definition spend :: "nat \<Rightarrow> nat \<Rightarrow> nat \<Rightarrow> reader \<Rightarrow> reader" where
  "spend n v k r = r\<lparr>rdata := drop n (rdata r),
     rbudget := map_option (\<lambda>b. b\<lparr>decodedBytes := decodedBytes b + int n,
       vectorElements := vectorElements b + int v, objectNodes := objectNodes b + int k\<rparr>)
       (rbudget r)\<rparr>"

abbreviation advance :: "nat \<Rightarrow> reader \<Rightarrow> reader" where
  "advance n \<equiv> spend n 0 0"

definition budget_ok :: "DecodeBudget \<Rightarrow> bool" where
  "budget_ok b \<longleftrightarrow>
     0 \<le> decodedBytes b \<and> decodedBytes b \<le> MaxDecodedBytes (limits b) \<and>
     0 \<le> wrapperCount b \<and> wrapperCount b \<le> MaxWrappers (limits b) \<and>
     0 \<le> containerCount b \<and> containerCount b \<le> MaxContainers (limits b) \<and>
     0 \<le> vectorElements b \<and> vectorElements b \<le> MaxVectorElements (limits b) \<and>
     0 \<le> objectNodes b \<and> objectNodes b \<le> MaxObjectNodes (limits b) \<and>
     0 \<le> objectDepth b \<and> objectDepth b \<le> MaxObjectDepth (limits b) \<and>
     0 \<le> gzipWorkBytes b \<and> gzipWorkBytes b \<le> MaxGzipWorkBytes (limits b) \<and>
     0 \<le> MaxGzipRatio (limits b)"

lemma spend_0 [simp]: "spend 0 0 0 r = r"
  by (cases r; cases "rbudget r") (simp_all add: spend_def)

lemma rdata_spend [simp]: "rdata (spend n v k r) = drop n (rdata r)"
  by (simp add: spend_def)

lemma rbudget_spend:
  "rbudget (spend n v k r) = map_option (\<lambda>b. b\<lparr>decodedBytes := decodedBytes b + int n,
     vectorElements := vectorElements b + int v, objectNodes := objectNodes b + int k\<rparr>) (rbudget r)"
  by (simp add: spend_def)

lemma spend_spend [simp]: "spend n v k (spend m w l r) = spend (m + n) (w + v) (l + k) r"
  by (cases r; cases "rbudget r") (simp_all add: spend_def add.commute)

lemma avail_advance: "n \<le> avail r \<Longrightarrow> avail (advance n r) = avail r - n"
  by (auto simp: avail_def spend_def split: option.splits)

lemma avail_le_length: "avail r \<le> length (rdata r)"
  by (auto simp: avail_def split: option.splits)

lemma BudgetReader_Len_avail: "BudgetReader_Len r = int (avail r)"
  by (auto simp: BudgetReader_Len_def avail_def Let_def split: option.splits)

lemma avail_pos_iff:
  "0 < avail r \<longleftrightarrow> rdata r \<noteq> [] \<and>
     (\<forall>b. rbudget r = Some b \<longrightarrow> decodedBytes b < MaxDecodedBytes (limits b))"
  by (auto simp: avail_def split: option.splits)

lemma BudgetReader_Read_ok:
  assumes "0 < n" "0 < avail r"
  shows "BudgetReader_Read n r =
    (take (min n (avail r)) (rdata r), None, advance (min n (avail r)) r)"
proof (cases "rbudget r")
  case None
  then show ?thesis
    using assms by (cases r) (auto simp: BudgetReader_Read_def bytes_Read_def avail_def spend_def min_def)
next
  case (Some b)
  then have "rdata r \<noteq> []" "decodedBytes b < MaxDecodedBytes (limits b)"
    using assms by (auto simp: avail_pos_iff)
  with Some assms(1) show ?thesis
    by (cases r) (auto simp: BudgetReader_Read_def bytes_Read_def avail_def spend_def Let_def min_def
        nat_le_iff le_nat_iff)
qed

lemma BudgetReader_Read_stop:
  assumes "avail r = 0"
  shows "BudgetReader_Read n r =
    ([], Some (if rdata r = [] then IOError EOF else MTProtoError DecodedBytesLimit), r)"
proof -
  from assms have "rdata r = [] \<or> (\<exists>b. rbudget r = Some b \<and> MaxDecodedBytes (limits b) \<le> decodedBytes b)"
    using avail_pos_iff [of r] by (auto simp: not_less)
  then show ?thesis
    by (auto simp: BudgetReader_Read_def bytes_Read_def Let_def split: option.splits)
qed

text \<open>\<open>io.ReadFull\<close> delivers exactly the bytes asked for when they are there and affordable.
  Otherwise it consumes what it could and reports end of input, truncated input or an exhausted
  budget.\<close>

definition shortError :: "nat \<Rightarrow> reader \<Rightarrow> go_error" where
  "shortError already r =
     (if avail r < length (rdata r) then MTProtoError DecodedBytesLimit
      else if already + avail r = 0 then IOError EOF else IOError UnexpectedEOF)"

lemma ReadFull_loop_eq:
  assumes "length acc \<le> need"
  shows "ReadFull_loop need acc r =
    (if need - length acc \<le> avail r
     then (Inr (acc @ take (need - length acc) (rdata r)), advance (need - length acc) r)
     else (Inl (shortError (length acc) r), advance (avail r) r))"
  using assms
proof (induction need acc r rule: ReadFull_loop.induct)
  case (1 need acc r)
  let ?n = "need - length acc"
  consider "?n = 0" | "0 < ?n" "avail r = 0" | "0 < ?n" "0 < avail r" by linarith
  then show ?case
  proof cases
    case 1
    then show ?thesis by (simp add: ReadFull_loop.simps)
  next
    case 2
    then show ?thesis
      by (simp add: ReadFull_loop.simps [of need] BudgetReader_Read_stop shortError_def)
  next
    case 3
    define m where "m = min ?n (avail r)"
    have m: "0 < m" "m \<le> avail r" "m \<le> ?n" "m \<le> length (rdata r)"
      using 3 avail_le_length [of r] by (auto simp: m_def)
    have read: "BudgetReader_Read ?n r = (take m (rdata r), None, advance m r)"
      using 3 by (simp add: BudgetReader_Read_ok m_def)
    have loop: "ReadFull_loop need acc r = ReadFull_loop need (acc @ take m (rdata r)) (advance m r)"
      using 3 read by (simp add: ReadFull_loop.simps [of need acc])
    have len: "length (acc @ take m (rdata r)) = length acc + m" using m by simp
    note IH = "1.IH" [OF _ read [symmetric] refl refl, unfolded len]
    have "ReadFull_loop need (acc @ take m (rdata r)) (advance m r) =
      (if need - (length acc + m) \<le> avail r - m
       then (Inr ((acc @ take m (rdata r)) @ take (need - (length acc + m)) (drop m (rdata r))),
             advance (need - (length acc + m)) (advance m r))
       else (Inl (shortError (length acc + m) (advance m r)), advance (avail r - m) (advance m r)))"
      using IH 3 m by (simp add: avail_advance)
    moreover have "shortError (length acc + m) (advance m r) = shortError (length acc) r"
      using m 3 by (auto simp: shortError_def avail_advance)
    moreover have "take m (rdata r) @ take (need - (length acc + m)) (drop m (rdata r)) = take ?n (rdata r)"
      using m take_add [of m "?n - m" "rdata r"] by simp
    ultimately show ?thesis
      using m loop by (auto simp: le_diff_conv)
  qed
qed

lemma ReadFull_ok [simp]:
  "n \<le> avail r \<Longrightarrow> ReadFull n r = (Inr (take n (rdata r)), advance n r)"
  by (simp add: ReadFull_def ReadFull_loop_eq)

lemma ReadFull_short:
  "avail r < n \<Longrightarrow> ReadFull n r = (Inl (shortError 0 r), advance (avail r) r)"
  by (simp add: ReadFull_def ReadFull_loop_eq)

lemma ReadFull_Inr_iff:
  "ReadFull n r = (Inr bs, r') \<longleftrightarrow> n \<le> avail r \<and> bs = take n (rdata r) \<and> r' = advance n r"
  by (cases "n \<le> avail r") (auto simp: ReadFull_short not_le)

lemma ReadAll_chunk:
  "ReadAll_loop chunk acc r =
     (if avail r = length (rdata r) then (Inr (acc @ rdata r), advance (length (rdata r)) r)
      else (Inl (MTProtoError DecodedBytesLimit), advance (avail r) r))"
proof (induction chunk acc r rule: ReadAll_loop.induct)
  case (1 chunk acc r)
  show ?case
  proof (cases "avail r = 0")
    case True
    then show ?thesis
      by (simp add: ReadAll_loop.simps [of chunk acc] BudgetReader_Read_stop)
  next
    case False
    define m where "m = min (Suc chunk) (avail r)"
    have m: "0 < m" "m \<le> avail r" "m \<le> length (rdata r)"
      using False avail_le_length [of r] by (auto simp: m_def)
    have read: "BudgetReader_Read (Suc chunk) r = (take m (rdata r), None, advance m r)"
      using False by (simp add: BudgetReader_Read_ok m_def)
    note IH = "1.IH" [OF read [symmetric] refl refl]
    have "ReadAll_loop chunk acc r = ReadAll_loop chunk (acc @ take m (rdata r)) (advance m r)"
      using read by (simp add: ReadAll_loop.simps [of chunk acc])
    then show ?thesis
      using IH m by (auto simp: avail_advance)
  qed
qed

lemma ReadAll_ok [simp]:
  "avail r = length (rdata r) \<Longrightarrow> ReadAll r = (Inr (rdata r), advance (length (rdata r)) r)"
  by (simp add: ReadAll_def ReadAll_chunk)

lemma ReadAll_limit:
  "avail r \<noteq> length (rdata r) \<Longrightarrow>
     ReadAll r = (Inl (MTProtoError DecodedBytesLimit), advance (avail r) r)"
  by (simp add: ReadAll_def ReadAll_chunk)

section \<open>Reading a known encoding\<close>

text \<open>\<open>parses m bs v k d x\<close>: whenever the input starts with \<open>bs\<close> and the budget allows its
  bytes, \<open>v\<close> vector elements, \<open>k\<close> object nodes and \<open>d\<close> levels of nesting, \<open>m\<close>
  returns \<open>x\<close> and spends exactly that.\<close>

definition affords :: "nat \<Rightarrow> nat \<Rightarrow> nat \<Rightarrow> nat \<Rightarrow> reader \<Rightarrow> bool" where
  "affords n v k d r \<longleftrightarrow> n \<le> length (rdata r) \<and>
     (case rbudget r of None \<Rightarrow> True
      | Some b \<Rightarrow> decodedBytes b + int n \<le> MaxDecodedBytes (limits b) \<and>
          vectorElements b + int v \<le> MaxVectorElements (limits b) \<and>
          objectNodes b + int k \<le> MaxObjectNodes (limits b) \<and>
          objectDepth b + int d \<le> MaxObjectDepth (limits b))"

definition parses :: "(reader, 'a) io \<Rightarrow> bytes \<Rightarrow> nat \<Rightarrow> nat \<Rightarrow> nat \<Rightarrow> 'a \<Rightarrow> bool" where
  "parses m bs v k d x \<longleftrightarrow> (\<forall>r rest. rdata r = bs @ rest \<longrightarrow> affords (length bs) v k d r \<longrightarrow>
     m r = (Inr x, spend (length bs) v k r))"

lemma affords_avail: "affords n v k d r \<Longrightarrow> n \<le> avail r"
  by (auto simp: affords_def avail_def le_nat_iff split: option.splits)

lemma affords_fst: "affords (n + m) (v + w) (k + l) (max d e) r \<Longrightarrow> affords n v k d r"
  by (auto simp: affords_def split: option.splits)

lemma affords_snd:
  "affords (n + m) (v + w) (k + l) (max d e) r \<Longrightarrow> affords m w l e (spend n v k r)"
  by (auto simp: affords_def spend_def split: option.splits)

lemma parsesD:
  "parses m bs v k d x \<Longrightarrow> rdata r = bs @ rest \<Longrightarrow> affords (length bs) v k d r \<Longrightarrow>
     m r = (Inr x, spend (length bs) v k r)"
  by (simp add: parses_def)

lemma parses_ret: "parses (ret x) [] 0 0 0 x"
  by (simp add: parses_def)

lemma parses_andThen:
  assumes "parses m a v k d x" and "parses (f x) b w l e y"
  shows "parses (andThen m f) (a @ b) (v + w) (k + l) (max d e) y"
  unfolding parses_def
proof (intro allI impI)
  fix r rest
  assume data: "rdata r = (a @ b) @ rest"
    and aff: "affords (length (a @ b)) (v + w) (k + l) (max d e) r"
  have "m r = (Inr x, spend (length a) v k r)"
    using data aff by (intro parsesD [OF assms(1), of r "b @ rest"]) (auto dest: affords_fst)
  moreover have "f x (spend (length a) v k r) = (Inr y, spend (length b) w l (spend (length a) v k r))"
    using data aff by (intro parsesD [OF assms(2), of _ rest]) (auto dest: affords_snd)
  ultimately show "andThen m f r = (Inr y, spend (length (a @ b)) (v + w) (k + l) r)"
    by simp
qed

lemma parses_ReadFull [parse_intros]: "length bs = n \<Longrightarrow> parses (ReadFull n) bs 0 0 0 bs"
  by (auto simp: parses_def dest: affords_avail)

lemma parses_Pair [simp]: "parses (Pair (Inr x)) [] 0 0 0 x"
  using parses_ret [of x] by (simp add: ret_def)

lemma parses_seq:
  "parses m a 0 0 0 x \<Longrightarrow> parses (f x) b v k d y \<Longrightarrow> parses (andThen m f) (a @ b) v k d y"
  using parses_andThen [of m a 0 0 0 x f b v k d y] by simp

lemma parses_map:
  "parses m bs v k d x \<Longrightarrow> y = g x \<Longrightarrow> parses (andThen m (\<lambda>z. ret (g z))) bs v k d y"
  using parses_andThen [of m bs v k d x "\<lambda>z. ret (g z)" "[]" 0 0 0 "g x"] by (simp add: parses_ret)

lemma parses_ReadUint32 [parse_intros]: "in_u32 v \<Longrightarrow> parses ReadUint32 (le_bytes 4 v) 0 0 0 v"
  unfolding ReadUint32_def by (rule parses_map [OF parses_ReadFull]) (simp_all add: in_u32_def)

lemma parses_ReadInt32 [parse_intros]: "in_i32 v \<Longrightarrow> parses ReadInt32 (le_bytes 4 v) 0 0 0 v"
proof -
  assume v: "in_i32 v"
  have "parses ReadUint32 (le_bytes 4 v) 0 0 0 (u32 v)"
    using parses_ReadUint32 [of "u32 v", OF u32_range] le_bytes_mod [of 4 v] by (simp add: u32_def)
  then show ?thesis
    unfolding ReadInt32_def by (rule parses_map) (simp add: v)
qed

lemma parses_ReadUint64 [parse_intros]: "in_u64 v \<Longrightarrow> parses ReadUint64 (le_bytes 8 v) 0 0 0 v"
  unfolding ReadUint64_def by (rule parses_map [OF parses_ReadFull]) (simp_all add: in_u64_def)

lemma parses_ReadInt64 [parse_intros]: "in_i64 v \<Longrightarrow> parses ReadInt64 (le_bytes 8 v) 0 0 0 v"
proof -
  assume v: "in_i64 v"
  have "parses ReadUint64 (le_bytes 8 v) 0 0 0 (u64 v)"
    using parses_ReadUint64 [of "u64 v", OF u64_range] le_bytes_mod [of 8 v] by (simp add: u64_def)
  then show ?thesis
    unfolding ReadInt64_def by (rule parses_map) (simp add: v)
qed

lemma parses_ReadSizedBytes [parse_intros]:
  "n = int (length bs) \<Longrightarrow> parses (ReadSizedBytes n) bs 0 0 0 bs"
  by (auto simp: parses_def ReadSizedBytes_def BudgetReader_Len_avail dest: affords_avail)

lemma parses_ReadBool [parse_intros]:
  "parses ReadBool (le_bytes 4 (if x then BoolTrue else BoolFalse)) 0 0 0 x"
proof -
  have "parses (andThen ReadUint32 (\<lambda>v. if v = BoolTrue then ret True
          else if v = BoolFalse then ret False else raise (MTProtoError InvalidBool)))
        (le_bytes 4 (if x then BoolTrue else BoolFalse) @ []) (0 + 0) (0 + 0) (max 0 0) x"
    by (rule parses_andThen [OF parses_ReadUint32])
      (auto simp: in_u32_def BoolTrue_def BoolFalse_def parses_ret)
  then show ?thesis by (simp add: ReadBool_def)
qed

lemma parses_consumeVectorElements:
  "0 \<le> count \<Longrightarrow> parses (consumeVectorElements count) [] (nat count) 0 0 ()"
  by (auto simp: parses_def consumeVectorElements_def affords_def spend_def split: option.splits)

lemma parses_repeatM:
  assumes "\<And>x. x \<in> set xs \<Longrightarrow> parses fn (enc x) (v x) (k x) d x"
  shows "parses (repeatM (length xs) fn) (concat (map enc xs)) (sum_list (map v xs))
           (sum_list (map k xs)) (if xs = [] then 0 else d) xs"
  using assms
proof (induction xs)
  case Nil
  then show ?case by (simp add: parses_ret)
next
  case (Cons x xs)
  let ?d = "if xs = [] then 0 else d"
  have "parses (andThen (repeatM (length xs) fn) (\<lambda>ys. ret (x # ys)))
     (concat (map enc xs)) (sum_list (map v xs)) (sum_list (map k xs)) ?d (x # xs)"
    by (rule parses_map [OF Cons.IH]) (use Cons.prems in auto)
  with Cons.prems have "parses (andThen fn (\<lambda>z. andThen (repeatM (length xs) fn) (\<lambda>ys. ret (z # ys))))
     (enc x @ concat (map enc xs)) (v x + sum_list (map v xs)) (k x + sum_list (map k xs))
     (max d ?d) (x # xs)"
    by (intro parses_andThen) auto
  then show ?case by (simp split: if_splits)
qed

lemma parses_vectorCount:
  assumes "int n \<le> maxElements" "n < 2 ^ 31"
  shows "parses (vectorCount maxElements) (le_bytes 4 (int n)) n 0 0 (int n)"
proof -
  have count: "parses (andThen (consumeVectorElements (int n)) (\<lambda>_. ret (int n))) [] n 0 0 (int n)"
    using parses_map [OF parses_consumeVectorElements, of "int n" "int n" "\<lambda>_. int n"] by simp
  have "in_i32 (int n)" using assms(2) by (simp add: in_i32_def)
  then have "parses (vectorCount maxElements) (le_bytes 4 (int n) @ []) (0 + n) (0 + 0) (max 0 0) (int n)"
    unfolding vectorCount_def by (rule parses_andThen [OF parses_ReadInt32]) (use count assms(1) in simp)
  then show ?thesis by simp
qed

lemma parses_vectorBody:
  assumes "int (length xs) \<le> maxElements" "length xs < 2 ^ 31"
    and "\<And>x. x \<in> set xs \<Longrightarrow> parses fn (enc x) (v x) (k x) d x"
  shows "parses (vectorBody maxElements fn) (le_bytes 4 (int (length xs)) @ concat (map enc xs))
    (length xs + sum_list (map v xs)) (sum_list (map k xs)) (if xs = [] then 0 else d) xs"
proof -
  have "parses (vectorBody maxElements fn) (le_bytes 4 (int (length xs)) @ concat (map enc xs))
    (length xs + sum_list (map v xs)) (0 + sum_list (map k xs)) (max 0 (if xs = [] then 0 else d)) xs"
    unfolding vectorBody_def
    by (rule parses_andThen [OF parses_vectorCount [OF assms(1,2)]])
      (use parses_repeatM [of xs fn enc v k d, OF assms(3)] in simp)
  then show ?thesis by simp
qed

lemma parses_ReadBareVectorBounded [parse_intros]:
  assumes "int (length xs) \<le> maxElements" "length xs < 2 ^ 31"
    and "\<And>x. x \<in> set xs \<Longrightarrow> parses fn (enc x) (v x) (k x) d x"
  shows "parses (ReadBareVectorBounded maxElements fn)
    (le_bytes 4 (int (length xs)) @ concat (map enc xs))
    (length xs + sum_list (map v xs)) (sum_list (map k xs)) (if xs = [] then 0 else d) xs"
  using parses_vectorBody [OF assms] assms(1) by (simp add: ReadBareVectorBounded_def)

lemma parses_ReadVectorBounded [parse_intros]:
  assumes "int (length xs) \<le> maxElements" "length xs < 2 ^ 31"
    and "\<And>x. x \<in> set xs \<Longrightarrow> parses fn (enc x) (v x) (k x) d x"
  shows "parses (ReadVectorBounded maxElements fn)
    (le_bytes 4 VectorConstructorID @ le_bytes 4 (int (length xs)) @ concat (map enc xs))
    (length xs + sum_list (map v xs)) (sum_list (map k xs)) (if xs = [] then 0 else d) xs"
proof -
  have "parses (andThen ReadUint32 (\<lambda>ctor. if ctor \<noteq> VectorConstructorID
          then raise (MTProtoError (InvalidVectorConstructor ctor)) else vectorBody maxElements fn))
    (le_bytes 4 VectorConstructorID @ le_bytes 4 (int (length xs)) @ concat (map enc xs))
    (0 + (length xs + sum_list (map v xs))) (0 + sum_list (map k xs))
    (max 0 (if xs = [] then 0 else d)) xs"
    by (rule parses_andThen [OF parses_ReadUint32])
      (use parses_vectorBody [OF assms] in \<open>simp_all add: in_u32_def VectorConstructorID_def\<close>)
  then show ?thesis using assms(1) by (simp add: ReadVectorBounded_def)
qed

text \<open>The encoding \<open>ReadBytes\<close> reads: a one-byte or four-byte length, the bytes, zero
  padding to a multiple of four.\<close>

definition tl_padding :: "nat \<Rightarrow> nat \<Rightarrow> bytes" where
  "tl_padding header n = replicate ((4 - (header + n) mod 4) mod 4) 0"

definition enc_bytes :: "bytes \<Rightarrow> bytes" where
  "enc_bytes v =
     (if length v < 254 then word_of_int (int (length v)) # v @ tl_padding 1 (length v)
      else 254 # le_bytes 3 (int (length v)) @ v @ tl_padding 4 (length v))"

lemma padding_int:
  "(4 - (int h + int n) mod 4) mod 4 = int ((4 - (h + n) mod 4) mod 4)"
proof -
  have "(h + n) mod 4 \<le> 4" by simp
  then show ?thesis by (simp add: zmod_int of_nat_diff)
qed

lemma parses_bytesTail:
  assumes "length v < 2 ^ 24"
  shows "parses (andThen (ReadSizedBytes (int (length v))) (\<lambda>data.
      let padding = (4 - ((int h + int (length v)) mod 4)) mod 4 in
      if padding > 0 then andThen (ReadFull (nat padding)) (\<lambda>_. ret data) else ret data))
    (v @ tl_padding h (length v)) 0 0 0 v"
proof -
  let ?p = "(4 - (h + length v) mod 4) mod 4"
  have "parses (let padding = (4 - ((int h + int (length v)) mod 4)) mod 4 in
      if padding > 0 then andThen (ReadFull (nat padding)) (\<lambda>_. ret v) else ret v)
      (tl_padding h (length v)) 0 0 0 v"
    unfolding padding_int Let_def
    by (cases "?p = 0")
      (simp_all add: tl_padding_def parses_ret parses_map [OF parses_ReadFull])
  then have "parses (andThen (ReadSizedBytes (int (length v))) (\<lambda>data.
      let padding = (4 - ((int h + int (length v)) mod 4)) mod 4 in
      if padding > 0 then andThen (ReadFull (nat padding)) (\<lambda>_. ret data) else ret data))
    (v @ tl_padding h (length v)) (0 + 0) (0 + 0) (max 0 0) v"
    by (rule parses_andThen [OF parses_ReadSizedBytes [OF refl]])
  then show ?thesis by simp
qed

lemma parses_ReadBytes [parse_intros]:
  assumes "length v < 2 ^ 24"
  shows "parses ReadBytes (enc_bytes v) 0 0 0 v"
proof (cases "length v < 254")
  case True
  then have first: "uint (word_of_int (int (length v)) :: byte) = int (length v)"
    by (simp add: uint_byte_of_nat)
  have tail: "parses (andThen (ReadSizedBytes (int (length v))) (\<lambda>data.
      let padding = (4 - ((1 + int (length v)) mod 4)) mod 4 in
      if padding > 0 then andThen (ReadFull (nat padding)) (\<lambda>_. ret data) else ret data))
    (v @ tl_padding 1 (length v)) 0 0 0 v"
    using parses_bytesTail [OF assms, of 1] by simp
  have "parses ReadBytes ([word_of_int (int (length v))] @ (v @ tl_padding 1 (length v)))
     (0 + 0) (0 + 0) (max 0 0) v"
    unfolding ReadBytes_def
    by (rule parses_andThen [OF parses_ReadFull])
      (use True first tail in \<open>simp_all add: Let_def max_i32_def\<close>)
  with True show ?thesis by (simp add: enc_bytes_def)
next
  case False
  have len: "le_int (le_bytes 3 (int (length v)) @ [0]) = int (length v)"
  proof -
    have "le_int (bs @ [0]) = le_int bs" for bs by (induction bs) auto
    then show ?thesis using assms le_int_le_bytes [of 3 "int (length v)"] by simp
  qed
  have tail: "parses (andThen (ReadSizedBytes (int (length v))) (\<lambda>data.
      let padding = (4 - ((4 + int (length v)) mod 4)) mod 4 in
      if padding > 0 then andThen (ReadFull (nat padding)) (\<lambda>_. ret data) else ret data))
    (v @ tl_padding 4 (length v)) 0 0 0 v"
    using parses_bytesTail [OF assms, of 4] by simp
  have head: "parses (andThen (ReadFull 3) (\<lambda>b. ret (le_int (b @ [0]), 4 :: int)))
      (le_bytes 3 (int (length v))) 0 0 0 (int (length v), 4)"
    by (rule parses_map [OF parses_ReadFull]) (simp_all add: len)
  have body: "parses (andThen (andThen (ReadFull 3) (\<lambda>b. ret (le_int (b @ [0]), 4 :: int)))
        (\<lambda>(len, headerSize). if len > max_i32 then raise (MTProtoError StringTooLong)
              else andThen (ReadSizedBytes len) (\<lambda>data.
                let padding = (4 - ((headerSize + len) mod 4)) mod 4 in
                if padding > 0 then andThen (ReadFull (nat padding)) (\<lambda>_. ret data)
                else ret data)))
      (le_bytes 3 (int (length v)) @ (v @ tl_padding 4 (length v))) (0 + 0) (0 + 0) (max 0 0) v"
    by (rule parses_andThen [OF head]) (use assms tail in \<open>simp add: max_i32_def\<close>)
  have "parses ReadBytes ([254] @ (le_bytes 3 (int (length v)) @ (v @ tl_padding 4 (length v))))
     (0 + 0) (0 + 0) (max 0 0) v"
    unfolding ReadBytes_def
    by (rule parses_andThen [OF parses_ReadFull]) (use body in \<open>simp_all add: Let_def\<close>)
  with False show ?thesis by (simp add: enc_bytes_def)
qed

lemma parses_ReadString [parse_intros]: "length v < 2 ^ 24 \<Longrightarrow> parses ReadString (enc_bytes v) 0 0 0 v"
  by (simp add: ReadString_def parses_ReadBytes)

lemma length_enc_bytes_mod4: "length (enc_bytes v) mod 4 = 0"
proof -
  have "(m + (4 - m mod 4) mod 4) mod 4 = 0" for m :: nat
  proof (cases "m mod 4 = 0")
    case False
    have "(m + (4 - m mod 4)) mod 4 = (m mod 4 + (4 - m mod 4)) mod 4"
      by (rule mod_add_left_eq [symmetric])
    moreover have "m mod 4 + (4 - m mod 4) = 4" by simp
    ultimately show ?thesis using False by simp
  qed simp
  from this [of "1 + length v"] this [of "4 + length v"] show ?thesis
    by (auto simp: enc_bytes_def tl_padding_def ac_simps)
qed

text \<open>A reader of a whole input: as \<open>parses\<close>, with nothing left behind.\<close>

definition parses_all :: "(reader, 'a) io \<Rightarrow> bytes \<Rightarrow> nat \<Rightarrow> nat \<Rightarrow> nat \<Rightarrow> 'a \<Rightarrow> bool" where
  "parses_all m bs v k d x \<longleftrightarrow> (\<forall>r. rdata r = bs \<longrightarrow> affords (length bs) v k d r \<longrightarrow>
     m r = (Inr x, spend (length bs) v k r))"

lemma parses_all_parses: "parses m bs v k d x \<Longrightarrow> parses_all m bs v k d x"
  by (simp add: parses_def parses_all_def)

lemma parses_all_ReadAll: "parses_all ReadAll bs 0 0 0 bs"
proof -
  have "avail r = length (rdata r)" if "affords (length (rdata r)) 0 0 0 r" for r
    using affords_avail [OF that] avail_le_length [of r] by simp
  then show ?thesis by (auto simp: parses_all_def)
qed

lemma parses_all_andThen:
  assumes "parses m a v k d x" and "parses_all (f x) b w l e y"
  shows "parses_all (andThen m f) (a @ b) (v + w) (k + l) (max d e) y"
  unfolding parses_all_def
proof (intro allI impI)
  fix r
  assume data: "rdata r = a @ b" and aff: "affords (length (a @ b)) (v + w) (k + l) (max d e) r"
  have "m r = (Inr x, spend (length a) v k r)"
    using data aff by (intro parsesD [OF assms(1), of r b]) (auto dest: affords_fst)
  moreover have "f x (spend (length a) v k r) = (Inr y, spend (length b) w l (spend (length a) v k r))"
    using data aff assms(2) by (auto simp: parses_all_def dest: affords_snd)
  ultimately show "andThen m f r = (Inr y, spend (length (a @ b)) (v + w) (k + l) r)"
    by simp
qed

lemma parses_all_seq:
  "parses m a 0 0 0 x \<Longrightarrow> parses_all (f x) b v k d y \<Longrightarrow> parses_all (andThen m f) (a @ b) v k d y"
  using parses_all_andThen [of m a 0 0 0 x f b v k d y] by simp

lemma parses_all_rest: "parses_all (andThen ReadAll (\<lambda>q. ret (g q))) bs 0 0 0 (g bs)"
  using parses_all_ReadAll by (simp add: parses_all_def)

section \<open>Every reader stays within its budget\<close>

text \<open>One step of a decoder, successful or not: it consumes a prefix of the input and charges
  exactly its length, it never changes the limits, it leaves the depth where it was, and no
  counter passes its limit.\<close>

definition charged :: "nat \<Rightarrow> DecodeBudget \<Rightarrow> DecodeBudget \<Rightarrow> bool" where
  "charged n b b' \<longleftrightarrow> limits b' = limits b \<and> decodedBytes b' = decodedBytes b + int n \<and>
     objectDepth b' = objectDepth b \<and> vectorElements b \<le> vectorElements b' \<and>
     objectNodes b \<le> objectNodes b' \<and> (budget_ok b \<longrightarrow> budget_ok b')"

definition budget_step :: "reader \<Rightarrow> reader \<Rightarrow> bool" where
  "budget_step r r' \<longleftrightarrow> (\<exists>n \<le> length (rdata r). rdata r' = drop n (rdata r) \<and>
     rel_option (charged n) (rbudget r) (rbudget r'))"

definition within_budget :: "(reader, 'a) io \<Rightarrow> bool" where
  "within_budget m \<longleftrightarrow> (\<forall>r. budget_step r (snd (m r)))"

named_theorems within_intros \<open>readers that stay within their budget\<close>

lemma charged_refl [simp]: "charged 0 b b"
  by (simp add: charged_def)

lemma budget_step_refl [simp]: "budget_step r r"
  unfolding budget_step_def by (rule exI [of _ 0]) (auto intro: option.rel_refl)

lemma charged_trans: "charged n a b \<Longrightarrow> charged m b c \<Longrightarrow> charged (m + n) a c"
  by (auto simp: charged_def)

lemma budget_step_trans: "budget_step a b \<Longrightarrow> budget_step b c \<Longrightarrow> budget_step a c"
  unfolding budget_step_def
proof (elim exE conjE, goal_cases)
  case (1 n m)
  then show ?case
    by (intro exI [of _ "n + m"]) (auto simp: add.commute option_rel_Some1 option_rel_Some2
        rel_option_iff split: option.splits intro: charged_trans)
qed

lemma within_budgetD: "within_budget m \<Longrightarrow> m r = (x, r') \<Longrightarrow> budget_step r r'"
  by (metis snd_conv within_budget_def)

lemma within_ret [within_intros]: "within_budget (ret x)"
  by (simp add: within_budget_def)

lemma within_raise [within_intros]: "within_budget (raise e)"
  by (simp add: within_budget_def)

lemma within_andThen [within_intros]:
  assumes "within_budget m" "\<And>x. within_budget (f x)"
  shows "within_budget (andThen m f)"
  unfolding within_budget_def
proof
  fix r
  obtain y r' where m: "m r = (y, r')" by fastforce
  with assms(1) have r': "budget_step r r'" by (rule within_budgetD)
  show "budget_step r (snd (andThen m f r))"
  proof (cases y)
    case (Inr x)
    have "budget_step r' (snd (f x r'))" using assms(2) by (simp add: within_budget_def)
    with m Inr r' show ?thesis by (auto intro: budget_step_trans)
  qed (use m r' in simp)
qed

lemma within_if [within_intros]:
  "(c \<Longrightarrow> within_budget m) \<Longrightarrow> (\<not> c \<Longrightarrow> within_budget m') \<Longrightarrow> within_budget (if c then m else m')"
  by simp

lemma within_let [within_intros]: "within_budget (f x) \<Longrightarrow> within_budget (let y = x in f y)"
  by simp

lemma within_case_prod [within_intros]:
  "(\<And>a b. within_budget (f a b)) \<Longrightarrow> within_budget (case p of (a, b) \<Rightarrow> f a b)"
  by (simp split: prod.splits)

lemma budget_step_advance: "n \<le> avail r \<Longrightarrow> budget_step r (advance n r)"
  unfolding budget_step_def using avail_le_length [of r]
  by (intro exI [of _ n])
    (auto simp: rbudget_spend charged_def budget_ok_def avail_def split: option.splits)

lemma within_ReadFull [within_intros]: "within_budget (ReadFull n)"
  unfolding within_budget_def
proof
  fix r
  show "budget_step r (snd (ReadFull n r))"
    by (cases "n \<le> avail r") (simp_all add: ReadFull_short budget_step_advance)
qed

lemma within_ReadAll [within_intros]: "within_budget ReadAll"
  unfolding within_budget_def
proof
  fix r
  show "budget_step r (snd (ReadAll r))"
    by (cases "avail r = length (rdata r)")
      (use budget_step_advance [of "avail r" r] in \<open>simp_all add: ReadAll_limit\<close>)
qed

lemma within_repeatM [within_intros]: "within_budget m \<Longrightarrow> within_budget (repeatM n m)"
  by (induction n) (auto intro!: within_intros)

lemma budget_step_counter:
  "rbudget r = Some b \<Longrightarrow> charged 0 b b' \<Longrightarrow> budget_step r (r\<lparr>rbudget := Some b'\<rparr>)"
  by (auto simp: budget_step_def intro!: exI [of _ 0])

lemma within_ConsumeWrapper [within_intros]: "within_budget ConsumeWrapper"
  unfolding within_budget_def ConsumeWrapper_def
  by (auto split: option.splits intro!: budget_step_counter simp: charged_def budget_ok_def)

lemma within_ConsumeContainer [within_intros]: "within_budget ConsumeContainer"
  unfolding within_budget_def ConsumeContainer_def
  by (auto split: option.splits intro!: budget_step_counter simp: charged_def budget_ok_def)

lemma within_consumeVectorElements [within_intros]:
  "0 \<le> n \<Longrightarrow> within_budget (consumeVectorElements n)"
  unfolding within_budget_def consumeVectorElements_def
  by (auto split: option.splits intro!: budget_step_counter simp: charged_def budget_ok_def)

lemma within_withinObject [within_intros]:
  assumes "within_budget m"
  shows "within_budget (withinObject m)"
  unfolding within_budget_def
proof
  fix r
  show "budget_step r (snd (withinObject m r))"
  proof (cases "rbudget r")
    case None
    then have enter: "EnterObject r = (Inr (), r)" by (simp add: EnterObject_def)
    obtain x r' where m: "m r = (x, r')" by fastforce
    from within_budgetD [OF assms m] None have "LeaveObject r' = r'"
      by (cases r') (auto simp: budget_step_def LeaveObject_def)
    with within_budgetD [OF assms m] m enter show ?thesis by (simp add: withinObject_def)
  next
    case (Some b)
    let ?b1 = "b\<lparr>objectNodes := objectNodes b + 1, objectDepth := objectDepth b + 1\<rparr>"
    let ?r1 = "r\<lparr>rbudget := Some ?b1\<rparr>"
    show ?thesis
    proof (cases "objectNodes b < MaxObjectNodes (limits b) \<and> objectDepth b < MaxObjectDepth (limits b)")
      case True
      then have enter: "EnterObject r = (Inr (), ?r1)" using Some by (simp add: EnterObject_def)
      obtain x r' where m: "m ?r1 = (x, r')" by fastforce
      from within_budgetD [OF assms m] obtain n b'
        where n: "n \<le> length (rdata r)" "rdata r' = drop n (rdata r)"
          and b': "rbudget r' = Some b'" "charged n ?b1 b'"
        by (auto simp: budget_step_def option_rel_Some1)
      from b'(2) True have "charged n b (b'\<lparr>objectDepth := objectDepth b' - 1\<rparr>)"
        by (auto simp: charged_def budget_ok_def)
      with n b' Some m enter show ?thesis
        by (auto simp: withinObject_def budget_step_def LeaveObject_def)
    next
      case False
      then have "\<exists>e. EnterObject r = (Inl e, r)" using Some by (auto simp: EnterObject_def)
      then show ?thesis by (auto simp: withinObject_def)
    qed
  qed
qed

lemma within_ReadSizedBytes [within_intros]: "within_budget (ReadSizedBytes n)"
  using within_ReadFull [of "nat n"] by (simp add: within_budget_def ReadSizedBytes_def)

lemma within_primitives [within_intros]:
  "within_budget ReadUint32" "within_budget ReadInt32" "within_budget ReadUint64"
  "within_budget ReadInt64" "within_budget ReadInt128" "within_budget ReadInt256"
  "within_budget ReadDouble" "within_budget ReadBytes" "within_budget ReadString"
  "within_budget ReadBool"
  unfolding ReadInt32_def ReadInt64_def ReadUint32_def ReadUint64_def ReadInt128_def ReadInt256_def
    ReadDouble_def ReadBool_def ReadString_def ReadBytes_def
  by (intro within_intros)+

lemma within_vectorCount [within_intros]: "within_budget (vectorCount n)"
  unfolding vectorCount_def by (intro within_intros) auto

lemma within_vectorBody: "within_budget fn \<Longrightarrow> within_budget (vectorBody n fn)"
  unfolding vectorBody_def by (intro within_intros)

lemma within_vectors [within_intros]:
  "within_budget fn \<Longrightarrow> within_budget (ReadVectorBounded n fn)"
  "within_budget fn \<Longrightarrow> within_budget (ReadVector fn)"
  "within_budget fn \<Longrightarrow> within_budget (ReadBareVectorBounded n fn)"
  unfolding ReadVectorBounded_def ReadBareVectorBounded_def ReadVector_def
  by (auto intro!: within_intros within_vectorBody)

end
