(* ===== verification/Wire_Writer.thy ===== *)
theory Wire_Writer
  imports Budget_Reader
begin

text \<open>
  The stream encoder of \<open>mtproto/serialize.go\<close>, \<open>WriteBigInt\<close> of
  \<open>mtproto/deserialize.go\<close> and the bounded serializer of
  \<open>internal/runtime/writer.go\<close>.  A writer is what a \<open>bytes.Buffer\<close> holds, with the
  \<open>remaining\<close> counter of the \<open>boundedRuntimeWriter\<close> around it, or without it for the bare
  buffer.  \<open>emits m bs\<close> says that the serializer \<open>m\<close> writes exactly \<open>bs\<close>, or
  fails with the width error when they do not fit; it composes over \<open>andThen\<close>.  The last
  section gives the round trips of every primitive with its reader of \<open>Budget_Reader\<close>.
\<close>

section \<open>Writers\<close>

record writer =
  wdata :: bytes
  wremaining :: "int option"

definition DefaultMaxEncodedPayloadBytes :: int where
  "DefaultMaxEncodedPayloadBytes = 16 * 2 ^ 20"

definition MaxTLBytesLength :: int where
  "MaxTLBytesLength = 2 ^ 24 - 1"

definition boundedRuntimeWriter_Write :: "bytes \<Rightarrow> (writer, unit) io" where
  "boundedRuntimeWriter_Write p w =
     (case wremaining w of
        None \<Rightarrow> (Inr (), w\<lparr>wdata := wdata w @ p\<rparr>)
      | Some remaining \<Rightarrow>
          if int (length p) > remaining then (Inl (RuntimeError EncodedPayloadTooLarge), w)
          else (Inr (), w\<lparr>wdata := wdata w @ p, wremaining := Some (remaining - int (length p))\<rparr>))"

definition normalizeMaxEncodedBytes :: "int \<Rightarrow> int" where
  "normalizeMaxEncodedBytes maxBytes =
     (if maxBytes \<le> 0 then DefaultMaxEncodedPayloadBytes else maxBytes)"

definition serializeRuntimeTLBounded :: "(writer, unit) io \<Rightarrow> int \<Rightarrow> go_error + bytes" where
  "serializeRuntimeTLBounded value maxBytes =
     (let maxBytes = normalizeMaxEncodedBytes maxBytes in
      case value \<lparr>wdata = [], wremaining = Some maxBytes\<rparr> of
        (Inl e, _) \<Rightarrow> Inl e
      | (Inr _, w) \<Rightarrow> Inr (wdata w))"

definition serializeRuntimeTL :: "(writer, unit) io \<Rightarrow> go_error + bytes" where
  "serializeRuntimeTL value = serializeRuntimeTLBounded value DefaultMaxEncodedPayloadBytes"

text \<open>\<open>buf := &bytes.Buffer{}; if err := m(buf); err != nil { return nil, err }; return buf.Bytes(), nil\<close>\<close>

definition buffered :: "(writer, unit) io \<Rightarrow> go_error + bytes" where
  "buffered m = (case m \<lparr>wdata = [], wremaining = None\<rparr> of (Inl e, _) \<Rightarrow> Inl e | (Inr _, w) \<Rightarrow> Inr (wdata w))"

section \<open>Primitive writers\<close>

definition WriteUint32 :: "int \<Rightarrow> (writer, unit) io" where
  "WriteUint32 v = boundedRuntimeWriter_Write (le_bytes 4 v)"

definition WriteInt32 :: "int \<Rightarrow> (writer, unit) io" where
  "WriteInt32 v = WriteUint32 (u32 v)"

definition WriteUint64 :: "int \<Rightarrow> (writer, unit) io" where
  "WriteUint64 v = boundedRuntimeWriter_Write (le_bytes 8 v)"

definition WriteInt64 :: "int \<Rightarrow> (writer, unit) io" where
  "WriteInt64 v = WriteUint64 (u64 v)"

definition WriteInt128 :: "bytes \<Rightarrow> (writer, unit) io" where
  "WriteInt128 v = boundedRuntimeWriter_Write v"

definition WriteInt256 :: "bytes \<Rightarrow> (writer, unit) io" where
  "WriteInt256 v = boundedRuntimeWriter_Write v"

definition WriteDouble :: "int \<Rightarrow> (writer, unit) io" where
  "WriteDouble v = WriteUint64 v"

definition WriteBytes :: "bytes \<Rightarrow> (writer, unit) io" where
  "WriteBytes v =
     (let len = int (length v) in
      if len < 254 then
        andThen (boundedRuntimeWriter_Write [word_of_int len]) (\<lambda>_.
        andThen (boundedRuntimeWriter_Write v) (\<lambda>_.
          let padding = (4 - ((1 + len) mod 4)) mod 4 in
          if padding > 0 then boundedRuntimeWriter_Write (replicate (nat padding) 0) else ret ()))
      else if len > MaxTLBytesLength then raise (MTProtoError StringTooLong)
      else
        andThen (boundedRuntimeWriter_Write
            [0xFE, word_of_int len, word_of_int (len div 2 ^ 8), word_of_int (len div 2 ^ 16)]) (\<lambda>_.
        andThen (boundedRuntimeWriter_Write v) (\<lambda>_.
          let padding = (4 - ((4 + len) mod 4)) mod 4 in
          if padding > 0 then boundedRuntimeWriter_Write (replicate (nat padding) 0) else ret ())))"

definition WriteString :: "bytes \<Rightarrow> (writer, unit) io" where
  "WriteString v = WriteBytes v"

definition WriteBool :: "bool \<Rightarrow> (writer, unit) io" where
  "WriteBool v = (if v then WriteUint32 BoolTrue else WriteUint32 BoolFalse)"

definition WriteVectorHeader :: "int \<Rightarrow> (writer, unit) io" where
  "WriteVectorHeader count =
     andThen (WriteUint32 VectorConstructorID) (\<lambda>_. WriteInt32 (wrap32 count))"

text \<open>\<open>big.Int.Bytes\<close> gives the big-endian bytes without leading zeros.\<close>

function be_digits :: "nat \<Rightarrow> bytes" where
  "be_digits n = (if n = 0 then [] else be_digits (n div 256) @ [word_of_nat (n mod 256)])"
  by pat_completeness auto
termination by (relation "measure id") auto

declare be_digits.simps [simp del]

definition WriteBigInt :: "nat \<Rightarrow> nat \<Rightarrow> (writer, unit) io" where
  "WriteBigInt n width =
     (let data = be_digits n in
      if length data < width
      then boundedRuntimeWriter_Write (replicate (width - length data) 0 @ data)
      else boundedRuntimeWriter_Write (drop (length data - width) data))"

section \<open>What a serializer writes\<close>

definition emits :: "(writer, unit) io \<Rightarrow> bytes \<Rightarrow> bool" where
  "emits m bs \<longleftrightarrow>
     (\<forall>d. m \<lparr>wdata = d, wremaining = None\<rparr> = (Inr (), \<lparr>wdata = d @ bs, wremaining = None\<rparr>)) \<and>
     (\<forall>d k. 0 \<le> k \<longrightarrow>
        (if int (length bs) \<le> k
         then m \<lparr>wdata = d, wremaining = Some k\<rparr> =
           (Inr (), \<lparr>wdata = d @ bs, wremaining = Some (k - int (length bs))\<rparr>)
         else \<exists>w'. m \<lparr>wdata = d, wremaining = Some k\<rparr> =
           (Inl (RuntimeError EncodedPayloadTooLarge), w')))"

lemma emits_unbounded:
  "emits m bs \<Longrightarrow>
     m \<lparr>wdata = d, wremaining = None\<rparr> = (Inr (), \<lparr>wdata = d @ bs, wremaining = None\<rparr>)"
  by (simp add: emits_def)

lemma buffered_emits: "emits m bs \<Longrightarrow> buffered m = Inr bs"
  by (simp add: buffered_def emits_unbounded)

lemma emits_fits:
  "emits m bs \<Longrightarrow> int (length bs) \<le> k \<Longrightarrow> m \<lparr>wdata = d, wremaining = Some k\<rparr> =
     (Inr (), \<lparr>wdata = d @ bs, wremaining = Some (k - int (length bs))\<rparr>)"
  by (drule emits_def [THEN iffD1, THEN conjunct2, rule_format, of _ _ k d]) simp_all

lemma emits_exceeds:
  "emits m bs \<Longrightarrow> 0 \<le> k \<Longrightarrow> k < int (length bs) \<Longrightarrow> \<exists>w'. m \<lparr>wdata = d, wremaining = Some k\<rparr> =
     (Inl (RuntimeError EncodedPayloadTooLarge), w')"
  by (drule emits_def [THEN iffD1, THEN conjunct2, rule_format, of _ _ k d]) simp_all

lemma emits_Write [emit_intros]: "emits (boundedRuntimeWriter_Write p) p"
  by (auto simp: emits_def boundedRuntimeWriter_Write_def)

lemma emits_ret [emit_intros]: "emits (ret ()) []"
  by (simp add: emits_def)

lemma emits_andThen [emit_intros]:
  assumes m: "emits m a" and f: "emits (f ()) b"
  shows "emits (andThen m f) (a @ b)"
proof -
  have "if int (length (a @ b)) \<le> k
       then andThen m f \<lparr>wdata = d, wremaining = Some k\<rparr> =
         (Inr (), \<lparr>wdata = d @ a @ b, wremaining = Some (k - int (length (a @ b)))\<rparr>)
       else \<exists>w'. andThen m f \<lparr>wdata = d, wremaining = Some k\<rparr> =
         (Inl (RuntimeError EncodedPayloadTooLarge), w')" if k: "0 \<le> k" for d k
  proof (cases "int (length a) \<le> k")
    case True
    note step = andThen_Inr [of m "\<lparr>wdata = d, wremaining = Some k\<rparr>" "()" _ f, OF emits_fits [OF m True]]
    show ?thesis
    proof (cases "int (length b) \<le> k - int (length a)")
      case True
      from step emits_fits [OF f True, of "d @ a"] True show ?thesis by (simp add: algebra_simps)
    next
      case False
      from emits_exceeds [OF f _ False [unfolded not_le], of "d @ a"] True step False
      show ?thesis by auto
    qed
  next
    case False
    from emits_exceeds [OF m k False [unfolded not_le], of d] obtain w'
      where "m \<lparr>wdata = d, wremaining = Some k\<rparr> = (Inl (RuntimeError EncodedPayloadTooLarge), w')"
      by blast
    with False show ?thesis by simp
  qed
  moreover have "andThen m f \<lparr>wdata = d, wremaining = None\<rparr> =
      (Inr (), \<lparr>wdata = d @ a @ b, wremaining = None\<rparr>)" for d
    using emits_unbounded [OF f, of "d @ a"]
    by (simp add: andThen_Inr [of m "\<lparr>wdata = d, wremaining = None\<rparr>" "()" _ f, OF emits_unbounded [OF m]])
  ultimately show ?thesis unfolding emits_def by simp
qed

lemma emits_forEach [emit_intros]:
  "(\<And>x. x \<in> set xs \<Longrightarrow> emits (f x) (enc x)) \<Longrightarrow> emits (forEach xs f) (concat (map enc xs))"
  by (induction xs) (auto intro!: emit_intros)

lemma serializeRuntimeTLBounded_emits:
  assumes "emits m bs"
  shows "serializeRuntimeTLBounded m maxBytes =
    (if int (length bs) \<le> normalizeMaxEncodedBytes maxBytes then Inr bs
     else Inl (RuntimeError EncodedPayloadTooLarge))"
proof -
  have "0 \<le> normalizeMaxEncodedBytes maxBytes"
    by (simp add: normalizeMaxEncodedBytes_def DefaultMaxEncodedPayloadBytes_def)
  with emits_fits [OF assms, of "normalizeMaxEncodedBytes maxBytes" "[]"]
    emits_exceeds [OF assms, of "normalizeMaxEncodedBytes maxBytes" "[]"]
  show ?thesis by (auto simp: serializeRuntimeTLBounded_def Let_def)
qed

section \<open>What the primitive writers write\<close>

lemma le_bytes_u32 [simp]: "le_bytes 4 (u32 v) = le_bytes 4 v"
  using le_bytes_mod [of 4 v] by (simp add: u32_def)

lemma le_bytes_u64 [simp]: "le_bytes 8 (u64 v) = le_bytes 8 v"
  using le_bytes_mod [of 8 v] by (simp add: u64_def)

lemma le_bytes_wrap32 [simp]: "le_bytes 4 (wrap32 v) = le_bytes 4 v"
  by (metis le_bytes_u32 u32_wrap32)

lemma emits_primitives [emit_intros]:
  "emits (WriteUint32 v) (le_bytes 4 v)"
  "emits (WriteInt32 v) (le_bytes 4 v)"
  "emits (WriteUint64 v) (le_bytes 8 v)"
  "emits (WriteInt64 v) (le_bytes 8 v)"
  "emits (WriteInt128 b) b"
  "emits (WriteInt256 b) b"
  "emits (WriteDouble v) (le_bytes 8 v)"
  "emits (WriteBool x) (le_bytes 4 (if x then BoolTrue else BoolFalse))"
  using emits_Write [of "le_bytes 4 v"] emits_Write [of "le_bytes 8 v"] emits_Write [of b]
    emits_Write [of "le_bytes 4 (if x then BoolTrue else BoolFalse)"]
  by (simp_all add: WriteUint32_def WriteInt32_def WriteUint64_def WriteInt64_def WriteInt128_def
      WriteInt256_def WriteDouble_def WriteBool_def split: if_splits)

lemma emits_WriteVectorHeader [emit_intros]:
  "emits (WriteVectorHeader n) (le_bytes 4 VectorConstructorID @ le_bytes 4 n)"
proof -
  have "emits (WriteInt32 (wrap32 n)) (le_bytes 4 n)"
    using emits_primitives(2) [of "wrap32 n"] by simp
  then show ?thesis unfolding WriteVectorHeader_def by (intro emits_andThen emits_primitives)
qed

lemma emits_padding:
  "emits (let padding = (4 - ((int h + int n) mod 4)) mod 4 in
      if padding > 0 then boundedRuntimeWriter_Write (replicate (nat padding) 0) else ret ())
     (tl_padding h n)"
  unfolding padding_int Let_def tl_padding_def
  using emits_Write [of "replicate ((4 - (h + n) mod 4) mod 4) 0"] emits_ret by auto

lemma emits_WriteBytes [emit_intros]:
  assumes "length v < 2 ^ 24"
  shows "emits (WriteBytes v) (enc_bytes v)"
proof (cases "length v < 254")
  case True
  have "emits (WriteBytes v) ([word_of_int (int (length v))] @ v @ tl_padding 1 (length v))"
    unfolding WriteBytes_def Let_def [of "int (length v)"] using True emits_padding [of 1 "length v"]
    by (auto intro!: emits_andThen emits_Write simp del: append_Cons)
  with True show ?thesis by (simp add: enc_bytes_def)
next
  case False
  have header: "[0xFE, word_of_int l, word_of_int (l div 2 ^ 8), word_of_int (l div 2 ^ 16)]
      = 254 # le_bytes 3 l" for l :: int
    by (simp add: numeral_3_eq_3 zdiv_zmult2_eq [symmetric])
  have "emits (WriteBytes v)
      ((254 # le_bytes 3 (int (length v))) @ v @ tl_padding 4 (length v))"
    unfolding WriteBytes_def Let_def [of "int (length v)"] header
    using False assms emits_padding [of 4 "length v"]
    by (auto intro!: emits_andThen emits_Write simp: MaxTLBytesLength_def simp del: append_Cons)
  with False show ?thesis by (simp add: enc_bytes_def)
qed

lemma emits_WriteString [emit_intros]: "length v < 2 ^ 24 \<Longrightarrow> emits (WriteString v) (enc_bytes v)"
  by (simp add: WriteString_def emits_WriteBytes)

lemma WriteBytes_too_long:
  "2 ^ 24 \<le> length v \<Longrightarrow> WriteBytes v w = (Inl (MTProtoError StringTooLong), w)"
proof -
  assume "2 ^ 24 \<le> length v"
  then have "\<not> int (length v) < 254" "int (length v) > MaxTLBytesLength"
    by (simp_all add: MaxTLBytesLength_def)
  then show ?thesis by (simp add: WriteBytes_def)
qed

text \<open>\<open>WriteBigInt\<close> writes the value modulo \<open>256 ^ width\<close>, big-endian.\<close>

definition be_int :: "bytes \<Rightarrow> nat" where
  "be_int bs = foldl (\<lambda>n b. n * 256 + unat b) 0 bs"

lemma be_int_Nil [simp]: "be_int [] = 0"
  by (simp add: be_int_def)

lemma be_int_snoc: "be_int (bs @ [b]) = be_int bs * 256 + unat b"
  by (simp add: be_int_def)

lemma be_int_append: "be_int (as @ bs) = be_int as * 256 ^ length bs + be_int bs"
proof (induction bs rule: rev_induct)
  case (snoc b bs)
  have "be_int (as @ bs @ [b]) = be_int (as @ bs) * 256 + unat b"
    using be_int_snoc [of "as @ bs" b] by simp
  with snoc show ?case by (simp add: be_int_snoc algebra_simps)
qed simp

lemma be_int_less: "be_int bs < 256 ^ length bs"
proof (induction bs rule: rev_induct)
  case (snoc b bs)
  have "unat b < 256" using unsigned_less [of b, where 'a = nat] by simp
  with snoc show ?case by (simp add: be_int_snoc)
qed simp

lemma be_int_be_digits: "be_int (be_digits n) = n"
proof (induction n rule: be_digits.induct)
  case (1 n)
  show ?case
  proof (cases "n = 0")
    case False
    have "unat (word_of_nat (n mod 256) :: byte) = n mod 256"
      by (simp add: unat_of_nat)
    with False 1 show ?thesis
      by (subst be_digits.simps) (simp add: be_int_snoc)
  qed (simp add: be_digits.simps)
qed

lemma be_int_zeros [simp]: "be_int (replicate k 0) = 0"
proof (induction k)
  case (Suc k)
  then show ?case using be_int_snoc [of "replicate k 0" 0] by (simp add: replicate_append_same)
qed simp

lemma emits_WriteBigInt:
  "\<exists>bs. length bs = width \<and> be_int bs = n mod 256 ^ width \<and> emits (WriteBigInt n width) bs"
proof (cases "length (be_digits n) < width")
  case True
  let ?bs = "replicate (width - length (be_digits n)) 0 @ be_digits n"
  have "n < 256 ^ width"
  proof (rule less_le_trans)
    show "n < 256 ^ length (be_digits n)"
      using be_int_less [of "be_digits n"] by (simp add: be_int_be_digits)
    show "(256 :: nat) ^ length (be_digits n) \<le> 256 ^ width"
      using True by (intro power_increasing) simp_all
  qed
  then have "be_int ?bs = n mod 256 ^ width"
    by (simp add: be_int_append be_int_be_digits)
  moreover have "emits (WriteBigInt n width) ?bs"
    using True emits_Write [of ?bs] by (simp add: WriteBigInt_def Let_def)
  ultimately show ?thesis using True by (intro exI [of _ ?bs]) simp
next
  case False
  let ?d = "be_digits n"
  let ?bs = "drop (length ?d - width) ?d"
  have len: "length ?bs = width" using False by simp
  have "n = be_int (take (length ?d - width) ?d) * 256 ^ width + be_int ?bs"
    using be_int_append [of "take (length ?d - width) ?d" ?bs] False
    by (simp only: append_take_drop_id be_int_be_digits len)
  moreover have "be_int ?bs < 256 ^ width" using be_int_less [of ?bs] by (simp only: len)
  ultimately have "be_int ?bs = n mod 256 ^ width"
    by (metis mod_less mod_mult_self3)
  moreover have "emits (WriteBigInt n width) ?bs"
    using False emits_Write [of ?bs] by (simp add: WriteBigInt_def Let_def)
  ultimately show ?thesis using len by blast
qed

end
