(* ===== verification/Cursor_Codec.thy ===== *)
theory Cursor_Codec
  imports Wire_Writer
begin

text \<open>
  The cursor codec of \<open>mtproto/cursor.go\<close> that generated field codecs use, and the encode
  budget of \<open>mtproto/encode_budget.go\<close>.  An \<open>Encoder\<close> appends to its own bounded buffer,
  or passes bytes to a writer; a \<open>Decoder\<close> walks an immutable buffer, or reads a budget
  reader.  The scratch array and the growth of the buffer's capacity only affect allocation and
  are left out.  The decoder is related to the stream readers of \<open>Budget_Reader\<close> by a
  simulation: it accepts exactly the inputs they accept, with the same values, the same bytes
  consumed and the same budget charged.
\<close>

section \<open>Encode budget\<close>

record encodeState =
  depth :: int
  nodes :: int

text \<open>\<open>EnterEncodeObject\<close> with the encode state found on the writer, or none; the result is
  the state carried by the writer handed to the children.\<close>

definition EnterEncodeObject :: "encodeState option \<Rightarrow> go_error + encodeState" where
  "EnterEncodeObject carried =
     (let state = (case carried of None \<Rightarrow> \<lparr>depth = 0, nodes = 0\<rparr> | Some s \<Rightarrow> s) in
      if depth state \<ge> DefaultMaxObjectDepth then Inl (MessageError EncodedObjectDepthLimit)
      else if nodes state \<ge> DefaultMaxObjectNodes then Inl (MessageError EncodedObjectNodesLimit)
      else Inr (state\<lparr>depth := depth state + 1, nodes := nodes state + 1\<rparr>))"

definition leaveEncodeObject :: "encodeState \<Rightarrow> encodeState" where
  "leaveEncodeObject state = state\<lparr>depth := depth state - 1\<rparr>"

section \<open>Encoder\<close>

record Encoder =
  ewriter :: "writer option"
  edata :: bytes
  elimit :: int
  elayer :: int
  estate :: encodeState

text \<open>For a writer that carries neither a layer nor an encode state.\<close>

definition NewEncoder :: "writer \<Rightarrow> Encoder" where
  "NewEncoder w = \<lparr>ewriter = Some w, edata = [], elimit = 0, elayer = 0,
     estate = \<lparr>depth = 0, nodes = 0\<rparr>\<rparr>"

definition NewBufferEncoder :: "int \<Rightarrow> int \<Rightarrow> go_error + Encoder" where
  "NewBufferEncoder layer maxBytes =
     (if maxBytes < 0 then Inl (MessageError NegativeEncodeLimit)
      else Inr \<lparr>ewriter = None, edata = [],
        elimit = (if maxBytes = 0 then DefaultMaxDecodedBytes else maxBytes), elayer = layer,
        estate = \<lparr>depth = 0, nodes = 0\<rparr>\<rparr>)"

definition Encoder_EnterObject :: "(Encoder, unit) io" where
  "Encoder_EnterObject e =
     (let state = estate e in
      if depth state \<ge> DefaultMaxObjectDepth then (Inl (MessageError EncodedObjectDepthLimit), e)
      else if nodes state \<ge> DefaultMaxObjectNodes
      then (Inl (MessageError EncodedObjectNodesLimit), e)
      else (Inr (), e\<lparr>estate := state\<lparr>depth := depth state + 1, nodes := nodes state + 1\<rparr>\<rparr>))"

definition Encoder_LeaveObject :: "Encoder \<Rightarrow> Encoder" where
  "Encoder_LeaveObject e = e\<lparr>estate := (estate e)\<lparr>depth := depth (estate e) - 1\<rparr>\<rparr>"

definition Encoder_reserve :: "int \<Rightarrow> (Encoder, unit) io" where
  "Encoder_reserve n e =
     (if n < 0 \<or> n > elimit e - int (length (edata e)) then (Inl (MessageError EncodedBytesLimit), e)
      else (Inr (), e))"

definition Encoder_Write :: "bytes \<Rightarrow> (Encoder, unit) io" where
  "Encoder_Write p e =
     (case ewriter e of
        Some w \<Rightarrow> (case boundedRuntimeWriter_Write p w of (r, w') \<Rightarrow> (r, e\<lparr>ewriter := Some w'\<rparr>))
      | None \<Rightarrow> andThen (Encoder_reserve (int (length p)))
                  (\<lambda>_ e. (Inr (), e\<lparr>edata := edata e @ p\<rparr>)) e)"

definition Encoder_WriteUint32 :: "int \<Rightarrow> (Encoder, unit) io" where
  "Encoder_WriteUint32 v e =
     (if ewriter e = None
      then andThen (Encoder_reserve 4) (\<lambda>_ e. (Inr (), e\<lparr>edata := edata e @ le_bytes 4 v\<rparr>)) e
      else Encoder_Write (le_bytes 4 v) e)"

definition Encoder_WriteInt32 :: "int \<Rightarrow> (Encoder, unit) io" where
  "Encoder_WriteInt32 v = Encoder_WriteUint32 (u32 v)"

definition Encoder_WriteUint64 :: "int \<Rightarrow> (Encoder, unit) io" where
  "Encoder_WriteUint64 v e =
     (if ewriter e = None
      then andThen (Encoder_reserve 8) (\<lambda>_ e. (Inr (), e\<lparr>edata := edata e @ le_bytes 8 v\<rparr>)) e
      else Encoder_Write (le_bytes 8 v) e)"

definition Encoder_WriteInt64 :: "int \<Rightarrow> (Encoder, unit) io" where
  "Encoder_WriteInt64 v = Encoder_WriteUint64 (u64 v)"

definition Encoder_WriteDouble :: "int \<Rightarrow> (Encoder, unit) io" where
  "Encoder_WriteDouble v = Encoder_WriteUint64 v"

definition Encoder_WriteInt128 :: "bytes \<Rightarrow> (Encoder, unit) io" where
  "Encoder_WriteInt128 v = Encoder_Write v"

definition Encoder_WriteInt256 :: "bytes \<Rightarrow> (Encoder, unit) io" where
  "Encoder_WriteInt256 v = Encoder_Write v"

definition Encoder_WriteBool :: "bool \<Rightarrow> (Encoder, unit) io" where
  "Encoder_WriteBool v = (if v then Encoder_WriteUint32 BoolTrue else Encoder_WriteUint32 BoolFalse)"

definition Encoder_bytesHeader :: "int \<Rightarrow> (Encoder, int) io" where
  "Encoder_bytesHeader n e =
     (if n < 0 \<or> n > MaxTLBytesLength then (Inl (MTProtoError StringTooLong), e)
      else
        (let (header, scratch) =
           (if n < 254 then (1, [word_of_int n])
            else (4, [254, word_of_int n, word_of_int (n div 2 ^ 8), word_of_int (n div 2 ^ 16)]));
             padding = (4 - (header + n) mod 4) mod 4
         in andThen (\<lambda>e. if ewriter e = None then Encoder_reserve (header + n + padding) e
                         else (Inr (), e)) (\<lambda>_.
            andThen (Encoder_Write scratch) (\<lambda>_. ret padding)) e))"

definition Encoder_padding :: "int \<Rightarrow> (Encoder, unit) io" where
  "Encoder_padding n = Encoder_Write (replicate (nat n) 0)"

definition Encoder_WriteBytes :: "bytes \<Rightarrow> (Encoder, unit) io" where
  "Encoder_WriteBytes v =
     andThen (Encoder_bytesHeader (int (length v))) (\<lambda>padding.
     andThen (Encoder_Write v) (\<lambda>_. Encoder_padding padding))"

definition Encoder_WriteString :: "bytes \<Rightarrow> (Encoder, unit) io" where
  "Encoder_WriteString v =
     andThen (Encoder_bytesHeader (int (length v))) (\<lambda>padding.
     andThen (\<lambda>e. case ewriter e of
          None \<Rightarrow> (Inr (), e\<lparr>edata := edata e @ v\<rparr>)
        | Some w \<Rightarrow> (case boundedRuntimeWriter_Write v w of (r, w') \<Rightarrow> (r, e\<lparr>ewriter := Some w'\<rparr>)))
       (\<lambda>_. Encoder_padding padding))"

definition Encoder_WriteVectorHeader :: "int \<Rightarrow> (Encoder, unit) io" where
  "Encoder_WriteVectorHeader count =
     (if count < 0 \<or> count > max_i32 then raise (MTProtoError VectorTooLong)
      else andThen (Encoder_WriteUint32 VectorConstructorID) (\<lambda>_. Encoder_WriteInt32 (wrap32 count)))"

section \<open>Decoder\<close>

text \<open>\<open>dreader\<close> is the unread input of the budget reader in stream mode; the reader charges
  the decoder's own budget.\<close>

record Decoder =
  dreader :: "bytes option"
  ddata :: bytes
  doffset :: nat
  dlayer :: int
  dbudget :: DecodeBudget

definition defaultBudget :: DecodeBudget where
  "defaultBudget = (case NewDecodeBudget zeroLimits of Inr b \<Rightarrow> b | Inl _ \<Rightarrow> undefined)"

definition NewDecoder :: "reader \<Rightarrow> int \<Rightarrow> Decoder" where
  "NewDecoder r layer = \<lparr>dreader = Some (rdata r), ddata = [], doffset = 0, dlayer = layer,
     dbudget = (case rbudget r of None \<Rightarrow> defaultBudget | Some b \<Rightarrow> b)\<rparr>"

definition NewDecoderBytes :: "bytes \<Rightarrow> int \<Rightarrow> DecodeBudget option \<Rightarrow> Decoder" where
  "NewDecoderBytes data layer budget = \<lparr>dreader = None, ddata = data, doffset = 0, dlayer = layer,
     dbudget = (case budget of None \<Rightarrow> defaultBudget | Some b \<Rightarrow> b)\<rparr>"

definition physicalLen :: "Decoder \<Rightarrow> int" where
  "physicalLen d = (case dreader d of
      None \<Rightarrow> int (length (ddata d)) - int (doffset d)
    | Some unread \<Rightarrow> int (length unread))"

definition Decoder_Len :: "Decoder \<Rightarrow> int" where
  "Decoder_Len d = physicalLen d"

definition budgetLeft :: "Decoder \<Rightarrow> int" where
  "budgetLeft d = MaxDecodedBytes (limits (dbudget d)) - decodedBytes (dbudget d)"

definition available :: "Decoder \<Rightarrow> int" where
  "available d = min (max 0 (budgetLeft d)) (physicalLen d)"

definition requireAvailable :: "int \<Rightarrow> (Decoder, unit) io" where
  "requireAvailable n d =
     (if n > physicalLen d then (Inl (IOError UnexpectedEOF), d)
      else if n > budgetLeft d then (Inl (MTProtoError DecodedBytesLimit), d)
      else (Inr (), d))"

definition consume :: "int \<Rightarrow> (Decoder, unit) io" where
  "consume n d =
     (if n > budgetLeft d then (Inl (MTProtoError DecodedBytesLimit), d)
      else (Inr (), d\<lparr>dbudget := (dbudget d)\<lparr>decodedBytes := decodedBytes (dbudget d) + n\<rparr>\<rparr>))"

text \<open>\<open>io.ReadFull(d.reader, p)\<close> in stream mode.\<close>

definition streamReadFull :: "nat \<Rightarrow> (Decoder, bytes) io" where
  "streamReadFull n d =
     (case dreader d of
        None \<Rightarrow> (Inl (IOError EOF), d)
      | Some unread \<Rightarrow>
          (case ReadFull n \<lparr>rdata = unread, rbudget = Some (dbudget d)\<rparr> of (x, r) \<Rightarrow>
             (x, d\<lparr>dreader := Some (rdata r), dbudget := the (rbudget r)\<rparr>)))"

definition take_bytes :: "int \<Rightarrow> (Decoder, bytes) io" where
  "take_bytes n d =
     (if n < 0 then (Inl (MessageError InvalidMessageLength), d)
      else if dreader d = None
      then (if n > int (length (ddata d)) - int (doffset d) then (Inl (IOError UnexpectedEOF), d)
            else andThen (consume n) (\<lambda>_ d.
              (Inr (take (nat n) (drop (doffset d) (ddata d))), d\<lparr>doffset := doffset d + nat n\<rparr>)) d)
      else andThen (requireAvailable n) (\<lambda>_. streamReadFull (nat n)) d)"

definition Decoder_Read :: "nat \<Rightarrow> Decoder \<Rightarrow> bytes \<times> go_error option \<times> Decoder" where
  "Decoder_Read len d =
     (case dreader d of
        Some unread \<Rightarrow>
          (case BudgetReader_Read len \<lparr>rdata = unread, rbudget = Some (dbudget d)\<rparr> of (got, e, r) \<Rightarrow>
             (got, e, d\<lparr>dreader := Some (rdata r), dbudget := the (rbudget r)\<rparr>))
      | None \<Rightarrow>
          if len = 0 then ([], None, d)
          else if doffset d = length (ddata d) then ([], Some (IOError EOF), d)
          else
            (let n = min len (length (ddata d) - doffset d) in
             case consume (int n) d of
               (Inl e, d) \<Rightarrow> ([], Some e, d)
             | (Inr _, d) \<Rightarrow>
                 (take n (drop (doffset d) (ddata d)), None, d\<lparr>doffset := doffset d + n\<rparr>)))"

definition Decoder_EnterObject :: "(Decoder, unit) io" where
  "Decoder_EnterObject d =
     (let b = dbudget d in
      if objectNodes b \<ge> MaxObjectNodes (limits b) then (Inl (MTProtoError ObjectNodeLimit), d)
      else if objectDepth b \<ge> MaxObjectDepth (limits b) then (Inl (MTProtoError ObjectDepthLimit), d)
      else (Inr (), d\<lparr>dbudget := b\<lparr>objectNodes := objectNodes b + 1,
                                    objectDepth := objectDepth b + 1\<rparr>\<rparr>))"

definition Decoder_LeaveObject :: "Decoder \<Rightarrow> Decoder" where
  "Decoder_LeaveObject d = d\<lparr>dbudget := (dbudget d)\<lparr>objectDepth := objectDepth (dbudget d) - 1\<rparr>\<rparr>"

definition Decoder_ReadUint32 :: "(Decoder, int) io" where
  "Decoder_ReadUint32 = andThen (take_bytes 4) (\<lambda>p. ret (le_int p))"

definition Decoder_ReadInt32 :: "(Decoder, int) io" where
  "Decoder_ReadInt32 = andThen Decoder_ReadUint32 (\<lambda>v. ret (wrap32 v))"

definition Decoder_ReadUint64 :: "(Decoder, int) io" where
  "Decoder_ReadUint64 = andThen (take_bytes 8) (\<lambda>p. ret (le_int p))"

definition Decoder_ReadInt64 :: "(Decoder, int) io" where
  "Decoder_ReadInt64 = andThen Decoder_ReadUint64 (\<lambda>v. ret (wrap64 v))"

definition Decoder_ReadDouble :: "(Decoder, int) io" where
  "Decoder_ReadDouble = Decoder_ReadUint64"

definition Decoder_ReadInt128 :: "(Decoder, bytes) io" where
  "Decoder_ReadInt128 = take_bytes 16"

definition Decoder_ReadInt256 :: "(Decoder, bytes) io" where
  "Decoder_ReadInt256 = take_bytes 32"

definition Decoder_ReadBool :: "(Decoder, bool) io" where
  "Decoder_ReadBool = andThen Decoder_ReadUint32 (\<lambda>v.
     if v = BoolTrue then ret True
     else if v = BoolFalse then ret False
     else raise (MTProtoError InvalidBool))"

definition byteSpan :: "(Decoder, bytes) io" where
  "byteSpan =
     andThen (take_bytes 1) (\<lambda>prefix.
       let first = uint (hd prefix) in
       if first = 255 then raise (MessageError InvalidMessageLength)
       else andThen (if first = 254 then andThen (take_bytes 3) (\<lambda>p. ret (le_int p, 4))
                     else ret (first, 1)) (\<lambda>(n, header).
         let padding = (4 - (header + n) mod 4) mod 4 in
         andThen (requireAvailable (n + padding)) (\<lambda>_ d.
           if dreader d = None then andThen (take_bytes (n + padding)) (\<lambda>p. ret (take (nat n) p)) d
           else andThen (streamReadFull (nat n)) (\<lambda>p.
                andThen (take_bytes padding) (\<lambda>_. ret p)) d)))"

definition Decoder_ReadBytes :: "(Decoder, bytes) io" where
  "Decoder_ReadBytes = byteSpan"

definition Decoder_ReadString :: "(Decoder, bytes) io" where
  "Decoder_ReadString = byteSpan"

definition Decoder_consumeVectorElements :: "int \<Rightarrow> (Decoder, unit) io" where
  "Decoder_consumeVectorElements count d =
     (let b = dbudget d in
      if count > MaxVectorElements (limits b) - vectorElements b
      then (Inl (MTProtoError VectorCountLimit), d)
      else (Inr (), d\<lparr>dbudget := b\<lparr>vectorElements := vectorElements b + count\<rparr>\<rparr>))"

definition ReadVectorCount :: "int \<Rightarrow> int \<Rightarrow> (Decoder, int) io" where
  "ReadVectorCount maxElements minElementBytes =
     (if maxElements < 0 \<or> minElementBytes < 0 then raise (MTProtoError VectorTooLong)
      else andThen Decoder_ReadUint32 (\<lambda>ctor.
        if ctor \<noteq> VectorConstructorID then raise (MTProtoError (InvalidVectorConstructor ctor))
        else andThen Decoder_ReadInt32 (\<lambda>count.
          if count < 0 \<or> count > maxElements then raise (MTProtoError VectorTooLong)
          else andThen (Decoder_consumeVectorElements count) (\<lambda>_ d.
            if minElementBytes > 0 \<and> count > available d div minElementBytes
            then (Inl (IOError UnexpectedEOF), d)
            else (Inr count, d)))))"

section \<open>The decoder simulates the stream readers\<close>

definition dec_reader :: "Decoder \<Rightarrow> reader" where
  "dec_reader d = \<lparr>rdata = (case dreader d of None \<Rightarrow> drop (doffset d) (ddata d) | Some unread \<Rightarrow> unread),
     rbudget = Some (dbudget d)\<rparr>"

definition dec_ok :: "Decoder \<Rightarrow> bool" where
  "dec_ok d \<longleftrightarrow> doffset d \<le> length (ddata d) \<and> decodedBytes (dbudget d) \<le> MaxDecodedBytes (limits (dbudget d))"

definition dec_advance :: "nat \<Rightarrow> Decoder \<Rightarrow> Decoder" where
  "dec_advance n d =
     (case dreader d of None \<Rightarrow> d\<lparr>doffset := doffset d + n\<rparr>
                      | Some unread \<Rightarrow> d\<lparr>dreader := Some (drop n unread)\<rparr>)
     \<lparr>dbudget := (dbudget d)\<lparr>decodedBytes := decodedBytes (dbudget d) + int n\<rparr>\<rparr>"

definition simulates :: "(Decoder, 'a) io \<Rightarrow> (reader, 'a) io \<Rightarrow> bool" where
  "simulates m m' \<longleftrightarrow> (\<forall>d. dec_ok d \<longrightarrow>
     (case m d of
        (Inr x, d') \<Rightarrow> m' (dec_reader d) = (Inr x, dec_reader d') \<and> dec_ok d'
      | (Inl _, d') \<Rightarrow> (\<exists>e r. m' (dec_reader d) = (Inl e, r)) \<and> dec_ok d'))"

named_theorems sim_intros \<open>cursor readers and the stream readers they simulate\<close>

lemma avail_dec_reader:
  "dec_ok d \<Longrightarrow> int (avail (dec_reader d)) = min (budgetLeft d) (physicalLen d)"
  by (auto simp: avail_def dec_reader_def budgetLeft_def physicalLen_def dec_ok_def min_def
      of_nat_diff split: option.splits)

lemma dec_reader_advance [simp]: "dec_reader (dec_advance n d) = advance n (dec_reader d)"
  by (auto simp: dec_reader_def dec_advance_def spend_def add.commute split: option.splits)

lemma dec_ok_advance: "dec_ok d \<Longrightarrow> n \<le> avail (dec_reader d) \<Longrightarrow> dec_ok (dec_advance n d)"
  by (auto simp: dec_ok_def dec_advance_def avail_def dec_reader_def split: option.splits)

lemma requireAvailable_eq:
  assumes "dec_ok d"
  shows "requireAvailable (int n) d =
    (if n \<le> avail (dec_reader d) then (Inr (), d)
     else (Inl (if int n > physicalLen d then IOError UnexpectedEOF else MTProtoError DecodedBytesLimit), d))"
  using avail_dec_reader [OF assms] by (auto simp: requireAvailable_def)

lemma streamReadFull_eq:
  assumes "dreader d \<noteq> None" "n \<le> avail (dec_reader d)"
  shows "streamReadFull n d = (Inr (take n (rdata (dec_reader d))), dec_advance n d)"
proof -
  from assms(1) obtain unread where "dreader d = Some unread" by blast
  with assms(2) show ?thesis
    by (auto simp: streamReadFull_def dec_reader_def dec_advance_def rbudget_spend)
qed

lemma take_bytes_eq:
  assumes "dec_ok d"
  shows "take_bytes (int n) d =
    (if n \<le> avail (dec_reader d) then (Inr (take n (rdata (dec_reader d))), dec_advance n d)
     else (Inl (if int n > physicalLen d then IOError UnexpectedEOF else MTProtoError DecodedBytesLimit), d))"
proof (cases "dreader d = None")
  case True
  with avail_dec_reader [OF assms] assms show ?thesis
    by (auto simp: take_bytes_def consume_def andThen_def physicalLen_def budgetLeft_def dec_advance_def
        dec_reader_def)
next
  case False
  then show ?thesis
    by (auto simp: take_bytes_def andThen_def requireAvailable_eq [OF assms] streamReadFull_eq)
qed

lemma sim_Inl:
  "simulates m m' \<Longrightarrow> dec_ok d \<Longrightarrow> m d = (Inl e, d1) \<Longrightarrow>
     (\<exists>e r. m' (dec_reader d) = (Inl e, r)) \<and> dec_ok d1"
  by (drule simulates_def [THEN iffD1, rule_format, of _ _ d]) simp_all

lemma sim_Inr:
  "simulates m m' \<Longrightarrow> dec_ok d \<Longrightarrow> m d = (Inr x, d1) \<Longrightarrow>
     m' (dec_reader d) = (Inr x, dec_reader d1) \<and> dec_ok d1"
  by (drule simulates_def [THEN iffD1, rule_format, of _ _ d]) simp_all

lemma sim_ret [sim_intros]: "simulates (ret x) (ret x)"
  by (simp add: simulates_def)

lemma sim_raise [sim_intros]: "simulates (raise e) (raise e')"
  by (simp add: simulates_def)

lemma sim_andThen_result:
  assumes m: "simulates m m'" and f: "\<And>x r r'. m' r = (Inr x, r') \<Longrightarrow> simulates (f x) (f' x)"
  shows "simulates (andThen m f) (andThen m' f')"
  unfolding simulates_def
proof (intro allI impI)
  fix d assume d: "dec_ok d"
  obtain y d1 where md: "m d = (y, d1)" by fastforce
  show "case andThen m f d of
      (Inr x, d') \<Rightarrow> andThen m' f' (dec_reader d) = (Inr x, dec_reader d') \<and> dec_ok d'
    | (Inl _, d') \<Rightarrow> (\<exists>e r. andThen m' f' (dec_reader d) = (Inl e, r)) \<and> dec_ok d'"
  proof (cases y)
    case (Inl e)
    with sim_Inl [OF m d] md show ?thesis by auto
  next
    case (Inr x)
    with sim_Inr [OF m d] md have m': "m' (dec_reader d) = (Inr x, dec_reader d1)" and d1: "dec_ok d1"
      by auto
    then have steps: "andThen m f d = f x d1" "andThen m' f' (dec_reader d) = f' x (dec_reader d1)"
      using md Inr by simp_all
    show ?thesis unfolding steps using f [OF m'] d1 by (simp add: simulates_def)
  qed
qed

lemma sim_andThen [sim_intros]:
  "simulates m m' \<Longrightarrow> (\<And>x. simulates (f x) (f' x)) \<Longrightarrow> simulates (andThen m f) (andThen m' f')"
  by (rule sim_andThen_result)

lemma sim_if [sim_intros]:
  "(c \<Longrightarrow> simulates m m') \<Longrightarrow> (\<not> c \<Longrightarrow> simulates n n') \<Longrightarrow>
     simulates (if c then m else n) (if c then m' else n')"
  by simp

lemma sim_take_bytes [sim_intros]: "n = int k \<Longrightarrow> simulates (take_bytes n) (ReadFull k)"
  by (auto simp: simulates_def take_bytes_eq ReadFull_short dec_ok_advance)

lemma sim_primitives [sim_intros]:
  "simulates Decoder_ReadUint32 ReadUint32" "simulates Decoder_ReadInt32 ReadInt32"
  "simulates Decoder_ReadUint64 ReadUint64" "simulates Decoder_ReadInt64 ReadInt64"
  "simulates Decoder_ReadDouble ReadDouble" "simulates Decoder_ReadInt128 ReadInt128"
  "simulates Decoder_ReadInt256 ReadInt256" "simulates Decoder_ReadBool ReadBool"
  unfolding Decoder_ReadUint32_def ReadUint32_def Decoder_ReadInt32_def ReadInt32_def
    Decoder_ReadUint64_def ReadUint64_def Decoder_ReadInt64_def ReadInt64_def Decoder_ReadDouble_def
    ReadDouble_def Decoder_ReadInt128_def ReadInt128_def Decoder_ReadInt256_def ReadInt256_def
    Decoder_ReadBool_def ReadBool_def
  by (intro sim_intros; simp)+

text \<open>The payload of a byte string: the cursor checks payload and padding at once, the stream
  reader one after the other.\<close>

lemma sizedThenPadding:
  "n + p \<le> avail r \<Longrightarrow>
     andThen (ReadSizedBytes (int n)) (\<lambda>data.
       if p > 0 then andThen (ReadFull p) (\<lambda>_. ret data) else ret data) r =
     (Inr (take n (rdata r)), advance (n + p) r)"
  by (auto simp: ReadSizedBytes_def BudgetReader_Len_avail andThen_def avail_advance)

lemma sizedThenPadding_short:
  assumes "avail r < n + p"
  shows "\<exists>e r'. andThen (ReadSizedBytes (int n)) (\<lambda>data.
       if p > 0 then andThen (ReadFull p) (\<lambda>_. ret data) else ret data) r = (Inl e, r')"
proof (cases "n \<le> avail r")
  case True
  with assms have "0 < p" "avail (advance n r) < p" by (auto simp: avail_advance)
  with True show ?thesis
    by (simp add: ReadSizedBytes_def BudgetReader_Len_avail andThen_def ReadFull_short)
qed (simp add: ReadSizedBytes_def BudgetReader_Len_avail andThen_def)

lemma sim_payload:
  "simulates (andThen (requireAvailable (int n + int p)) (\<lambda>_ d.
       if dreader d = None
       then andThen (take_bytes (int n + int p)) (\<lambda>q. ret (take (nat (int n)) q)) d
       else andThen (streamReadFull (nat (int n))) (\<lambda>q. andThen (take_bytes (int p)) (\<lambda>_. ret q)) d))
     (andThen (ReadSizedBytes (int n)) (\<lambda>data.
       if p > 0 then andThen (ReadFull p) (\<lambda>_. ret data) else ret data))"
  (is "simulates ?m ?m'")
  unfolding simulates_def
proof (intro allI impI)
  fix d assume d: "dec_ok d"
  note req = requireAvailable_eq [OF d, of "n + p", unfolded of_nat_add]
  note tk = take_bytes_eq [OF d, of "n + p", unfolded of_nat_add]
  show "case ?m d of
      (Inr x, d') \<Rightarrow> ?m' (dec_reader d) = (Inr x, dec_reader d') \<and> dec_ok d'
    | (Inl _, d') \<Rightarrow> (\<exists>e r. ?m' (dec_reader d) = (Inl e, r)) \<and> dec_ok d'"
  proof (cases "n + p \<le> avail (dec_reader d)")
    case True
    have "?m d = (Inr (take n (rdata (dec_reader d))), dec_advance (n + p) d)"
    proof (cases "dreader d = None")
      case False
      have "dec_ok (dec_advance n d)" using True d by (simp add: dec_ok_advance)
      moreover have "dec_advance p (dec_advance n d) = dec_advance (n + p) d"
        by (auto simp: dec_advance_def add.commute split: option.splits)
      moreover have "p \<le> avail (dec_reader d) - n" using True by simp
      ultimately show ?thesis using False True
        by (auto simp: andThen_def req streamReadFull_eq take_bytes_eq avail_advance)
    qed (use True in \<open>simp add: andThen_def req tk take_take\<close>)
    with True d show ?thesis by (simp add: sizedThenPadding dec_ok_advance)
  next
    case False
    then have "\<exists>e. ?m d = (Inl e, d)" by (simp add: andThen_def req)
    with sizedThenPadding_short [of "dec_reader d" n p] False d show ?thesis by auto
  qed
qed

lemma sim_ReadBytes [sim_intros]:
  "simulates Decoder_ReadBytes ReadBytes" "simulates Decoder_ReadString ReadString"
proof -
  have payload: "simulates
     (let padding = (4 - (header + n) mod 4) mod 4 in
      andThen (requireAvailable (n + padding)) (\<lambda>_ d.
        if dreader d = None then andThen (take_bytes (n + padding)) (\<lambda>p. ret (take (nat n) p)) d
        else andThen (streamReadFull (nat n)) (\<lambda>p. andThen (take_bytes padding) (\<lambda>_. ret p)) d))
     (andThen (ReadSizedBytes n) (\<lambda>data.
        let padding = (4 - ((header + n) mod 4)) mod 4 in
        if padding > 0 then andThen (ReadFull (nat padding)) (\<lambda>_. ret data) else ret data))"
    if "0 \<le> n" for n header
  proof -
    obtain k where k: "n = int k" using \<open>0 \<le> n\<close> by (metis nonneg_int_cases)
    obtain p where p: "(4 - (header + int k) mod 4) mod 4 = int p"
      by (metis nonneg_int_cases pos_mod_sign zero_less_numeral)
    show ?thesis unfolding k Let_def p using sim_payload [of k p] by (simp cong: if_cong)
  qed
  have three: "le_int (b @ [0]) = le_int b" for b by (induction b) auto
  have "simulates byteSpan ReadBytes"
    unfolding byteSpan_def ReadBytes_def
  proof (intro sim_andThen sim_take_bytes)
    fix prefix :: bytes
    let ?first = "uint (hd prefix)"
    have first: "0 \<le> ?first" "?first < 256" using uint_lt2p [of "hd prefix"] by simp_all
    consider "?first = 255" | "?first = 254" | "?first < 254" using first by linarith
    then show "simulates
      (let first = ?first in
       if first = 255 then raise (MessageError InvalidMessageLength)
       else andThen (if first = 254 then andThen (take_bytes 3) (\<lambda>p. ret (le_int p, 4))
                     else ret (first, 1)) (\<lambda>(n, header).
         let padding = (4 - (header + n) mod 4) mod 4 in
         andThen (requireAvailable (n + padding)) (\<lambda>_ d.
           if dreader d = None then andThen (take_bytes (n + padding)) (\<lambda>p. ret (take (nat n) p)) d
           else andThen (streamReadFull (nat n)) (\<lambda>p. andThen (take_bytes padding) (\<lambda>_. ret p)) d)))
      (let first = ?first in
       if first = 255 then raise (MessageError InvalidMessageLength)
       else
         andThen (if first < 254 then ret (first, 1)
                  else andThen (ReadFull 3) (\<lambda>b. ret (le_int (b @ [0]), 4)))
           (\<lambda>(len, headerSize).
              if len > max_i32 then raise (MTProtoError StringTooLong)
              else andThen (ReadSizedBytes len) (\<lambda>data.
                let padding = (4 - ((headerSize + len) mod 4)) mod 4 in
                if padding > 0 then andThen (ReadFull (nat padding)) (\<lambda>_. ret data)
                else ret data)))"
    proof cases
      case 1
      then show ?thesis by (simp add: sim_raise)
    next
      case 2
      have "simulates (andThen (take_bytes 3) (\<lambda>b.
          let padding = (4 - (4 + le_int b) mod 4) mod 4 in
          andThen (requireAvailable (le_int b + padding)) (\<lambda>_ d.
            if dreader d = None
            then andThen (take_bytes (le_int b + padding)) (\<lambda>p. ret (take (nat (le_int b)) p)) d
            else andThen (streamReadFull (nat (le_int b))) (\<lambda>p.
              andThen (take_bytes padding) (\<lambda>_. ret p)) d)))
        (andThen (ReadFull 3) (\<lambda>b.
          if le_int b > max_i32 then raise (MTProtoError StringTooLong)
          else andThen (ReadSizedBytes (le_int b)) (\<lambda>data.
            let padding = (4 - ((4 + le_int b) mod 4)) mod 4 in
            if padding > 0 then andThen (ReadFull (nat padding)) (\<lambda>_. ret data) else ret data)))"
      proof (rule sim_andThen_result)
        fix b r r' assume "ReadFull 3 r = (Inr b, r')"
        then have "length b = 3" using avail_le_length [of r] by (auto simp: ReadFull_Inr_iff)
        then have "\<not> le_int b > max_i32" using le_int_less [of b] by (simp add: max_i32_def)
        with payload [of "le_int b" 4] show "simulates
         (let padding = (4 - (4 + le_int b) mod 4) mod 4 in
          andThen (requireAvailable (le_int b + padding)) (\<lambda>_ d.
            if dreader d = None
            then andThen (take_bytes (le_int b + padding)) (\<lambda>p. ret (take (nat (le_int b)) p)) d
            else andThen (streamReadFull (nat (le_int b))) (\<lambda>p.
              andThen (take_bytes padding) (\<lambda>_. ret p)) d))
         (if le_int b > max_i32 then raise (MTProtoError StringTooLong)
          else andThen (ReadSizedBytes (le_int b)) (\<lambda>data.
            let padding = (4 - ((4 + le_int b) mod 4)) mod 4 in
            if padding > 0 then andThen (ReadFull (nat padding)) (\<lambda>_. ret data) else ret data))"
          by simp
      qed (simp add: sim_take_bytes)
      moreover have "(254 :: int) \<noteq> 255" "\<not> (254 :: int) < 254" by simp_all
      ultimately show ?thesis
        by (simp only: 2 Let_def andThen_assoc andThen_ret prod.case three if_True if_False simp_thms)
    next
      case 3
      then have "\<not> ?first > max_i32" by (simp add: max_i32_def)
      with 3 payload [OF first(1), of 1] show ?thesis by (simp add: Let_def)
    qed
  qed simp
  then show "simulates Decoder_ReadBytes ReadBytes" "simulates Decoder_ReadString ReadString"
    by (simp_all add: Decoder_ReadBytes_def Decoder_ReadString_def ReadString_def)
qed

lemma sim_Inr_iff:
  assumes "simulates m m'" "dec_ok d"
  shows "(\<exists>d'. m d = (Inr x, d') \<and> dec_reader d' = r') \<longleftrightarrow> m' (dec_reader d) = (Inr x, r')"
proof -
  obtain y d1 where "m d = (y, d1)" by fastforce
  with sim_Inl [OF assms] sim_Inr [OF assms] show ?thesis by (cases y) force+
qed

section \<open>The encoder writes what the stream writers write\<close>

text \<open>\<open>encodes m bs\<close>: in buffer mode \<open>m\<close> appends exactly \<open>bs\<close>, or reports the byte
  limit when they do not fit.  \<open>streams m m'\<close>: in stream mode \<open>m\<close> does to its writer
  what the stream serializer \<open>m'\<close> does.\<close>

definition encodes :: "(Encoder, unit) io \<Rightarrow> bytes \<Rightarrow> bool" where
  "encodes m bs \<longleftrightarrow>
     (\<forall>e. ewriter e = None \<longrightarrow> int (length (edata e)) \<le> elimit e \<longrightarrow>
        (if int (length (edata e) + length bs) \<le> elimit e
         then m e = (Inr (), e\<lparr>edata := edata e @ bs\<rparr>)
         else \<exists>e'. m e = (Inl (MessageError EncodedBytesLimit), e')))"

definition streams :: "(Encoder, unit) io \<Rightarrow> (writer, unit) io \<Rightarrow> bool" where
  "streams m m' \<longleftrightarrow>
     (\<forall>e w. ewriter e = Some w \<longrightarrow> (\<forall>k. wremaining w = Some k \<longrightarrow> 0 \<le> k) \<longrightarrow>
        m e = (fst (m' w), e\<lparr>ewriter := Some (snd (m' w))\<rparr>) \<and>
        (\<forall>k. wremaining (snd (m' w)) = Some k \<longrightarrow> 0 \<le> k))"

lemma encodes_fits:
  "encodes m bs \<Longrightarrow> ewriter e = None \<Longrightarrow> int (length (edata e) + length bs) \<le> elimit e \<Longrightarrow>
     m e = (Inr (), e\<lparr>edata := edata e @ bs\<rparr>)"
  by (drule encodes_def [THEN iffD1, rule_format, of _ _ e]) simp_all

lemma encodes_exceeds:
  "encodes m bs \<Longrightarrow> ewriter e = None \<Longrightarrow> int (length (edata e)) \<le> elimit e \<Longrightarrow>
     elimit e < int (length (edata e) + length bs) \<Longrightarrow>
     \<exists>e'. m e = (Inl (MessageError EncodedBytesLimit), e')"
  by (drule encodes_def [THEN iffD1, rule_format, of _ _ e]) simp_all

lemma encodes_Write [emit_intros]: "encodes (Encoder_Write p) p"
  by (auto simp: encodes_def Encoder_Write_def Encoder_reserve_def andThen_def)

lemma encodes_ret [emit_intros]: "encodes (ret ()) []"
  by (simp add: encodes_def)

lemma encodes_andThen [emit_intros]:
  assumes m: "encodes m a" and f: "encodes (f ()) b"
  shows "encodes (andThen m f) (a @ b)"
  unfolding encodes_def
proof (intro allI impI)
  fix e :: Encoder assume e: "ewriter e = None" "int (length (edata e)) \<le> elimit e"
  show "if int (length (edata e) + length (a @ b)) \<le> elimit e
     then andThen m f e = (Inr (), e\<lparr>edata := edata e @ a @ b\<rparr>)
     else \<exists>e'. andThen m f e = (Inl (MessageError EncodedBytesLimit), e')"
  proof (cases "int (length (edata e) + length a) \<le> elimit e")
    case True
    let ?e = "e\<lparr>edata := edata e @ a\<rparr>"
    have step: "andThen m f e = f () ?e" using encodes_fits [OF m e(1) True] by simp
    from e True encodes_fits [OF f, of ?e] encodes_exceeds [OF f, of ?e] show ?thesis
      unfolding step by (auto simp: not_le)
  next
    case False
    with encodes_exceeds [OF m e] show ?thesis by auto
  qed
qed

lemma encodes_forEach [emit_intros]:
  "(\<And>x. x \<in> set xs \<Longrightarrow> encodes (f x) (enc x)) \<Longrightarrow> encodes (forEach xs f) (concat (map enc xs))"
  by (induction xs) (auto intro!: emit_intros)

lemma encodes_primitives [emit_intros]:
  "encodes (Encoder_WriteUint32 v) (le_bytes 4 v)"
  "encodes (Encoder_WriteInt32 v) (le_bytes 4 v)"
  "encodes (Encoder_WriteUint64 v) (le_bytes 8 v)"
  "encodes (Encoder_WriteInt64 v) (le_bytes 8 v)"
  "encodes (Encoder_WriteDouble v) (le_bytes 8 v)"
  "encodes (Encoder_WriteInt128 b) b"
  "encodes (Encoder_WriteInt256 b) b"
  "encodes (Encoder_WriteBool x) (le_bytes 4 (if x then BoolTrue else BoolFalse))"
proof -
  have u32: "encodes (Encoder_WriteUint32 v) (le_bytes 4 v)" for v
    by (auto simp: encodes_def Encoder_WriteUint32_def Encoder_reserve_def andThen_def)
  have u64: "encodes (Encoder_WriteUint64 v) (le_bytes 8 v)" for v
    by (auto simp: encodes_def Encoder_WriteUint64_def Encoder_reserve_def andThen_def)
  show "encodes (Encoder_WriteUint32 v) (le_bytes 4 v)"
    "encodes (Encoder_WriteInt32 v) (le_bytes 4 v)"
    "encodes (Encoder_WriteUint64 v) (le_bytes 8 v)"
    "encodes (Encoder_WriteInt64 v) (le_bytes 8 v)"
    "encodes (Encoder_WriteDouble v) (le_bytes 8 v)"
    "encodes (Encoder_WriteInt128 b) b"
    "encodes (Encoder_WriteInt256 b) b"
    "encodes (Encoder_WriteBool x) (le_bytes 4 (if x then BoolTrue else BoolFalse))"
    using u32 [of v] u32 [of "u32 v"] u64 [of v] u64 [of "u64 v"] u32 [of BoolTrue] u32 [of BoolFalse]
      encodes_Write [of b]
    by (simp_all add: Encoder_WriteInt32_def Encoder_WriteInt64_def Encoder_WriteDouble_def
        Encoder_WriteInt128_def Encoder_WriteInt256_def Encoder_WriteBool_def)
qed

text \<open>The header of a byte string and the number of padding bytes after it.\<close>

definition enc_header :: "nat \<Rightarrow> bytes" where
  "enc_header n = (if n < 254 then [word_of_int (int n)] else 254 # le_bytes 3 (int n))"

lemma enc_bytes_header:
  "enc_bytes v = enc_header (length v) @ v @ tl_padding (length (enc_header (length v))) (length v)"
  by (simp add: enc_bytes_def enc_header_def)

lemma scratch_header:
  "(if int n < 254 then (1, [word_of_int (int n)])
    else (4, [254, word_of_int (int n), word_of_int (int n div 2 ^ 8), word_of_int (int n div 2 ^ 16)]))
   = (int (length (enc_header n)), enc_header n)"
  by (simp add: enc_header_def numeral_3_eq_3 zdiv_zmult2_eq [symmetric])

lemma padding_length:
  "(4 - (int (length (enc_header n)) + int n) mod 4) mod 4 = int (length (tl_padding (length (enc_header n)) n))"
  unfolding padding_int tl_padding_def by simp

lemma bytesHeader_eq:
  assumes "n < 2 ^ 24"
  shows "Encoder_bytesHeader (int n) =
    andThen (\<lambda>e. if ewriter e = None
               then Encoder_reserve (int (length (enc_header n) + n + length (tl_padding (length (enc_header n)) n))) e
               else (Inr (), e))
      (\<lambda>_. andThen (Encoder_Write (enc_header n))
        (\<lambda>_. ret (int (length (tl_padding (length (enc_header n)) n)))))"
proof -
  have "\<not> (int n < 0 \<or> int n > MaxTLBytesLength)" using assms by (simp add: MaxTLBytesLength_def)
  then show ?thesis
    unfolding Encoder_bytesHeader_def scratch_header prod.case Let_def padding_length
    by (simp add: fun_eq_iff cong: if_cong)
qed

lemma Encoder_padding_eq:
  "Encoder_padding (int (length (tl_padding h n))) = Encoder_Write (tl_padding h n)"
  by (simp add: Encoder_padding_def tl_padding_def)

lemma encodes_byteString:
  assumes v: "length v < 2 ^ 24"
    and body: "\<And>e. ewriter e = None \<Longrightarrow> int (length (edata e) + length v) \<le> elimit e \<Longrightarrow>
      m e = (Inr (), e\<lparr>edata := edata e @ v\<rparr>)"
  shows "encodes (andThen (Encoder_bytesHeader (int (length v)))
    (\<lambda>padding. andThen m (\<lambda>_. Encoder_padding padding))) (enc_bytes v)"
  unfolding encodes_def
proof (intro allI impI)
  fix e :: Encoder assume e: "ewriter e = None" "int (length (edata e)) \<le> elimit e"
  let ?h = "enc_header (length v)" and ?p = "tl_padding (length (enc_header (length v))) (length v)"
  have len: "length (enc_bytes v) = length ?h + length v + length ?p"
    by (simp add: enc_bytes_header)
  note hd = bytesHeader_eq [OF v]
  show "if int (length (edata e) + length (enc_bytes v)) \<le> elimit e
    then andThen (Encoder_bytesHeader (int (length v))) (\<lambda>padding. andThen m (\<lambda>_. Encoder_padding padding)) e
       = (Inr (), e\<lparr>edata := edata e @ enc_bytes v\<rparr>)
    else \<exists>e'. andThen (Encoder_bytesHeader (int (length v))) (\<lambda>padding. andThen m (\<lambda>_. Encoder_padding padding)) e
       = (Inl (MessageError EncodedBytesLimit), e')"
  proof (cases "int (length (edata e) + length (enc_bytes v)) \<le> elimit e")
    case True
    then have fit: "Encoder_reserve (int (length ?h + length v + length ?p)) e = (Inr (), e)"
      using len by (simp add: Encoder_reserve_def)
    have "Encoder_Write ?h e = (Inr (), e\<lparr>edata := edata e @ ?h\<rparr>)"
      using True e len by (intro encodes_fits [OF encodes_Write]) simp_all
    moreover have "m (e\<lparr>edata := edata e @ ?h\<rparr>) = (Inr (), e\<lparr>edata := edata e @ ?h @ v\<rparr>)"
      using True e len body [of "e\<lparr>edata := edata e @ ?h\<rparr>"] by simp
    moreover have "Encoder_Write ?p (e\<lparr>edata := edata e @ ?h @ v\<rparr>) = (Inr (), e\<lparr>edata := edata e @ enc_bytes v\<rparr>)"
      using True e len encodes_fits [OF encodes_Write, of "e\<lparr>edata := edata e @ ?h @ v\<rparr>" ?p]
      by (simp add: enc_bytes_header)
    ultimately show ?thesis
      using True e fit unfolding hd andThen_assoc by (simp add: andThen_def Encoder_padding_eq)
  next
    case False
    then have "Encoder_reserve (int (length ?h + length v + length ?p)) e = (Inl (MessageError EncodedBytesLimit), e)"
      using len by (simp add: Encoder_reserve_def)
    then show ?thesis using False e(1) unfolding hd andThen_assoc by (simp add: andThen_def)
  qed
qed

lemma encodes_WriteBytes [emit_intros]:
  assumes "length v < 2 ^ 24"
  shows "encodes (Encoder_WriteBytes v) (enc_bytes v)" "encodes (Encoder_WriteString v) (enc_bytes v)"
  unfolding Encoder_WriteBytes_def Encoder_WriteString_def
  by (rule encodes_byteString [OF assms], simp add: encodes_fits [OF encodes_Write])
    (rule encodes_byteString [OF assms], simp)

text \<open>Stream mode.\<close>

lemma streams_Write: "streams (Encoder_Write p) (boundedRuntimeWriter_Write p)"
  by (auto simp: streams_def Encoder_Write_def boundedRuntimeWriter_Write_def split: option.splits)

lemma streams_andThen:
  assumes m: "streams m m'" and f: "streams (f ()) (f' ())"
  shows "streams (andThen m f) (andThen m' f')"
  unfolding streams_def
proof (intro allI impI)
  fix e :: Encoder and w assume e: "ewriter e = Some w" and w: "\<forall>k. wremaining w = Some k \<longrightarrow> 0 \<le> k"
  obtain x w1 where m': "m' w = (x, w1)" by fastforce
  from m [unfolded streams_def, rule_format, of e w] e w m'
  have md: "m e = (x, e\<lparr>ewriter := Some w1\<rparr>)" and w1: "\<forall>k. wremaining w1 = Some k \<longrightarrow> 0 \<le> k"
    by auto
  from f [unfolded streams_def, rule_format, of "e\<lparr>ewriter := Some w1\<rparr>" w1] w1
  show "andThen m f e = (fst (andThen m' f' w), e\<lparr>ewriter := Some (snd (andThen m' f' w))\<rparr>) \<and>
    (\<forall>k. wremaining (snd (andThen m' f' w)) = Some k \<longrightarrow> 0 \<le> k)"
    by (cases x) (auto simp: md m' andThen_def)
qed

lemma streams_cong:
  "streams m m' \<Longrightarrow> (\<And>e. ewriter e \<noteq> None \<Longrightarrow> n e = m e) \<Longrightarrow> streams n m'"
  unfolding streams_def by (metis option.distinct(1))

lemma streams_primitives:
  "streams (Encoder_WriteUint32 v) (WriteUint32 v)" "streams (Encoder_WriteInt32 v) (WriteInt32 v)"
  "streams (Encoder_WriteUint64 v) (WriteUint64 v)" "streams (Encoder_WriteInt64 v) (WriteInt64 v)"
  "streams (Encoder_WriteDouble v) (WriteDouble v)" "streams (Encoder_WriteInt128 b) (WriteInt128 b)"
  "streams (Encoder_WriteInt256 b) (WriteInt256 b)" "streams (Encoder_WriteBool x) (WriteBool x)"
proof -
  have u32: "streams (Encoder_WriteUint32 v) (WriteUint32 v)" for v
    unfolding WriteUint32_def
    by (rule streams_cong [OF streams_Write]) (auto simp: Encoder_WriteUint32_def)
  have u64: "streams (Encoder_WriteUint64 v) (WriteUint64 v)" for v
    unfolding WriteUint64_def
    by (rule streams_cong [OF streams_Write]) (auto simp: Encoder_WriteUint64_def)
  show "streams (Encoder_WriteUint32 v) (WriteUint32 v)" "streams (Encoder_WriteInt32 v) (WriteInt32 v)"
    "streams (Encoder_WriteUint64 v) (WriteUint64 v)" "streams (Encoder_WriteInt64 v) (WriteInt64 v)"
    "streams (Encoder_WriteDouble v) (WriteDouble v)" "streams (Encoder_WriteInt128 b) (WriteInt128 b)"
    "streams (Encoder_WriteInt256 b) (WriteInt256 b)" "streams (Encoder_WriteBool x) (WriteBool x)"
    by (simp_all add: u32 u64 streams_Write Encoder_WriteInt32_def WriteInt32_def Encoder_WriteInt64_def
        WriteInt64_def Encoder_WriteDouble_def WriteDouble_def Encoder_WriteInt128_def WriteInt128_def
        Encoder_WriteInt256_def WriteInt256_def Encoder_WriteBool_def WriteBool_def)
qed

lemma streams_padding:
  "streams (Encoder_Write (tl_padding h n))
    (let padding = (4 - ((int h + int n) mod 4)) mod 4 in
     if padding > 0 then boundedRuntimeWriter_Write (replicate (nat padding) 0) else ret ())"
proof (cases "(4 - (h + n) mod 4) mod 4 = 0")
  case True
  have "streams (Encoder_Write []) (ret ())"
    by (auto simp: streams_def Encoder_Write_def boundedRuntimeWriter_Write_def split: option.splits)
  with True show ?thesis unfolding padding_int Let_def tl_padding_def by simp
next
  case False
  then show ?thesis
    using streams_Write [of "tl_padding h n"] unfolding padding_int Let_def tl_padding_def by simp
qed

lemma streams_WriteBytes:
  "streams (Encoder_WriteBytes v) (WriteBytes v)" "streams (Encoder_WriteString v) (WriteString v)"
proof -
  let ?h = "enc_header (length v)" and ?p = "tl_padding (length (enc_header (length v))) (length v)"
  have short: "streams (andThen (Encoder_Write ?h) (\<lambda>_. andThen (Encoder_Write v) (\<lambda>_. Encoder_Write ?p)))
      (WriteBytes v)" if v: "length v < 2 ^ 24"
  proof (cases "length v < 254")
    case True
    then have "WriteBytes v = andThen (boundedRuntimeWriter_Write ?h) (\<lambda>_.
        andThen (boundedRuntimeWriter_Write v) (\<lambda>_.
          let padding = (4 - ((int (length ?h) + int (length v)) mod 4)) mod 4 in
          if padding > 0 then boundedRuntimeWriter_Write (replicate (nat padding) 0) else ret ()))"
      by (simp add: WriteBytes_def enc_header_def Let_def)
    then show ?thesis by (simp only:) (intro streams_andThen streams_Write streams_padding)
  next
    case False
    have header: "[0xFE, word_of_int l, word_of_int (l div 2 ^ 8), word_of_int (l div 2 ^ 16)]
        = 254 # le_bytes 3 l" for l :: int
      by (simp add: numeral_3_eq_3 zdiv_zmult2_eq [symmetric])
    have "WriteBytes v = andThen (boundedRuntimeWriter_Write ?h) (\<lambda>_.
        andThen (boundedRuntimeWriter_Write v) (\<lambda>_.
          let padding = (4 - ((int (length ?h) + int (length v)) mod 4)) mod 4 in
          if padding > 0 then boundedRuntimeWriter_Write (replicate (nat padding) 0) else ret ()))"
      unfolding WriteBytes_def Let_def [of "int (length v)"] header
      using False v by (simp add: enc_header_def MaxTLBytesLength_def)
    then show ?thesis by (simp only:) (intro streams_andThen streams_Write streams_padding)
  qed
  have long: "streams (andThen (Encoder_bytesHeader (int (length v))) f) (WriteBytes v)"
    if "2 ^ 24 \<le> length v" for f
  proof -
    from that have "int (length v) > MaxTLBytesLength" by (simp add: MaxTLBytesLength_def)
    with WriteBytes_too_long [OF that] show ?thesis
      by (simp add: streams_def Encoder_bytesHeader_def andThen_def)
  qed
  have "streams (Encoder_WriteBytes v) (WriteBytes v) \<and> streams (Encoder_WriteString v) (WriteBytes v)"
  proof (cases "length v < 2 ^ 24")
    case True
    have "Encoder_WriteBytes v e = andThen (Encoder_Write ?h) (\<lambda>_. andThen (Encoder_Write v) (\<lambda>_. Encoder_Write ?p)) e"
        "Encoder_WriteString v e = andThen (Encoder_Write ?h) (\<lambda>_. andThen (Encoder_Write v) (\<lambda>_. Encoder_Write ?p)) e"
      if e: "ewriter e \<noteq> None" for e
    proof -
      have head: "Encoder_bytesHeader (int (length v)) e =
          andThen (Encoder_Write ?h) (\<lambda>_. ret (int (length ?p))) e"
        using e by (auto simp: bytesHeader_eq [OF True] andThen_def)
      have step: "andThen (Encoder_bytesHeader (int (length v))) f e =
          andThen (Encoder_Write ?h) (\<lambda>_. f (int (length ?p))) e" for f :: "int \<Rightarrow> (Encoder, unit) io"
        using andThen_cong_state [of "Encoder_bytesHeader (int (length v))" e
            "andThen (Encoder_Write ?h) (\<lambda>_. ret (int (length ?p)))" f f] head
        by (simp only: andThen_assoc andThen_ret)
      show "Encoder_WriteBytes v e =
          andThen (Encoder_Write ?h) (\<lambda>_. andThen (Encoder_Write v) (\<lambda>_. Encoder_Write ?p)) e"
        unfolding Encoder_WriteBytes_def step Encoder_padding_eq ..
      have body: "(case ewriter t of None \<Rightarrow> (Inr (), t\<lparr>edata := edata t @ v\<rparr>)
          | Some w \<Rightarrow> (case boundedRuntimeWriter_Write v w of (r, w') \<Rightarrow> (r, t\<lparr>ewriter := Some w'\<rparr>)))
          = Encoder_Write v t" if "Encoder_Write ?h e = (Inr x, t)" for x t
        using that e by (auto simp: Encoder_Write_def split: option.splits prod.splits)
      show "Encoder_WriteString v e =
          andThen (Encoder_Write ?h) (\<lambda>_. andThen (Encoder_Write v) (\<lambda>_. Encoder_Write ?p)) e"
        unfolding Encoder_WriteString_def step Encoder_padding_eq
        by (intro andThen_cong_state refl) (erule body)
    qed
    with streams_cong [OF short [OF True]] show ?thesis by blast
  next
    case False
    with long show ?thesis by (simp add: Encoder_WriteBytes_def Encoder_WriteString_def not_less)
  qed
  then show "streams (Encoder_WriteBytes v) (WriteBytes v)" "streams (Encoder_WriteString v) (WriteString v)"
    by (simp_all add: WriteString_def)
qed

section \<open>Sequences of fields\<close>

text \<open>A generated codec writes and reads the fields of a constructor one after the other with the
  operations above; a field value names the operation.\<close>

datatype field =
    FUint32 int | FInt32 int | FUint64 int | FInt64 int | FDouble int
  | FInt128 bytes | FInt256 bytes | FBool bool | FBytes bytes | FString bytes

fun field_ok :: "field \<Rightarrow> bool" where
  "field_ok (FUint32 v) = in_u32 v"
| "field_ok (FInt32 v) = in_i32 v"
| "field_ok (FUint64 v) = in_u64 v"
| "field_ok (FInt64 v) = in_i64 v"
| "field_ok (FDouble v) = in_u64 v"
| "field_ok (FInt128 b) = (length b = 16)"
| "field_ok (FInt256 b) = (length b = 32)"
| "field_ok (FBool x) = True"
| "field_ok (FBytes b) = (length b < 2 ^ 24)"
| "field_ok (FString b) = (length b < 2 ^ 24)"

fun field_bytes :: "field \<Rightarrow> bytes" where
  "field_bytes (FUint32 v) = le_bytes 4 v"
| "field_bytes (FInt32 v) = le_bytes 4 v"
| "field_bytes (FUint64 v) = le_bytes 8 v"
| "field_bytes (FInt64 v) = le_bytes 8 v"
| "field_bytes (FDouble v) = le_bytes 8 v"
| "field_bytes (FInt128 b) = b"
| "field_bytes (FInt256 b) = b"
| "field_bytes (FBool x) = le_bytes 4 (if x then BoolTrue else BoolFalse)"
| "field_bytes (FBytes b) = enc_bytes b"
| "field_bytes (FString b) = enc_bytes b"

fun encodeField :: "field \<Rightarrow> (Encoder, unit) io" where
  "encodeField (FUint32 v) = Encoder_WriteUint32 v"
| "encodeField (FInt32 v) = Encoder_WriteInt32 v"
| "encodeField (FUint64 v) = Encoder_WriteUint64 v"
| "encodeField (FInt64 v) = Encoder_WriteInt64 v"
| "encodeField (FDouble v) = Encoder_WriteDouble v"
| "encodeField (FInt128 b) = Encoder_WriteInt128 b"
| "encodeField (FInt256 b) = Encoder_WriteInt256 b"
| "encodeField (FBool x) = Encoder_WriteBool x"
| "encodeField (FBytes b) = Encoder_WriteBytes b"
| "encodeField (FString b) = Encoder_WriteString b"

fun writeField :: "field \<Rightarrow> (writer, unit) io" where
  "writeField (FUint32 v) = WriteUint32 v"
| "writeField (FInt32 v) = WriteInt32 v"
| "writeField (FUint64 v) = WriteUint64 v"
| "writeField (FInt64 v) = WriteInt64 v"
| "writeField (FDouble v) = WriteDouble v"
| "writeField (FInt128 b) = WriteInt128 b"
| "writeField (FInt256 b) = WriteInt256 b"
| "writeField (FBool x) = WriteBool x"
| "writeField (FBytes b) = WriteBytes b"
| "writeField (FString b) = WriteString b"

text \<open>Reading a field of the kind of the given one.\<close>

fun decodeField :: "field \<Rightarrow> (Decoder, field) io" where
  "decodeField (FUint32 _) = andThen Decoder_ReadUint32 (\<lambda>v. ret (FUint32 v))"
| "decodeField (FInt32 _) = andThen Decoder_ReadInt32 (\<lambda>v. ret (FInt32 v))"
| "decodeField (FUint64 _) = andThen Decoder_ReadUint64 (\<lambda>v. ret (FUint64 v))"
| "decodeField (FInt64 _) = andThen Decoder_ReadInt64 (\<lambda>v. ret (FInt64 v))"
| "decodeField (FDouble _) = andThen Decoder_ReadDouble (\<lambda>v. ret (FDouble v))"
| "decodeField (FInt128 _) = andThen Decoder_ReadInt128 (\<lambda>v. ret (FInt128 v))"
| "decodeField (FInt256 _) = andThen Decoder_ReadInt256 (\<lambda>v. ret (FInt256 v))"
| "decodeField (FBool _) = andThen Decoder_ReadBool (\<lambda>v. ret (FBool v))"
| "decodeField (FBytes _) = andThen Decoder_ReadBytes (\<lambda>v. ret (FBytes v))"
| "decodeField (FString _) = andThen Decoder_ReadString (\<lambda>v. ret (FString v))"

fun readField :: "field \<Rightarrow> (reader, field) io" where
  "readField (FUint32 _) = andThen ReadUint32 (\<lambda>v. ret (FUint32 v))"
| "readField (FInt32 _) = andThen ReadInt32 (\<lambda>v. ret (FInt32 v))"
| "readField (FUint64 _) = andThen ReadUint64 (\<lambda>v. ret (FUint64 v))"
| "readField (FInt64 _) = andThen ReadInt64 (\<lambda>v. ret (FInt64 v))"
| "readField (FDouble _) = andThen ReadDouble (\<lambda>v. ret (FDouble v))"
| "readField (FInt128 _) = andThen ReadInt128 (\<lambda>v. ret (FInt128 v))"
| "readField (FInt256 _) = andThen ReadInt256 (\<lambda>v. ret (FInt256 v))"
| "readField (FBool _) = andThen ReadBool (\<lambda>v. ret (FBool v))"
| "readField (FBytes _) = andThen ReadBytes (\<lambda>v. ret (FBytes v))"
| "readField (FString _) = andThen ReadString (\<lambda>v. ret (FString v))"

fun mapM :: "('a \<Rightarrow> ('s, 'b) io) \<Rightarrow> 'a list \<Rightarrow> ('s, 'b list) io" where
  "mapM f [] = ret []"
| "mapM f (x # xs) = andThen (f x) (\<lambda>y. andThen (mapM f xs) (\<lambda>ys. ret (y # ys)))"

lemma encodes_field: "field_ok f \<Longrightarrow> encodes (encodeField f) (field_bytes f)"
  by (cases f) (auto intro!: encodes_primitives encodes_WriteBytes split del: if_split)

lemma emits_field: "field_ok f \<Longrightarrow> emits (writeField f) (field_bytes f)"
  by (cases f) (auto intro!: emits_primitives emits_WriteBytes emits_WriteString split del: if_split)

lemma streams_field: "streams (encodeField f) (writeField f)"
  by (cases f) (auto intro!: streams_primitives streams_WriteBytes)

lemma sim_field: "simulates (decodeField f) (readField f)"
  by (cases f) (auto intro!: sim_intros)

lemma parses_ReadInt128_256 [parse_intros]:
  "length b = 16 \<Longrightarrow> parses ReadInt128 b 0 0 0 b" "length b = 32 \<Longrightarrow> parses ReadInt256 b 0 0 0 b"
  by (simp_all add: ReadInt128_def ReadInt256_def parses_ReadFull)

lemma parses_ReadDouble [parse_intros]: "in_u64 v \<Longrightarrow> parses ReadDouble (le_bytes 8 v) 0 0 0 v"
  by (simp add: ReadDouble_def parses_ReadUint64)

lemma parses_field: "field_ok f \<Longrightarrow> parses (readField f) (field_bytes f) 0 0 0 f"
  by (cases f) (auto intro!: parses_map parse_intros simp del: ret_apply split del: if_split)

lemma sim_mapM: "(\<And>x. simulates (f x) (g x)) \<Longrightarrow> simulates (mapM f xs) (mapM g xs)"
  by (induction xs) (auto intro!: sim_intros simp del: ret_apply)

lemma parses_mapM:
  "(\<And>x. x \<in> set xs \<Longrightarrow> parses (f x) (enc x) 0 0 0 x) \<Longrightarrow>
     parses (mapM f xs) (concat (map enc xs)) 0 0 0 xs"
proof (induction xs)
  case (Cons x xs)
  then have "parses (andThen (f x) (\<lambda>y. andThen (mapM f xs) (\<lambda>ys. ret (y # ys))))
      (enc x @ concat (map enc xs)) (0 + 0) (0 + 0) (max 0 0) (x # xs)"
    by (intro parses_andThen parses_map) auto
  then show ?case by simp
qed (simp add: parses_ret)

lemma affords_budget_ok:
  "budget_ok b \<Longrightarrow> decodedBytes b + int (length bs) \<le> MaxDecodedBytes (limits b) \<Longrightarrow>
     affords (length bs) 0 0 0 \<lparr>rdata = bs, rbudget = Some b\<rparr>"
  by (simp add: affords_def budget_ok_def)

lemma encodes_fields:
  "\<forall>f \<in> set fs. field_ok f \<Longrightarrow> encodes (forEach fs encodeField) (concat (map field_bytes fs))"
  by (intro encodes_forEach encodes_field) simp

lemma streams_fields: "streams (forEach fs encodeField) (forEach fs writeField)"
proof (induction fs)
  case (Cons f fs)
  then show ?case by (simp add: streams_andThen streams_field)
qed (simp add: streams_def)

lemma sim_fields: "simulates (mapM decodeField fs) (mapM readField fs)"
  by (intro sim_mapM sim_field)

section \<open>Properties\<close>

text \<open>C8. Cursor round trip.  Whatever sequence of fields the bounded cursor encoder accepts, the
  cursor decoder reads back from its bytes, field for field, consuming all of them, under any
  budget that can afford the bytes.\<close>

theorem cursor_roundtrip:
  assumes ok: "\<forall>f \<in> set fs. field_ok f"
    and enc: "NewBufferEncoder layer maxBytes = Inr e"
    and run: "forEach fs encodeField e = (Inr (), e')"
    and b: "budget_ok b" "decodedBytes b + int (length (edata e')) \<le> MaxDecodedBytes (limits b)"
  shows "\<exists>d'. mapM decodeField fs (NewDecoderBytes (edata e') layer (Some b)) = (Inr fs, d') \<and>
    Decoder_Len d' = 0 \<and>
    decodedBytes (dbudget d') = decodedBytes b + int (length (edata e'))"
proof -
  let ?bs = "concat (map field_bytes fs)" and ?d = "NewDecoderBytes (edata e') layer (Some b)"
  have e: "ewriter e = None" "edata e = []" "0 \<le> elimit e"
    using enc by (auto simp: NewBufferEncoder_def DefaultMaxDecodedBytes_def split: if_splits)
  have data: "edata e' = ?bs"
  proof (cases "int (length ?bs) \<le> elimit e")
    case True
    with encodes_fits [OF encodes_fields [OF ok], of e] e run show ?thesis by simp
  next
    case False
    with encodes_exceeds [OF encodes_fields [OF ok], of e] e run show ?thesis by simp
  qed
  have d: "dec_ok ?d" "dec_reader ?d = \<lparr>rdata = ?bs, rbudget = Some b\<rparr>"
    using b data by (auto simp: dec_ok_def dec_reader_def NewDecoderBytes_def budget_ok_def)
  have "mapM readField fs (dec_reader ?d) = (Inr fs, spend (length ?bs) 0 0 (dec_reader ?d))"
    using ok b data d affords_budget_ok [of b ?bs]
    by (intro parsesD [OF parses_mapM, where rest = "[]"]) (auto intro: parses_field)
  with sim_Inr_iff [OF sim_fields d(1)] obtain d'
    where d': "mapM decodeField fs ?d = (Inr fs, d')"
      "dec_reader d' = spend (length ?bs) 0 0 (dec_reader ?d)" by blast
  have "dec_ok d'" using sim_Inr [OF sim_fields d(1) d'(1)] by simp
  with d' d data show ?thesis
    by (auto simp: dec_reader_def spend_def Decoder_Len_def physicalLen_def dec_ok_def
        split: option.splits)
qed

theorem cursor_roundtrip_witness:
  "\<exists>e' d'. forEach [FInt32 (-7), FString [104, 105], FBool True] encodeField
       \<lparr>ewriter = None, edata = [], elimit = 64, elayer = 1, estate = \<lparr>depth = 0, nodes = 0\<rparr>\<rparr>
       = (Inr (), e') \<and>
     mapM decodeField [FInt32 (-7), FString [104, 105], FBool True]
       (NewDecoderBytes (edata e') 1 (Some defaultBudget))
       = (Inr [FInt32 (-7), FString [104, 105], FBool True], d') \<and> Decoder_Len d' = 0"
proof -
  let ?fs = "[FInt32 (-7), FString [104, 105], FBool True]"
  let ?e = "\<lparr>ewriter = None, edata = [], elimit = 64, elayer = 1, estate = \<lparr>depth = 0, nodes = 0\<rparr>\<rparr>"
  have ok: "\<forall>f \<in> set ?fs. field_ok f" by (simp add: in_i32_def)
  have enc: "NewBufferEncoder 1 64 = Inr ?e" by (simp add: NewBufferEncoder_def)
  obtain e' where run: "forEach ?fs encodeField ?e = (Inr (), e')" and len: "length (edata e') = 12"
    using encodes_fits [OF encodes_fields [OF ok], of ?e] by (simp add: enc_bytes_def tl_padding_def)
  have b: "budget_ok defaultBudget"
      "decodedBytes defaultBudget + int (length (edata e')) \<le> MaxDecodedBytes (limits defaultBudget)"
    unfolding len by (simp_all add: defaultBudget_def NewDecodeBudget_def normalizeDecodeLimits_def
        zeroLimits_def orDefault_def budget_ok_def DefaultMaxDecodedBytes_def DefaultMaxWrappers_def
        DefaultMaxContainers_def DefaultMaxVectorElements_def DefaultMaxObjectNodes_def
        DefaultMaxObjectDepth_def DefaultMaxGzipExpansionRatio_def DefaultMaxGzipWorkBytes_def)
  from cursor_roundtrip [OF ok enc run b] run show ?thesis by blast
qed

text \<open>C39. The cursor decoder accepts exactly what the stream readers accept: for every sequence of
  fields, input and budget, one succeeds iff the other does, with the same values, the same bytes
  left and the same budget charged.\<close>

theorem cursor_decoder_equals_stream:
  assumes "dec_ok d"
  shows "(\<exists>d'. mapM decodeField fs d = (Inr xs, d') \<and> dec_reader d' = r') \<longleftrightarrow>
    mapM readField fs (dec_reader d) = (Inr xs, r')"
  by (rule sim_Inr_iff [OF sim_fields assms])

theorem cursor_decoder_equals_stream_witness:
  "dec_ok (NewDecoderBytes [3, 97, 98, 99] 0 (Some defaultBudget)) \<and>
   ((\<exists>d'. mapM decodeField [FBytes []] (NewDecoderBytes [3, 97, 98, 99] 0 (Some defaultBudget))
        = (Inr [FBytes [97, 98, 99]], d') \<and>
      dec_reader d' = advance 4 \<lparr>rdata = [3, 97, 98, 99], rbudget = Some defaultBudget\<rparr>) \<longleftrightarrow>
    mapM readField [FBytes []] \<lparr>rdata = [3, 97, 98, 99], rbudget = Some defaultBudget\<rparr> =
      (Inr [FBytes [97, 98, 99]],
       advance 4 \<lparr>rdata = [3, 97, 98, 99], rbudget = Some defaultBudget\<rparr>))"
proof -
  let ?d = "NewDecoderBytes [3, 97, 98, 99] 0 (Some defaultBudget)"
  have ok: "dec_ok ?d"
    by (simp add: dec_ok_def NewDecoderBytes_def defaultBudget_def NewDecodeBudget_def
        normalizeDecodeLimits_def zeroLimits_def orDefault_def DefaultMaxDecodedBytes_def)
  have r: "dec_reader ?d = \<lparr>rdata = [3, 97, 98, 99], rbudget = Some defaultBudget\<rparr>"
    by (simp add: dec_reader_def NewDecoderBytes_def)
  from cursor_decoder_equals_stream [OF ok, of "[FBytes []]" "[FBytes [97, 98, 99]]"] ok
  show ?thesis unfolding r by blast
qed

text \<open>C40. The cursor encoder over a writer is the stream serializer: for every sequence of fields,
  bounded or unbounded writer, it returns the same result and leaves the same writer behind.\<close>

theorem cursor_encoder_equals_stream:
  assumes "ewriter e = Some w" "\<forall>k. wremaining w = Some k \<longrightarrow> 0 \<le> k"
  shows "forEach fs encodeField e =
    (fst (forEach fs writeField w), e\<lparr>ewriter := Some (snd (forEach fs writeField w))\<rparr>)"
  using streams_fields [of fs, unfolded streams_def, rule_format, of e w] assms by blast

theorem cursor_encoder_equals_stream_witness:
  "forEach [FString [104], FInt64 5] encodeField (NewEncoder \<lparr>wdata = [], wremaining = Some 10\<rparr>) =
    (fst (forEach [FString [104], FInt64 5] writeField \<lparr>wdata = [], wremaining = Some 10\<rparr>),
     (NewEncoder \<lparr>wdata = [], wremaining = Some 10\<rparr>)
       \<lparr>ewriter := Some (snd (forEach [FString [104], FInt64 5] writeField
          \<lparr>wdata = [], wremaining = Some 10\<rparr>))\<rparr>)"
  by (rule cursor_encoder_equals_stream) (simp_all add: NewEncoder_def)

text \<open>\<open>ReadVectorCount\<close> hands a count to generated code only when it is non-negative, within
  the caller's maximum, charged to an element budget that is not exceeded, and small enough that
  the remaining input and byte budget could hold that many elements of the minimum size.\<close>

theorem ReadVectorCount_bounds:
  assumes "ReadVectorCount maxElements minElementBytes d = (Inr count, d')"
  shows "0 \<le> count \<and> count \<le> maxElements \<and>
    vectorElements (dbudget d') \<le> MaxVectorElements (limits (dbudget d')) \<and>
    (0 < minElementBytes \<longrightarrow> count * minElementBytes \<le> available d')"
proof -
  from assms obtain ctor d1 d2 d3 where d3: "Decoder_ReadInt32 d1 = (Inr count, d2)"
      "Decoder_consumeVectorElements count d2 = (Inr (), d3)" "d' = d3"
    and c: "0 \<le> count" "count \<le> maxElements"
      "\<not> (minElementBytes > 0 \<and> count > available d3 div minElementBytes)"
    by (auto simp: ReadVectorCount_def andThen_Inr_iff not_less split: if_splits)
  have "count * minElementBytes \<le> available d3" if "0 < minElementBytes"
  proof -
    have "count \<le> available d3 div minElementBytes" using c that by simp
    then have "count * minElementBytes \<le> available d3 div minElementBytes * minElementBytes"
      using that by (simp add: mult_right_mono)
    also have "\<dots> \<le> available d3"
      using div_mult_mod_eq [of "available d3" minElementBytes] pos_mod_sign [OF that, of "available d3"]
      by linarith
    finally show ?thesis .
  qed
  with c d3 show ?thesis
    by (auto simp: Decoder_consumeVectorElements_def Let_def split: if_splits)
qed

theorem ReadVectorCount_bounds_witness:
  "\<exists>d'. ReadVectorCount 10 4
     (NewDecoderBytes [0x15, 0xc4, 0xb5, 0x1c, 1, 0, 0, 0, 9, 9, 9, 9] 0 (Some defaultBudget)) = (Inr 1, d') \<and>
   0 \<le> (1 :: int) \<and> vectorElements (dbudget d') \<le> MaxVectorElements (limits (dbudget d')) \<and>
   1 * 4 \<le> available d'"
proof -
  let ?d = "NewDecoderBytes [0x15, 0xc4, 0xb5, 0x1c, 1, 0, 0, 0, 9, 9, 9, 9] 0 (Some defaultBudget)"
  have "\<exists>d'. ReadVectorCount 10 4 ?d = (Inr 1, d')"
    by (simp add: ReadVectorCount_def andThen_def Decoder_ReadUint32_def Decoder_ReadInt32_def
        take_bytes_def NewDecoderBytes_def consume_def budgetLeft_def defaultBudget_def
        NewDecodeBudget_def normalizeDecodeLimits_def zeroLimits_def orDefault_def
        DefaultMaxDecodedBytes_def DefaultMaxVectorElements_def VectorConstructorID_def wrap32_def
        Decoder_consumeVectorElements_def available_def physicalLen_def)
  then obtain d' where d': "ReadVectorCount 10 4 ?d = (Inr 1, d')" by blast
  from ReadVectorCount_bounds [OF d'] d' show ?thesis by auto
qed

end
