(* ===== verification/TL_Codec.thy ===== *)
theory TL_Codec
  imports Wire_Writer
begin

text \<open>
  The contract of a service message of \<open>mtproto/tl\<close> and its client, the control decoder of
  \<open>internal/runtime/control.go\<close>.  A message type provides a serializer and a deserializer;
  the locale \<open>tl_object\<close> says what they promise each other, and the round trip through the
  bounded serializer and the budgeted control decoder is proved once inside it.  The message types
  of \<open>TL_Messages\<close> interpret it.
\<close>

section \<open>Decoding a whole message body\<close>

definition decodeControlBudget ::
  "(reader, 'a) io \<Rightarrow> bytes \<Rightarrow> DecodeBudget option \<Rightarrow> (go_error + 'a) \<times> DecodeBudget option" where
  "decodeControlBudget deserialize body budget =
     (case deserialize \<lparr>rdata = body, rbudget = budget\<rparr> of
        (Inl e, r) \<Rightarrow> (Inl e, rbudget r)
      | (Inr x, r) \<Rightarrow>
          (if BudgetReader_Len r \<noteq> 0 then Inl (RuntimeError TrailingControlData) else Inr x, rbudget r))"

definition decodeControl :: "(reader, 'a) io \<Rightarrow> bytes \<Rightarrow> go_error + 'a" where
  "decodeControl deserialize body = fst (decodeControlBudget deserialize body None)"

text \<open>\<open>serializeObject\<close> of \<open>mtproto/tl/common.go\<close>.\<close>

definition serializeObject :: "(writer, unit) io \<Rightarrow> go_error + bytes" where
  "serializeObject obj = buffered obj"

lemma serializeObject_emits: "emits m bs \<Longrightarrow> serializeObject m = Inr bs"
  by (simp add: serializeObject_def buffered_emits)

section \<open>The contract of a message type\<close>

text \<open>\<open>valid\<close> are the values the Go type can hold and the wire format can carry, \<open>enc\<close>
  their encoding, \<open>elems\<close> the vector elements reading it costs.  The budget part of the
  contract holds for every input.\<close>

text \<open>What a client of the decoder relies on: whatever the bounded serializer accepts comes back
  unchanged, and no input whatever drives the decoder past the budget it is given.\<close>

definition control_codec :: "('a \<Rightarrow> (writer, unit) io) \<Rightarrow> (reader, 'a) io \<Rightarrow> ('a \<Rightarrow> bool) \<Rightarrow> bool" where
  "control_codec SerializeTL DeserializeTL valid \<longleftrightarrow>
     (\<forall>x bs maxBytes. valid x \<and> serializeRuntimeTLBounded (SerializeTL x) maxBytes = Inr bs \<longrightarrow>
        decodeControl DeserializeTL bs = Inr x)"

definition bounded_decoder :: "(reader, 'a) io \<Rightarrow> bool" where
  "bounded_decoder DeserializeTL \<longleftrightarrow>
     (\<forall>body b x b'. budget_ok b \<and> decodeControlBudget DeserializeTL body (Some b) = (x, b') \<longrightarrow>
        (\<exists>c. b' = Some c \<and> budget_ok c \<and> limits c = limits b \<and>
          decodedBytes b \<le> decodedBytes c \<and> decodedBytes c \<le> decodedBytes b + int (length body)))"

locale tl_object =
  fixes SerializeTL :: "'a \<Rightarrow> (writer, unit) io"
    and DeserializeTL :: "(reader, 'a) io"
    and valid :: "'a \<Rightarrow> bool"
    and enc :: "'a \<Rightarrow> bytes"
    and elems :: "'a \<Rightarrow> nat"
  assumes emits: "valid x \<Longrightarrow> emits (SerializeTL x) (enc x)"
    and parses_all: "valid x \<Longrightarrow> parses_all DeserializeTL (enc x) (elems x) 0 0 x"
    and within: "within_budget DeserializeTL"
begin

lemma enc_inject: "valid x \<Longrightarrow> valid y \<Longrightarrow> enc x = enc y \<Longrightarrow> x = y"
proof -
  assume x: "valid x" and y: "valid y" and e: "enc x = enc y"
  let ?r = "\<lparr>rdata = enc x, rbudget = None\<rparr>"
  have "affords (length (enc x)) v 0 0 ?r" for v by (simp add: affords_def)
  with parses_all [OF x] parses_all [OF y] e show "x = y"
    by (simp add: parses_all_def) (metis Inr_inject Pair_inject reader.select_convs(1))
qed

lemma control_roundtrip:
  assumes "valid x"
    and "serializeRuntimeTLBounded (SerializeTL x) maxBytes = Inr bs"
    and "affords (length bs) (elems x) 0 0 \<lparr>rdata = bs, rbudget = budget\<rparr>"
  shows "decodeControlBudget DeserializeTL bs budget =
    (Inr x, rbudget (spend (length bs) (elems x) 0 \<lparr>rdata = bs, rbudget = budget\<rparr>))"
proof -
  have bs: "bs = enc x"
    using assms(2) by (simp add: serializeRuntimeTLBounded_emits [OF emits [OF assms(1)]] split: if_splits)
  have "DeserializeTL \<lparr>rdata = bs, rbudget = budget\<rparr> =
      (Inr x, spend (length bs) (elems x) 0 \<lparr>rdata = bs, rbudget = budget\<rparr>)"
    using parses_all [OF assms(1)] assms(3) by (simp add: bs parses_all_def)
  then show ?thesis
    by (simp add: decodeControlBudget_def BudgetReader_Len_avail avail_def split: option.splits)
qed

lemma serialize_bounded:
  "valid x \<Longrightarrow> serializeRuntimeTLBounded (SerializeTL x) maxBytes =
     (if int (length (enc x)) \<le> normalizeMaxEncodedBytes maxBytes then Inr (enc x)
      else Inl (RuntimeError EncodedPayloadTooLarge))"
  by (rule serializeRuntimeTLBounded_emits [OF emits])

lemma decode_within_budget:
  assumes "decodeControlBudget DeserializeTL body (Some b) = (x, b')" "budget_ok b"
  shows "\<exists>c. b' = Some c \<and> budget_ok c \<and> limits c = limits b \<and>
    decodedBytes b \<le> decodedBytes c \<and> decodedBytes c \<le> decodedBytes b + int (length body)"
proof -
  obtain y r where run: "DeserializeTL \<lparr>rdata = body, rbudget = Some b\<rparr> = (y, r)" by fastforce
  then have "b' = rbudget r"
    using assms(1) by (auto simp: decodeControlBudget_def split: sum.splits)
  with within_budgetD [OF within run] assms(2) show ?thesis
    by (auto simp: budget_step_def option_rel_Some1 charged_def)
qed

lemma codec: "control_codec SerializeTL DeserializeTL valid"
  unfolding control_codec_def decodeControl_def
proof (intro allI impI, elim conjE)
  fix x bs maxBytes
  assume v: "valid x" and s: "serializeRuntimeTLBounded (SerializeTL x) maxBytes = Inr bs"
  show "fst (decodeControlBudget DeserializeTL bs None) = Inr x"
    by (subst control_roundtrip [OF v s]) (simp_all add: affords_def)
qed

lemma bounded: "bounded_decoder DeserializeTL"
  unfolding bounded_decoder_def using decode_within_budget by blast

end

text \<open>A message that can be read in front of other data.\<close>

locale tl_prefix_object = tl_object +
  assumes parses: "valid x \<Longrightarrow> parses DeserializeTL (enc x) (elems x) 0 0 x"
begin

lemma sequence_roundtrip:
  assumes "\<forall>x \<in> set xs. valid x"
  shows "parses (repeatM (length xs) DeserializeTL) (concat (map enc xs)) (sum_list (map elems xs)) 0 0 xs"
  using parses_repeatM [of xs DeserializeTL enc elems "\<lambda>_. 0" 0] parses assms
  by (simp add: sum_list_triv split: if_splits)

end

text \<open>Most messages are of this kind; the law for a whole body follows.\<close>

lemma tl_prefix_objectI:
  assumes "\<And>x. valid x \<Longrightarrow> emits (SerializeTL x) (enc x)"
    and "\<And>x. valid x \<Longrightarrow> parses DeserializeTL (enc x) (elems x) 0 0 x"
    and "within_budget DeserializeTL"
  shows "tl_prefix_object SerializeTL DeserializeTL valid enc elems"
  by unfold_locales (use assms in \<open>auto intro: parses_all_parses\<close>)

end
