(* ===== verification/TL_Messages.thy ===== *)
theory TL_Messages
  imports TL_Codec
begin

text \<open>
  The service messages of \<open>mtproto/tl\<close>: one record per Go struct, its \<open>SerializeTL\<close> and
  its \<open>DeserializeTL\<close>.  A field is prefixed with the name of its struct.  A field of interface
  type \<open>Object\<close> is the \<open>SerializeTL\<close> method of the object it holds.  The second half gives
  for each message the values it can carry, its encoding, and the interpretation of the codec
  contract of \<open>TL_Codec\<close>.
\<close>

section \<open>Constructor identifiers and limits\<close>

definition MsgContainerID :: int where "MsgContainerID = 0x73f1f8dc"
definition MsgsAckID :: int where "MsgsAckID = 0x62d6b459"
definition GzipPackedID :: int where "GzipPackedID = 0x3072cfa1"
definition RPCResultID :: int where "RPCResultID = 0xf35c6d01"
definition RPCErrorID :: int where "RPCErrorID = 0x2144ca19"
definition RPCDropAnswerID :: int where "RPCDropAnswerID = 0x58e4a740"
definition RPCAnswerUnknownID :: int where "RPCAnswerUnknownID = 0x5e2ad36e"
definition RPCAnswerDroppedRunningID :: int where "RPCAnswerDroppedRunningID = 0xcd78e586"
definition RPCAnswerDroppedID :: int where "RPCAnswerDroppedID = 0xa43ad8b7"
definition NewSessionCreatedID :: int where "NewSessionCreatedID = 0x9ec20908"
definition FutureSaltID :: int where "FutureSaltID = 0x0949d9dc"
definition FutureSaltsID :: int where "FutureSaltsID = 0xae500895"
definition GetFutureSaltsID :: int where "GetFutureSaltsID = 0xb921bd04"
definition PingID :: int where "PingID = 0x7abe77ec"
definition PingDelayDisconnectID :: int where "PingDelayDisconnectID = 0xf3427b8c"
definition PongID :: int where "PongID = 0x347773c5"
definition BadMsgNotificationID :: int where "BadMsgNotificationID = 0xa7eff811"
definition BadServerSaltID :: int where "BadServerSaltID = 0xedab447b"
definition MsgResendReqID :: int where "MsgResendReqID = 0x7d861a08"
definition MsgsStateReqID :: int where "MsgsStateReqID = 0xda69fb52"
definition MsgsStateInfoID :: int where "MsgsStateInfoID = 0x04deb57d"
definition InvokeAfterMsgID :: int where "InvokeAfterMsgID = 0xcb9f372d"
definition InvokeAfterMsgsID :: int where "InvokeAfterMsgsID = 0x3dc4b4f0"
definition InitConnectionID :: int where "InitConnectionID = 0xc1cd5ea9"
definition InvokeWithLayerID :: int where "InvokeWithLayerID = 0xda9b0d0d"
definition InvokeWithoutUpdatesID :: int where "InvokeWithoutUpdatesID = 0xbf9459b7"

lemmas constructor_ids =
  MsgContainerID_def MsgsAckID_def GzipPackedID_def RPCResultID_def RPCErrorID_def
  RPCDropAnswerID_def RPCAnswerUnknownID_def RPCAnswerDroppedRunningID_def
  RPCAnswerDroppedID_def NewSessionCreatedID_def FutureSaltID_def FutureSaltsID_def
  GetFutureSaltsID_def PingID_def PingDelayDisconnectID_def PongID_def BadMsgNotificationID_def
  BadServerSaltID_def MsgResendReqID_def MsgsStateReqID_def MsgsStateInfoID_def
  InvokeAfterMsgID_def InvokeAfterMsgsID_def InitConnectionID_def InvokeWithLayerID_def
  InvokeWithoutUpdatesID_def

definition MaxContainerMessages :: int where "MaxContainerMessages = 8192"
definition MaxMessageStateIDs :: int where "MaxMessageStateIDs = 8192"
definition MaxFutureSalts :: int where "MaxFutureSalts = 64"

section \<open>Shared fragments\<close>

definition readEmptyConstructor :: "int \<Rightarrow> (reader, unit) io" where
  "readEmptyConstructor want =
     andThen ReadUint32 (\<lambda>ctor.
       if ctor \<noteq> want then raise (TLError (WrongConstructor ctor want)) else ret ())"

text \<open>The vector header and the loop that every message with a \<open>Vector<long>\<close> writes.\<close>

definition WriteIDs :: "int list \<Rightarrow> (writer, unit) io" where
  "WriteIDs ids = andThen (WriteVectorHeader (int (length ids))) (\<lambda>_. forEach ids WriteInt64)"

section \<open>Messages of fixed fields, identifier vectors and nested queries\<close>

record MsgsAck =
  MsgsAck_MsgIDs :: "int list"

definition MsgsAck_SerializeTL :: "MsgsAck \<Rightarrow> (writer, unit) io" where
  "MsgsAck_SerializeTL m =
     andThen (WriteUint32 MsgsAckID) (\<lambda>_.
     WriteIDs (MsgsAck_MsgIDs m))"

definition MsgsAck_DeserializeTL :: "(reader, MsgsAck) io" where
  "MsgsAck_DeserializeTL =
     andThen (readEmptyConstructor MsgsAckID) (\<lambda>_.
     andThen (ReadVectorBounded MaxMessageStateIDs ReadInt64) (\<lambda>msgIDs.
       ret \<lparr>MsgsAck_MsgIDs = msgIDs\<rparr>))"

record BadMsgNotification =
  BadMsgNotification_BadMsgID :: int
  BadMsgNotification_BadMsgSeq :: int
  BadMsgNotification_ErrorCode :: int

definition BadMsgNotification_SerializeTL :: "BadMsgNotification \<Rightarrow> (writer, unit) io" where
  "BadMsgNotification_SerializeTL m =
     andThen (WriteUint32 BadMsgNotificationID) (\<lambda>_.
     andThen (WriteInt64 (BadMsgNotification_BadMsgID m)) (\<lambda>_.
     andThen (WriteInt32 (BadMsgNotification_BadMsgSeq m)) (\<lambda>_.
     WriteInt32 (BadMsgNotification_ErrorCode m))))"

definition BadMsgNotification_DeserializeTL :: "(reader, BadMsgNotification) io" where
  "BadMsgNotification_DeserializeTL =
     andThen (readEmptyConstructor BadMsgNotificationID) (\<lambda>_.
     andThen ReadInt64 (\<lambda>badMsgID.
     andThen ReadInt32 (\<lambda>badMsgSeq.
     andThen ReadInt32 (\<lambda>errorCode.
       ret \<lparr>BadMsgNotification_BadMsgID = badMsgID,
            BadMsgNotification_BadMsgSeq = badMsgSeq,
            BadMsgNotification_ErrorCode = errorCode\<rparr>))))"

record BadServerSalt =
  BadServerSalt_BadMsgID :: int
  BadServerSalt_BadMsgSeq :: int
  BadServerSalt_ErrorCode :: int
  BadServerSalt_NewSalt :: int

definition BadServerSalt_SerializeTL :: "BadServerSalt \<Rightarrow> (writer, unit) io" where
  "BadServerSalt_SerializeTL m =
     andThen (WriteUint32 BadServerSaltID) (\<lambda>_.
     andThen (WriteInt64 (BadServerSalt_BadMsgID m)) (\<lambda>_.
     andThen (WriteInt32 (BadServerSalt_BadMsgSeq m)) (\<lambda>_.
     andThen (WriteInt32 (BadServerSalt_ErrorCode m)) (\<lambda>_.
     WriteInt64 (BadServerSalt_NewSalt m)))))"

definition BadServerSalt_DeserializeTL :: "(reader, BadServerSalt) io" where
  "BadServerSalt_DeserializeTL =
     andThen (readEmptyConstructor BadServerSaltID) (\<lambda>_.
     andThen ReadInt64 (\<lambda>badMsgID.
     andThen ReadInt32 (\<lambda>badMsgSeq.
     andThen ReadInt32 (\<lambda>errorCode.
     andThen ReadInt64 (\<lambda>newSalt.
       ret \<lparr>BadServerSalt_BadMsgID = badMsgID, BadServerSalt_BadMsgSeq = badMsgSeq,
            BadServerSalt_ErrorCode = errorCode, BadServerSalt_NewSalt = newSalt\<rparr>)))))"

record GzipPacked =
  GzipPacked_PackedData :: bytes

definition GzipPacked_SerializeTL :: "GzipPacked \<Rightarrow> (writer, unit) io" where
  "GzipPacked_SerializeTL m =
     andThen (WriteUint32 GzipPackedID) (\<lambda>_.
     WriteBytes (GzipPacked_PackedData m))"

definition GzipPacked_DeserializeTL :: "(reader, GzipPacked) io" where
  "GzipPacked_DeserializeTL =
     andThen (readEmptyConstructor GzipPackedID) (\<lambda>_.
     andThen ReadBytes (\<lambda>packedData.
       ret \<lparr>GzipPacked_PackedData = packedData\<rparr>))"

record Ping =
  Ping_PingID :: int

definition Ping_SerializeTL :: "Ping \<Rightarrow> (writer, unit) io" where
  "Ping_SerializeTL m =
     andThen (WriteUint32 PingID) (\<lambda>_.
     WriteInt64 (Ping_PingID m))"

definition Ping_DeserializeTL :: "(reader, Ping) io" where
  "Ping_DeserializeTL =
     andThen (readEmptyConstructor PingID) (\<lambda>_.
     andThen ReadInt64 (\<lambda>pingID.
       ret \<lparr>Ping_PingID = pingID\<rparr>))"

record PingDelayDisconnect =
  PingDelayDisconnect_PingID :: int
  PingDelayDisconnect_DisconnectDelay :: int

definition PingDelayDisconnect_SerializeTL :: "PingDelayDisconnect \<Rightarrow> (writer, unit) io" where
  "PingDelayDisconnect_SerializeTL m =
     andThen (WriteUint32 PingDelayDisconnectID) (\<lambda>_.
     andThen (WriteInt64 (PingDelayDisconnect_PingID m)) (\<lambda>_.
     WriteInt32 (PingDelayDisconnect_DisconnectDelay m)))"

definition PingDelayDisconnect_DeserializeTL :: "(reader, PingDelayDisconnect) io" where
  "PingDelayDisconnect_DeserializeTL =
     andThen (readEmptyConstructor PingDelayDisconnectID) (\<lambda>_.
     andThen ReadInt64 (\<lambda>pingID.
     andThen ReadInt32 (\<lambda>disconnectDelay.
       ret \<lparr>PingDelayDisconnect_PingID = pingID,
            PingDelayDisconnect_DisconnectDelay = disconnectDelay\<rparr>)))"

record Pong =
  Pong_MsgID :: int
  Pong_PingID :: int

definition Pong_SerializeTL :: "Pong \<Rightarrow> (writer, unit) io" where
  "Pong_SerializeTL m =
     andThen (WriteUint32 PongID) (\<lambda>_.
     andThen (WriteInt64 (Pong_MsgID m)) (\<lambda>_.
     WriteInt64 (Pong_PingID m)))"

definition Pong_DeserializeTL :: "(reader, Pong) io" where
  "Pong_DeserializeTL =
     andThen (readEmptyConstructor PongID) (\<lambda>_.
     andThen ReadInt64 (\<lambda>msgID.
     andThen ReadInt64 (\<lambda>pingID.
       ret \<lparr>Pong_MsgID = msgID, Pong_PingID = pingID\<rparr>)))"

record RPCError =
  RPCError_ErrorCode :: int
  RPCError_ErrorMessage :: bytes

definition RPCError_SerializeTL :: "RPCError \<Rightarrow> (writer, unit) io" where
  "RPCError_SerializeTL m =
     andThen (WriteUint32 RPCErrorID) (\<lambda>_.
     andThen (WriteInt32 (RPCError_ErrorCode m)) (\<lambda>_.
     WriteString (RPCError_ErrorMessage m)))"

definition RPCError_DeserializeTL :: "(reader, RPCError) io" where
  "RPCError_DeserializeTL =
     andThen (readEmptyConstructor RPCErrorID) (\<lambda>_.
     andThen ReadInt32 (\<lambda>errorCode.
     andThen ReadString (\<lambda>errorMessage.
       ret \<lparr>RPCError_ErrorCode = errorCode, RPCError_ErrorMessage = errorMessage\<rparr>)))"

record RPCDropAnswer =
  RPCDropAnswer_ReqMsgID :: int

definition RPCDropAnswer_SerializeTL :: "RPCDropAnswer \<Rightarrow> (writer, unit) io" where
  "RPCDropAnswer_SerializeTL m =
     andThen (WriteUint32 RPCDropAnswerID) (\<lambda>_.
     WriteInt64 (RPCDropAnswer_ReqMsgID m))"

definition RPCDropAnswer_DeserializeTL :: "(reader, RPCDropAnswer) io" where
  "RPCDropAnswer_DeserializeTL =
     andThen (readEmptyConstructor RPCDropAnswerID) (\<lambda>_.
     andThen ReadInt64 (\<lambda>reqMsgID.
       ret \<lparr>RPCDropAnswer_ReqMsgID = reqMsgID\<rparr>))"

record RPCAnswerDropped =
  RPCAnswerDropped_MsgID :: int
  RPCAnswerDropped_SeqNo :: int
  RPCAnswerDropped_Bytes :: int

definition RPCAnswerDropped_SerializeTL :: "RPCAnswerDropped \<Rightarrow> (writer, unit) io" where
  "RPCAnswerDropped_SerializeTL m =
     andThen (WriteUint32 RPCAnswerDroppedID) (\<lambda>_.
     andThen (WriteInt64 (RPCAnswerDropped_MsgID m)) (\<lambda>_.
     andThen (WriteInt32 (RPCAnswerDropped_SeqNo m)) (\<lambda>_.
     WriteInt32 (RPCAnswerDropped_Bytes m))))"

definition RPCAnswerDropped_DeserializeTL :: "(reader, RPCAnswerDropped) io" where
  "RPCAnswerDropped_DeserializeTL =
     andThen (readEmptyConstructor RPCAnswerDroppedID) (\<lambda>_.
     andThen ReadInt64 (\<lambda>msgID.
     andThen ReadInt32 (\<lambda>seqNo.
     andThen ReadInt32 (\<lambda>bytes.
       ret \<lparr>RPCAnswerDropped_MsgID = msgID, RPCAnswerDropped_SeqNo = seqNo,
            RPCAnswerDropped_Bytes = bytes\<rparr>))))"

record GetFutureSaltsRequest =
  GetFutureSaltsRequest_Num :: int

definition GetFutureSaltsRequest_SerializeTL :: "GetFutureSaltsRequest \<Rightarrow> (writer, unit) io" where
  "GetFutureSaltsRequest_SerializeTL m =
     andThen (WriteUint32 GetFutureSaltsID) (\<lambda>_.
     WriteInt32 (GetFutureSaltsRequest_Num m))"

definition GetFutureSaltsRequest_DeserializeTL :: "(reader, GetFutureSaltsRequest) io" where
  "GetFutureSaltsRequest_DeserializeTL =
     andThen (readEmptyConstructor GetFutureSaltsID) (\<lambda>_.
     andThen ReadInt32 (\<lambda>num.
       ret \<lparr>GetFutureSaltsRequest_Num = num\<rparr>))"

record NewSessionCreated =
  NewSessionCreated_FirstMsgID :: int
  NewSessionCreated_UniqueID :: int
  NewSessionCreated_ServerSalt :: int

definition NewSessionCreated_SerializeTL :: "NewSessionCreated \<Rightarrow> (writer, unit) io" where
  "NewSessionCreated_SerializeTL m =
     andThen (WriteUint32 NewSessionCreatedID) (\<lambda>_.
     andThen (WriteInt64 (NewSessionCreated_FirstMsgID m)) (\<lambda>_.
     andThen (WriteInt64 (NewSessionCreated_UniqueID m)) (\<lambda>_.
     WriteInt64 (NewSessionCreated_ServerSalt m))))"

definition NewSessionCreated_DeserializeTL :: "(reader, NewSessionCreated) io" where
  "NewSessionCreated_DeserializeTL =
     andThen (readEmptyConstructor NewSessionCreatedID) (\<lambda>_.
     andThen ReadInt64 (\<lambda>firstMsgID.
     andThen ReadInt64 (\<lambda>uniqueID.
     andThen ReadInt64 (\<lambda>serverSalt.
       ret \<lparr>NewSessionCreated_FirstMsgID = firstMsgID,
            NewSessionCreated_UniqueID = uniqueID,
            NewSessionCreated_ServerSalt = serverSalt\<rparr>))))"

record MsgResendReq =
  MsgResendReq_MsgIDs :: "int list"

definition MsgResendReq_SerializeTL :: "MsgResendReq \<Rightarrow> (writer, unit) io" where
  "MsgResendReq_SerializeTL m =
     andThen (WriteUint32 MsgResendReqID) (\<lambda>_.
     WriteIDs (MsgResendReq_MsgIDs m))"

definition MsgResendReq_DeserializeTL :: "(reader, MsgResendReq) io" where
  "MsgResendReq_DeserializeTL =
     andThen (readEmptyConstructor MsgResendReqID) (\<lambda>_.
     andThen (ReadVectorBounded MaxMessageStateIDs ReadInt64) (\<lambda>msgIDs.
       ret \<lparr>MsgResendReq_MsgIDs = msgIDs\<rparr>))"

record MsgsStateReq =
  MsgsStateReq_MsgIDs :: "int list"

definition MsgsStateReq_SerializeTL :: "MsgsStateReq \<Rightarrow> (writer, unit) io" where
  "MsgsStateReq_SerializeTL m =
     andThen (WriteUint32 MsgsStateReqID) (\<lambda>_.
     WriteIDs (MsgsStateReq_MsgIDs m))"

definition MsgsStateReq_DeserializeTL :: "(reader, MsgsStateReq) io" where
  "MsgsStateReq_DeserializeTL =
     andThen (readEmptyConstructor MsgsStateReqID) (\<lambda>_.
     andThen (ReadVectorBounded MaxMessageStateIDs ReadInt64) (\<lambda>msgIDs.
       ret \<lparr>MsgsStateReq_MsgIDs = msgIDs\<rparr>))"

record MsgsStateInfo =
  MsgsStateInfo_ReqMsgID :: int
  MsgsStateInfo_Info :: bytes

definition MsgsStateInfo_SerializeTL :: "MsgsStateInfo \<Rightarrow> (writer, unit) io" where
  "MsgsStateInfo_SerializeTL m =
     andThen (WriteUint32 MsgsStateInfoID) (\<lambda>_.
     andThen (WriteInt64 (MsgsStateInfo_ReqMsgID m)) (\<lambda>_.
     WriteBytes (MsgsStateInfo_Info m)))"

definition MsgsStateInfo_DeserializeTL :: "(reader, MsgsStateInfo) io" where
  "MsgsStateInfo_DeserializeTL =
     andThen (readEmptyConstructor MsgsStateInfoID) (\<lambda>_.
     andThen ReadInt64 (\<lambda>reqMsgID.
     andThen ReadBytes (\<lambda>info.
       ret \<lparr>MsgsStateInfo_ReqMsgID = reqMsgID, MsgsStateInfo_Info = info\<rparr>)))"

record InvokeWithLayer =
  InvokeWithLayer_Layer :: int
  InvokeWithLayer_QueryRaw :: bytes

definition InvokeWithLayer_SerializeTL :: "InvokeWithLayer \<Rightarrow> (writer, unit) io" where
  "InvokeWithLayer_SerializeTL m =
     andThen (WriteUint32 InvokeWithLayerID) (\<lambda>_.
     andThen (WriteInt32 (InvokeWithLayer_Layer m)) (\<lambda>_.
     boundedRuntimeWriter_Write (InvokeWithLayer_QueryRaw m)))"

definition InvokeWithLayer_DeserializeTL :: "(reader, InvokeWithLayer) io" where
  "InvokeWithLayer_DeserializeTL =
     andThen (readEmptyConstructor InvokeWithLayerID) (\<lambda>_.
     andThen ReadInt32 (\<lambda>layer.
     andThen ReadAll (\<lambda>queryRaw.
       ret \<lparr>InvokeWithLayer_Layer = layer, InvokeWithLayer_QueryRaw = queryRaw\<rparr>)))"

record InvokeAfterMsg =
  InvokeAfterMsg_MsgID :: int
  InvokeAfterMsg_QueryRaw :: bytes

definition InvokeAfterMsg_SerializeTL :: "InvokeAfterMsg \<Rightarrow> (writer, unit) io" where
  "InvokeAfterMsg_SerializeTL m =
     andThen (WriteUint32 InvokeAfterMsgID) (\<lambda>_.
     andThen (WriteInt64 (InvokeAfterMsg_MsgID m)) (\<lambda>_.
     boundedRuntimeWriter_Write (InvokeAfterMsg_QueryRaw m)))"

definition InvokeAfterMsg_DeserializeTL :: "(reader, InvokeAfterMsg) io" where
  "InvokeAfterMsg_DeserializeTL =
     andThen (readEmptyConstructor InvokeAfterMsgID) (\<lambda>_.
     andThen ReadInt64 (\<lambda>msgID.
     andThen ReadAll (\<lambda>queryRaw.
       ret \<lparr>InvokeAfterMsg_MsgID = msgID, InvokeAfterMsg_QueryRaw = queryRaw\<rparr>)))"

record InvokeAfterMsgs =
  InvokeAfterMsgs_MsgIDs :: "int list"
  InvokeAfterMsgs_QueryRaw :: bytes

definition InvokeAfterMsgs_SerializeTL :: "InvokeAfterMsgs \<Rightarrow> (writer, unit) io" where
  "InvokeAfterMsgs_SerializeTL m =
     andThen (WriteUint32 InvokeAfterMsgsID) (\<lambda>_.
     andThen (WriteIDs (InvokeAfterMsgs_MsgIDs m)) (\<lambda>_.
     boundedRuntimeWriter_Write (InvokeAfterMsgs_QueryRaw m)))"

definition InvokeAfterMsgs_DeserializeTL :: "(reader, InvokeAfterMsgs) io" where
  "InvokeAfterMsgs_DeserializeTL =
     andThen (readEmptyConstructor InvokeAfterMsgsID) (\<lambda>_.
     andThen (ReadVectorBounded MaxMessageStateIDs ReadInt64) (\<lambda>msgIDs.
     andThen ReadAll (\<lambda>queryRaw.
       ret \<lparr>InvokeAfterMsgs_MsgIDs = msgIDs, InvokeAfterMsgs_QueryRaw = queryRaw\<rparr>)))"

record InvokeWithoutUpdates =
  InvokeWithoutUpdates_QueryRaw :: bytes

definition InvokeWithoutUpdates_SerializeTL :: "InvokeWithoutUpdates \<Rightarrow> (writer, unit) io" where
  "InvokeWithoutUpdates_SerializeTL m =
     andThen (WriteUint32 InvokeWithoutUpdatesID) (\<lambda>_.
     boundedRuntimeWriter_Write (InvokeWithoutUpdates_QueryRaw m))"

definition InvokeWithoutUpdates_DeserializeTL :: "(reader, InvokeWithoutUpdates) io" where
  "InvokeWithoutUpdates_DeserializeTL =
     andThen (readEmptyConstructor InvokeWithoutUpdatesID) (\<lambda>_.
     andThen ReadAll (\<lambda>queryRaw.
       ret \<lparr>InvokeWithoutUpdates_QueryRaw = queryRaw\<rparr>))"

section \<open>Answers without fields\<close>

definition RPCAnswerUnknown_SerializeTL :: "unit \<Rightarrow> (writer, unit) io" where
  "RPCAnswerUnknown_SerializeTL m = WriteUint32 RPCAnswerUnknownID"

definition RPCAnswerUnknown_DeserializeTL :: "(reader, unit) io" where
  "RPCAnswerUnknown_DeserializeTL = readEmptyConstructor RPCAnswerUnknownID"

definition RPCAnswerDroppedRunning_SerializeTL :: "unit \<Rightarrow> (writer, unit) io" where
  "RPCAnswerDroppedRunning_SerializeTL m = WriteUint32 RPCAnswerDroppedRunningID"

definition RPCAnswerDroppedRunning_DeserializeTL :: "(reader, unit) io" where
  "RPCAnswerDroppedRunning_DeserializeTL = readEmptyConstructor RPCAnswerDroppedRunningID"

section \<open>Results, containers and salts\<close>

record RPCResult =
  RPCResult_ReqMsgID :: int
  RPCResult_Result :: "(writer, unit) io option"
  RPCResult_ResultRaw :: bytes

definition RPCResult_SerializeTL :: "RPCResult \<Rightarrow> (writer, unit) io" where
  "RPCResult_SerializeTL m =
     andThen (WriteUint32 RPCResultID) (\<lambda>_.
     andThen (WriteInt64 (RPCResult_ReqMsgID m)) (\<lambda>_.
     case RPCResult_Result m of
       Some result \<Rightarrow> result
     | None \<Rightarrow> boundedRuntimeWriter_Write (RPCResult_ResultRaw m)))"

definition RPCResult_DeserializeTL :: "(reader, RPCResult) io" where
  "RPCResult_DeserializeTL =
     andThen (readEmptyConstructor RPCResultID) (\<lambda>_.
     andThen ReadInt64 (\<lambda>reqMsgID.
     andThen ReadAll (\<lambda>resultRaw.
       ret \<lparr>RPCResult_ReqMsgID = reqMsgID, RPCResult_Result = None, RPCResult_ResultRaw = resultRaw\<rparr>)))"

record Message =
  Message_MsgID :: int
  Message_SeqNo :: int
  Message_Bytes :: int
  Message_Body :: "(writer, unit) io option"
  Message_BodyRaw :: bytes

definition Message_SerializeTL :: "Message \<Rightarrow> (writer, unit) io" where
  "Message_SerializeTL m =
     andThen (WriteInt64 (Message_MsgID m)) (\<lambda>_.
     andThen (WriteInt32 (Message_SeqNo m)) (\<lambda>_.
     case (case Message_Body m of Some obj \<Rightarrow> serializeObject obj | None \<Rightarrow> Inr (Message_BodyRaw m)) of
       Inl e \<Rightarrow> raise e
     | Inr body \<Rightarrow>
         andThen (WriteInt32 (wrap32 (int (length body)))) (\<lambda>_. boundedRuntimeWriter_Write body)))"

definition Message_DeserializeTL :: "(reader, Message) io" where
  "Message_DeserializeTL =
     andThen ReadInt64 (\<lambda>msgID.
     andThen ReadInt32 (\<lambda>seqNo.
     andThen ReadInt32 (\<lambda>size.
       if size < 0 then raise (TLError (NegativeMessageBytes size))
       else andThen (ReadSizedBytes size) (\<lambda>bodyRaw.
         ret \<lparr>Message_MsgID = msgID, Message_SeqNo = seqNo, Message_Bytes = size,
              Message_Body = None, Message_BodyRaw = bodyRaw\<rparr>))))"

record MsgContainer =
  MsgContainer_Messages :: "Message list"

definition MsgContainer_SerializeTL :: "MsgContainer \<Rightarrow> (writer, unit) io" where
  "MsgContainer_SerializeTL c =
     andThen (WriteUint32 MsgContainerID) (\<lambda>_.
     andThen (WriteInt32 (wrap32 (int (length (MsgContainer_Messages c))))) (\<lambda>_.
     forEach (MsgContainer_Messages c) Message_SerializeTL))"

definition MsgContainer_DeserializeTL :: "(reader, MsgContainer) io" where
  "MsgContainer_DeserializeTL =
     andThen (readEmptyConstructor MsgContainerID) (\<lambda>_.
     andThen (ReadBareVectorBounded MaxContainerMessages Message_DeserializeTL) (\<lambda>messages.
       ret \<lparr>MsgContainer_Messages = messages\<rparr>))"

record FutureSalt =
  FutureSalt_ValidSince :: int
  FutureSalt_ValidUntil :: int
  FutureSalt_Salt :: int

definition FutureSalt_serializeBare :: "FutureSalt \<Rightarrow> (writer, unit) io" where
  "FutureSalt_serializeBare m =
     andThen (WriteInt32 (FutureSalt_ValidSince m)) (\<lambda>_.
     andThen (WriteInt32 (FutureSalt_ValidUntil m)) (\<lambda>_.
     WriteInt64 (FutureSalt_Salt m)))"

definition FutureSalt_deserializeBare :: "(reader, FutureSalt) io" where
  "FutureSalt_deserializeBare =
     andThen ReadInt32 (\<lambda>validSince.
     andThen ReadInt32 (\<lambda>validUntil.
     andThen ReadInt64 (\<lambda>salt.
       ret \<lparr>FutureSalt_ValidSince = validSince, FutureSalt_ValidUntil = validUntil,
            FutureSalt_Salt = salt\<rparr>)))"

definition FutureSalt_SerializeTL :: "FutureSalt \<Rightarrow> (writer, unit) io" where
  "FutureSalt_SerializeTL m =
     andThen (WriteUint32 FutureSaltID) (\<lambda>_. FutureSalt_serializeBare m)"

definition FutureSalt_DeserializeTL :: "(reader, FutureSalt) io" where
  "FutureSalt_DeserializeTL =
     andThen (readEmptyConstructor FutureSaltID) (\<lambda>_. FutureSalt_deserializeBare)"

record FutureSalts =
  FutureSalts_ReqMsgID :: int
  FutureSalts_Now :: int
  FutureSalts_Salts :: "FutureSalt list"

definition FutureSalts_SerializeTL :: "FutureSalts \<Rightarrow> (writer, unit) io" where
  "FutureSalts_SerializeTL m =
     (if int (length (FutureSalts_Salts m)) > MaxFutureSalts
      then raise (TLError (FutureSaltsCountLimit (int (length (FutureSalts_Salts m)))))
      else
        andThen (WriteUint32 FutureSaltsID) (\<lambda>_.
        andThen (WriteInt64 (FutureSalts_ReqMsgID m)) (\<lambda>_.
        andThen (WriteInt32 (FutureSalts_Now m)) (\<lambda>_.
        andThen (WriteInt32 (wrap32 (int (length (FutureSalts_Salts m))))) (\<lambda>_.
        forEach (FutureSalts_Salts m) FutureSalt_serializeBare)))))"

definition FutureSalts_DeserializeTL :: "(reader, FutureSalts) io" where
  "FutureSalts_DeserializeTL =
     andThen (readEmptyConstructor FutureSaltsID) (\<lambda>_.
     andThen ReadInt64 (\<lambda>reqMsgID.
     andThen ReadInt32 (\<lambda>now.
     andThen ReadInt32 (\<lambda>count.
       if count < 0 then raise (TLError (InvalidFutureSaltsCount count))
       else if count > MaxFutureSalts then raise (TLError (FutureSaltsCountLimit count))
       else andThen (repeatM (nat count) FutureSalt_deserializeBare) (\<lambda>salts.
         ret \<lparr>FutureSalts_ReqMsgID = reqMsgID, FutureSalts_Now = now, FutureSalts_Salts = salts\<rparr>)))))"

section \<open>Encodings of the shared fragments\<close>

definition ids_ok :: "int list \<Rightarrow> bool" where
  "ids_ok ids \<longleftrightarrow> int (length ids) \<le> MaxMessageStateIDs \<and> (\<forall>id \<in> set ids. in_i64 id)"

definition enc_ids :: "int list \<Rightarrow> bytes" where
  "enc_ids ids = le_bytes 4 VectorConstructorID @ le_bytes 4 (int (length ids)) @ concat (map (le_bytes 8) ids)"

named_theorems field_parses \<open>rules for the fields of a message\<close>
named_theorems tail_parses \<open>rules for the fields of a message that ends in a nested query\<close>

lemma constructor_u32:
  "in_u32 MsgContainerID"
  "in_u32 MsgsAckID"
  "in_u32 GzipPackedID"
  "in_u32 RPCResultID"
  "in_u32 RPCErrorID"
  "in_u32 RPCDropAnswerID"
  "in_u32 RPCAnswerUnknownID"
  "in_u32 RPCAnswerDroppedRunningID"
  "in_u32 RPCAnswerDroppedID"
  "in_u32 NewSessionCreatedID"
  "in_u32 FutureSaltID"
  "in_u32 FutureSaltsID"
  "in_u32 GetFutureSaltsID"
  "in_u32 PingID"
  "in_u32 PingDelayDisconnectID"
  "in_u32 PongID"
  "in_u32 BadMsgNotificationID"
  "in_u32 BadServerSaltID"
  "in_u32 MsgResendReqID"
  "in_u32 MsgsStateReqID"
  "in_u32 MsgsStateInfoID"
  "in_u32 InvokeAfterMsgID"
  "in_u32 InvokeAfterMsgsID"
  "in_u32 InitConnectionID"
  "in_u32 InvokeWithLayerID"
  "in_u32 InvokeWithoutUpdatesID"
  by (simp_all add: constructor_ids in_u32_def)

declare constructor_u32 [simp]

lemma emits_WriteIDs [emit_intros]: "emits (WriteIDs ids) (enc_ids ids)"
proof -
  have "emits (WriteIDs ids) ((le_bytes 4 VectorConstructorID @ le_bytes 4 (int (length ids))) @ concat (map (le_bytes 8) ids))"
    unfolding WriteIDs_def by (intro emits_andThen emits_WriteVectorHeader emits_forEach emits_primitives)
  then show ?thesis by (simp add: enc_ids_def)
qed

lemma parses_readEmptyConstructor: "in_u32 c \<Longrightarrow> parses (readEmptyConstructor c) (le_bytes 4 c) 0 0 0 ()"
proof -
  assume c: "in_u32 c"
  have "parses (readEmptyConstructor c) (le_bytes 4 c @ []) 0 0 0 ()"
    unfolding readEmptyConstructor_def by (rule parses_seq [OF parses_ReadUint32 [OF c]]) (simp add: parses_ret)
  then show ?thesis by simp
qed

lemma parses_ctor [field_parses]:
  "in_u32 c \<Longrightarrow> parses (f ()) b v k d y \<Longrightarrow>
     parses (andThen (readEmptyConstructor c) f) (le_bytes 4 c @ b) v k d y"
  by (rule parses_seq [OF parses_readEmptyConstructor])

lemma parses_all_ctor [tail_parses]:
  "in_u32 c \<Longrightarrow> parses_all (f ()) b v k d y \<Longrightarrow>
     parses_all (andThen (readEmptyConstructor c) f) (le_bytes 4 c @ b) v k d y"
  by (rule parses_all_seq [OF parses_readEmptyConstructor])

lemma parses_ids [field_parses]:
  assumes "ids_ok ids"
  shows "parses (ReadVectorBounded MaxMessageStateIDs ReadInt64) (enc_ids ids) (length ids) 0 0 ids"
proof -
  have "int (length ids) \<le> 8192" "length ids < 2 ^ 31"
    using assms by (simp_all add: ids_ok_def MaxMessageStateIDs_def)
  with parses_ReadVectorBounded [of ids MaxMessageStateIDs ReadInt64 "le_bytes 8" "\<lambda>_. 0" "\<lambda>_. 0" 0] assms
  show ?thesis
    by (simp add: enc_ids_def ids_ok_def parses_ReadInt64 MaxMessageStateIDs_def sum_list_triv)
qed

lemma parses_all_ids [tail_parses]:
  "ids_ok ids \<Longrightarrow> parses_all (f ids) b 0 0 0 y \<Longrightarrow>
     parses_all (andThen (ReadVectorBounded MaxMessageStateIDs ReadInt64) f) (enc_ids ids @ b)
       (length ids) 0 0 y"
  using parses_all_andThen [OF parses_ids, of ids f b 0 0 0 y] by simp

lemmas parses_fields [field_parses] =
  parses_ReadInt32 parses_ReadInt64 parses_ReadString parses_ReadBytes
  parses_seq [OF parses_ReadInt32] parses_seq [OF parses_ReadInt64] parses_map

lemma parses_all_query [tail_parses]:
  "y = g bs \<Longrightarrow> parses_all (andThen ReadAll (\<lambda>q. ret (g q))) bs 0 0 0 y"
  by (simp add: parses_all_rest del: ret_apply)

lemmas parses_all_fields [tail_parses] =
  parses_all_seq [OF parses_ReadInt32] parses_all_seq [OF parses_ReadInt64]

lemma within_readEmptyConstructor [within_intros]: "within_budget (readEmptyConstructor c)"
  unfolding readEmptyConstructor_def by (intro within_intros)

section \<open>The messages fulfil the contract\<close>

definition MsgsAck_valid :: "MsgsAck \<Rightarrow> bool" where
  "MsgsAck_valid m \<longleftrightarrow> ids_ok (MsgsAck_MsgIDs m)"

definition MsgsAck_enc :: "MsgsAck \<Rightarrow> bytes" where
  "MsgsAck_enc m = le_bytes 4 MsgsAckID @ enc_ids (MsgsAck_MsgIDs m)"

interpretation msgsAck_tl: tl_prefix_object MsgsAck_SerializeTL MsgsAck_DeserializeTL
  MsgsAck_valid MsgsAck_enc "\<lambda>m. length (MsgsAck_MsgIDs m)"
  by (rule tl_prefix_objectI)
    (auto simp: MsgsAck_valid_def MsgsAck_enc_def MsgsAck_SerializeTL_def MsgsAck_DeserializeTL_def
      intro!: emit_intros field_parses within_intros MsgsAck.equality)

definition BadMsgNotification_valid :: "BadMsgNotification \<Rightarrow> bool" where
  "BadMsgNotification_valid m \<longleftrightarrow>
     in_i64 (BadMsgNotification_BadMsgID m) \<and> in_i32 (BadMsgNotification_BadMsgSeq m) \<and> in_i32 (BadMsgNotification_ErrorCode m)"

definition BadMsgNotification_enc :: "BadMsgNotification \<Rightarrow> bytes" where
  "BadMsgNotification_enc m =
     le_bytes 4 BadMsgNotificationID @ le_bytes 8 (BadMsgNotification_BadMsgID m) @ le_bytes 4 (BadMsgNotification_BadMsgSeq m) @ le_bytes 4 (BadMsgNotification_ErrorCode m)"

interpretation badMsgNotification_tl: tl_prefix_object BadMsgNotification_SerializeTL BadMsgNotification_DeserializeTL
  BadMsgNotification_valid BadMsgNotification_enc "\<lambda>_. 0"
  by (rule tl_prefix_objectI)
    (auto simp: BadMsgNotification_valid_def BadMsgNotification_enc_def
      BadMsgNotification_SerializeTL_def BadMsgNotification_DeserializeTL_def
      intro!: emit_intros field_parses within_intros BadMsgNotification.equality)

definition BadServerSalt_valid :: "BadServerSalt \<Rightarrow> bool" where
  "BadServerSalt_valid m \<longleftrightarrow>
     in_i64 (BadServerSalt_BadMsgID m) \<and> in_i32 (BadServerSalt_BadMsgSeq m) \<and> in_i32 (BadServerSalt_ErrorCode m) \<and> in_i64 (BadServerSalt_NewSalt m)"

definition BadServerSalt_enc :: "BadServerSalt \<Rightarrow> bytes" where
  "BadServerSalt_enc m =
     le_bytes 4 BadServerSaltID @ le_bytes 8 (BadServerSalt_BadMsgID m) @ le_bytes 4 (BadServerSalt_BadMsgSeq m) @ le_bytes 4 (BadServerSalt_ErrorCode m) @ le_bytes 8 (BadServerSalt_NewSalt m)"

interpretation badServerSalt_tl: tl_prefix_object BadServerSalt_SerializeTL BadServerSalt_DeserializeTL
  BadServerSalt_valid BadServerSalt_enc "\<lambda>_. 0"
  by (rule tl_prefix_objectI)
    (auto simp: BadServerSalt_valid_def BadServerSalt_enc_def
      BadServerSalt_SerializeTL_def BadServerSalt_DeserializeTL_def
      intro!: emit_intros field_parses within_intros BadServerSalt.equality)

definition GzipPacked_valid :: "GzipPacked \<Rightarrow> bool" where
  "GzipPacked_valid m \<longleftrightarrow> length (GzipPacked_PackedData m) < 2 ^ 24"

definition GzipPacked_enc :: "GzipPacked \<Rightarrow> bytes" where
  "GzipPacked_enc m = le_bytes 4 GzipPackedID @ enc_bytes (GzipPacked_PackedData m)"

interpretation gzipPacked_tl: tl_prefix_object GzipPacked_SerializeTL GzipPacked_DeserializeTL
  GzipPacked_valid GzipPacked_enc "\<lambda>_. 0"
  by (rule tl_prefix_objectI)
    (auto simp: GzipPacked_valid_def GzipPacked_enc_def
      GzipPacked_SerializeTL_def GzipPacked_DeserializeTL_def
      intro!: emit_intros field_parses within_intros GzipPacked.equality)

definition Ping_valid :: "Ping \<Rightarrow> bool" where
  "Ping_valid m \<longleftrightarrow> in_i64 (Ping_PingID m)"

definition Ping_enc :: "Ping \<Rightarrow> bytes" where
  "Ping_enc m = le_bytes 4 PingID @ le_bytes 8 (Ping_PingID m)"

interpretation ping_tl: tl_prefix_object Ping_SerializeTL Ping_DeserializeTL
  Ping_valid Ping_enc "\<lambda>_. 0"
  by (rule tl_prefix_objectI)
    (auto simp: Ping_valid_def Ping_enc_def Ping_SerializeTL_def Ping_DeserializeTL_def
      intro!: emit_intros field_parses within_intros Ping.equality)

definition PingDelayDisconnect_valid :: "PingDelayDisconnect \<Rightarrow> bool" where
  "PingDelayDisconnect_valid m \<longleftrightarrow>
     in_i64 (PingDelayDisconnect_PingID m) \<and> in_i32 (PingDelayDisconnect_DisconnectDelay m)"

definition PingDelayDisconnect_enc :: "PingDelayDisconnect \<Rightarrow> bytes" where
  "PingDelayDisconnect_enc m =
     le_bytes 4 PingDelayDisconnectID @ le_bytes 8 (PingDelayDisconnect_PingID m) @ le_bytes 4 (PingDelayDisconnect_DisconnectDelay m)"

interpretation pingDelayDisconnect_tl: tl_prefix_object PingDelayDisconnect_SerializeTL PingDelayDisconnect_DeserializeTL
  PingDelayDisconnect_valid PingDelayDisconnect_enc "\<lambda>_. 0"
  by (rule tl_prefix_objectI)
    (auto simp: PingDelayDisconnect_valid_def PingDelayDisconnect_enc_def
      PingDelayDisconnect_SerializeTL_def PingDelayDisconnect_DeserializeTL_def
      intro!: emit_intros field_parses within_intros PingDelayDisconnect.equality)

definition Pong_valid :: "Pong \<Rightarrow> bool" where
  "Pong_valid m \<longleftrightarrow> in_i64 (Pong_MsgID m) \<and> in_i64 (Pong_PingID m)"

definition Pong_enc :: "Pong \<Rightarrow> bytes" where
  "Pong_enc m = le_bytes 4 PongID @ le_bytes 8 (Pong_MsgID m) @ le_bytes 8 (Pong_PingID m)"

interpretation pong_tl: tl_prefix_object Pong_SerializeTL Pong_DeserializeTL
  Pong_valid Pong_enc "\<lambda>_. 0"
  by (rule tl_prefix_objectI)
    (auto simp: Pong_valid_def Pong_enc_def Pong_SerializeTL_def Pong_DeserializeTL_def
      intro!: emit_intros field_parses within_intros Pong.equality)

definition RPCError_valid :: "RPCError \<Rightarrow> bool" where
  "RPCError_valid m \<longleftrightarrow>
     in_i32 (RPCError_ErrorCode m) \<and> length (RPCError_ErrorMessage m) < 2 ^ 24"

definition RPCError_enc :: "RPCError \<Rightarrow> bytes" where
  "RPCError_enc m =
     le_bytes 4 RPCErrorID @ le_bytes 4 (RPCError_ErrorCode m) @ enc_bytes (RPCError_ErrorMessage m)"

interpretation rPCError_tl: tl_prefix_object RPCError_SerializeTL RPCError_DeserializeTL
  RPCError_valid RPCError_enc "\<lambda>_. 0"
  by (rule tl_prefix_objectI)
    (auto simp: RPCError_valid_def RPCError_enc_def
      RPCError_SerializeTL_def RPCError_DeserializeTL_def
      intro!: emit_intros field_parses within_intros RPCError.equality)

definition RPCDropAnswer_valid :: "RPCDropAnswer \<Rightarrow> bool" where
  "RPCDropAnswer_valid m \<longleftrightarrow> in_i64 (RPCDropAnswer_ReqMsgID m)"

definition RPCDropAnswer_enc :: "RPCDropAnswer \<Rightarrow> bytes" where
  "RPCDropAnswer_enc m = le_bytes 4 RPCDropAnswerID @ le_bytes 8 (RPCDropAnswer_ReqMsgID m)"

interpretation rPCDropAnswer_tl: tl_prefix_object RPCDropAnswer_SerializeTL RPCDropAnswer_DeserializeTL
  RPCDropAnswer_valid RPCDropAnswer_enc "\<lambda>_. 0"
  by (rule tl_prefix_objectI)
    (auto simp: RPCDropAnswer_valid_def RPCDropAnswer_enc_def
      RPCDropAnswer_SerializeTL_def RPCDropAnswer_DeserializeTL_def
      intro!: emit_intros field_parses within_intros RPCDropAnswer.equality)

definition RPCAnswerDropped_valid :: "RPCAnswerDropped \<Rightarrow> bool" where
  "RPCAnswerDropped_valid m \<longleftrightarrow>
     in_i64 (RPCAnswerDropped_MsgID m) \<and> in_i32 (RPCAnswerDropped_SeqNo m) \<and> in_i32 (RPCAnswerDropped_Bytes m)"

definition RPCAnswerDropped_enc :: "RPCAnswerDropped \<Rightarrow> bytes" where
  "RPCAnswerDropped_enc m =
     le_bytes 4 RPCAnswerDroppedID @ le_bytes 8 (RPCAnswerDropped_MsgID m) @ le_bytes 4 (RPCAnswerDropped_SeqNo m) @ le_bytes 4 (RPCAnswerDropped_Bytes m)"

interpretation rPCAnswerDropped_tl: tl_prefix_object RPCAnswerDropped_SerializeTL RPCAnswerDropped_DeserializeTL
  RPCAnswerDropped_valid RPCAnswerDropped_enc "\<lambda>_. 0"
  by (rule tl_prefix_objectI)
    (auto simp: RPCAnswerDropped_valid_def RPCAnswerDropped_enc_def
      RPCAnswerDropped_SerializeTL_def RPCAnswerDropped_DeserializeTL_def
      intro!: emit_intros field_parses within_intros RPCAnswerDropped.equality)

definition GetFutureSaltsRequest_valid :: "GetFutureSaltsRequest \<Rightarrow> bool" where
  "GetFutureSaltsRequest_valid m \<longleftrightarrow> in_i32 (GetFutureSaltsRequest_Num m)"

definition GetFutureSaltsRequest_enc :: "GetFutureSaltsRequest \<Rightarrow> bytes" where
  "GetFutureSaltsRequest_enc m =
     le_bytes 4 GetFutureSaltsID @ le_bytes 4 (GetFutureSaltsRequest_Num m)"

interpretation getFutureSaltsRequest_tl: tl_prefix_object GetFutureSaltsRequest_SerializeTL GetFutureSaltsRequest_DeserializeTL
  GetFutureSaltsRequest_valid GetFutureSaltsRequest_enc "\<lambda>_. 0"
  by (rule tl_prefix_objectI)
    (auto simp: GetFutureSaltsRequest_valid_def GetFutureSaltsRequest_enc_def
      GetFutureSaltsRequest_SerializeTL_def GetFutureSaltsRequest_DeserializeTL_def
      intro!: emit_intros field_parses within_intros GetFutureSaltsRequest.equality)

definition NewSessionCreated_valid :: "NewSessionCreated \<Rightarrow> bool" where
  "NewSessionCreated_valid m \<longleftrightarrow>
     in_i64 (NewSessionCreated_FirstMsgID m) \<and> in_i64 (NewSessionCreated_UniqueID m) \<and> in_i64 (NewSessionCreated_ServerSalt m)"

definition NewSessionCreated_enc :: "NewSessionCreated \<Rightarrow> bytes" where
  "NewSessionCreated_enc m =
     le_bytes 4 NewSessionCreatedID @ le_bytes 8 (NewSessionCreated_FirstMsgID m) @ le_bytes 8 (NewSessionCreated_UniqueID m) @ le_bytes 8 (NewSessionCreated_ServerSalt m)"

interpretation newSessionCreated_tl: tl_prefix_object NewSessionCreated_SerializeTL NewSessionCreated_DeserializeTL
  NewSessionCreated_valid NewSessionCreated_enc "\<lambda>_. 0"
  by (rule tl_prefix_objectI)
    (auto simp: NewSessionCreated_valid_def NewSessionCreated_enc_def
      NewSessionCreated_SerializeTL_def NewSessionCreated_DeserializeTL_def
      intro!: emit_intros field_parses within_intros NewSessionCreated.equality)

definition MsgResendReq_valid :: "MsgResendReq \<Rightarrow> bool" where
  "MsgResendReq_valid m \<longleftrightarrow> ids_ok (MsgResendReq_MsgIDs m)"

definition MsgResendReq_enc :: "MsgResendReq \<Rightarrow> bytes" where
  "MsgResendReq_enc m = le_bytes 4 MsgResendReqID @ enc_ids (MsgResendReq_MsgIDs m)"

interpretation msgResendReq_tl: tl_prefix_object MsgResendReq_SerializeTL MsgResendReq_DeserializeTL
  MsgResendReq_valid MsgResendReq_enc "\<lambda>m. length (MsgResendReq_MsgIDs m)"
  by (rule tl_prefix_objectI)
    (auto simp: MsgResendReq_valid_def MsgResendReq_enc_def
      MsgResendReq_SerializeTL_def MsgResendReq_DeserializeTL_def
      intro!: emit_intros field_parses within_intros MsgResendReq.equality)

definition MsgsStateReq_valid :: "MsgsStateReq \<Rightarrow> bool" where
  "MsgsStateReq_valid m \<longleftrightarrow> ids_ok (MsgsStateReq_MsgIDs m)"

definition MsgsStateReq_enc :: "MsgsStateReq \<Rightarrow> bytes" where
  "MsgsStateReq_enc m = le_bytes 4 MsgsStateReqID @ enc_ids (MsgsStateReq_MsgIDs m)"

interpretation msgsStateReq_tl: tl_prefix_object MsgsStateReq_SerializeTL MsgsStateReq_DeserializeTL
  MsgsStateReq_valid MsgsStateReq_enc "\<lambda>m. length (MsgsStateReq_MsgIDs m)"
  by (rule tl_prefix_objectI)
    (auto simp: MsgsStateReq_valid_def MsgsStateReq_enc_def
      MsgsStateReq_SerializeTL_def MsgsStateReq_DeserializeTL_def
      intro!: emit_intros field_parses within_intros MsgsStateReq.equality)

definition MsgsStateInfo_valid :: "MsgsStateInfo \<Rightarrow> bool" where
  "MsgsStateInfo_valid m \<longleftrightarrow>
     in_i64 (MsgsStateInfo_ReqMsgID m) \<and> length (MsgsStateInfo_Info m) < 2 ^ 24"

definition MsgsStateInfo_enc :: "MsgsStateInfo \<Rightarrow> bytes" where
  "MsgsStateInfo_enc m =
     le_bytes 4 MsgsStateInfoID @ le_bytes 8 (MsgsStateInfo_ReqMsgID m) @ enc_bytes (MsgsStateInfo_Info m)"

interpretation msgsStateInfo_tl: tl_prefix_object MsgsStateInfo_SerializeTL MsgsStateInfo_DeserializeTL
  MsgsStateInfo_valid MsgsStateInfo_enc "\<lambda>_. 0"
  by (rule tl_prefix_objectI)
    (auto simp: MsgsStateInfo_valid_def MsgsStateInfo_enc_def
      MsgsStateInfo_SerializeTL_def MsgsStateInfo_DeserializeTL_def
      intro!: emit_intros field_parses within_intros MsgsStateInfo.equality)

definition InvokeWithLayer_valid :: "InvokeWithLayer \<Rightarrow> bool" where
  "InvokeWithLayer_valid m \<longleftrightarrow> in_i32 (InvokeWithLayer_Layer m)"

definition InvokeWithLayer_enc :: "InvokeWithLayer \<Rightarrow> bytes" where
  "InvokeWithLayer_enc m =
     le_bytes 4 InvokeWithLayerID @ le_bytes 4 (InvokeWithLayer_Layer m) @ InvokeWithLayer_QueryRaw m"

interpretation invokeWithLayer_tl: tl_object InvokeWithLayer_SerializeTL InvokeWithLayer_DeserializeTL
  InvokeWithLayer_valid InvokeWithLayer_enc "\<lambda>_. 0"
  by unfold_locales
    (auto simp: InvokeWithLayer_valid_def InvokeWithLayer_enc_def
      InvokeWithLayer_SerializeTL_def InvokeWithLayer_DeserializeTL_def
      intro!: emit_intros tail_parses within_intros InvokeWithLayer.equality)

definition InvokeAfterMsg_valid :: "InvokeAfterMsg \<Rightarrow> bool" where
  "InvokeAfterMsg_valid m \<longleftrightarrow> in_i64 (InvokeAfterMsg_MsgID m)"

definition InvokeAfterMsg_enc :: "InvokeAfterMsg \<Rightarrow> bytes" where
  "InvokeAfterMsg_enc m =
     le_bytes 4 InvokeAfterMsgID @ le_bytes 8 (InvokeAfterMsg_MsgID m) @ InvokeAfterMsg_QueryRaw m"

interpretation invokeAfterMsg_tl: tl_object InvokeAfterMsg_SerializeTL InvokeAfterMsg_DeserializeTL
  InvokeAfterMsg_valid InvokeAfterMsg_enc "\<lambda>_. 0"
  by unfold_locales
    (auto simp: InvokeAfterMsg_valid_def InvokeAfterMsg_enc_def
      InvokeAfterMsg_SerializeTL_def InvokeAfterMsg_DeserializeTL_def
      intro!: emit_intros tail_parses within_intros InvokeAfterMsg.equality)

definition InvokeAfterMsgs_valid :: "InvokeAfterMsgs \<Rightarrow> bool" where
  "InvokeAfterMsgs_valid m \<longleftrightarrow> ids_ok (InvokeAfterMsgs_MsgIDs m)"

definition InvokeAfterMsgs_enc :: "InvokeAfterMsgs \<Rightarrow> bytes" where
  "InvokeAfterMsgs_enc m =
     le_bytes 4 InvokeAfterMsgsID @ enc_ids (InvokeAfterMsgs_MsgIDs m) @ InvokeAfterMsgs_QueryRaw m"

interpretation invokeAfterMsgs_tl: tl_object InvokeAfterMsgs_SerializeTL InvokeAfterMsgs_DeserializeTL
  InvokeAfterMsgs_valid InvokeAfterMsgs_enc "\<lambda>m. length (InvokeAfterMsgs_MsgIDs m)"
  by unfold_locales
    (auto simp: InvokeAfterMsgs_valid_def InvokeAfterMsgs_enc_def
      InvokeAfterMsgs_SerializeTL_def InvokeAfterMsgs_DeserializeTL_def
      intro!: emit_intros tail_parses within_intros InvokeAfterMsgs.equality)

definition InvokeWithoutUpdates_valid :: "InvokeWithoutUpdates \<Rightarrow> bool" where
  "InvokeWithoutUpdates_valid m \<longleftrightarrow> True"

definition InvokeWithoutUpdates_enc :: "InvokeWithoutUpdates \<Rightarrow> bytes" where
  "InvokeWithoutUpdates_enc m = le_bytes 4 InvokeWithoutUpdatesID @ InvokeWithoutUpdates_QueryRaw m"

interpretation invokeWithoutUpdates_tl: tl_object InvokeWithoutUpdates_SerializeTL InvokeWithoutUpdates_DeserializeTL
  InvokeWithoutUpdates_valid InvokeWithoutUpdates_enc "\<lambda>_. 0"
  by unfold_locales
    (auto simp: InvokeWithoutUpdates_valid_def InvokeWithoutUpdates_enc_def
      InvokeWithoutUpdates_SerializeTL_def InvokeWithoutUpdates_DeserializeTL_def
      intro!: emit_intros tail_parses within_intros InvokeWithoutUpdates.equality)

interpretation rPCAnswerUnknown_tl: tl_prefix_object RPCAnswerUnknown_SerializeTL RPCAnswerUnknown_DeserializeTL
  "\<lambda>_. True" "\<lambda>_. le_bytes 4 RPCAnswerUnknownID" "\<lambda>_. 0"
  by (rule tl_prefix_objectI)
    (auto simp: RPCAnswerUnknown_SerializeTL_def RPCAnswerUnknown_DeserializeTL_def
      intro!: emit_intros parses_readEmptyConstructor within_intros)

interpretation rPCAnswerDroppedRunning_tl: tl_prefix_object
  RPCAnswerDroppedRunning_SerializeTL RPCAnswerDroppedRunning_DeserializeTL
  "\<lambda>_. True" "\<lambda>_. le_bytes 4 RPCAnswerDroppedRunningID" "\<lambda>_. 0"
  by (rule tl_prefix_objectI)
    (auto simp: RPCAnswerDroppedRunning_SerializeTL_def RPCAnswerDroppedRunning_DeserializeTL_def
      intro!: emit_intros parses_readEmptyConstructor within_intros)

definition RPCResult_valid :: "RPCResult \<Rightarrow> bool" where
  "RPCResult_valid m \<longleftrightarrow> in_i64 (RPCResult_ReqMsgID m) \<and> RPCResult_Result m = None"

definition RPCResult_enc :: "RPCResult \<Rightarrow> bytes" where
  "RPCResult_enc m = le_bytes 4 RPCResultID @ le_bytes 8 (RPCResult_ReqMsgID m) @ RPCResult_ResultRaw m"

interpretation rPCResult_tl: tl_object RPCResult_SerializeTL RPCResult_DeserializeTL
  RPCResult_valid RPCResult_enc "\<lambda>_. 0"
  by unfold_locales
    (auto simp: RPCResult_valid_def RPCResult_enc_def RPCResult_SerializeTL_def
      RPCResult_DeserializeTL_def
      intro!: emit_intros tail_parses within_intros RPCResult.equality)

definition Message_valid :: "Message \<Rightarrow> bool" where
  "Message_valid m \<longleftrightarrow> in_i64 (Message_MsgID m) \<and> in_i32 (Message_SeqNo m) \<and>
     Message_Body m = None \<and> Message_Bytes m = int (length (Message_BodyRaw m)) \<and>
     length (Message_BodyRaw m) < 2 ^ 31"

definition Message_enc :: "Message \<Rightarrow> bytes" where
  "Message_enc m = le_bytes 8 (Message_MsgID m) @ le_bytes 4 (Message_SeqNo m) @
     le_bytes 4 (int (length (Message_BodyRaw m))) @ Message_BodyRaw m"

lemma emits_WriteInt32_wrap [emit_intros]: "emits (WriteInt32 (wrap32 n)) (le_bytes 4 n)"
  using emits_primitives(2) [of "wrap32 n"] by simp

lemma parses_Message:
  assumes "Message_valid m"
  shows "parses Message_DeserializeTL (Message_enc m) 0 0 0 m"
proof -
  have n: "in_i32 (int (length (Message_BodyRaw m)))"
    using assms by (simp add: Message_valid_def in_i32_def)
  have "parses (if int (length (Message_BodyRaw m)) < 0
        then raise (TLError (NegativeMessageBytes (int (length (Message_BodyRaw m)))))
        else andThen (ReadSizedBytes (int (length (Message_BodyRaw m)))) (\<lambda>bodyRaw.
          ret \<lparr>Message_MsgID = Message_MsgID m, Message_SeqNo = Message_SeqNo m,
            Message_Bytes = int (length (Message_BodyRaw m)), Message_Body = None, Message_BodyRaw = bodyRaw\<rparr>))
      (Message_BodyRaw m) 0 0 0 m"
    using assms by (auto simp: Message_valid_def simp del: ret_apply
        intro!: parses_map [OF parses_ReadSizedBytes] Message.equality)
  then show ?thesis
    using assms n unfolding Message_DeserializeTL_def Message_enc_def
    by (intro parses_seq [OF parses_ReadInt64] parses_seq [OF parses_ReadInt32])
      (simp_all add: Message_valid_def)
qed

interpretation message_tl: tl_prefix_object Message_SerializeTL Message_DeserializeTL
  Message_valid Message_enc "\<lambda>_. 0"
proof (rule tl_prefix_objectI)
  fix m assume "Message_valid m"
  then show "emits (Message_SerializeTL m) (Message_enc m)"
    by (auto simp: Message_valid_def Message_SerializeTL_def Message_enc_def intro!: emit_intros)
  show "parses Message_DeserializeTL (Message_enc m) 0 0 0 m"
    by (rule parses_Message [OF \<open>Message_valid m\<close>])
next
  show "within_budget Message_DeserializeTL"
    unfolding Message_DeserializeTL_def by (intro within_intros)
qed

definition MsgContainer_valid :: "MsgContainer \<Rightarrow> bool" where
  "MsgContainer_valid c \<longleftrightarrow> int (length (MsgContainer_Messages c)) \<le> MaxContainerMessages \<and>
     (\<forall>m \<in> set (MsgContainer_Messages c). Message_valid m)"

definition MsgContainer_enc :: "MsgContainer \<Rightarrow> bytes" where
  "MsgContainer_enc c = le_bytes 4 MsgContainerID @
     le_bytes 4 (int (length (MsgContainer_Messages c))) @ concat (map Message_enc (MsgContainer_Messages c))"

lemma parses_MsgContainer:
  assumes "MsgContainer_valid c"
  shows "parses MsgContainer_DeserializeTL (MsgContainer_enc c) (length (MsgContainer_Messages c)) 0 0 c"
proof -
  let ?ms = "MsgContainer_Messages c"
  have "int (length ?ms) \<le> 8192" "length ?ms < 2 ^ 31"
    using assms by (simp_all add: MsgContainer_valid_def MaxContainerMessages_def)
  with parses_ReadBareVectorBounded
    [of ?ms MaxContainerMessages Message_DeserializeTL Message_enc "\<lambda>_. 0" "\<lambda>_. 0" 0] assms
  have "parses (ReadBareVectorBounded MaxContainerMessages Message_DeserializeTL)
      (le_bytes 4 (int (length ?ms)) @ concat (map Message_enc ?ms)) (length ?ms) 0 0 ?ms"
    by (simp add: MsgContainer_valid_def parses_Message MaxContainerMessages_def sum_list_triv)
  then show ?thesis
    unfolding MsgContainer_DeserializeTL_def MsgContainer_enc_def
    by (intro parses_ctor parses_map MsgContainer.equality) simp_all
qed

interpretation msgContainer_tl: tl_prefix_object MsgContainer_SerializeTL MsgContainer_DeserializeTL
  MsgContainer_valid MsgContainer_enc "\<lambda>c. length (MsgContainer_Messages c)"
proof (rule tl_prefix_objectI)
  fix c assume c: "MsgContainer_valid c"
  then show "emits (MsgContainer_SerializeTL c) (MsgContainer_enc c)"
    unfolding MsgContainer_SerializeTL_def MsgContainer_enc_def
    by (intro emit_intros message_tl.emits) (simp add: MsgContainer_valid_def)
  show "parses MsgContainer_DeserializeTL (MsgContainer_enc c) (length (MsgContainer_Messages c)) 0 0 c"
    by (rule parses_MsgContainer [OF c])
next
  show "within_budget MsgContainer_DeserializeTL"
    unfolding MsgContainer_DeserializeTL_def by (intro within_intros message_tl.within)
qed

definition FutureSalt_valid :: "FutureSalt \<Rightarrow> bool" where
  "FutureSalt_valid m \<longleftrightarrow> in_i32 (FutureSalt_ValidSince m) \<and> in_i32 (FutureSalt_ValidUntil m) \<and>
     in_i64 (FutureSalt_Salt m)"

definition FutureSalt_encBare :: "FutureSalt \<Rightarrow> bytes" where
  "FutureSalt_encBare m = le_bytes 4 (FutureSalt_ValidSince m) @ le_bytes 4 (FutureSalt_ValidUntil m) @
     le_bytes 8 (FutureSalt_Salt m)"

lemma emits_FutureSalt [emit_intros]: "emits (FutureSalt_serializeBare m) (FutureSalt_encBare m)"
  unfolding FutureSalt_serializeBare_def FutureSalt_encBare_def by (intro emit_intros)

lemma parses_FutureSalt [field_parses]:
  "FutureSalt_valid m \<Longrightarrow> parses FutureSalt_deserializeBare (FutureSalt_encBare m) 0 0 0 m"
  by (auto simp: FutureSalt_valid_def FutureSalt_encBare_def FutureSalt_deserializeBare_def
      intro!: field_parses FutureSalt.equality)

lemma within_FutureSalt [within_intros]: "within_budget FutureSalt_deserializeBare"
  unfolding FutureSalt_deserializeBare_def by (intro within_intros)

interpretation futureSalt_tl: tl_prefix_object FutureSalt_SerializeTL FutureSalt_DeserializeTL
  FutureSalt_valid "\<lambda>m. le_bytes 4 FutureSaltID @ FutureSalt_encBare m" "\<lambda>_. 0"
  by (rule tl_prefix_objectI)
    (auto simp: FutureSalt_SerializeTL_def FutureSalt_DeserializeTL_def
      intro!: emit_intros field_parses within_intros)

definition FutureSalts_valid :: "FutureSalts \<Rightarrow> bool" where
  "FutureSalts_valid m \<longleftrightarrow> in_i64 (FutureSalts_ReqMsgID m) \<and> in_i32 (FutureSalts_Now m) \<and>
     int (length (FutureSalts_Salts m)) \<le> MaxFutureSalts \<and>
     (\<forall>s \<in> set (FutureSalts_Salts m). FutureSalt_valid s)"

definition FutureSalts_enc :: "FutureSalts \<Rightarrow> bytes" where
  "FutureSalts_enc m = le_bytes 4 FutureSaltsID @ le_bytes 8 (FutureSalts_ReqMsgID m) @
     le_bytes 4 (FutureSalts_Now m) @ le_bytes 4 (int (length (FutureSalts_Salts m))) @
     concat (map FutureSalt_encBare (FutureSalts_Salts m))"

lemma parses_FutureSalts:
  assumes m: "FutureSalts_valid m"
  shows "parses FutureSalts_DeserializeTL (FutureSalts_enc m) 0 0 0 m"
proof -
  let ?s = "FutureSalts_Salts m"
  have n: "in_i32 (int (length ?s))" "\<not> int (length ?s) > MaxFutureSalts"
    using m by (simp_all add: FutureSalts_valid_def MaxFutureSalts_def in_i32_def)
  have "parses (repeatM (length ?s) FutureSalt_deserializeBare) (concat (map FutureSalt_encBare ?s)) 0 0 0 ?s"
    using parses_repeatM [of ?s FutureSalt_deserializeBare FutureSalt_encBare "\<lambda>_. 0" "\<lambda>_. 0" 0] m
    by (simp add: FutureSalts_valid_def parses_FutureSalt sum_list_triv)
  then have "parses (andThen (repeatM (nat (int (length ?s))) FutureSalt_deserializeBare) (\<lambda>salts.
       ret \<lparr>FutureSalts_ReqMsgID = FutureSalts_ReqMsgID m, FutureSalts_Now = FutureSalts_Now m,
         FutureSalts_Salts = salts\<rparr>)) (concat (map FutureSalt_encBare ?s)) 0 0 0 m"
    by (intro parses_map FutureSalts.equality) simp_all
  with m n show ?thesis
    unfolding FutureSalts_DeserializeTL_def FutureSalts_enc_def
    by (intro parses_ctor parses_seq [OF parses_ReadInt64] parses_seq [OF parses_ReadInt32])
      (simp_all add: FutureSalts_valid_def del: nat_int)
qed

interpretation futureSalts_tl: tl_prefix_object FutureSalts_SerializeTL FutureSalts_DeserializeTL
  FutureSalts_valid FutureSalts_enc "\<lambda>_. 0"
proof (rule tl_prefix_objectI)
  fix m assume m: "FutureSalts_valid m"
  then have "\<not> int (length (FutureSalts_Salts m)) > MaxFutureSalts" by (simp add: FutureSalts_valid_def)
  then show "emits (FutureSalts_SerializeTL m) (FutureSalts_enc m)"
    unfolding FutureSalts_SerializeTL_def FutureSalts_enc_def by (simp only: if_False) (intro emit_intros)
  show "parses FutureSalts_DeserializeTL (FutureSalts_enc m) 0 0 0 m"
    by (rule parses_FutureSalts [OF m])
next
  show "within_budget FutureSalts_DeserializeTL"
    unfolding FutureSalts_DeserializeTL_def by (intro within_intros)
qed

section \<open>Properties\<close>

text \<open>C9. Round trip of every service message.  Whatever the bounded serializer accepts of a message
  whose fields fit their Go types and the limits of the wire format is decoded by the control decoder
  to the same message, with no data left over.\<close>

theorem service_message_roundtrip:
  "control_codec MsgsAck_SerializeTL MsgsAck_DeserializeTL MsgsAck_valid \<and>
   control_codec BadMsgNotification_SerializeTL BadMsgNotification_DeserializeTL BadMsgNotification_valid \<and>
   control_codec BadServerSalt_SerializeTL BadServerSalt_DeserializeTL BadServerSalt_valid \<and>
   control_codec GzipPacked_SerializeTL GzipPacked_DeserializeTL GzipPacked_valid \<and>
   control_codec Ping_SerializeTL Ping_DeserializeTL Ping_valid \<and>
   control_codec PingDelayDisconnect_SerializeTL PingDelayDisconnect_DeserializeTL PingDelayDisconnect_valid \<and>
   control_codec Pong_SerializeTL Pong_DeserializeTL Pong_valid \<and>
   control_codec RPCError_SerializeTL RPCError_DeserializeTL RPCError_valid \<and>
   control_codec RPCDropAnswer_SerializeTL RPCDropAnswer_DeserializeTL RPCDropAnswer_valid \<and>
   control_codec RPCAnswerDropped_SerializeTL RPCAnswerDropped_DeserializeTL RPCAnswerDropped_valid \<and>
   control_codec GetFutureSaltsRequest_SerializeTL GetFutureSaltsRequest_DeserializeTL GetFutureSaltsRequest_valid \<and>
   control_codec NewSessionCreated_SerializeTL NewSessionCreated_DeserializeTL NewSessionCreated_valid \<and>
   control_codec MsgResendReq_SerializeTL MsgResendReq_DeserializeTL MsgResendReq_valid \<and>
   control_codec MsgsStateReq_SerializeTL MsgsStateReq_DeserializeTL MsgsStateReq_valid \<and>
   control_codec MsgsStateInfo_SerializeTL MsgsStateInfo_DeserializeTL MsgsStateInfo_valid \<and>
   control_codec InvokeWithLayer_SerializeTL InvokeWithLayer_DeserializeTL InvokeWithLayer_valid \<and>
   control_codec InvokeAfterMsg_SerializeTL InvokeAfterMsg_DeserializeTL InvokeAfterMsg_valid \<and>
   control_codec InvokeAfterMsgs_SerializeTL InvokeAfterMsgs_DeserializeTL InvokeAfterMsgs_valid \<and>
   control_codec InvokeWithoutUpdates_SerializeTL InvokeWithoutUpdates_DeserializeTL InvokeWithoutUpdates_valid \<and>
   control_codec RPCAnswerUnknown_SerializeTL RPCAnswerUnknown_DeserializeTL (\<lambda>_. True) \<and>
   control_codec RPCAnswerDroppedRunning_SerializeTL RPCAnswerDroppedRunning_DeserializeTL (\<lambda>_. True) \<and>
   control_codec RPCResult_SerializeTL RPCResult_DeserializeTL RPCResult_valid \<and>
   control_codec Message_SerializeTL Message_DeserializeTL Message_valid \<and>
   control_codec MsgContainer_SerializeTL MsgContainer_DeserializeTL MsgContainer_valid \<and>
   control_codec FutureSalt_SerializeTL FutureSalt_DeserializeTL FutureSalt_valid \<and>
   control_codec FutureSalts_SerializeTL FutureSalts_DeserializeTL FutureSalts_valid"
  by (intro conjI
    msgsAck_tl.codec badMsgNotification_tl.codec badServerSalt_tl.codec gzipPacked_tl.codec
    ping_tl.codec pingDelayDisconnect_tl.codec pong_tl.codec rPCError_tl.codec
    rPCDropAnswer_tl.codec rPCAnswerDropped_tl.codec getFutureSaltsRequest_tl.codec
    newSessionCreated_tl.codec msgResendReq_tl.codec msgsStateReq_tl.codec
    msgsStateInfo_tl.codec invokeWithLayer_tl.codec invokeAfterMsg_tl.codec
    invokeAfterMsgs_tl.codec invokeWithoutUpdates_tl.codec rPCAnswerUnknown_tl.codec
    rPCAnswerDroppedRunning_tl.codec rPCResult_tl.codec message_tl.codec msgContainer_tl.codec
    futureSalt_tl.codec futureSalts_tl.codec)

text \<open>C10. Decoding safety of every service message.  On any input, well-formed or hostile, decoding
  leaves the shared budget within all of its limits, never lowers the bytes charged and never charges
  more bytes than the body has, whether it succeeds or fails.\<close>

theorem service_message_bounded:
  "bounded_decoder MsgsAck_DeserializeTL \<and>
   bounded_decoder BadMsgNotification_DeserializeTL \<and>
   bounded_decoder BadServerSalt_DeserializeTL \<and>
   bounded_decoder GzipPacked_DeserializeTL \<and>
   bounded_decoder Ping_DeserializeTL \<and>
   bounded_decoder PingDelayDisconnect_DeserializeTL \<and>
   bounded_decoder Pong_DeserializeTL \<and>
   bounded_decoder RPCError_DeserializeTL \<and>
   bounded_decoder RPCDropAnswer_DeserializeTL \<and>
   bounded_decoder RPCAnswerDropped_DeserializeTL \<and>
   bounded_decoder GetFutureSaltsRequest_DeserializeTL \<and>
   bounded_decoder NewSessionCreated_DeserializeTL \<and>
   bounded_decoder MsgResendReq_DeserializeTL \<and>
   bounded_decoder MsgsStateReq_DeserializeTL \<and>
   bounded_decoder MsgsStateInfo_DeserializeTL \<and>
   bounded_decoder InvokeWithLayer_DeserializeTL \<and>
   bounded_decoder InvokeAfterMsg_DeserializeTL \<and>
   bounded_decoder InvokeAfterMsgs_DeserializeTL \<and>
   bounded_decoder InvokeWithoutUpdates_DeserializeTL \<and>
   bounded_decoder RPCAnswerUnknown_DeserializeTL \<and>
   bounded_decoder RPCAnswerDroppedRunning_DeserializeTL \<and>
   bounded_decoder RPCResult_DeserializeTL \<and>
   bounded_decoder Message_DeserializeTL \<and>
   bounded_decoder MsgContainer_DeserializeTL \<and>
   bounded_decoder FutureSalt_DeserializeTL \<and>
   bounded_decoder FutureSalts_DeserializeTL"
  by (intro conjI
    msgsAck_tl.bounded badMsgNotification_tl.bounded badServerSalt_tl.bounded
    gzipPacked_tl.bounded ping_tl.bounded pingDelayDisconnect_tl.bounded pong_tl.bounded
    rPCError_tl.bounded rPCDropAnswer_tl.bounded rPCAnswerDropped_tl.bounded
    getFutureSaltsRequest_tl.bounded newSessionCreated_tl.bounded msgResendReq_tl.bounded
    msgsStateReq_tl.bounded msgsStateInfo_tl.bounded invokeWithLayer_tl.bounded
    invokeAfterMsg_tl.bounded invokeAfterMsgs_tl.bounded invokeWithoutUpdates_tl.bounded
    rPCAnswerUnknown_tl.bounded rPCAnswerDroppedRunning_tl.bounded rPCResult_tl.bounded
    message_tl.bounded msgContainer_tl.bounded futureSalt_tl.bounded futureSalts_tl.bounded)

text \<open>Round trip of a container under a budget.  A container that the bounded serializer accepts and
  that the budget can pay for is decoded to the same messages, and the budget is charged exactly its bytes
  and one vector element per message.\<close>

theorem container_roundtrip:
  assumes "MsgContainer_valid c"
    and "serializeRuntimeTLBounded (MsgContainer_SerializeTL c) maxBytes = Inr bs"
    and "decodedBytes b + int (length bs) \<le> MaxDecodedBytes (limits b)"
    and "vectorElements b + int (length (MsgContainer_Messages c)) \<le> MaxVectorElements (limits b)"
    and "budget_ok b"
  shows "decodeControlBudget MsgContainer_DeserializeTL bs (Some b) =
    (Inr c, Some (b\<lparr>decodedBytes := decodedBytes b + int (length bs),
       vectorElements := vectorElements b + int (length (MsgContainer_Messages c))\<rparr>))"
proof -
  have "affords (length bs) (length (MsgContainer_Messages c)) 0 0 \<lparr>rdata = bs, rbudget = Some b\<rparr>"
    using assms by (simp add: affords_def budget_ok_def)
  from msgContainer_tl.control_roundtrip [OF assms(1,2) this] show ?thesis
    by (simp add: spend_def)
qed

definition exampleInner :: Message where
  "exampleInner = \<lparr>Message_MsgID = 4, Message_SeqNo = 1, Message_Bytes = 4, Message_Body = None,
     Message_BodyRaw = [1, 2, 3, 4]\<rparr>"

definition exampleContainer :: MsgContainer where
  "exampleContainer = \<lparr>MsgContainer_Messages = [exampleInner]\<rparr>"

definition exampleLimits :: DecodeLimits where
  "exampleLimits = \<lparr>MaxDecodedBytes = 1024, MaxWrappers = 4, MaxContainers = 4, MaxVectorElements = 16,
     MaxObjectNodes = 16, MaxObjectDepth = 4, MaxGzipRatio = 8, MaxGzipWorkBytes = 64\<rparr>"

definition exampleBudget :: DecodeBudget where
  "exampleBudget = \<lparr>limits = exampleLimits, decodedBytes = 0, wrapperCount = 0, containerCount = 0,
     vectorElements = 0, objectNodes = 0, objectDepth = 0, gzipWorkBytes = 0\<rparr>"

theorem container_roundtrip_witness:
  "decodeControlBudget MsgContainer_DeserializeTL (MsgContainer_enc exampleContainer) (Some exampleBudget) =
    (Inr exampleContainer, Some (exampleBudget\<lparr>decodedBytes := 28, vectorElements := 1\<rparr>))"
proof -
  have v: "MsgContainer_valid exampleContainer"
    by (simp add: MsgContainer_valid_def exampleContainer_def Message_valid_def exampleInner_def
        MaxContainerMessages_def in_i64_def in_i32_def)
  have n: "length (MsgContainer_enc exampleContainer) = 28"
    by (simp add: MsgContainer_enc_def exampleContainer_def Message_enc_def exampleInner_def)
  have s: "serializeRuntimeTLBounded (MsgContainer_SerializeTL exampleContainer) 1024 =
      Inr (MsgContainer_enc exampleContainer)"
    using msgContainer_tl.serialize_bounded [OF v, of 1024] n by (simp add: normalizeMaxEncodedBytes_def)
  have b: "budget_ok exampleBudget"
    by (simp add: budget_ok_def exampleBudget_def exampleLimits_def)
  have k: "length (MsgContainer_Messages exampleContainer) = 1" by (simp add: exampleContainer_def)
  from container_roundtrip [OF v s _ _ b] n k show ?thesis
    by (simp add: exampleBudget_def exampleLimits_def)
qed

end
