(* ===== verification/Protocol_Validator.thy ===== *)
theory Protocol_Validator
  imports TLRPC_Prelude
begin

text \<open>
  The receive-side validator of one MTProto session, \<open>mtproto/protocol/validator.go\<close>: message
  identifiers (format, time window, replay), sequence numbers (parity, reordering window,
  duplicates), containers, and the restoration from persisted state.  \<open>recentIDs\<close> with
  \<open>recentSet\<close> and \<open>recentSeqNos\<close> with \<open>recentSeqSet\<close> are kept apart as in the code.
  All \<open>int32\<close> arithmetic is written with its wrap-around.  The clock is read once per validated
  record, so it is a parameter: the reading for each record.
\<close>

section \<open>Constants and data\<close>

definition CodeMessageIDTooLow :: int where "CodeMessageIDTooLow = 16"
definition CodeMessageIDTooHigh :: int where "CodeMessageIDTooHigh = 17"
definition CodeMessageIDFormat :: int where "CodeMessageIDFormat = 18"
definition CodeSequenceNoTooLow :: int where "CodeSequenceNoTooLow = 32"
definition CodeSequenceNoTooHigh :: int where "CodeSequenceNoTooHigh = 33"
definition CodeExpectedEvenSequenceNo :: int where "CodeExpectedEvenSequenceNo = 34"
definition CodeExpectedOddSequenceNo :: int where "CodeExpectedOddSequenceNo = 35"
definition CodeBadServerSalt :: int where "CodeBadServerSalt = 48"
definition CodeInvalidContainer :: int where "CodeInvalidContainer = 64"
definition CodeReplayMessageID :: int where "CodeReplayMessageID = CodeSequenceNoTooLow"
definition CodeSessionIDMismatch :: int where "CodeSessionIDMismatch = CodeInvalidContainer"
definition DefaultRecentMessageIDLimit :: int where "DefaultRecentMessageIDLimit = 64"
definition MaxRecentMessageIDLimit :: int where "MaxRecentMessageIDLimit = 4096"
definition DefaultContentSequenceLimit :: int where "DefaultContentSequenceLimit = 64"
definition MaxContentSequenceLimit :: int where "MaxContentSequenceLimit = 4096"
definition clientMessagePastWindow :: duration where "clientMessagePastWindow = 300 * second"
definition clientMessageFutureWindow :: duration where "clientMessageFutureWindow = 30 * second"

text \<open>\<open>MessageKind\<close> is a \<open>uint8\<close> with three named values; the others are \<open>OtherKind\<close>.\<close>

datatype MessageKind = ContentRelated | NonContentRelated | Container | OtherKind nat

record ContainerMessage =
  cMessageID :: int
  cSequenceNo :: int
  cKind :: MessageKind

record ProtocolMessage =
  pServerSalt :: int
  pSessionID :: int
  pMessageID :: int
  pSequenceNo :: int
  pKind :: MessageKind
  pChildren :: "ContainerMessage list"

record Config =
  cfgSessionID :: int
  cfgServerSalt :: int
  cfgSequenceNo :: int
  cfgHighestMessageID :: int
  cfgMessageIDFloor :: int
  cfgRecentMessageIDs :: "int list"
  cfgRecentMessageIDLimit :: int
  cfgRecentSequenceNos :: "int list"
  cfgContentSequenceLimit :: int

record validatorState =
  sessionID :: int
  serverSalt :: int
  sequenceNo :: int
  highestMessageID :: int
  messageIDFloor :: int
  recentIDs :: "int list"
  recentSet :: "int set"
  recentSeqNos :: "int list"
  recentSeqSet :: "int set"

record Validator =
  messageIDLimit :: int
  sequenceLimit :: int
  vstate :: validatorState

record ValidatorSnapshot =
  snSessionID :: int
  snServerSalt :: int
  snSequenceNo :: int
  snHighestMessageID :: int
  snMessageIDFloor :: int
  snRecentMessageIDs :: "int list"
  snRecentSequenceNos :: "int list"

record messageMetadata =
  messageID :: int
  metaSequenceNo :: int

definition validKind :: "MessageKind \<Rightarrow> bool" where
  "validKind kind \<longleftrightarrow> kind = ContentRelated \<or> kind = NonContentRelated \<or> kind = Container"

definition badMessage :: "messageMetadata \<Rightarrow> int \<Rightarrow> int \<Rightarrow> protocol_error \<Rightarrow> go_error" where
  "badMessage metadata code expectedSalt cause =
     BadMessageError (messageID metadata) (metaSequenceNo metadata) code expectedSalt cause"

section \<open>Bounded memory\<close>

definition clone :: "validatorState \<Rightarrow> validatorState" where
  "clone state = state\<lparr>recentSet := set (recentIDs state), recentSeqSet := set (recentSeqNos state)\<rparr>"

text \<open>The loop that looks for the index of the smallest identifier, first one on ties.\<close>

fun minimumIndex_loop :: "int list \<Rightarrow> nat \<Rightarrow> nat list \<Rightarrow> nat" where
  "minimumIndex_loop ids best [] = best"
| "minimumIndex_loop ids best (index # rest) =
     minimumIndex_loop ids (if ids ! index < ids ! best then index else best) rest"

definition minimumIndex :: "int list \<Rightarrow> nat" where
  "minimumIndex ids = minimumIndex_loop ids 0 [1..<length ids]"

definition rememberMessageID :: "int \<Rightarrow> int \<Rightarrow> validatorState \<Rightarrow> validatorState" where
  "rememberMessageID mid limit state =
     (let state =
        (if int (length (recentIDs state)) = limit then
           (let index = minimumIndex (recentIDs state);
                minimum = recentIDs state ! index
            in state\<lparr>recentSet := recentSet state - {minimum},
                     recentIDs := take index (recentIDs state) @ drop (Suc index) (recentIDs state),
                     messageIDFloor := (if minimum > messageIDFloor state then minimum
                                        else messageIDFloor state)\<rparr>)
         else state)
      in if mid \<le> messageIDFloor state then state
         else state\<lparr>recentIDs := recentIDs state @ [mid], recentSet := insert mid (recentSet state)\<rparr>)"

definition rememberSequenceNo :: "int \<Rightarrow> int \<Rightarrow> validatorState \<Rightarrow> validatorState" where
  "rememberSequenceNo seqNo limit state =
     (if seqNo \<in> recentSeqSet state then state
      else
        (let state =
           (if int (length (recentSeqNos state)) = limit
            then state\<lparr>recentSeqSet := recentSeqSet state - {hd (recentSeqNos state)},
                       recentSeqNos := tl (recentSeqNos state)\<rparr>
            else state)
         in state\<lparr>recentSeqNos := recentSeqNos state @ [seqNo],
                  recentSeqSet := insert seqNo (recentSeqSet state)\<rparr>))"

definition pruneSequenceNos :: "int \<Rightarrow> validatorState \<Rightarrow> validatorState" where
  "pruneSequenceNos limit state =
     (let minimum = wrap32 (wrap32 (sequenceNo state - wrap32 (limit * 2)) + 1) in
      state\<lparr>recentSeqNos := filter (\<lambda>s. \<not> s < minimum) (recentSeqNos state),
            recentSeqSet := recentSeqSet state - {s \<in> set (recentSeqNos state). s < minimum}\<rparr>)"

section \<open>Construction\<close>

definition restoreMessageID :: "int \<Rightarrow> int \<Rightarrow> validatorState \<Rightarrow> validatorState" where
  "restoreMessageID limit mid state =
     (if mid \<le> messageIDFloor state then state
      else if mid \<in> recentSet state then state
      else
        (let state = rememberMessageID mid limit state in
         if mid > highestMessageID state then state\<lparr>highestMessageID := mid\<rparr> else state))"

definition restoreSequenceNo :: "int \<Rightarrow> int \<Rightarrow> validatorState \<Rightarrow> validatorState" where
  "restoreSequenceNo seqLimit seqNo state =
     (let minimum = wrap32 (wrap32 (sequenceNo state - wrap32 (seqLimit * 2)) + 1) in
      if seqNo < minimum \<or> even seqNo \<or> seqNo \<ge> wrap32 (sequenceNo state + 1) then state
      else rememberSequenceNo seqNo seqLimit state)"

definition NewValidator :: "Config \<Rightarrow> go_error + Validator" where
  "NewValidator config =
     (let limit = (if cfgRecentMessageIDLimit config = 0 then DefaultRecentMessageIDLimit
                   else cfgRecentMessageIDLimit config);
          seqLimit = (if cfgContentSequenceLimit config = 0 then DefaultContentSequenceLimit
                      else cfgContentSequenceLimit config)
      in if limit < 1 \<or> limit > MaxRecentMessageIDLimit then Inl (ProtocolError InvalidConfig)
         else if seqLimit < 1 \<or> seqLimit > MaxContentSequenceLimit then Inl (ProtocolError InvalidConfig)
         else if cfgSequenceNo config < 0 \<or> odd (cfgSequenceNo config)
         then Inl (ProtocolError InvalidConfig)
         else
           (let state = \<lparr>sessionID = cfgSessionID config, serverSalt = cfgServerSalt config,
                  sequenceNo = cfgSequenceNo config, highestMessageID = cfgHighestMessageID config,
                  messageIDFloor = cfgMessageIDFloor config, recentIDs = [], recentSet = {},
                  recentSeqNos = [], recentSeqSet = {}\<rparr>;
                state = fold (restoreMessageID limit) (cfgRecentMessageIDs config) state;
                state = fold (restoreSequenceNo seqLimit) (cfgRecentSequenceNos config) state;
                state = pruneSequenceNos seqLimit state
            in Inr \<lparr>messageIDLimit = limit, sequenceLimit = seqLimit, vstate = state\<rparr>))"

section \<open>Validation\<close>

definition validateMessageID :: "gotime \<Rightarrow> validatorState \<Rightarrow> messageMetadata \<Rightarrow> go_error option" where
  "validateMessageID now state metadata =
     (let mid = messageID metadata in
      if mid mod 4 \<noteq> 0 \<or> u32 mid = 0
      then Some (badMessage metadata CodeMessageIDFormat (serverSalt state) MessageIDFormat)
      else
        (let messageTime = time_Unix (mid div 2 ^ 32) in
         if messageTime < now - clientMessagePastWindow
         then Some (badMessage metadata CodeMessageIDTooLow (serverSalt state) MessageIDTooLow)
         else if messageTime > now + clientMessageFutureWindow
         then Some (badMessage metadata CodeMessageIDTooHigh (serverSalt state) MessageIDTooHigh)
         else if mid \<le> messageIDFloor state \<or> mid = highestMessageID state \<or> mid \<in> recentSet state
         then Some (badMessage metadata CodeReplayMessageID (serverSalt state) ReplayMessageID)
         else None))"

definition validateSequenceNo ::
  "int \<Rightarrow> validatorState \<Rightarrow> messageMetadata \<Rightarrow> MessageKind \<Rightarrow> go_error option" where
  "validateSequenceNo seqLimit state metadata kind =
     (let seqNo = metaSequenceNo metadata; salt = serverSalt state in
      if seqNo < 0 then Some (badMessage metadata CodeSequenceNoTooLow salt SequenceNoTooLow)
      else if kind = Container
      then (if odd seqNo
            then Some (badMessage metadata CodeExpectedEvenSequenceNo salt ExpectedNonContentSequence)
            else None)
      else
        (let contentRelated = (kind = ContentRelated) in
         if contentRelated \<and> seqNo = max_i32
         then Some (badMessage metadata CodeSequenceNoTooHigh salt SequenceNoTooHigh)
         else
           (let expected = (if contentRelated then wrap32 (sequenceNo state + 1) else sequenceNo state) in
            if seqNo = expected then None
            else if \<not> contentRelated \<and> even seqNo \<and> seqNo < expected then None
            else if odd seqNo \<and> \<not> contentRelated
            then Some (badMessage metadata CodeExpectedEvenSequenceNo salt ExpectedNonContentSequence)
            else if even seqNo \<and> contentRelated
            then Some (badMessage metadata CodeExpectedOddSequenceNo salt ExpectedContentSequence)
            else if \<not> contentRelated then None
            else if sequenceNo state = 0 \<and> recentSeqNos state = [] then None
            else if seqNo \<in> recentSeqSet state
            then Some (badMessage metadata CodeSequenceNoTooLow salt SequenceNoTooLow)
            else
              (let minimum = sequenceNo state - seqLimit * 2 + 1;
                   minimum = (if minimum < 1 then 1 else minimum)
               in if seqNo < minimum
                  then Some (badMessage metadata CodeSequenceNoTooLow salt SequenceNoTooLow)
                  else
                    (let maximum = sequenceNo state + seqLimit * 2 + 1 in
                     if seqNo > maximum
                     then Some (badMessage metadata CodeSequenceNoTooHigh salt SequenceNoTooHigh)
                     else None)))))"

definition commitOne ::
  "int \<Rightarrow> int \<Rightarrow> messageMetadata \<Rightarrow> MessageKind \<Rightarrow> validatorState \<Rightarrow> validatorState" where
  "commitOne limit seqLimit metadata kind state =
     (let state = (if messageID metadata > highestMessageID state
                   then state\<lparr>highestMessageID := messageID metadata\<rparr> else state);
          state = (if kind = ContentRelated \<and> metaSequenceNo metadata \<ge> wrap32 (sequenceNo state + 1)
                   then state\<lparr>sequenceNo := wrap32 (metaSequenceNo metadata + 1)\<rparr> else state);
          state = (if kind = ContentRelated
                   then rememberSequenceNo (metaSequenceNo metadata) seqLimit
                          (pruneSequenceNos seqLimit state)
                   else state)
      in rememberMessageID (messageID metadata) limit state)"

definition validateOne ::
  "Validator \<Rightarrow> gotime \<Rightarrow> messageMetadata \<Rightarrow> MessageKind \<Rightarrow> validatorState \<Rightarrow> go_error + validatorState" where
  "validateOne v now metadata kind state =
     (if \<not> validKind kind then Inl (ProtocolError InvalidMessageKind)
      else case validateMessageID now state metadata of
        Some e \<Rightarrow> Inl e
      | None \<Rightarrow>
          (case validateSequenceNo (sequenceLimit v) state metadata kind of
             Some e \<Rightarrow> Inl e
           | None \<Rightarrow> Inr (commitOne (messageIDLimit v) (sequenceLimit v) metadata kind state)))"

fun validateChildren ::
  "Validator \<Rightarrow> (nat \<Rightarrow> gotime) \<Rightarrow> nat \<Rightarrow> ContainerMessage list \<Rightarrow> validatorState \<Rightarrow> go_error + validatorState" where
  "validateChildren v clock i [] state = Inr state"
| "validateChildren v clock i (child # rest) state =
     (if cKind child = Container \<or> \<not> validKind (cKind child) then Inl (ProtocolError InvalidMessageKind)
      else case validateOne v (clock i) \<lparr>messageID = cMessageID child, metaSequenceNo = cSequenceNo child\<rparr>
             (cKind child) state of
        Inl e \<Rightarrow> Inl e
      | Inr state' \<Rightarrow> validateChildren v clock (Suc i) rest state')"

definition validateEnvelope ::
  "Validator \<Rightarrow> (nat \<Rightarrow> gotime) \<Rightarrow> ProtocolMessage \<Rightarrow> validatorState \<Rightarrow> go_error + validatorState" where
  "validateEnvelope v clock message state =
     (let metadata = \<lparr>messageID = pMessageID message, metaSequenceNo = pSequenceNo message\<rparr> in
      if pSessionID message = 0 \<or> sessionID state \<noteq> 0 \<and> pSessionID message \<noteq> sessionID state
      then Inl (badMessage metadata CodeSessionIDMismatch (serverSalt state) SessionIDMismatch)
      else if pServerSalt message \<noteq> serverSalt state
      then Inl (badMessage metadata CodeBadServerSalt (serverSalt state) BadServerSaltValue)
      else if pKind message \<noteq> Container \<and> pChildren message \<noteq> []
      then Inl (ProtocolError InvalidMessageKind)
      else case validateOne v (clock 0) metadata (pKind message) state of
        Inl e \<Rightarrow> Inl e
      | Inr state \<Rightarrow>
          (case (if pKind message = Container then validateChildren v clock 1 (pChildren message) state
                 else Inr state) of
             Inl e \<Rightarrow> Inl e
           | Inr state \<Rightarrow>
               Inr (if sessionID state = 0 then state\<lparr>sessionID := pSessionID message\<rparr> else state)))"

definition Validate ::
  "(nat \<Rightarrow> gotime) \<Rightarrow> ProtocolMessage \<Rightarrow> Validator \<Rightarrow> go_error option \<times> Validator" where
  "Validate clock message v =
     (case validateEnvelope v clock message (clone (vstate v)) of
        Inl e \<Rightarrow> (Some e, v)
      | Inr candidate \<Rightarrow> (None, v\<lparr>vstate := candidate\<rparr>))"

definition Validator_Snapshot :: "Validator \<Rightarrow> ValidatorSnapshot" where
  "Validator_Snapshot v = \<lparr>snSessionID = sessionID (vstate v), snServerSalt = serverSalt (vstate v),
     snSequenceNo = sequenceNo (vstate v), snHighestMessageID = highestMessageID (vstate v),
     snMessageIDFloor = messageIDFloor (vstate v), snRecentMessageIDs = recentIDs (vstate v),
     snRecentSequenceNos = recentSeqNos (vstate v)\<rparr>"

definition SetServerSalt :: "int \<Rightarrow> Validator \<Rightarrow> Validator" where
  "SetServerSalt salt v = v\<lparr>vstate := (vstate v)\<lparr>serverSalt := salt\<rparr>\<rparr>"

section \<open>Invariant\<close>

text \<open>For \<open>L\<close> the limit on message identifiers and \<open>S\<close> the one on sequence numbers.\<close>

definition ids_inv :: "int \<Rightarrow> validatorState \<Rightarrow> bool" where
  "ids_inv L state \<longleftrightarrow> recentSet state = set (recentIDs state) \<and> distinct (recentIDs state) \<and>
     int (length (recentIDs state)) \<le> L \<and>
     (\<forall>i \<in> set (recentIDs state). messageIDFloor state < i \<and> i \<le> highestMessageID state)"

definition seq_inv :: "int \<Rightarrow> validatorState \<Rightarrow> bool" where
  "seq_inv S state \<longleftrightarrow> recentSeqSet state = set (recentSeqNos state) \<and> distinct (recentSeqNos state) \<and>
     0 \<le> sequenceNo state \<and> sequenceNo state \<le> 2 ^ 31 - 2 \<and> even (sequenceNo state) \<and>
     (\<forall>s \<in> set (recentSeqNos state). odd s \<and> sequenceNo state - S * 2 + 1 \<le> s \<and> s < sequenceNo state)"

definition limits_ok :: "Validator \<Rightarrow> bool" where
  "limits_ok v \<longleftrightarrow> 1 \<le> messageIDLimit v \<and> messageIDLimit v \<le> MaxRecentMessageIDLimit \<and>
     1 \<le> sequenceLimit v \<and> sequenceLimit v \<le> MaxContentSequenceLimit"

definition validator_inv :: "Validator \<Rightarrow> bool" where
  "validator_inv v \<longleftrightarrow> limits_ok v \<and> ids_inv (messageIDLimit v) (vstate v) \<and>
     seq_inv (sequenceLimit v) (vstate v)"

text \<open>An identifier the validator will never accept again.\<close>

definition knownID :: "int \<Rightarrow> validatorState \<Rightarrow> bool" where
  "knownID i state \<longleftrightarrow> i \<le> messageIDFloor state \<or> i \<in> set (recentIDs state)"

definition knownSeq :: "int \<Rightarrow> int \<Rightarrow> validatorState \<Rightarrow> bool" where
  "knownSeq S s state \<longleftrightarrow> 0 < sequenceNo state \<and>
     (s < sequenceNo state - S * 2 + 1 \<or> s \<in> set (recentSeqNos state))"

section \<open>Facts about the bounded memory\<close>

lemma minimumIndex_loop_minimal:
  assumes "best < length ids" "set is \<subseteq> {..<length ids}"
  shows "minimumIndex_loop ids best is < length ids \<and>
    ids ! minimumIndex_loop ids best is \<le> ids ! best \<and>
    (\<forall>i \<in> set is. ids ! minimumIndex_loop ids best is \<le> ids ! i)"
  using assms
proof (induction ids best "is" rule: minimumIndex_loop.induct)
  case (2 ids best index rest)
  then show ?case by (cases "ids ! index < ids ! best") force+
qed simp

lemma minimumIndex_minimal:
  assumes "ids \<noteq> []"
  shows "minimumIndex ids < length ids" "i \<in> set ids \<Longrightarrow> ids ! minimumIndex ids \<le> i"
proof -
  have best: "0 < length ids" using assms by simp
  have sub: "set [1..<length ids] \<subseteq> {..<length ids}" by auto
  note m = minimumIndex_loop_minimal [OF best sub]
  show "minimumIndex ids < length ids" using m by (simp add: minimumIndex_def)
  assume "i \<in> set ids"
  then obtain k where k: "k < length ids" "ids ! k = i" by (auto simp: in_set_conv_nth)
  show "ids ! minimumIndex ids \<le> i"
    using m k by (cases "k = 0") (auto simp: minimumIndex_def)
qed

lemma remove_nth:
  assumes "i < length xs" "distinct xs"
  shows "set (take i xs @ drop (Suc i) xs) = set xs - {xs ! i}"
    and "distinct (take i xs @ drop (Suc i) xs)"
    and "length (take i xs @ drop (Suc i) xs) = length xs - 1"
proof -
  have split: "xs = take i xs @ xs ! i # drop (Suc i) xs" using assms(1) by (simp add: id_take_nth_drop)
  with assms(2) have "distinct (take i xs @ xs ! i # drop (Suc i) xs)" by metis
  then show "distinct (take i xs @ drop (Suc i) xs)" by auto
  show "set (take i xs @ drop (Suc i) xs) = set xs - {xs ! i}"
  proof -
    have "set xs = set (take i xs) \<union> {xs ! i} \<union> set (drop (Suc i) xs)"
      by (subst split) auto
    moreover have "xs ! i \<notin> set (take i xs)" "xs ! i \<notin> set (drop (Suc i) xs)"
      using \<open>distinct (take i xs @ xs ! i # drop (Suc i) xs)\<close> by auto
    ultimately show ?thesis by auto
  qed
  show "length (take i xs @ drop (Suc i) xs) = length xs - 1" using assms(1) by simp
qed

lemma ids_inv_append:
  assumes "ids_inv L state" "\<not> knownID mid state" "int (length (recentIDs state)) < L"
    "mid \<le> highestMessageID state"
  shows "ids_inv L (state\<lparr>recentIDs := recentIDs state @ [mid], recentSet := insert mid (recentSet state)\<rparr>)"
  using assms by (auto simp: ids_inv_def knownID_def)

lemma knownID_append:
  "knownID i (state\<lparr>recentIDs := recentIDs state @ [mid], recentSet := R\<rparr>) \<longleftrightarrow> i = mid \<or> knownID i state"
  by (auto simp: knownID_def)

text \<open>Evicting the smallest identifier raises the floor to it.\<close>

definition evictMinimum :: "validatorState \<Rightarrow> validatorState" where
  "evictMinimum state =
     (let index = minimumIndex (recentIDs state); minimum = recentIDs state ! index in
      state\<lparr>recentSet := recentSet state - {minimum},
            recentIDs := take index (recentIDs state) @ drop (Suc index) (recentIDs state),
            messageIDFloor := minimum\<rparr>)"

lemma evictMinimum_inv:
  assumes inv: "ids_inv L state" and L: "int (length (recentIDs state)) = L" "1 \<le> L"
  shows "ids_inv L (evictMinimum state)" "int (length (recentIDs (evictMinimum state))) < L"
    and "knownID i state \<Longrightarrow> knownID i (evictMinimum state)"
    and "messageIDFloor state < recentIDs state ! minimumIndex (recentIDs state)"
proof -
  let ?ids = "recentIDs state"
  let ?i = "minimumIndex ?ids"
  let ?rest = "take ?i ?ids @ drop (Suc ?i) ?ids"
  have ne: "?ids \<noteq> []" using L by auto
  have dist: "distinct ?ids" using inv by (simp add: ids_inv_def)
  note r = remove_nth [OF minimumIndex_minimal(1) [OF ne] dist]
  have "?ids ! ?i \<in> set ?ids" using minimumIndex_minimal(1) [OF ne] by simp
  then show floor: "messageIDFloor state < ?ids ! ?i" using inv by (simp add: ids_inv_def)
  have above: "?ids ! ?i < j" if "j \<in> set ?rest" for j
  proof -
    have "j \<in> set ?ids" "j \<noteq> ?ids ! ?i" using that unfolding r(1) by auto
    then show ?thesis using minimumIndex_minimal(2) [OF ne, of j] by simp
  qed
  define rest where "rest = ?rest"
  have ev: "evictMinimum state =
      state\<lparr>recentSet := recentSet state - {?ids ! ?i}, recentIDs := rest, messageIDFloor := ?ids ! ?i\<rparr>"
    by (simp add: evictMinimum_def rest_def Let_def)
  have rest: "set rest = set ?ids - {?ids ! ?i}" "distinct rest" "length rest = length ?ids - 1"
    using r unfolding rest_def .
  show len: "int (length (recentIDs (evictMinimum state))) < L"
    using L by (simp add: ev rest(3))
  show "ids_inv L (evictMinimum state)"
    using inv above len unfolding rest_def [symmetric] ev by (auto simp: ids_inv_def rest(1,2))
  show "knownID i (evictMinimum state)" if "knownID i state"
    using that floor by (auto simp: knownID_def ev rest(1))
qed

text \<open>Remembering an identifier keeps every identifier known: what is evicted goes below the
  floor.\<close>

lemma rememberMessageID_eq:
  assumes inv: "ids_inv L state" and L: "1 \<le> L"
  shows "rememberMessageID mid L state =
    (let state = (if int (length (recentIDs state)) = L then evictMinimum state else state) in
     if mid \<le> messageIDFloor state then state
     else state\<lparr>recentIDs := recentIDs state @ [mid], recentSet := insert mid (recentSet state)\<rparr>)"
  using evictMinimum_inv(4) [OF inv _ L]
  by (simp add: rememberMessageID_def evictMinimum_def Let_def)

lemma highest_evictMinimum [simp]: "highestMessageID (evictMinimum state) = highestMessageID state"
  by (simp add: evictMinimum_def Let_def)

lemma rememberMessageID_inv:
  assumes inv: "ids_inv L state" and L: "1 \<le> L" and high: "mid \<le> highestMessageID state"
    and new: "mid \<notin> set (recentIDs state)"
  shows "ids_inv L (rememberMessageID mid L state)"
    and "knownID mid (rememberMessageID mid L state)"
    and "knownID i state \<Longrightarrow> knownID i (rememberMessageID mid L state)"
proof -
  define st where "st = (if int (length (recentIDs state)) = L then evictMinimum state else state)"
  have st: "ids_inv L st" "int (length (recentIDs st)) < L" "mid \<le> highestMessageID st"
      "knownID i state \<Longrightarrow> knownID i st" for i
    using evictMinimum_inv [OF inv _ L] inv high by (auto simp: st_def ids_inv_def)
  have eq: "rememberMessageID mid L state =
      (if mid \<le> messageIDFloor st then st
       else st\<lparr>recentIDs := recentIDs st @ [mid], recentSet := insert mid (recentSet st)\<rparr>)"
    using rememberMessageID_eq [OF inv L, of mid] by (simp add: st_def Let_def)
  have "set (recentIDs st) \<subseteq> set (recentIDs state)"
    by (auto simp: st_def evictMinimum_def Let_def dest: in_set_takeD in_set_dropD)
  with new have fresh: "mid \<notin> set (recentIDs st)" by blast
  then have unknown: "\<not> mid \<le> messageIDFloor st \<Longrightarrow> \<not> knownID mid st" by (simp add: knownID_def)
  show "ids_inv L (rememberMessageID mid L state)"
    using st(1) ids_inv_append [OF st(1) unknown st(2,3)] by (simp add: eq)
  show "knownID mid (rememberMessageID mid L state)"
    by (cases "mid \<le> messageIDFloor st") (simp_all add: eq knownID_append, simp add: knownID_def)
  show "knownID i state \<Longrightarrow> knownID i (rememberMessageID mid L state)"
    using st(4) by (simp add: eq knownID_append)
qed

text \<open>The reordering window holds exactly \<open>S\<close> odd numbers, so remembering a new one never has
  to evict an old one.\<close>

lemma odd_window_card:
  assumes "even (n :: int)" "0 \<le> S"
  shows "finite {s. odd s \<and> n - S * 2 + 1 \<le> s \<and> s < n}"
    and "card {s. odd s \<and> n - S * 2 + 1 \<le> s \<and> s < n} = nat S"
proof -
  obtain m where m: "n = 2 * m" using assms(1) by (elim evenE)
  have img: "{s. odd s \<and> n - S * 2 + 1 \<le> s \<and> s < n} = (\<lambda>k. 2 * k + 1) ` {m - S..<m}"
  proof (intro set_eqI iffI)
    fix s assume "s \<in> {s. odd s \<and> n - S * 2 + 1 \<le> s \<and> s < n}"
    then obtain k where "s = 2 * k + 1" "n - S * 2 + 1 \<le> s" "s < n" by (auto elim: oddE)
    then show "s \<in> (\<lambda>k. 2 * k + 1) ` {m - S..<m}" using m by auto
  qed (auto simp: m)
  have "inj_on (\<lambda>k :: int. 2 * k + 1) {m - S..<m}" by (simp add: inj_on_def)
  then show "finite {s. odd s \<and> n - S * 2 + 1 \<le> s \<and> s < n}"
    "card {s. odd s \<and> n - S * 2 + 1 \<le> s \<and> s < n} = nat S"
    unfolding img by (simp_all add: card_image)
qed

lemma window_room:
  assumes inv: "seq_inv S state" and S: "0 \<le> S"
    and s: "odd s" "sequenceNo state - S * 2 + 1 \<le> s" "s < sequenceNo state" "s \<notin> set (recentSeqNos state)"
  shows "int (length (recentSeqNos state)) < S"
proof -
  let ?W = "{s. odd s \<and> sequenceNo state - S * 2 + 1 \<le> s \<and> s < sequenceNo state}"
  have W: "finite ?W" "card ?W = nat S"
    using odd_window_card [of "sequenceNo state" S] inv S by (simp_all add: seq_inv_def)
  have "set (recentSeqNos state) \<subset> ?W" using inv s by (auto simp: seq_inv_def)
  then have "card (set (recentSeqNos state)) < nat S" using psubset_card_mono [OF W(1)] W(2) by simp
  then show ?thesis using inv S by (simp add: seq_inv_def distinct_card)
qed

lemma window_bound:
  assumes inv: "seq_inv S state" and S: "0 \<le> S"
  shows "int (length (recentSeqNos state)) \<le> S"
proof -
  let ?W = "{s. odd s \<and> sequenceNo state - S * 2 + 1 \<le> s \<and> s < sequenceNo state}"
  have W: "finite ?W" "card ?W = nat S"
    using odd_window_card [of "sequenceNo state" S] inv S by (simp_all add: seq_inv_def)
  have "set (recentSeqNos state) \<subseteq> ?W" using inv by (auto simp: seq_inv_def)
  then have "card (set (recentSeqNos state)) \<le> nat S" using card_mono [OF W(1)] W(2) by simp
  then show ?thesis using inv S by (simp add: seq_inv_def distinct_card)
qed

lemma window_minimum:
  assumes "0 \<le> n" "n \<le> 2 ^ 31 - 2" "1 \<le> S" "S \<le> 4096"
  shows "wrap32 (wrap32 (n - wrap32 (S * 2)) + 1) = n - S * 2 + 1"
proof -
  have "in_i32 (S * 2)" "in_i32 (n - S * 2)" "in_i32 (n - S * 2 + 1)"
    using assms by (simp_all add: in_i32_def)
  then show ?thesis by simp
qed

lemma rememberSequenceNo_fresh:
  assumes "seq_inv S state" "0 \<le> S" "odd s" "sequenceNo state - S * 2 + 1 \<le> s"
    "s < sequenceNo state" "s \<notin> set (recentSeqNos state)"
  shows "rememberSequenceNo s S state =
    state\<lparr>recentSeqNos := recentSeqNos state @ [s], recentSeqSet := insert s (recentSeqSet state)\<rparr>"
  using window_room [OF assms] assms(1,6) by (simp add: rememberSequenceNo_def seq_inv_def)

lemma seq_inv_append:
  assumes "seq_inv S state" "odd s" "sequenceNo state - S * 2 + 1 \<le> s" "s < sequenceNo state"
    "s \<notin> set (recentSeqNos state)"
  shows "seq_inv S (state\<lparr>recentSeqNos := recentSeqNos state @ [s], recentSeqSet := insert s (recentSeqSet state)\<rparr>)"
  using assms by (auto simp: seq_inv_def)

text \<open>Raising the sequence number and pruning what leaves the window.\<close>

lemma prune_raise:
  assumes inv: "seq_inv S state" and S: "1 \<le> S" "S \<le> 4096"
    and n: "sequenceNo state \<le> n" "n \<le> 2 ^ 31 - 2" "even n"
  shows "seq_inv S (pruneSequenceNos S (state\<lparr>sequenceNo := n\<rparr>))"
    and "recentSeqNos (pruneSequenceNos S (state\<lparr>sequenceNo := n\<rparr>)) =
      filter (\<lambda>s. n - S * 2 + 1 \<le> s) (recentSeqNos state)"
    and "sequenceNo (pruneSequenceNos S (state\<lparr>sequenceNo := n\<rparr>)) = n"
proof -
  have min: "wrap32 (wrap32 (n - wrap32 (S * 2)) + 1) = n - S * 2 + 1"
    using inv n S by (intro window_minimum) (auto simp: seq_inv_def)
  have old: "recentSeqSet state = set (recentSeqNos state)" "distinct (recentSeqNos state)"
      "0 \<le> sequenceNo state" "\<And>s. s \<in> set (recentSeqNos state) \<Longrightarrow> odd s \<and> s < sequenceNo state"
    using inv by (simp_all add: seq_inv_def)
  have "0 \<le> n" "\<And>s. s \<in> set (recentSeqNos state) \<Longrightarrow> s < n" using old n(1) by force+
  with old n(2,3) show "seq_inv S (pruneSequenceNos S (state\<lparr>sequenceNo := n\<rparr>))"
    by (auto simp: seq_inv_def pruneSequenceNos_def min Let_def)
  show "recentSeqNos (pruneSequenceNos S (state\<lparr>sequenceNo := n\<rparr>)) =
      filter (\<lambda>s. n - S * 2 + 1 \<le> s) (recentSeqNos state)"
    "sequenceNo (pruneSequenceNos S (state\<lparr>sequenceNo := n\<rparr>)) = n"
    by (simp_all add: pruneSequenceNos_def min Let_def not_less)
qed

section \<open>One record\<close>

lemma rememberMessageID_frame [simp]:
  "sequenceNo (rememberMessageID mid L state) = sequenceNo state"
  "recentSeqNos (rememberMessageID mid L state) = recentSeqNos state"
  "recentSeqSet (rememberMessageID mid L state) = recentSeqSet state"
  "highestMessageID (rememberMessageID mid L state) = highestMessageID state"
  "sessionID (rememberMessageID mid L state) = sessionID state"
  "serverSalt (rememberMessageID mid L state) = serverSalt state"
  by (simp_all add: rememberMessageID_def Let_def)

lemma sequence_frame [simp]:
  "recentIDs (rememberSequenceNo s S state) = recentIDs state"
  "recentSet (rememberSequenceNo s S state) = recentSet state"
  "messageIDFloor (rememberSequenceNo s S state) = messageIDFloor state"
  "highestMessageID (rememberSequenceNo s S state) = highestMessageID state"
  "sessionID (rememberSequenceNo s S state) = sessionID state"
  "serverSalt (rememberSequenceNo s S state) = serverSalt state"
  "sequenceNo (rememberSequenceNo s S state) = sequenceNo state"
  "recentIDs (pruneSequenceNos S state) = recentIDs state"
  "recentSet (pruneSequenceNos S state) = recentSet state"
  "messageIDFloor (pruneSequenceNos S state) = messageIDFloor state"
  "highestMessageID (pruneSequenceNos S state) = highestMessageID state"
  "sessionID (pruneSequenceNos S state) = sessionID state"
  "serverSalt (pruneSequenceNos S state) = serverSalt state"
  "sequenceNo (pruneSequenceNos S state) = sequenceNo state"
  by (simp_all add: rememberSequenceNo_def pruneSequenceNos_def Let_def)

text \<open>The part of \<open>commitOne\<close> that concerns sequence numbers.\<close>

definition commitSequence :: "int \<Rightarrow> int \<Rightarrow> validatorState \<Rightarrow> validatorState" where
  "commitSequence S s state =
     rememberSequenceNo s S (pruneSequenceNos S
       (state\<lparr>sequenceNo := (if s \<ge> wrap32 (sequenceNo state + 1) then wrap32 (s + 1) else sequenceNo state)\<rparr>))"

lemma commitOne_eq:
  "commitOne L S metadata kind state =
     (let high = state\<lparr>highestMessageID := max (messageID metadata) (highestMessageID state)\<rparr> in
      rememberMessageID (messageID metadata) L
        (if kind = ContentRelated then commitSequence S (metaSequenceNo metadata) high else high))"
proof -
  have [simp]: "state\<lparr>sequenceNo := sequenceNo state\<rparr> = state"
    "state\<lparr>highestMessageID := highestMessageID state\<rparr> = state" for state :: validatorState
    by simp_all
  show ?thesis by (auto simp: commitOne_def commitSequence_def Let_def max_def)
qed

lemma content_accepted:
  assumes inv: "seq_inv S state" and ok: "validateSequenceNo S state metadata ContentRelated = None"
    and s: "in_i32 (metaSequenceNo metadata)"
  shows "odd (metaSequenceNo metadata)" "0 < metaSequenceNo metadata" "metaSequenceNo metadata \<le> 2 ^ 31 - 3"
    "sequenceNo state + 1 \<le> metaSequenceNo metadata \<or>
     sequenceNo state - S * 2 + 1 \<le> metaSequenceNo metadata \<and> metaSequenceNo metadata < sequenceNo state \<and>
     metaSequenceNo metadata \<notin> set (recentSeqNos state)"
proof -
  let ?s = "metaSequenceNo metadata" and ?n = "sequenceNo state"
  have n: "0 \<le> ?n" "even ?n" "?n \<le> 2 ^ 31 - 2" "wrap32 (?n + 1) = ?n + 1"
    "recentSeqSet state = set (recentSeqNos state)"
    using inv by (auto simp: seq_inv_def in_i32_def)
  have base: "0 \<le> ?s" "?s \<noteq> max_i32" "?s = ?n + 1 \<or> odd ?s"
    and cases: "?s = ?n + 1 \<or> ?n = 0 \<or> ?s \<notin> set (recentSeqNos state) \<and> ?n - S * 2 + 1 \<le> ?s"
    using ok n by (auto simp: validateSequenceNo_def Let_def split: if_splits)
  show odd: "odd ?s" using base(3) n(2) by auto
  then show "0 < ?s" using base(1) by (metis even_zero order_le_less)
  have "odd (max_i32 - 1) = False" by (simp add: max_i32_def)
  then have "?s \<noteq> max_i32 - 1" using odd by metis
  then show "?s \<le> 2 ^ 31 - 3" using s base(2) by (simp add: in_i32_def max_i32_def)
  have "?s \<noteq> ?n" using odd n(2) by metis
  then show "?n + 1 \<le> ?s \<or> ?n - S * 2 + 1 \<le> ?s \<and> ?s < ?n \<and> ?s \<notin> set (recentSeqNos state)"
    using cases \<open>0 < ?s\<close> by linarith
qed

lemma commitSequence_inv:
  assumes inv: "seq_inv S state" and S: "1 \<le> S" "S \<le> 4096"
    and s: "odd s" "0 < s" "s \<le> 2 ^ 31 - 3"
      "sequenceNo state + 1 \<le> s \<or>
       sequenceNo state - S * 2 + 1 \<le> s \<and> s < sequenceNo state \<and> s \<notin> set (recentSeqNos state)"
  shows "seq_inv S (commitSequence S s state)" "knownSeq S s (commitSequence S s state)"
    "\<not> knownSeq S s state"
    "knownSeq S t state \<Longrightarrow> knownSeq S t (commitSequence S s state)"
    "sequenceNo (commitSequence S s state) = max (sequenceNo state) (s + 1)"
proof -
  let ?n = "sequenceNo state"
  define n where "n = max ?n (s + 1)"
  have n0: "0 \<le> ?n" "?n \<le> 2 ^ 31 - 2" "even ?n" using inv by (simp_all add: seq_inv_def)
  have "in_i32 (?n + 1)" "in_i32 (s + 1)" using n0(1,2) s(2,3) by (simp_all add: in_i32_def)
  then have raise: "(if s \<ge> wrap32 (?n + 1) then wrap32 (s + 1) else ?n) = n"
    using s(4) by (auto simp: n_def)
  have n: "?n \<le> n" "n \<le> 2 ^ 31 - 2" "s < n" "n - S * 2 + 1 \<le> s"
    using n0(1,2) s(2,3,4) S by (auto simp: n_def max_def)
  have even: "even n" using n0(3) s(1) by (simp add: n_def max_def)
  let ?p = "pruneSequenceNos S (state\<lparr>sequenceNo := n\<rparr>)"
  note p = prune_raise [OF inv S n(1,2) even]
  have "\<And>t. t \<in> set (recentSeqNos state) \<Longrightarrow> t < ?n" using inv by (simp add: seq_inv_def)
  then have old: "s \<notin> set (recentSeqNos state)" using s(4) by force
  have fresh: "s \<notin> set (recentSeqNos ?p)" using old by (simp add: p(2))
  have c: "commitSequence S s state =
      ?p\<lparr>recentSeqNos := recentSeqNos ?p @ [s], recentSeqSet := insert s (recentSeqSet ?p)\<rparr>"
    unfolding commitSequence_def raise
    using p(1) n(3,4) S(1) fresh s(1) by (intro rememberSequenceNo_fresh) (simp_all add: p(3))
  show "seq_inv S (commitSequence S s state)"
    unfolding c using p(1) n(3,4) fresh s(1) by (intro seq_inv_append) (simp_all add: p(3))
  have pos: "0 < n" using n(3) s(2) by simp
  then show "knownSeq S s (commitSequence S s state)" by (simp add: c knownSeq_def p(3))
  show "\<not> knownSeq S s state" using s(4) old S by (auto simp: knownSeq_def)
  show "knownSeq S t state \<Longrightarrow> knownSeq S t (commitSequence S s state)"
    using n(1) pos by (auto simp: c knownSeq_def p(2,3))
  show "sequenceNo (commitSequence S s state) = max ?n (s + 1)" by (simp add: c p(3) n_def)
qed

lemma ids_inv_seq_update [simp]:
  "ids_inv L (commitSequence S s state) \<longleftrightarrow> ids_inv L state"
  "knownID i (commitSequence S s state) \<longleftrightarrow> knownID i state"
  "recentIDs (commitSequence S s state) = recentIDs state"
  "highestMessageID (commitSequence S s state) = highestMessageID state"
  "sessionID (commitSequence S s state) = sessionID state"
  "serverSalt (commitSequence S s state) = serverSalt state"
  by (simp_all add: commitSequence_def ids_inv_def knownID_def)

lemma seq_inv_frame [simp]:
  "seq_inv S (rememberMessageID mid L state) \<longleftrightarrow> seq_inv S state"
  "seq_inv S (state\<lparr>highestMessageID := h\<rparr>) \<longleftrightarrow> seq_inv S state"
  "seq_inv S (state\<lparr>sessionID := i\<rparr>) \<longleftrightarrow> seq_inv S state"
  "seq_inv S (state\<lparr>serverSalt := i\<rparr>) \<longleftrightarrow> seq_inv S state"
  "knownSeq S s (rememberMessageID mid L state) \<longleftrightarrow> knownSeq S s state"
  "knownSeq S s (state\<lparr>highestMessageID := h\<rparr>) \<longleftrightarrow> knownSeq S s state"
  "knownSeq S s (state\<lparr>sessionID := i\<rparr>) \<longleftrightarrow> knownSeq S s state"
  "knownSeq S s (state\<lparr>serverSalt := i\<rparr>) \<longleftrightarrow> knownSeq S s state"
  "knownID j (state\<lparr>highestMessageID := h\<rparr>) \<longleftrightarrow> knownID j state"
  "knownID j (state\<lparr>sessionID := i\<rparr>) \<longleftrightarrow> knownID j state"
  "knownID j (state\<lparr>serverSalt := i\<rparr>) \<longleftrightarrow> knownID j state"
  "ids_inv L (state\<lparr>sessionID := i\<rparr>) \<longleftrightarrow> ids_inv L state"
  "ids_inv L (state\<lparr>serverSalt := i\<rparr>) \<longleftrightarrow> ids_inv L state"
  by (simp_all add: seq_inv_def knownSeq_def knownID_def ids_inv_def)

definition state_inv :: "Validator \<Rightarrow> validatorState \<Rightarrow> bool" where
  "state_inv v state \<longleftrightarrow> ids_inv (messageIDLimit v) state \<and> seq_inv (sequenceLimit v) state"

text \<open>What accepting the records with identifiers \<open>ids\<close> and content sequence numbers \<open>seqs\<close>
  does: they were unknown and pairwise different, they are known afterwards, and what was known
  stays known.\<close>

definition accepts :: "Validator \<Rightarrow> int list \<Rightarrow> int list \<Rightarrow> validatorState \<Rightarrow> validatorState \<Rightarrow> bool" where
  "accepts v ids seqs state state' \<longleftrightarrow>
     state_inv v state' \<and> distinct ids \<and> distinct seqs \<and>
     (\<forall>i \<in> set ids. \<not> knownID i state \<and> knownID i state') \<and>
     (\<forall>s \<in> set seqs. \<not> knownSeq (sequenceLimit v) s state \<and> knownSeq (sequenceLimit v) s state') \<and>
     (\<forall>i. knownID i state \<longrightarrow> knownID i state') \<and>
     (\<forall>s. knownSeq (sequenceLimit v) s state \<longrightarrow> knownSeq (sequenceLimit v) s state')"

lemma accepts_none: "state_inv v state \<Longrightarrow> accepts v [] [] state state"
  by (simp add: accepts_def)

lemma accepts_trans:
  assumes "accepts v a s state1 state2" "accepts v b t state2 state3"
  shows "accepts v (a @ b) (s @ t) state1 state3"
  using assms unfolding accepts_def by (auto 4 4)

definition contentSeq :: "MessageKind \<Rightarrow> int \<Rightarrow> int list" where
  "contentSeq kind s = (if kind = ContentRelated then [s] else [])"

lemma max_i32_4096 [simp]: "MaxRecentMessageIDLimit = 4096" "MaxContentSequenceLimit = 4096"
  by (simp_all add: MaxRecentMessageIDLimit_def MaxContentSequenceLimit_def)

lemma validateOne_accepts:
  assumes v: "limits_ok v" and inv: "state_inv v state"
    and s: "in_i32 (metaSequenceNo metadata)"
    and ok: "validateOne v now metadata kind state = Inr state'"
  shows "accepts v [messageID metadata] (contentSeq kind (metaSequenceNo metadata)) state state'"
    and "sessionID state' = sessionID state" "serverSalt state' = serverSalt state"
proof -
  let ?L = "messageIDLimit v" and ?S = "sequenceLimit v"
  let ?mid = "messageID metadata" and ?s = "metaSequenceNo metadata"
  define high where "high = state\<lparr>highestMessageID := max ?mid (highestMessageID state)\<rparr>"
  define mid where "mid = (if kind = ContentRelated then commitSequence ?S ?s high else high)"
  have L: "1 \<le> ?L" and S: "1 \<le> ?S" "?S \<le> 4096" using v by (simp_all add: limits_ok_def)
  have idok: "validateMessageID now state metadata = None"
    and seqok: "validateSequenceNo ?S state metadata kind = None"
    and st': "state' = rememberMessageID ?mid ?L mid"
    using ok by (auto simp: validateOne_def commitOne_eq Let_def high_def mid_def split: if_splits option.splits)
  have fresh: "\<not> knownID ?mid state"
    using idok inv by (auto simp: validateMessageID_def knownID_def state_inv_def ids_inv_def Let_def
        split: if_splits)
  have "ids_inv ?L high" using inv by (auto simp: high_def state_inv_def ids_inv_def)
  moreover have "\<And>i. knownID i mid \<longleftrightarrow> knownID i state" by (simp add: mid_def high_def)
  ultimately have ids: "ids_inv ?L mid" "?mid \<le> highestMessageID mid" "?mid \<notin> set (recentIDs mid)"
    and known: "\<And>i. knownID i mid \<longleftrightarrow> knownID i state"
    using fresh by (auto simp: mid_def high_def knownID_def)
  note r = rememberMessageID_inv [OF ids(1) L ids(2,3)]
  have seqhigh: "seq_inv ?S high" using inv by (simp add: high_def state_inv_def)
  have seqs: "seq_inv ?S mid \<and> (\<forall>t. knownSeq ?S t state \<longrightarrow> knownSeq ?S t mid) \<and>
      (kind = ContentRelated \<longrightarrow> \<not> knownSeq ?S ?s state \<and> knownSeq ?S ?s mid)"
  proof (cases "kind = ContentRelated")
    case True
    have "validateSequenceNo ?S state metadata ContentRelated = None" using seqok True by simp
    note c = content_accepted [OF _ this s]
    have "seq_inv ?S state" using inv by (simp add: state_inv_def)
    note c = c [OF this]
    have c4: "sequenceNo high + 1 \<le> ?s \<or> sequenceNo high - ?S * 2 + 1 \<le> ?s \<and> ?s < sequenceNo high \<and>
        ?s \<notin> set (recentSeqNos high)" using c(4) by (simp add: high_def)
    note k = commitSequence_inv [OF seqhigh S c(1,2,3) c4]
    show ?thesis using True k by (auto simp: mid_def) (simp_all add: high_def)
  next
    case False
    then show ?thesis using seqhigh by (auto simp: mid_def) (simp add: high_def)
  qed
  show "accepts v [?mid] (contentSeq kind ?s) state state'"
    using r seqs fresh known by (auto simp: accepts_def state_inv_def st' contentSeq_def)
  show "sessionID state' = sessionID state" "serverSalt state' = serverSalt state"
    by (simp_all add: st' mid_def high_def)
qed

fun childIDs :: "ContainerMessage list \<Rightarrow> int list" where
  "childIDs cs = map cMessageID cs"

fun childSeqs :: "ContainerMessage list \<Rightarrow> int list" where
  "childSeqs cs = concat (map (\<lambda>c. contentSeq (cKind c) (cSequenceNo c)) cs)"

lemma validateChildren_accepts:
  assumes "limits_ok v" "state_inv v state" "\<forall>c \<in> set cs. in_i32 (cSequenceNo c)"
    and "validateChildren v clock i cs state = Inr state'"
  shows "accepts v (childIDs cs) (childSeqs cs) state state' \<and> sessionID state' = sessionID state \<and>
    serverSalt state' = serverSalt state"
  using assms(2-)
proof (induction cs arbitrary: i state)
  case Nil
  then show ?case by (simp add: accepts_none)
next
  case (Cons c cs)
  let ?m = "\<lparr>messageID = cMessageID c, metaSequenceNo = cSequenceNo c\<rparr>"
  obtain mid where one: "validateOne v (clock i) ?m (cKind c) state = Inr mid"
    and rest: "validateChildren v clock (Suc i) cs mid = Inr state'"
    using Cons.prems(3) by (auto split: if_splits sum.splits)
  note a = validateOne_accepts [OF assms(1) Cons.prems(1) _ one]
  have "accepts v [cMessageID c] (contentSeq (cKind c) (cSequenceNo c)) state mid"
      "sessionID mid = sessionID state" "serverSalt mid = serverSalt state"
    using a Cons.prems(2) by simp_all
  moreover from this have "state_inv v mid" by (simp add: accepts_def)
  note Cons.IH [OF this _ rest]
  ultimately show ?case using Cons.prems(2) accepts_trans by fastforce
qed

definition messageIDs :: "ProtocolMessage \<Rightarrow> int list" where
  "messageIDs m = pMessageID m # (if pKind m = Container then childIDs (pChildren m) else [])"

definition messageSeqs :: "ProtocolMessage \<Rightarrow> int list" where
  "messageSeqs m = contentSeq (pKind m) (pSequenceNo m) @
     (if pKind m = Container then childSeqs (pChildren m) else [])"

definition message_ok :: "ProtocolMessage \<Rightarrow> bool" where
  "message_ok m \<longleftrightarrow> in_i32 (pSequenceNo m) \<and> (\<forall>c \<in> set (pChildren m). in_i32 (cSequenceNo c))"

lemma clone_id: "ids_inv L state \<Longrightarrow> seq_inv S state \<Longrightarrow> clone state = state"
  by (simp add: clone_def ids_inv_def seq_inv_def)

lemma validateEnvelope_accepts:
  assumes v: "limits_ok v" and inv: "state_inv v state" and m: "message_ok m"
    and ok: "validateEnvelope v clock m state = Inr state'"
  shows "accepts v (messageIDs m) (messageSeqs m) state state'"
proof -
  let ?m = "\<lparr>messageID = pMessageID m, metaSequenceNo = pSequenceNo m\<rparr>"
  obtain s1 s2 where one: "validateOne v (clock 0) ?m (pKind m) state = Inr s1"
    and rest: "(if pKind m = Container then validateChildren v clock 1 (pChildren m) s1 else Inr s1) = Inr s2"
    and st': "state' = (if sessionID s2 = 0 then s2\<lparr>sessionID := pSessionID m\<rparr> else s2)"
    using ok by (auto simp: validateEnvelope_def Let_def split: if_splits sum.splits)
  have a: "accepts v [pMessageID m] (contentSeq (pKind m) (pSequenceNo m)) state s1"
    using validateOne_accepts(1) [OF v inv _ one] m by (simp add: message_ok_def)
  then have "state_inv v s1" by (simp add: accepts_def)
  with rest m v have "accepts v (if pKind m = Container then childIDs (pChildren m) else [])
      (if pKind m = Container then childSeqs (pChildren m) else []) s1 s2"
    using validateChildren_accepts [OF v, of s1 "pChildren m" clock 1 s2]
    by (auto simp: message_ok_def accepts_none)
  from accepts_trans [OF a this] have "accepts v (messageIDs m) (messageSeqs m) state s2"
    by (simp add: messageIDs_def messageSeqs_def)
  then show ?thesis by (auto simp: st' accepts_def state_inv_def)
qed

section \<open>Restoring persisted state\<close>

lemma restoreMessageID_eq:
  "\<not> mid \<le> messageIDFloor state \<Longrightarrow> mid \<notin> recentSet state \<Longrightarrow> restoreMessageID L mid state =
     rememberMessageID mid L (state\<lparr>highestMessageID := max mid (highestMessageID state)\<rparr>)"
proof -
  have [simp]: "state\<lparr>highestMessageID := highestMessageID state\<rparr> = state" for state :: validatorState
    by simp
  have "rememberMessageID mid L (state\<lparr>highestMessageID := h\<rparr>) =
      (rememberMessageID mid L state)\<lparr>highestMessageID := h\<rparr>" for h
    by (simp add: rememberMessageID_def Let_def)
  then show "\<not> mid \<le> messageIDFloor state \<Longrightarrow> mid \<notin> recentSet state \<Longrightarrow> ?thesis"
    by (auto simp: restoreMessageID_def Let_def max_def)
qed

lemma restoreMessageID_inv:
  assumes inv: "ids_inv L state" and L: "1 \<le> L"
  shows "ids_inv L (restoreMessageID L mid state)" "knownID mid (restoreMessageID L mid state)"
    "knownID i state \<Longrightarrow> knownID i (restoreMessageID L mid state)"
    "seq_inv S (restoreMessageID L mid state) \<longleftrightarrow> seq_inv S state"
proof -
  let ?st = "state\<lparr>highestMessageID := max mid (highestMessageID state)\<rparr>"
  have "ids_inv L (restoreMessageID L mid state) \<and> knownID mid (restoreMessageID L mid state) \<and>
     (\<forall>i. knownID i state \<longrightarrow> knownID i (restoreMessageID L mid state)) \<and>
     (seq_inv S (restoreMessageID L mid state) \<longleftrightarrow> seq_inv S state)"
  proof (cases "knownID mid state")
    case True
    then have "restoreMessageID L mid state = state"
      using inv by (auto simp: restoreMessageID_def knownID_def ids_inv_def)
    with True inv show ?thesis by simp
  next
    case False
    have "ids_inv L ?st" using inv by (auto simp: ids_inv_def)
    note r = rememberMessageID_inv [OF this L, of mid]
    have "restoreMessageID L mid state = rememberMessageID mid L ?st"
      using False inv by (intro restoreMessageID_eq) (auto simp: knownID_def ids_inv_def)
    with r False show ?thesis by (simp add: knownID_def)
  qed
  then show "ids_inv L (restoreMessageID L mid state)" "knownID mid (restoreMessageID L mid state)"
    "knownID i state \<Longrightarrow> knownID i (restoreMessageID L mid state)"
    "seq_inv S (restoreMessageID L mid state) \<longleftrightarrow> seq_inv S state" by blast+
qed

lemma fold_restoreMessageID_inv:
  assumes "ids_inv L state" "1 \<le> L"
  shows "ids_inv L (fold (restoreMessageID L) xs state) \<and>
    (seq_inv S (fold (restoreMessageID L) xs state) \<longleftrightarrow> seq_inv S state) \<and>
    (\<forall>i. i \<in> set xs \<or> knownID i state \<longrightarrow> knownID i (fold (restoreMessageID L) xs state))"
  using assms(1)
proof (induction xs arbitrary: state)
  case (Cons x xs)
  note r = restoreMessageID_inv [OF Cons.prems assms(2)]
  from Cons.IH [OF r(1) [where mid = x]] r(2-4) [where mid = x] show ?case by auto
qed simp

lemma restoreSequenceNo_inv:
  assumes inv: "seq_inv S state" and S: "1 \<le> S" "S \<le> 4096"
  shows "seq_inv S (restoreSequenceNo S s state)"
    and "ids_inv L (restoreSequenceNo S s state) \<longleftrightarrow> ids_inv L state"
    and "knownID i (restoreSequenceNo S s state) \<longleftrightarrow> knownID i state"
proof -
  let ?n = "sequenceNo state"
  have n: "0 \<le> ?n" "?n \<le> 2 ^ 31 - 2" "even ?n" using inv by (simp_all add: seq_inv_def)
  have min: "wrap32 (wrap32 (?n - wrap32 (S * 2)) + 1) = ?n - S * 2 + 1"
    by (rule window_minimum [OF n(1,2) S])
  have suc: "wrap32 (?n + 1) = ?n + 1" using n(1,2) by (simp add: in_i32_def)
  show "seq_inv S (restoreSequenceNo S s state)"
  proof (cases "s < ?n - S * 2 + 1 \<or> even s \<or> s \<ge> ?n + 1 \<or> s \<in> set (recentSeqNos state)")
    case True
    have "recentSeqSet state = set (recentSeqNos state)" using inv by (simp add: seq_inv_def)
    with True have "restoreSequenceNo S s state = state"
      by (auto simp: restoreSequenceNo_def min suc rememberSequenceNo_def)
    with inv show ?thesis by simp
  next
    case False
    then have "s \<noteq> ?n" using n(3) by metis
    with False have s: "odd s" "?n - S * 2 + 1 \<le> s" "s < ?n" "s \<notin> set (recentSeqNos state)" by auto
    have "restoreSequenceNo S s state = rememberSequenceNo s S state"
      using False by (simp add: restoreSequenceNo_def min suc)
    then show ?thesis
      using rememberSequenceNo_fresh [OF inv _ s] seq_inv_append [OF inv s] S by simp
  qed
  show "ids_inv L (restoreSequenceNo S s state) \<longleftrightarrow> ids_inv L state"
    "knownID i (restoreSequenceNo S s state) \<longleftrightarrow> knownID i state"
    by (simp_all add: restoreSequenceNo_def Let_def ids_inv_def knownID_def)
qed

lemma fold_restoreSequenceNo_inv:
  assumes "seq_inv S state" "1 \<le> S" "S \<le> 4096"
  shows "seq_inv S (fold (restoreSequenceNo S) xs state) \<and>
    (ids_inv L (fold (restoreSequenceNo S) xs state) \<longleftrightarrow> ids_inv L state) \<and>
    (\<forall>i. knownID i (fold (restoreSequenceNo S) xs state) \<longleftrightarrow> knownID i state)"
  using assms(1)
proof (induction xs arbitrary: state)
  case (Cons x xs)
  note r = restoreSequenceNo_inv [OF Cons.prems assms(2,3)]
  from Cons.IH [OF r(1) [where s = x]] r(2,3) [where s = x] show ?case by auto
qed simp

lemma prune_frame:
  "ids_inv L (pruneSequenceNos S state) \<longleftrightarrow> ids_inv L state"
  "knownID i (pruneSequenceNos S state) \<longleftrightarrow> knownID i state"
  by (simp_all add: ids_inv_def knownID_def)

lemma NewValidator_inv:
  assumes new: "NewValidator config = Inr v" and s: "in_i32 (cfgSequenceNo config)"
  shows "validator_inv v"
    and "i \<le> cfgMessageIDFloor config \<or> i \<in> set (cfgRecentMessageIDs config) \<Longrightarrow> knownID i (vstate v)"
proof -
  let ?L = "messageIDLimit v" and ?S = "sequenceLimit v"
  let ?empty = "\<lparr>sessionID = cfgSessionID config, serverSalt = cfgServerSalt config,
     sequenceNo = cfgSequenceNo config, highestMessageID = cfgHighestMessageID config,
     messageIDFloor = cfgMessageIDFloor config, recentIDs = [], recentSet = {}, recentSeqNos = [],
     recentSeqSet = {}\<rparr>"
  let ?withIDs = "fold (restoreMessageID ?L) (cfgRecentMessageIDs config) ?empty"
  let ?withSeqs = "fold (restoreSequenceNo ?S) (cfgRecentSequenceNos config) ?withIDs"
  have lim: "limits_ok v" and seq: "0 \<le> cfgSequenceNo config" "even (cfgSequenceNo config)"
    and st: "vstate v = pruneSequenceNos ?S ?withSeqs"
    using new by (auto simp: NewValidator_def Let_def limits_ok_def split: if_splits)
  have L: "1 \<le> ?L" and S: "1 \<le> ?S" "?S \<le> 4096" using lim by (simp_all add: limits_ok_def)
  have "cfgSequenceNo config \<noteq> max_i32"
  proof
    assume "cfgSequenceNo config = max_i32"
    then have "even max_i32" using seq(2) by simp
    then show False by (simp add: max_i32_def)
  qed
  then have upper: "cfgSequenceNo config \<le> 2 ^ 31 - 2" using s by (simp add: max_i32_def in_i32_def)
  have st0: "ids_inv ?L ?empty" "seq_inv ?S ?empty"
    using L seq upper by (simp_all add: ids_inv_def seq_inv_def)
  note f1 = fold_restoreMessageID_inv [OF st0(1) L, where S = ?S and xs = "cfgRecentMessageIDs config"]
  have st1: "seq_inv ?S ?withIDs" using f1 st0(2) by blast
  note f2 = fold_restoreSequenceNo_inv [OF st1 S, where L = ?L and xs = "cfgRecentSequenceNos config"]
  then have st2: "seq_inv ?S ?withSeqs" by blast
  have self: "?withSeqs\<lparr>sequenceNo := sequenceNo ?withSeqs\<rparr> = ?withSeqs" by simp
  have "seq_inv ?S (pruneSequenceNos ?S (?withSeqs\<lparr>sequenceNo := sequenceNo ?withSeqs\<rparr>))"
    using st2 by (intro prune_raise(1) [OF st2 S]) (simp_all add: seq_inv_def)
  then have "seq_inv ?S (vstate v)" unfolding st self .
  moreover have "ids_inv ?L (vstate v)" using f1 f2 by (simp add: st prune_frame)
  ultimately show "validator_inv v" using lim by (simp add: validator_inv_def)
  show "knownID i (vstate v)" if "i \<le> cfgMessageIDFloor config \<or> i \<in> set (cfgRecentMessageIDs config)"
  proof -
    have "i \<in> set (cfgRecentMessageIDs config) \<or> knownID i ?empty" using that by (auto simp: knownID_def)
    then have "knownID i ?withIDs" using f1 by blast
    then show ?thesis using f2 by (simp add: st prune_frame)
  qed
qed

text \<open>The configuration that \<open>newProtocolValidator\<close> builds from persisted state, with the
  limits of the validator that was persisted.\<close>

definition restoreConfig :: "Validator \<Rightarrow> Config" where
  "restoreConfig v =
     (let snapshot = Validator_Snapshot v in
      \<lparr>cfgSessionID = snSessionID snapshot, cfgServerSalt = snServerSalt snapshot,
       cfgSequenceNo = snSequenceNo snapshot, cfgHighestMessageID = snHighestMessageID snapshot,
       cfgMessageIDFloor = snMessageIDFloor snapshot, cfgRecentMessageIDs = snRecentMessageIDs snapshot,
       cfgRecentMessageIDLimit = messageIDLimit v, cfgRecentSequenceNos = snRecentSequenceNos snapshot,
       cfgContentSequenceLimit = sequenceLimit v\<rparr>)"

lemma fold_restoreMessageID_append:
  assumes "recentSet state = set (recentIDs state)" "distinct (recentIDs state @ xs)"
    "int (length (recentIDs state @ xs)) \<le> L"
    "\<forall>i \<in> set xs. messageIDFloor state < i \<and> i \<le> highestMessageID state"
  shows "fold (restoreMessageID L) xs state =
    state\<lparr>recentIDs := recentIDs state @ xs, recentSet := set (recentIDs state @ xs)\<rparr>"
  using assms
proof (induction xs arbitrary: state)
  case Nil
  then show ?case by simp
next
  case (Cons x xs)
  have step: "restoreMessageID L x state =
      state\<lparr>recentIDs := recentIDs state @ [x], recentSet := insert x (recentSet state)\<rparr>"
    using Cons.prems by (auto simp: restoreMessageID_def rememberMessageID_def Let_def)
  show ?case using Cons.prems by (simp add: step Cons.IH Un_insert_left)
qed

lemma fold_restoreSequenceNo_append:
  assumes "recentSeqSet state = set (recentSeqNos state)" "distinct (recentSeqNos state @ xs)"
    "int (length (recentSeqNos state @ xs)) \<le> S" "1 \<le> S" "S \<le> 4096"
    "0 \<le> sequenceNo state" "sequenceNo state \<le> 2 ^ 31 - 2"
    "\<forall>s \<in> set xs. odd s \<and> sequenceNo state - S * 2 + 1 \<le> s \<and> s < sequenceNo state"
  shows "fold (restoreSequenceNo S) xs state =
    state\<lparr>recentSeqNos := recentSeqNos state @ xs, recentSeqSet := set (recentSeqNos state @ xs)\<rparr>"
  using assms
proof (induction xs arbitrary: state)
  case Nil
  then show ?case by simp
next
  case (Cons x xs)
  have min: "wrap32 (wrap32 (sequenceNo state - wrap32 (S * 2)) + 1) = sequenceNo state - S * 2 + 1"
    using Cons.prems by (intro window_minimum) simp_all
  have suc: "wrap32 (sequenceNo state + 1) = sequenceNo state + 1"
    using Cons.prems(6,7) by (simp add: in_i32_def)
  have x: "odd x" "sequenceNo state - S * 2 + 1 \<le> x" "x < sequenceNo state" using Cons.prems(8) by auto
  have room: "int (length (recentSeqNos state)) \<noteq> S" "x \<notin> recentSeqSet state" using Cons.prems by auto
  have step: "restoreSequenceNo S x state =
      state\<lparr>recentSeqNos := recentSeqNos state @ [x], recentSeqSet := insert x (recentSeqSet state)\<rparr>"
    unfolding restoreSequenceNo_def min suc using x room by (simp add: rememberSequenceNo_def)
  show ?case using Cons.prems by (simp add: step Cons.IH Un_insert_left)
qed

lemma prune_id:
  assumes "seq_inv S state" "1 \<le> S" "S \<le> 4096"
  shows "pruneSequenceNos S state = state"
proof -
  have n: "0 \<le> sequenceNo state" "sequenceNo state \<le> 2 ^ 31 - 2"
      "\<forall>s \<in> set (recentSeqNos state). sequenceNo state - S * 2 + 1 \<le> s"
    using assms(1) by (simp_all add: seq_inv_def)
  have all: "filter (\<lambda>s. sequenceNo state - S * 2 + 1 \<le> s) (recentSeqNos state) = recentSeqNos state"
      "{s \<in> set (recentSeqNos state). s < sequenceNo state - S * 2 + 1} = {}"
    using n(3) by (auto simp: filter_id_conv)
  show ?thesis
    unfolding pruneSequenceNos_def window_minimum [OF n(1,2) assms(2,3)] Let_def not_less all by simp
qed

lemma restore_lossless:
  assumes "validator_inv v"
  shows "NewValidator (restoreConfig v) = Inr v"
proof -
  let ?st = "vstate v" and ?L = "messageIDLimit v" and ?S = "sequenceLimit v"
  have lim: "1 \<le> ?L" "?L \<le> 4096" "1 \<le> ?S" "?S \<le> 4096" and ids: "ids_inv ?L ?st" and seq: "seq_inv ?S ?st"
    using assms by (simp_all add: validator_inv_def limits_ok_def)
  let ?empty = "\<lparr>sessionID = sessionID ?st, serverSalt = serverSalt ?st, sequenceNo = sequenceNo ?st,
     highestMessageID = highestMessageID ?st, messageIDFloor = messageIDFloor ?st, recentIDs = [],
     recentSet = {}, recentSeqNos = [], recentSeqSet = {}\<rparr>"
  have f1: "fold (restoreMessageID ?L) (recentIDs ?st) ?empty =
      ?empty\<lparr>recentIDs := recentIDs ?st, recentSet := set (recentIDs ?st)\<rparr>"
    using ids by (subst fold_restoreMessageID_append) (simp_all add: ids_inv_def)
  let ?filled = "?empty\<lparr>recentIDs := recentIDs ?st, recentSet := set (recentIDs ?st)\<rparr>"
  have f2: "fold (restoreSequenceNo ?S) (recentSeqNos ?st) ?filled =
      ?filled\<lparr>recentSeqNos := recentSeqNos ?st, recentSeqSet := set (recentSeqNos ?st)\<rparr>"
    using seq window_bound [OF seq] lim by (subst fold_restoreSequenceNo_append) (simp_all add: seq_inv_def)
  have whole: "?filled\<lparr>recentSeqNos := recentSeqNos ?st, recentSeqSet := set (recentSeqNos ?st)\<rparr> = ?st"
    using ids seq by (intro validatorState.equality) (simp_all add: ids_inv_def seq_inv_def)
  have "fold (restoreSequenceNo ?S) (recentSeqNos ?st) (fold (restoreMessageID ?L) (recentIDs ?st) ?empty) = ?st"
    unfolding f1 f2 whole ..
  then have chain: "pruneSequenceNos ?S (fold (restoreSequenceNo ?S) (recentSeqNos ?st)
      (fold (restoreMessageID ?L) (recentIDs ?st) ?empty)) = ?st"
    using prune_id [OF seq lim(3,4)] by (simp only:)
  have "0 \<le> sequenceNo ?st" "even (sequenceNo ?st)" using seq by (simp_all add: seq_inv_def)
  then have "NewValidator (restoreConfig v) = Inr \<lparr>messageIDLimit = ?L, sequenceLimit = ?S,
      vstate = pruneSequenceNos ?S (fold (restoreSequenceNo ?S) (recentSeqNos ?st)
        (fold (restoreMessageID ?L) (recentIDs ?st) ?empty))\<rparr>"
    using lim by (simp add: NewValidator_def restoreConfig_def Validator_Snapshot_def Let_def)
  with chain show ?thesis by (simp only:) simp
qed

section \<open>Histories\<close>

text \<open>The life of a session's validator: messages arrive, the salt rotates, the state is
  persisted and restored.  A history collects the identifiers and the content sequence numbers of
  every record that was accepted.\<close>

datatype validator_event = Deliver "nat \<Rightarrow> gotime" ProtocolMessage | RotateSalt int | Restart

fun validatorStep :: "validator_event \<Rightarrow> Validator \<Rightarrow> Validator \<times> int list \<times> int list" where
  "validatorStep (Deliver clock m) v =
     (case Validate clock m v of
        (None, v') \<Rightarrow> (v', messageIDs m, messageSeqs m)
      | (Some _, v') \<Rightarrow> (v', [], []))"
| "validatorStep (RotateSalt salt) v = (SetServerSalt salt v, [], [])"
| "validatorStep Restart v =
     (case NewValidator (restoreConfig v) of Inr v' \<Rightarrow> (v', [], []) | Inl _ \<Rightarrow> (v, [], []))"

fun validatorRun :: "validator_event list \<Rightarrow> Validator \<Rightarrow> Validator \<times> int list \<times> int list" where
  "validatorRun [] v = (v, [], [])"
| "validatorRun (ev # evs) v =
     (case validatorStep ev v of (v1, ids1, seqs1) \<Rightarrow>
        (case validatorRun evs v1 of (v2, ids2, seqs2) \<Rightarrow> (v2, ids1 @ ids2, seqs1 @ seqs2)))"

fun event_ok :: "validator_event \<Rightarrow> bool" where
  "event_ok (Deliver clock m) = message_ok m"
| "event_ok _ = True"

lemma validatorStep_accepts:
  assumes inv: "validator_inv v" and ev: "event_ok ev" and step: "validatorStep ev v = (v', ids, seqs)"
  shows "accepts v ids seqs (vstate v) (vstate v') \<and> messageIDLimit v' = messageIDLimit v \<and>
    sequenceLimit v' = sequenceLimit v"
proof -
  have st: "state_inv v (vstate v)" "limits_ok v" "clone (vstate v) = vstate v"
    using inv clone_id by (auto simp: validator_inv_def state_inv_def)
  show ?thesis
  proof (cases ev)
    case (Deliver clock m)
    then show ?thesis
      using step st ev validateEnvelope_accepts [OF st(2,1), of m clock] accepts_none [OF st(1)]
      by (auto simp: Validate_def split: sum.splits)
  next
    case (RotateSalt salt)
    then show ?thesis
      using step accepts_none [OF st(1)] by (auto simp: SetServerSalt_def accepts_def state_inv_def)
  next
    case Restart
    then show ?thesis using step restore_lossless [OF inv] accepts_none [OF st(1)] by simp
  qed
qed

lemma accepts_limits:
  "messageIDLimit v = messageIDLimit w \<Longrightarrow> sequenceLimit v = sequenceLimit w \<Longrightarrow>
     accepts v = accepts w"
  by (simp add: fun_eq_iff accepts_def state_inv_def)

lemma validatorRun_accepts:
  assumes "validator_inv v" "\<forall>ev \<in> set evs. event_ok ev" "validatorRun evs v = (v', ids, seqs)"
  shows "accepts v ids seqs (vstate v) (vstate v') \<and> validator_inv v'"
  using assms
proof (induction evs arbitrary: v ids seqs)
  case Nil
  then show ?case by (auto simp: validator_inv_def state_inv_def intro: accepts_none)
next
  case (Cons ev evs)
  obtain v1 ids1 seqs1 where one: "validatorStep ev v = (v1, ids1, seqs1)"
    by (cases "validatorStep ev v") auto
  obtain ids2 seqs2 where rest: "validatorRun evs v1 = (v', ids2, seqs2)"
    and ids: "ids = ids1 @ ids2" "seqs = seqs1 @ seqs2"
    using Cons.prems(3) one by (auto split: prod.splits)
  have a: "accepts v ids1 seqs1 (vstate v) (vstate v1)" and lim: "messageIDLimit v1 = messageIDLimit v"
      "sequenceLimit v1 = sequenceLimit v"
    using validatorStep_accepts [OF Cons.prems(1) _ one] Cons.prems(2) by auto
  then have "validator_inv v1"
    using Cons.prems(1) by (simp add: accepts_def validator_inv_def state_inv_def limits_ok_def)
  from Cons.IH [OF this _ rest] Cons.prems(2)
  have "accepts v1 ids2 seqs2 (vstate v1) (vstate v')" "validator_inv v'" by auto
  with accepts_trans [OF a] ids accepts_limits [OF lim] show ?case by simp
qed

section \<open>Properties\<close>

text \<open>C5. Replay protection.  Over the whole life of a session's validator (messages in any order
  and in containers, salt rotations, any number of restarts from persisted state) every message
  identifier is accepted at most once and so is every content sequence number; identifiers at or
  below the configured floor or among the restored recent ones are never accepted.\<close>

theorem validator_accepts_once:
  assumes new: "NewValidator config = Inr v" and s: "in_i32 (cfgSequenceNo config)"
    and evs: "\<forall>ev \<in> set evs. event_ok ev" and run: "validatorRun evs v = (v', ids, seqs)"
  shows "distinct ids \<and> distinct seqs \<and>
    (\<forall>i \<in> set ids. cfgMessageIDFloor config < i \<and> i \<notin> set (cfgRecentMessageIDs config))"
proof -
  have a: "accepts v ids seqs (vstate v) (vstate v')"
    using validatorRun_accepts [OF NewValidator_inv(1) [OF new s] evs run] by blast
  have "\<not> (i \<le> cfgMessageIDFloor config \<or> i \<in> set (cfgRecentMessageIDs config))" if "i \<in> set ids" for i
    using that a NewValidator_inv(2) [OF new s] by (auto simp: accepts_def)
  with a show ?thesis by (auto simp: accepts_def not_le)
qed

definition exampleConfig :: Config where
  "exampleConfig = \<lparr>cfgSessionID = 0, cfgServerSalt = 7, cfgSequenceNo = 0, cfgHighestMessageID = 0,
     cfgMessageIDFloor = 0, cfgRecentMessageIDs = [], cfgRecentMessageIDLimit = 0,
     cfgRecentSequenceNos = [], cfgContentSequenceLimit = 0\<rparr>"

definition exampleValidator :: Validator where
  "exampleValidator = \<lparr>messageIDLimit = 64, sequenceLimit = 64, vstate = \<lparr>sessionID = 0,
     serverSalt = 7, sequenceNo = 0, highestMessageID = 0, messageIDFloor = 0, recentIDs = [],
     recentSet = {}, recentSeqNos = [], recentSeqSet = {}\<rparr>\<rparr>"

definition exampleMessage :: ProtocolMessage where
  "exampleMessage = \<lparr>pServerSalt = 7, pSessionID = 5, pMessageID = 4294967296 * 1000 + 4,
     pSequenceNo = 1, pKind = ContentRelated, pChildren = []\<rparr>"

lemma exampleValidator_new: "NewValidator exampleConfig = Inr exampleValidator"
  by (simp add: NewValidator_def exampleConfig_def exampleValidator_def DefaultRecentMessageIDLimit_def
      DefaultContentSequenceLimit_def pruneSequenceNos_def)

lemma exampleValidator_inv: "validator_inv exampleValidator"
  by (rule NewValidator_inv(1) [OF exampleValidator_new]) (simp add: exampleConfig_def in_i32_def)

definition exampleClock :: "nat \<Rightarrow> gotime" where "exampleClock n = time_Unix 1000"

lemmas validate_eval = Validate_def validateEnvelope_def validateOne_def validateMessageID_def
  validateSequenceNo_def commitOne_def rememberMessageID_def rememberSequenceNo_def pruneSequenceNos_def
  clone_def validKind_def exampleValidator_def exampleMessage_def exampleClock_def max_i32_def
  clientMessagePastWindow_def clientMessageFutureWindow_def second_def time_Unix_def wrap32_def u32_def
  badMessage_def

lemma example_accepted:
  "fst (Validate exampleClock exampleMessage exampleValidator) = None"
  by (simp add: validate_eval Let_def)

theorem validator_accepts_once_witness:
  "\<exists>v' ids seqs. validatorRun [Deliver exampleClock exampleMessage, Restart,
       Deliver exampleClock exampleMessage] exampleValidator = (v', ids, seqs) \<and>
     ids = [pMessageID exampleMessage] \<and> distinct ids \<and> distinct seqs"
proof -
  let ?evs = "[Deliver exampleClock exampleMessage, Restart, Deliver exampleClock exampleMessage]"
  obtain v' ids seqs where run: "validatorRun ?evs exampleValidator = (v', ids, seqs)"
    by (cases "validatorRun ?evs exampleValidator") auto
  have ok: "\<forall>ev \<in> set ?evs. event_ok ev" by (simp add: message_ok_def exampleMessage_def in_i32_def)
  have "in_i32 (cfgSequenceNo exampleConfig)" by (simp add: exampleConfig_def in_i32_def)
  note once = validator_accepts_once [OF exampleValidator_new this ok run]
  obtain v1 where v1: "Validate exampleClock exampleMessage exampleValidator = (None, v1)"
    using example_accepted by (cases "Validate exampleClock exampleMessage exampleValidator") auto
  have ids1: "messageIDs exampleMessage = [pMessageID exampleMessage]"
    by (simp add: messageIDs_def exampleMessage_def)
  have "ids = [pMessageID exampleMessage] \<or> ids = [pMessageID exampleMessage, pMessageID exampleMessage]"
    using run v1 ids1 by (auto split: prod.splits sum.splits option.splits)
  with once run show ?thesis by auto
qed

text \<open>C6. Persisting the validator's snapshot and restoring it, as \<open>newProtocolValidator\<close> does
  for every message, reproduces exactly the same validator after any history.\<close>

theorem validator_restore_lossless:
  assumes "NewValidator config = Inr v" "in_i32 (cfgSequenceNo config)"
    and "\<forall>ev \<in> set evs. event_ok ev" "validatorRun evs v = (v', ids, seqs)"
  shows "NewValidator (restoreConfig v') = Inr v'"
  using validatorRun_accepts [OF NewValidator_inv(1) [OF assms(1,2)] assms(3,4)]
  by (intro restore_lossless) blast

theorem validator_restore_lossless_witness:
  "\<exists>v' ids seqs. validatorRun [Deliver exampleClock exampleMessage] exampleValidator = (v', ids, seqs) \<and>
     NewValidator (restoreConfig v') = Inr v'"
proof -
  let ?evs = "[Deliver exampleClock exampleMessage]"
  obtain v' ids seqs where run: "validatorRun ?evs exampleValidator = (v', ids, seqs)"
    by (cases "validatorRun ?evs exampleValidator") auto
  have ok: "\<forall>ev \<in> set ?evs. event_ok ev" by (simp add: message_ok_def exampleMessage_def in_i32_def)
  have "in_i32 (cfgSequenceNo exampleConfig)" by (simp add: exampleConfig_def in_i32_def)
  from validator_restore_lossless [OF exampleValidator_new this ok run] run show ?thesis by blast
qed

text \<open>C38. Atomicity of an envelope.  A rejected envelope leaves the validator exactly as it was;
  an accepted one, container or not, consists of pairwise different identifiers that were all
  unknown before and are all known afterwards.\<close>

theorem validate_atomic:
  assumes inv: "validator_inv v" and m: "message_ok m"
  shows "case Validate clock m v of
      (Some e, v') \<Rightarrow> v' = v
    | (None, v') \<Rightarrow> validator_inv v' \<and> distinct (messageIDs m) \<and>
        (\<forall>i \<in> set (messageIDs m). \<not> knownID i (vstate v) \<and> knownID i (vstate v'))"
proof -
  have st: "state_inv v (vstate v)" "limits_ok v" "clone (vstate v) = vstate v"
    using inv clone_id by (auto simp: validator_inv_def state_inv_def)
  show ?thesis
    using validateEnvelope_accepts [OF st(2,1) m, of clock] st(2)
    by (auto simp: Validate_def st(3) accepts_def validator_inv_def state_inv_def limits_ok_def
        split: sum.splits)
qed

theorem validate_atomic_witness:
  "case Validate exampleClock exampleMessage exampleValidator of
      (Some e, v') \<Rightarrow> v' = exampleValidator
    | (None, v') \<Rightarrow> validator_inv v' \<and> distinct (messageIDs exampleMessage) \<and>
        (\<forall>i \<in> set (messageIDs exampleMessage).
           \<not> knownID i (vstate exampleValidator) \<and> knownID i (vstate v'))"
  by (rule validate_atomic [OF exampleValidator_inv])
    (simp add: message_ok_def exampleMessage_def in_i32_def)

text \<open>Bounded memory and safe arithmetic.  After any history the validator remembers at most
  its configured number of identifiers and sequence numbers, every remembered identifier is above
  the floor, and the sequence base is an even number small enough that none of the \<open>int32\<close>
  operations of the code wraps around.\<close>

theorem validator_bounds:
  assumes "NewValidator config = Inr v" "in_i32 (cfgSequenceNo config)"
    and "\<forall>ev \<in> set evs. event_ok ev" "validatorRun evs v = (v', ids, seqs)"
  shows "int (length (recentIDs (vstate v'))) \<le> messageIDLimit v' \<and> messageIDLimit v' \<le> 4096 \<and>
    int (length (recentSeqNos (vstate v'))) \<le> sequenceLimit v' \<and> sequenceLimit v' \<le> 4096 \<and>
    (\<forall>i \<in> set (recentIDs (vstate v')). messageIDFloor (vstate v') < i) \<and>
    even (sequenceNo (vstate v')) \<and>
    wrap32 (sequenceNo (vstate v') + 1) = sequenceNo (vstate v') + 1 \<and>
    wrap32 (wrap32 (sequenceNo (vstate v') - wrap32 (sequenceLimit v' * 2)) + 1) =
      sequenceNo (vstate v') - sequenceLimit v' * 2 + 1"
proof -
  have "validator_inv v'"
    using validatorRun_accepts [OF NewValidator_inv(1) [OF assms(1,2)] assms(3,4)] by blast
  then have inv: "limits_ok v'" "ids_inv (messageIDLimit v') (vstate v')" "seq_inv (sequenceLimit v') (vstate v')"
    by (simp_all add: validator_inv_def)
  have n: "0 \<le> sequenceNo (vstate v')" "sequenceNo (vstate v') \<le> 2 ^ 31 - 2" "even (sequenceNo (vstate v'))"
    using inv(3) by (simp_all add: seq_inv_def)
  have l: "1 \<le> sequenceLimit v'" "sequenceLimit v' \<le> 4096" "messageIDLimit v' \<le> 4096"
    using inv(1) by (simp_all add: limits_ok_def)
  have "in_i32 (sequenceNo (vstate v') + 1)" using n(1,2) by (simp add: in_i32_def)
  moreover have "int (length (recentSeqNos (vstate v'))) \<le> sequenceLimit v'"
    using window_bound [OF inv(3)] l(1) by simp
  ultimately show ?thesis
    using inv(2) n(3) l window_minimum [OF n(1,2) l(1,2)] by (simp add: ids_inv_def)
qed

theorem validator_bounds_witness:
  "\<exists>v' ids seqs. validatorRun [Deliver exampleClock exampleMessage] exampleValidator = (v', ids, seqs) \<and>
     int (length (recentIDs (vstate v'))) \<le> messageIDLimit v' \<and> even (sequenceNo (vstate v'))"
proof -
  let ?evs = "[Deliver exampleClock exampleMessage]"
  obtain v' ids seqs where run: "validatorRun ?evs exampleValidator = (v', ids, seqs)"
    by (cases "validatorRun ?evs exampleValidator") auto
  have ok: "\<forall>ev \<in> set ?evs. event_ok ev" by (simp add: message_ok_def exampleMessage_def in_i32_def)
  have "in_i32 (cfgSequenceNo exampleConfig)" by (simp add: exampleConfig_def in_i32_def)
  from validator_bounds [OF exampleValidator_new this ok run] run show ?thesis by blast
qed

text \<open>Progress.  A content-related message of the session, with the right salt, a well-formed
  identifier newer than all seen and inside the time window, carrying the next expected sequence
  number, is accepted, and the expected sequence number advances by two.\<close>

theorem validate_accepts_next:
  assumes inv: "validator_inv v"
    and session: "pSessionID m \<noteq> 0" "sessionID (vstate v) = 0 \<or> pSessionID m = sessionID (vstate v)"
    and salt: "pServerSalt m = serverSalt (vstate v)"
    and kind: "pKind m = ContentRelated" "pChildren m = []"
    and format: "pMessageID m mod 4 = 0" "u32 (pMessageID m) \<noteq> 0"
    and window: "clock 0 - clientMessagePastWindow \<le> time_Unix (pMessageID m div 2 ^ 32)"
      "time_Unix (pMessageID m div 2 ^ 32) \<le> clock 0 + clientMessageFutureWindow"
    and fresh: "messageIDFloor (vstate v) < pMessageID m" "highestMessageID (vstate v) < pMessageID m"
    and seqno: "pSequenceNo m = sequenceNo (vstate v) + 1" "pSequenceNo m < max_i32"
  shows "\<exists>v'. Validate clock m v = (None, v') \<and> sequenceNo (vstate v') = pSequenceNo m + 1 \<and>
    sessionID (vstate v') = pSessionID m"
proof -
  let ?m = "\<lparr>messageID = pMessageID m, metaSequenceNo = pSequenceNo m\<rparr>"
  let ?L = "messageIDLimit v" and ?S = "sequenceLimit v" and ?st = "vstate v"
  have inv': "ids_inv ?L ?st" "seq_inv ?S ?st" "1 \<le> ?S" "?S \<le> 4096"
    using inv by (simp_all add: validator_inv_def limits_ok_def)
  then have clone: "clone ?st = ?st" by (intro clone_id)
  have n: "0 \<le> sequenceNo ?st" "even (sequenceNo ?st)" using inv'(2) by (simp_all add: seq_inv_def)
  have suc: "wrap32 (sequenceNo ?st + 1) = sequenceNo ?st + 1" "in_i32 (pSequenceNo m)"
    using n(1) seqno by (simp_all add: in_i32_def max_i32_def)
  have "pMessageID m \<notin> recentSet ?st" using inv'(1) fresh(2) by (auto simp: ids_inv_def)
  then have id: "validateMessageID (clock 0) ?st ?m = None"
    using format window fresh by (simp add: validateMessageID_def Let_def not_less)
  have seq: "validateSequenceNo ?S ?st ?m ContentRelated = None"
    using seqno n(1) suc(1) by (simp add: validateSequenceNo_def Let_def)
  let ?c = "commitOne ?L ?S ?m ContentRelated ?st"
  have one: "validateOne v (clock 0) ?m (pKind m) ?st = Inr ?c"
    using id seq kind by (simp add: validateOne_def validKind_def)
  have env: "validateEnvelope v clock m ?st =
      Inr (if sessionID ?c = 0 then ?c\<lparr>sessionID := pSessionID m\<rparr> else ?c)"
    using session salt kind one by (auto simp: validateEnvelope_def)
  have sess: "sessionID ?c = sessionID ?st" by (simp add: commitOne_eq Let_def)
  have acc: "odd (pSequenceNo m)" "0 < pSequenceNo m" "pSequenceNo m \<le> 2 ^ 31 - 3"
    using content_accepted [OF inv'(2) seq] suc(2) by simp_all
  have "sequenceNo ?c = max (sequenceNo ?st) (pSequenceNo m + 1)"
  proof -
    have "seq_inv ?S (?st\<lparr>highestMessageID := h\<rparr>)" for h using inv'(2) by simp
    from commitSequence_inv(5) [OF this inv'(3,4) acc] seqno show ?thesis
      by (simp add: commitOne_eq Let_def)
  qed
  then show ?thesis using env sess session seqno by (auto simp: Validate_def clone)
qed

theorem validate_accepts_next_witness:
  "\<exists>v'. Validate exampleClock exampleMessage exampleValidator = (None, v') \<and>
     sequenceNo (vstate v') = 2 \<and> sessionID (vstate v') = 5"
  using validate_accepts_next [OF exampleValidator_inv, of exampleMessage exampleClock]
  by (simp add: exampleMessage_def exampleValidator_def exampleClock_def u32_def max_i32_def
      clientMessagePastWindow_def clientMessageFutureWindow_def second_def time_Unix_def)

end
