(* ===== verification/Session_Store.thy ===== *)
theory Session_Store
  imports TLRPC_Prelude
begin

text \<open>
  Durable protocol sessions: the key and the snapshot of \<open>session/key.go\<close> and
  \<open>session/snapshot.go\<close>, and the in-memory store of \<open>session/store.go\<close>.  The error state
  of the context a method is called with is its first argument.  \<open>Clone\<close> only detaches slices;
  on values it is the identity.  The locale \<open>session_store\<close> states what a store promises its
  clients, and the memory store interprets it.
\<close>

section \<open>Keys and snapshots\<close>

record SessionKey =
  keyAuthKeyID :: int
  keySessionID :: int

record ClientMetadata =
  APIID :: int
  DeviceModel :: bytes
  SystemVersion :: bytes
  AppVersion :: bytes
  SystemLangCode :: bytes
  LangPack :: bytes
  LangCode :: bytes

record Snapshot =
  AuthKeyID :: int
  SessionID :: int
  Layer :: int
  UserID :: int
  PushSubscription :: bool
  ServerSalt :: int
  SeqNo :: int
  ServerSeqNo :: int
  LastClientMsgID :: int
  ClientMsgIDFloor :: int
  RecentClientMsgIDs :: "int list"
  RecentClientSeqNos :: "int list"
  Client :: ClientMetadata
  NewSessionCreated :: bool
  FirstClientMsgID :: int
  CreatedAt :: gotime
  LastActivity :: gotime

definition Snapshot_Key :: "Snapshot \<Rightarrow> SessionKey" where
  "Snapshot_Key s = \<lparr>keyAuthKeyID = AuthKeyID s, keySessionID = SessionID s\<rparr>"

definition Snapshot_Clone :: "Snapshot \<Rightarrow> Snapshot" where
  "Snapshot_Clone s = s\<lparr>RecentClientMsgIDs := RecentClientMsgIDs s,
     RecentClientSeqNos := RecentClientSeqNos s\<rparr>"

lemma Snapshot_Clone_id [simp]: "Snapshot_Clone s = s"
  by (simp add: Snapshot_Clone_def)

section \<open>The memory store\<close>

record MemoryStore =
  snapshots :: "SessionKey \<rightharpoonup> Snapshot"

definition NewMemoryStore :: MemoryStore where
  "NewMemoryStore = \<lparr>snapshots = (\<lambda>_. None)\<rparr>"

definition MemoryStore_Load :: "go_error option \<Rightarrow> SessionKey \<Rightarrow> MemoryStore \<Rightarrow> go_error + Snapshot" where
  "MemoryStore_Load ctxErr key s =
     (case ctxErr of
        Some e \<Rightarrow> Inl e
      | None \<Rightarrow>
          (case snapshots s key of
             None \<Rightarrow> Inl (SessionError SessionNotFound)
           | Some snapshot \<Rightarrow> Inr (Snapshot_Clone snapshot)))"

definition MemoryStore_LoadOrCreate ::
  "go_error option \<Rightarrow> SessionKey \<Rightarrow> Snapshot \<Rightarrow> MemoryStore \<Rightarrow> (go_error + Snapshot \<times> bool) \<times> MemoryStore" where
  "MemoryStore_LoadOrCreate ctxErr key initial s =
     (case ctxErr of
        Some e \<Rightarrow> (Inl e, s)
      | None \<Rightarrow>
          if Snapshot_Key initial \<noteq> key then (Inl (SessionError SessionKeyMismatch), s)
          else (case snapshots s key of
              Some snapshot \<Rightarrow> (Inr (Snapshot_Clone snapshot, False), s)
            | None \<Rightarrow>
                (let stored = Snapshot_Clone initial in
                 (Inr (Snapshot_Clone stored, True), s\<lparr>snapshots := (snapshots s)(key \<mapsto> stored)\<rparr>))))"

definition MemoryStore_Save ::
  "go_error option \<Rightarrow> SessionKey \<Rightarrow> Snapshot \<Rightarrow> MemoryStore \<Rightarrow> go_error option \<times> MemoryStore" where
  "MemoryStore_Save ctxErr key snapshot s =
     (case ctxErr of
        Some e \<Rightarrow> (Some e, s)
      | None \<Rightarrow>
          if Snapshot_Key snapshot \<noteq> key then (Some (SessionError SessionKeyMismatch), s)
          else (None, s\<lparr>snapshots := (snapshots s)(key \<mapsto> Snapshot_Clone snapshot)\<rparr>))"

definition MemoryStore_Delete ::
  "go_error option \<Rightarrow> SessionKey \<Rightarrow> MemoryStore \<Rightarrow> go_error option \<times> MemoryStore" where
  "MemoryStore_Delete ctxErr key s =
     (case ctxErr of
        Some e \<Rightarrow> (Some e, s)
      | None \<Rightarrow> (None, s\<lparr>snapshots := (snapshots s)(key := None)\<rparr>))"

section \<open>What a store promises\<close>

text \<open>\<open>lookup\<close> is the durable content.  Every operation touches at most the entry of its key,
  an operation that fails changes nothing, and an entry always carries the key it is stored
  under.\<close>

locale session_store =
  fixes lookup :: "'s \<Rightarrow> SessionKey \<rightharpoonup> Snapshot"
    and inv :: "'s \<Rightarrow> bool"
    and empty :: 's
    and load :: "go_error option \<Rightarrow> SessionKey \<Rightarrow> 's \<Rightarrow> go_error + Snapshot"
    and loadOrCreate ::
      "go_error option \<Rightarrow> SessionKey \<Rightarrow> Snapshot \<Rightarrow> 's \<Rightarrow> (go_error + Snapshot \<times> bool) \<times> 's"
    and save :: "go_error option \<Rightarrow> SessionKey \<Rightarrow> Snapshot \<Rightarrow> 's \<Rightarrow> go_error option \<times> 's"
    and delete :: "go_error option \<Rightarrow> SessionKey \<Rightarrow> 's \<Rightarrow> go_error option \<times> 's"
  assumes lookup_empty: "lookup empty = (\<lambda>_. None)"
    and inv_empty: "inv empty"
    and inv_key: "inv s \<Longrightarrow> lookup s k = Some x \<Longrightarrow> Snapshot_Key x = k"
    and load_eq: "load None k s =
      (case lookup s k of None \<Rightarrow> Inl (SessionError SessionNotFound) | Some x \<Rightarrow> Inr x)"
    and loadOrCreate_ok: "Snapshot_Key x = k \<Longrightarrow> \<exists>s'. loadOrCreate None k x s =
      (Inr (case lookup s k of None \<Rightarrow> (x, True) | Some y \<Rightarrow> (y, False)), s') \<and>
      lookup s' = (lookup s)(k \<mapsto> (case lookup s k of None \<Rightarrow> x | Some y \<Rightarrow> y))"
    and loadOrCreate_fail: "loadOrCreate c k x s = (Inl e, s') \<Longrightarrow> s' = s"
    and loadOrCreate_inv: "inv s \<Longrightarrow> inv (snd (loadOrCreate c k x s))"
    and save_ok: "save c k x s = (None, s') \<Longrightarrow> Snapshot_Key x = k \<and> lookup s' = (lookup s)(k \<mapsto> x)"
    and save_fail: "save c k x s = (Some e, s') \<Longrightarrow> s' = s"
    and save_inv: "inv s \<Longrightarrow> inv (snd (save c k x s))"
    and delete_ok: "delete c k s = (None, s') \<Longrightarrow> lookup s' = (lookup s)(k := None)"
    and delete_fail: "delete c k s = (Some e, s') \<Longrightarrow> s' = s"
    and delete_inv: "inv s \<Longrightarrow> inv (snd (delete c k s))"
begin

lemma load_after_save: "save c k x s = (None, s') \<Longrightarrow> load None k s' = Inr x"
  using save_ok [of c k x s s'] by (simp add: load_eq)

lemma load_after_delete:
  "delete c k s = (None, s') \<Longrightarrow> load None k s' = Inl (SessionError SessionNotFound)"
  using delete_ok [of c k s s'] by (simp add: load_eq)

lemma other_keys:
  "save c k x s = (r, s') \<Longrightarrow> k' \<noteq> k \<Longrightarrow> lookup s' k' = lookup s k'"
  "delete c k s = (r, s') \<Longrightarrow> k' \<noteq> k \<Longrightarrow> lookup s' k' = lookup s k'"
  using save_ok [of c k x s s'] save_fail [of c k x s _ s'] delete_ok [of c k s s'] delete_fail [of c k s _ s']
  by (cases r; fastforce)+

lemma create_once:
  assumes "Snapshot_Key x = k" "Snapshot_Key y = k" "loadOrCreate None k x s = (Inr (a, c), s')"
  shows "\<exists>s''. loadOrCreate None k y s' = (Inr (a, False), s'') \<and> lookup s'' = lookup s'"
proof -
  have "lookup s' k = Some a"
    using loadOrCreate_ok [OF assms(1), of s] assms(3) by (auto split: option.splits)
  with loadOrCreate_ok [OF assms(2), of s'] show ?thesis by (auto simp: fun_upd_idem)
qed

end

definition store_keys :: "MemoryStore \<Rightarrow> bool" where
  "store_keys s \<longleftrightarrow> (\<forall>k x. snapshots s k = Some x \<longrightarrow> Snapshot_Key x = k)"

interpretation memory_store: session_store snapshots store_keys NewMemoryStore
  MemoryStore_Load MemoryStore_LoadOrCreate MemoryStore_Save MemoryStore_Delete
  by unfold_locales
    (auto simp: NewMemoryStore_def MemoryStore_Load_def MemoryStore_LoadOrCreate_def MemoryStore_Save_def
      MemoryStore_Delete_def store_keys_def Let_def fun_upd_idem split: option.splits if_splits)

section \<open>Properties\<close>

text \<open>The memory store is a faithful map of sessions: after a successful save a load returns the
  saved snapshot and every other session is untouched, and creating a session twice returns the
  first one, marked as not created.\<close>

theorem memory_store_contract:
  assumes "MemoryStore_Save ctx k x s = (None, s1)" "k' \<noteq> k" "Snapshot_Key y = k"
  shows "MemoryStore_Load None k s1 = Inr x \<and> snapshots s1 k' = snapshots s k' \<and>
    fst (MemoryStore_LoadOrCreate None k y s1) = Inr (x, False) \<and>
    snapshots (snd (MemoryStore_LoadOrCreate None k y s1)) = snapshots s1"
proof -
  have l: "snapshots s1 k = Some x" using memory_store.save_ok [OF assms(1)] by simp
  have "fst (MemoryStore_LoadOrCreate None k y s1) = Inr (x, False) \<and>
      snapshots (snd (MemoryStore_LoadOrCreate None k y s1)) = snapshots s1"
    using memory_store.loadOrCreate_ok [OF assms(3), of s1] by (auto simp: l fun_upd_idem)
  with memory_store.load_after_save [OF assms(1)] memory_store.other_keys(1) [OF assms(1,2)]
  show ?thesis by blast
qed

definition exampleSnapshot :: Snapshot where
  "exampleSnapshot = \<lparr>AuthKeyID = 11, SessionID = 22, Layer = 0, UserID = 0, PushSubscription = False,
     ServerSalt = 7, SeqNo = 0, ServerSeqNo = 0, LastClientMsgID = 0, ClientMsgIDFloor = 0,
     RecentClientMsgIDs = [], RecentClientSeqNos = [],
     Client = \<lparr>APIID = 0, DeviceModel = [], SystemVersion = [], AppVersion = [], SystemLangCode = [],
       LangPack = [], LangCode = []\<rparr>,
     NewSessionCreated = False, FirstClientMsgID = 0, CreatedAt = 0, LastActivity = 0\<rparr>"

definition exampleKey :: SessionKey where
  "exampleKey = \<lparr>keyAuthKeyID = 11, keySessionID = 22\<rparr>"

theorem memory_store_contract_witness:
  "\<exists>s1. MemoryStore_Save None exampleKey exampleSnapshot NewMemoryStore = (None, s1) \<and>
     MemoryStore_Load None exampleKey s1 = Inr exampleSnapshot"
proof -
  have key: "Snapshot_Key exampleSnapshot = exampleKey"
    by (simp add: Snapshot_Key_def exampleSnapshot_def exampleKey_def)
  then obtain s1 where s1: "MemoryStore_Save None exampleKey exampleSnapshot NewMemoryStore = (None, s1)"
    by (simp add: MemoryStore_Save_def)
  have "exampleKey\<lparr>keySessionID := 23\<rparr> \<noteq> exampleKey" by (simp add: exampleKey_def)
  from memory_store_contract [OF s1 this key] s1 show ?thesis by blast
qed

end
