(* ===== verification/Session_Coordinator.thy ===== *)
theory Session_Coordinator
  imports Session_Store
begin

text \<open>
  Exclusive ownership of a session, \<open>session/coordinator.go\<close>.  The coordinator, its leases and
  the store are shared by goroutines, so a method is cut at its critical sections and each section
  is one atomic step: the leases live in a heap (\<open>*localLease\<close> is an address), \<open>lop\<close> is the
  operation that currently holds a lease's \<open>opMu\<close> across its call of the store, and
  \<open>lphase\<close> is how far \<open>Acquire\<close> has come with the lease.  \<open>lcause\<close> is the cause of
  the lease's context, set by the first cancellation.  The relation \<open>cstep\<close> lets any goroutine
  take any enabled step; its invariant gives fencing, exclusiveness and coherence with the store.
\<close>

section \<open>State\<close>

datatype leaseOp = SavePending Snapshot | DeletePending

datatype acquirePhase = Reserved Snapshot | Loaded Snapshot bool | Checked Snapshot bool | AcquireFailed | Acquired

record localLease =
  lkey :: SessionKey
  lgeneration :: int
  lcause :: "go_error option"
  ldone :: bool
  lonce :: bool
  lop :: "leaseOp option"
  lsnapshot :: "Snapshot option"
  lcreated :: bool
  lready :: bool
  lreleased :: bool
  lphase :: acquirePhase

record LocalCoordinator =
  cstore :: MemoryStore
  cleases :: "SessionKey \<rightharpoonup> nat"
  cgenerations :: "SessionKey \<Rightarrow> int"
  cheap :: "nat \<rightharpoonup> localLease"

definition NewLocalCoordinator :: "MemoryStore \<Rightarrow> LocalCoordinator" where
  "NewLocalCoordinator store = \<lparr>cstore = store, cleases = (\<lambda>_. None), cgenerations = (\<lambda>_. 0),
     cheap = (\<lambda>_. None)\<rparr>"

definition cancel :: "go_error \<Rightarrow> localLease \<Rightarrow> localLease" where
  "cancel cause l = (if lcause l = None then l\<lparr>lcause := Some cause\<rparr> else l)"

definition setLease :: "nat \<Rightarrow> localLease \<Rightarrow> LocalCoordinator \<Rightarrow> LocalCoordinator" where
  "setLease a l c = c\<lparr>cheap := (cheap c)(a \<mapsto> l)\<rparr>"

section \<open>Acquire\<close>

text \<open>One turn of the loop under the coordinator's mutex: the lease allocated at \<open>a\<close>, or the
  previous lease that has to be retired and waited for.\<close>

definition Acquire_reserve ::
  "go_error option \<Rightarrow> nat \<Rightarrow> SessionKey \<Rightarrow> Snapshot \<Rightarrow> LocalCoordinator \<Rightarrow>
     (go_error + nat option) \<times> LocalCoordinator" where
  "Acquire_reserve ctxErr a key initial c =
     (if Snapshot_Key initial \<noteq> key then (Inl (SessionError SessionKeyMismatch), c)
      else case ctxErr of
        Some e \<Rightarrow> (Inl e, c)
      | None \<Rightarrow>
          (case cleases c key of
             Some previous \<Rightarrow> (Inr (Some previous), c)
           | None \<Rightarrow>
               (let generation = wrap64 (cgenerations c key + 1) in
                if generation \<le> cgenerations c key
                then (Inl (SessionError LeaseGenerationExhausted), c)
                else
                  (let lease = \<lparr>lkey = key, lgeneration = generation, lcause = None, ldone = False,
                         lonce = False, lop = None, lsnapshot = None, lcreated = False,
                         lready = False, lreleased = False, lphase = Reserved initial\<rparr>
                   in (Inr None, c\<lparr>cgenerations := (cgenerations c)(key := generation),
                                   cleases := (cleases c)(key \<mapsto> a),
                                   cheap := (cheap c)(a \<mapsto> lease)\<rparr>)))))"

definition Acquire_load :: "go_error option \<Rightarrow> nat \<Rightarrow> localLease \<Rightarrow> Snapshot \<Rightarrow> LocalCoordinator \<Rightarrow> LocalCoordinator" where
  "Acquire_load ctxErr a l initial c =
     (case MemoryStore_LoadOrCreate ctxErr (lkey l) initial (cstore c) of
        (Inl e, s) \<Rightarrow> setLease a (l\<lparr>lphase := AcquireFailed\<rparr>) (c\<lparr>cstore := s\<rparr>)
      | (Inr (snapshot, created), s) \<Rightarrow> setLease a (l\<lparr>lphase := Loaded snapshot created\<rparr>) (c\<lparr>cstore := s\<rparr>))"

definition Acquire_check :: "nat \<Rightarrow> localLease \<Rightarrow> Snapshot \<Rightarrow> bool \<Rightarrow> LocalCoordinator \<Rightarrow> LocalCoordinator" where
  "Acquire_check a l snapshot created c =
     setLease a (l\<lparr>lphase := (if lcause l \<noteq> None then AcquireFailed else Checked snapshot created)\<rparr>) c"

definition Acquire_ready :: "nat \<Rightarrow> localLease \<Rightarrow> Snapshot \<Rightarrow> bool \<Rightarrow> LocalCoordinator \<Rightarrow> LocalCoordinator" where
  "Acquire_ready a l snapshot created c =
     setLease a (l\<lparr>lsnapshot := Some (Snapshot_Clone snapshot), lcreated := created, lready := True,
       lphase := Acquired\<rparr>) c"

section \<open>Lease methods\<close>

definition ensureActiveLocked :: "nat \<Rightarrow> localLease \<Rightarrow> LocalCoordinator \<Rightarrow> go_error option" where
  "ensureActiveLocked a l c =
     (if \<not> lready l \<or> lreleased l then Some (SessionError LeaseInactive)
      else case lcause l of
        Some e \<Rightarrow> Some e
      | None \<Rightarrow> if cleases c (lkey l) \<noteq> Some a then Some (SessionError LeaseLost) else None)"

definition Lease_Created :: "localLease \<Rightarrow> bool" where
  "Lease_Created l \<longleftrightarrow> lready l \<and> \<not> lreleased l \<and> lcreated l"

definition Lease_Snapshot :: "nat \<Rightarrow> localLease \<Rightarrow> LocalCoordinator \<Rightarrow> go_error + Snapshot option" where
  "Lease_Snapshot a l c =
     (case ensureActiveLocked a l c of Some e \<Rightarrow> Inl e | None \<Rightarrow> Inr (lsnapshot l))"

text \<open>\<open>Save\<close> up to its call of the store, which it makes with \<open>opMu\<close> held.\<close>

definition Save_begin ::
  "go_error option \<Rightarrow> nat \<Rightarrow> localLease \<Rightarrow> Snapshot \<Rightarrow> LocalCoordinator \<Rightarrow> go_error option \<times> LocalCoordinator" where
  "Save_begin ctxErr a l nxt c =
     (if Snapshot_Key nxt \<noteq> lkey l then (Some (SessionError SessionKeyMismatch), c)
      else case ensureActiveLocked a l c of
        Some e \<Rightarrow> (Some e, c)
      | None \<Rightarrow>
          (case ctxErr of
             Some e \<Rightarrow> (Some e, c)
           | None \<Rightarrow> (None, setLease a (l\<lparr>lop := Some (SavePending nxt)\<rparr>) c)))"

definition Save_commit ::
  "go_error option \<Rightarrow> nat \<Rightarrow> localLease \<Rightarrow> Snapshot \<Rightarrow> LocalCoordinator \<Rightarrow> go_error option \<times> LocalCoordinator" where
  "Save_commit saveErr a l nxt c =
     (case MemoryStore_Save saveErr (lkey l) nxt (cstore c) of
        (Some e, s) \<Rightarrow> (Some e, setLease a (l\<lparr>lop := None\<rparr>) (c\<lparr>cstore := s\<rparr>))
      | (None, s) \<Rightarrow>
          (None, setLease a (l\<lparr>lop := None, lsnapshot := Some (Snapshot_Clone nxt)\<rparr>) (c\<lparr>cstore := s\<rparr>)))"

definition Delete_begin ::
  "go_error option \<Rightarrow> nat \<Rightarrow> localLease \<Rightarrow> LocalCoordinator \<Rightarrow> go_error option \<times> LocalCoordinator" where
  "Delete_begin ctxErr a l c =
     (case ensureActiveLocked a l c of
        Some e \<Rightarrow> (Some e, c)
      | None \<Rightarrow>
          (case ctxErr of
             Some e \<Rightarrow> (Some e, c)
           | None \<Rightarrow> (None, setLease a (l\<lparr>lop := Some DeletePending\<rparr>) c)))"

definition Delete_commit ::
  "go_error option \<Rightarrow> nat \<Rightarrow> localLease \<Rightarrow> LocalCoordinator \<Rightarrow> go_error option \<times> LocalCoordinator" where
  "Delete_commit deleteErr a l c =
     (case MemoryStore_Delete deleteErr (lkey l) (cstore c) of
        (Some e, s) \<Rightarrow> (Some e, setLease a (l\<lparr>lop := None\<rparr>) (c\<lparr>cstore := s\<rparr>))
      | (None, s) \<Rightarrow>
          (None, setLease a (cancel (SessionError LeaseReleased) (l\<lparr>lop := None, lready := False\<rparr>))
             (c\<lparr>cstore := s\<rparr>)))"

definition Retire :: "go_error option \<Rightarrow> nat \<Rightarrow> localLease \<Rightarrow> LocalCoordinator \<Rightarrow> LocalCoordinator" where
  "Retire cause a l c =
     setLease a (cancel (case cause of None \<Rightarrow> SessionError LeaseInactive | Some e \<Rightarrow> e) l) c"

definition Release_begin :: "nat \<Rightarrow> localLease \<Rightarrow> LocalCoordinator \<Rightarrow> LocalCoordinator" where
  "Release_begin a l c =
     setLease a (cancel (SessionError LeaseReleased) (l\<lparr>lonce := True, lreleased := True\<rparr>)) c"

definition Release_finish :: "nat \<Rightarrow> localLease \<Rightarrow> LocalCoordinator \<Rightarrow> LocalCoordinator" where
  "Release_finish a l c =
     setLease a (l\<lparr>ldone := True\<rparr>)
       (if cleases c (lkey l) = Some a then c\<lparr>cleases := (cleases c)(lkey l := None)\<rparr> else c)"

section \<open>Steps\<close>

text \<open>Any goroutine may take any step whose locks are free.  The context of a lease may be
  cancelled by its parent at any time.  A lease is released by \<open>Acquire\<close> when it fails, and by
  its owner once \<open>Acquire\<close> has returned it.  The store sees a failed context whenever the lease's own
  context has been cancelled.\<close>

inductive cstep :: "LocalCoordinator \<Rightarrow> LocalCoordinator \<Rightarrow> bool" where
  acquire_reserve: "cheap c a = None \<Longrightarrow> cstep c (snd (Acquire_reserve ctxErr a key initial c))"
| acquire_load: "cheap c a = Some l \<Longrightarrow> lphase l = Reserved initial \<Longrightarrow>
    cstep c (Acquire_load ctxErr a l initial c)"
| acquire_check: "cheap c a = Some l \<Longrightarrow> lphase l = Loaded snapshot created \<Longrightarrow>
    cstep c (Acquire_check a l snapshot created c)"
| acquire_ready: "cheap c a = Some l \<Longrightarrow> lphase l = Checked snapshot created \<Longrightarrow>
    lop l = None \<Longrightarrow> cstep c (Acquire_ready a l snapshot created c)"
| save_begin: "cheap c a = Some l \<Longrightarrow> lop l = None \<Longrightarrow> cstep c (snd (Save_begin ctxErr a l nxt c))"
| save_commit: "cheap c a = Some l \<Longrightarrow> lop l = Some (SavePending nxt) \<Longrightarrow>
    (lcause l \<noteq> None \<Longrightarrow> saveErr \<noteq> None) \<Longrightarrow> cstep c (snd (Save_commit saveErr a l nxt c))"
| delete_begin: "cheap c a = Some l \<Longrightarrow> lop l = None \<Longrightarrow> cstep c (snd (Delete_begin ctxErr a l c))"
| delete_commit: "cheap c a = Some l \<Longrightarrow> lop l = Some DeletePending \<Longrightarrow>
    (lcause l \<noteq> None \<Longrightarrow> deleteErr \<noteq> None) \<Longrightarrow> cstep c (snd (Delete_commit deleteErr a l c))"
| retire: "cheap c a = Some l \<Longrightarrow> lop l = None \<Longrightarrow> cstep c (Retire cause a l c)"
| context_cancelled: "cheap c a = Some l \<Longrightarrow> cstep c (setLease a (cancel e l) c)"
| release_begin: "cheap c a = Some l \<Longrightarrow> lphase l = Acquired \<or> lphase l = AcquireFailed \<Longrightarrow>
    lop l = None \<Longrightarrow> \<not> lonce l \<Longrightarrow> cstep c (Release_begin a l c)"
| release_finish: "cheap c a = Some l \<Longrightarrow> lonce l \<Longrightarrow> \<not> ldone l \<Longrightarrow> cstep c (Release_finish a l c)"

inductive reachable :: "LocalCoordinator \<Rightarrow> LocalCoordinator \<Rightarrow> bool" for c0 where
  start: "reachable c0 c0"
| step: "reachable c0 c \<Longrightarrow> cstep c c' \<Longrightarrow> reachable c0 c'"

section \<open>Invariant\<close>

text \<open>Of one lease: it stays the current one until its release has finished, its generation is
  then the latest, only an active lease has an operation in flight, and what it holds is what the
  store holds.\<close>

definition lease_ok :: "LocalCoordinator \<Rightarrow> nat \<Rightarrow> localLease \<Rightarrow> bool" where
  "lease_ok c a l \<longleftrightarrow>
     (\<not> ldone l \<longrightarrow> cleases c (lkey l) = Some a \<and> lgeneration l = cgenerations c (lkey l)) \<and>
     lgeneration l \<le> cgenerations c (lkey l) \<and>
     (lop l \<noteq> None \<longrightarrow> lready l \<and> \<not> lreleased l) \<and>
     (ldone l \<longrightarrow> lonce l) \<and> (lonce l \<longrightarrow> lreleased l \<and> (lphase l = Acquired \<or> lphase l = AcquireFailed)) \<and>
     (lphase l \<noteq> Acquired \<longrightarrow> \<not> lready l) \<and>
     (\<forall>nxt. lop l = Some (SavePending nxt) \<longrightarrow> Snapshot_Key nxt = lkey l) \<and>
     (\<forall>i. lphase l = Reserved i \<longrightarrow> Snapshot_Key i = lkey l) \<and>
     (\<forall>s b. \<not> ldone l \<and> (lphase l = Loaded s b \<or> lphase l = Checked s b) \<longrightarrow>
        snapshots (cstore c) (lkey l) = Some s) \<and>
     (\<not> ldone l \<and> lready l \<longrightarrow> lsnapshot l \<noteq> None \<and> snapshots (cstore c) (lkey l) = lsnapshot l)"

definition coordinator_inv :: "LocalCoordinator \<Rightarrow> bool" where
  "coordinator_inv c \<longleftrightarrow>
     (\<forall>a l. cheap c a = Some l \<longrightarrow> lease_ok c a l) \<and>
     (\<forall>k a. cleases c k = Some a \<longrightarrow> (\<exists>l. cheap c a = Some l \<and> lkey l = k \<and> \<not> ldone l)) \<and>
     (\<forall>a b l m. cheap c a = Some l \<longrightarrow> cheap c b = Some m \<longrightarrow> lkey l = lkey m \<longrightarrow>
        lgeneration l = lgeneration m \<longrightarrow> a = b)"

lemma inv_lease: "coordinator_inv c \<Longrightarrow> cheap c a = Some l \<Longrightarrow> lease_ok c a l"
  by (simp add: coordinator_inv_def)

lemma inv_current:
  "coordinator_inv c \<Longrightarrow> cleases c k = Some a \<Longrightarrow> \<exists>l. cheap c a = Some l \<and> lkey l = k \<and> \<not> ldone l"
  unfolding coordinator_inv_def by blast

lemma inv_unique:
  "coordinator_inv c \<Longrightarrow> cheap c a = Some l \<Longrightarrow> cheap c b = Some m \<Longrightarrow> lkey l = lkey m \<Longrightarrow>
     lgeneration l = lgeneration m \<Longrightarrow> a = b"
  unfolding coordinator_inv_def by blast

lemma cancel_frame [simp]:
  "lkey (cancel e l) = lkey l" "lgeneration (cancel e l) = lgeneration l" "ldone (cancel e l) = ldone l"
  "lonce (cancel e l) = lonce l" "lop (cancel e l) = lop l" "lsnapshot (cancel e l) = lsnapshot l"
  "lready (cancel e l) = lready l" "lreleased (cancel e l) = lreleased l" "lphase (cancel e l) = lphase l"
  "lcreated (cancel e l) = lcreated l" "lcause (cancel e l) \<noteq> None"
  by (simp_all add: cancel_def)

text \<open>Most steps change one lease, and the store at most at the key of that lease while it is not
  done.\<close>

lemma setLease_inv:
  assumes inv: "coordinator_inv c" and a: "cheap c a = Some l"
    and same: "lkey l' = lkey l" "lgeneration l' = lgeneration l" "ldone l' = ldone l"
    and store: "s = cstore c \<or> \<not> ldone l \<and> (\<forall>k. k \<noteq> lkey l \<longrightarrow> snapshots s k = snapshots (cstore c) k)"
    and ok: "lease_ok (c\<lparr>cstore := s\<rparr>) a l'"
  shows "coordinator_inv (setLease a l' (c\<lparr>cstore := s\<rparr>))"
proof -
  let ?c = "setLease a l' (c\<lparr>cstore := s\<rparr>)"
  have frame: "lease_ok ?c b m \<longleftrightarrow> lease_ok (c\<lparr>cstore := s\<rparr>) b m" for b m
    by (simp add: lease_ok_def setLease_def)
  have other: "lease_ok ?c b m" if b: "cheap c b = Some m" "b \<noteq> a" for b m
  proof -
    have m: "lease_ok c b m" using inv b by (simp add: coordinator_inv_def)
    have "snapshots s (lkey m) = snapshots (cstore c) (lkey m)" if nd: "\<not> ldone m"
    proof (cases "ldone l \<or> lkey m \<noteq> lkey l")
      case True
      then show ?thesis using store by auto
    next
      case False
      have "lease_ok c a l" using inv a by (simp add: coordinator_inv_def)
      then have "cleases c (lkey l) = Some a" using False by (simp add: lease_ok_def)
      moreover have "cleases c (lkey m) = Some b" using m nd by (simp add: lease_ok_def)
      ultimately show ?thesis using False b(2) by simp
    qed
    then show ?thesis unfolding frame using m by (auto simp: lease_ok_def)
  qed
  show ?thesis
    unfolding coordinator_inv_def
  proof (intro conjI allI impI)
    fix b m assume "cheap ?c b = Some m"
    then show "lease_ok ?c b m" using other ok frame by (cases "b = a") (auto simp: setLease_def)
  next
    fix k b assume "cleases ?c k = Some b"
    then have "cleases c k = Some b" by (simp add: setLease_def)
    with inv_current [OF inv] obtain m where "cheap c b = Some m" "lkey m = k" "\<not> ldone m" by blast
    then show "\<exists>m. cheap ?c b = Some m \<and> lkey m = k \<and> \<not> ldone m"
      using a same by (cases "b = a") (auto simp: setLease_def)
  next
    fix b d m n assume "cheap ?c b = Some m" "cheap ?c d = Some n" "lkey m = lkey n"
      "lgeneration m = lgeneration n"
    then show "b = d" using inv_unique [OF inv] a same
      by (auto simp: setLease_def split: if_splits)
  qed
qed

lemma setLease_store_inv:
  assumes "coordinator_inv c" "cheap c a = Some l"
    "lkey l' = lkey l" "lgeneration l' = lgeneration l" "ldone l' = ldone l" "lease_ok c a l'"
  shows "coordinator_inv (setLease a l' c)"
  using setLease_inv [OF assms(1-5), of "cstore c"] assms(6) by simp

lemma lease_ok_cancel: "lease_ok c a l \<Longrightarrow> lease_ok c a (cancel e l)"
  by (simp add: lease_ok_def)

lemma reserve_inv:
  assumes inv: "coordinator_inv c" and a: "cheap c a = None"
  shows "coordinator_inv (snd (Acquire_reserve ctxErr a key initial c))"
proof (cases "snd (Acquire_reserve ctxErr a key initial c) = c")
  case False
  define g where "g = wrap64 (cgenerations c key + 1)"
  define l where "l = \<lparr>lkey = key, lgeneration = g, lcause = None, ldone = False, lonce = False,
    lop = None, lsnapshot = None, lcreated = False, lready = False, lreleased = False,
    lphase = Reserved initial\<rparr>"
  let ?c = "c\<lparr>cgenerations := (cgenerations c)(key := g), cleases := (cleases c)(key \<mapsto> a),
    cheap := (cheap c)(a \<mapsto> l)\<rparr>"
  have free: "cleases c key = None" and key: "Snapshot_Key initial = key" and g: "cgenerations c key < g"
    and c': "snd (Acquire_reserve ctxErr a key initial c) = ?c"
    using False by (auto simp: Acquire_reserve_def Let_def g_def l_def split: if_splits option.splits)
  have old: "ldone m" if "cheap c b = Some m" "lkey m = key" for b m
    using inv_lease [OF inv that(1)] that(2) free by (auto simp: lease_ok_def)
  have other: "lease_ok ?c b m" if "cheap c b = Some m" for b m
    using inv_lease [OF inv that] old [OF that] g by (cases "lkey m = key") (auto simp: lease_ok_def)
  have "b \<noteq> a" if "cheap c b = Some m" for b m using that a by auto
  then show ?thesis
    unfolding c' coordinator_inv_def
  proof (intro conjI allI impI, goal_cases)
    case (1 b m)
    then show ?case using other key by (cases "b = a") (auto simp: lease_ok_def l_def)
  next
    case (2 k b)
    then show ?case using inv_current [OF inv, of k b] a by (cases "k = key") (auto simp: l_def)
  next
    case (3 b d m n)
    have below: "lgeneration m \<noteq> g" if "cheap c b = Some m" "lkey m = key" for b m
      using inv_lease [OF inv that(1)] that(2) g by (auto simp: lease_ok_def)
    show ?case
    proof (cases "b = a \<or> d = a")
      case True
      then show ?thesis using 3 below [of b m] below [of d n] by (auto simp: l_def split: if_splits)
    next
      case False
      then show ?thesis using 3 inv_unique [OF inv, of b m d n] by simp
    qed
  qed
qed (use inv in simp)

lemma finish_inv:
  assumes inv: "coordinator_inv c" and a: "cheap c a = Some l" and once: "lonce l" "\<not> ldone l"
  shows "coordinator_inv (Release_finish a l c)"
proof -
  have ok: "lease_ok c a l" by (rule inv_lease [OF inv a])
  then have cur: "cleases c (lkey l) = Some a" and rel: "lreleased l" "lop l = None"
    using once by (auto simp: lease_ok_def)
  let ?c = "c\<lparr>cleases := (cleases c)(lkey l := None), cheap := (cheap c)(a \<mapsto> l\<lparr>ldone := True\<rparr>)\<rparr>"
  have c': "Release_finish a l c = ?c" by (simp add: Release_finish_def setLease_def cur)
  have mine: "lease_ok ?c a (l\<lparr>ldone := True\<rparr>)" using ok once rel by (simp add: lease_ok_def)
  have other: "lease_ok ?c b m" if b: "cheap c b = Some m" "b \<noteq> a" for b m
  proof -
    have m: "lease_ok c b m" by (rule inv_lease [OF inv b(1)])
    then have "ldone m" if "lkey m = lkey l" using cur b(2) that by (auto simp: lease_ok_def)
    with m show ?thesis by (auto simp: lease_ok_def)
  qed
  show ?thesis
    unfolding c' coordinator_inv_def
  proof (intro conjI allI impI, goal_cases)
    case (1 b m)
    then show ?case using mine other by (cases "b = a") auto
  next
    case (2 k b)
    then have k: "k \<noteq> lkey l" "cleases c k = Some b" by (auto split: if_splits)
    with inv_current [OF inv k(2)] a show ?case by (cases "b = a") auto
  next
    case (3 b d m n)
    then show ?case using inv_unique [OF inv] a by (auto split: if_splits)
  qed
qed

text \<open>The steps that call the store.\<close>

lemma load_inv:
  assumes inv: "coordinator_inv c" and a: "cheap c a = Some l" "lphase l = Reserved initial"
  shows "coordinator_inv (Acquire_load ctxErr a l initial c)"
proof -
  have ok: "lease_ok c a l" by (rule inv_lease [OF inv a(1)])
  then have key: "Snapshot_Key initial = lkey l" and nr: "\<not> lready l" "lop l = None"
    using a(2) by (auto simp: lease_ok_def)
  show ?thesis
  proof (cases "MemoryStore_LoadOrCreate ctxErr (lkey l) initial (cstore c)")
    case (Pair r s)
    show ?thesis
    proof (cases r)
      case (Inl e)
      have "s = cstore c" using memory_store.loadOrCreate_fail Pair Inl by metis
      moreover have "coordinator_inv (setLease a (l\<lparr>lphase := AcquireFailed\<rparr>) c)"
        using ok nr by (intro setLease_store_inv [OF inv a(1)]) (auto simp: lease_ok_def)
      ultimately show ?thesis using Pair Inl by (simp add: Acquire_load_def)
    next
      case (Inr x)
      obtain snap created where x: "x = (snap, created)" by fastforce
      have s: "snapshots s = (snapshots (cstore c))(lkey l \<mapsto> snap)"
        using Pair Inr x key
        by (auto simp: MemoryStore_LoadOrCreate_def Let_def fun_upd_idem split: option.splits)
      have "coordinator_inv (setLease a (l\<lparr>lphase := Loaded snap created\<rparr>) (c\<lparr>cstore := s\<rparr>))"
      proof (rule setLease_inv [OF inv a(1)])
        show "s = cstore c \<or> \<not> ldone l \<and> (\<forall>k. k \<noteq> lkey l \<longrightarrow> snapshots s k = snapshots (cstore c) k)"
          using ok a(2) by (auto simp: lease_ok_def s)
      qed (use ok nr a(2) in \<open>auto simp: lease_ok_def s\<close>)
      then show ?thesis using Pair Inr x by (simp add: Acquire_load_def)
    qed
  qed
qed

lemma save_commit_inv:
  assumes inv: "coordinator_inv c" and a: "cheap c a = Some l" "lop l = Some (SavePending nxt)"
  shows "coordinator_inv (snd (Save_commit saveErr a l nxt c))"
proof -
  have ok: "lease_ok c a l" by (rule inv_lease [OF inv a(1)])
  then have nd: "\<not> ldone l" "lready l" using a(2) by (auto simp: lease_ok_def)
  obtain r s where save: "MemoryStore_Save saveErr (lkey l) nxt (cstore c) = (r, s)" by fastforce
  show ?thesis
  proof (cases r)
    case (Some e)
    have "s = cstore c" using memory_store.save_fail save Some by metis
    moreover have "coordinator_inv (setLease a (l\<lparr>lop := None\<rparr>) c)"
      using ok by (intro setLease_store_inv [OF inv a(1)]) (auto simp: lease_ok_def)
    ultimately show ?thesis using save Some by (simp add: Save_commit_def)
  next
    case None
    have s: "snapshots s = (snapshots (cstore c))(lkey l \<mapsto> nxt)"
      using memory_store.save_ok save None by metis
    have "coordinator_inv (setLease a (l\<lparr>lop := None, lsnapshot := Some nxt\<rparr>) (c\<lparr>cstore := s\<rparr>))"
      using ok nd s by (intro setLease_inv [OF inv a(1)]) (auto simp: lease_ok_def)
    then show ?thesis using save None by (simp add: Save_commit_def)
  qed
qed

lemma delete_commit_inv:
  assumes inv: "coordinator_inv c" and a: "cheap c a = Some l" "lop l = Some DeletePending"
  shows "coordinator_inv (snd (Delete_commit deleteErr a l c))"
proof -
  have ok: "lease_ok c a l" by (rule inv_lease [OF inv a(1)])
  then have nd: "\<not> ldone l" "lready l" using a(2) by (auto simp: lease_ok_def)
  obtain r s where del: "MemoryStore_Delete deleteErr (lkey l) (cstore c) = (r, s)" by fastforce
  show ?thesis
  proof (cases r)
    case (Some e)
    have "s = cstore c" using memory_store.delete_fail del Some by metis
    moreover have "coordinator_inv (setLease a (l\<lparr>lop := None\<rparr>) c)"
      using ok by (intro setLease_store_inv [OF inv a(1)]) (auto simp: lease_ok_def)
    ultimately show ?thesis using del Some by (simp add: Delete_commit_def)
  next
    case None
    have s: "snapshots s = (snapshots (cstore c))(lkey l := None)"
      using memory_store.delete_ok del None by metis
    have "lease_ok (c\<lparr>cstore := s\<rparr>) a (l\<lparr>lop := None, lready := False\<rparr>)"
      using ok nd s by (auto simp: lease_ok_def)
    then have "coordinator_inv (setLease a (cancel (SessionError LeaseReleased) (l\<lparr>lop := None, lready := False\<rparr>))
        (c\<lparr>cstore := s\<rparr>))"
      using nd s by (intro setLease_inv [OF inv a(1)]) (simp_all add: lease_ok_cancel)
    then show ?thesis using del None by (simp add: Delete_commit_def)
  qed
qed

lemma begin_inv:
  assumes inv: "coordinator_inv c" and a: "cheap c a = Some l"
  shows "coordinator_inv (snd (Save_begin ctxErr a l nxt c))"
    "coordinator_inv (snd (Delete_begin ctxErr a l c))"
proof -
  have ok: "lease_ok c a l" by (rule inv_lease [OF inv a])
  have put: "coordinator_inv (setLease a (l\<lparr>lop := Some x\<rparr>) c)"
    if act: "ensureActiveLocked a l c = None" and x: "\<forall>n. x = SavePending n \<longrightarrow> Snapshot_Key n = lkey l" for x
  proof -
    have "lready l" "\<not> lreleased l"
      using act by (simp_all add: ensureActiveLocked_def split: if_splits)
    with ok x have "lease_ok c a (l\<lparr>lop := Some x\<rparr>)" by (auto simp: lease_ok_def)
    then show ?thesis by (intro setLease_store_inv [OF inv a]) simp_all
  qed
  show "coordinator_inv (snd (Save_begin ctxErr a l nxt c))"
    using inv put [of "SavePending nxt"] by (simp add: Save_begin_def split: option.splits)
  show "coordinator_inv (snd (Delete_begin ctxErr a l c))"
    using inv put [of DeletePending] by (simp add: Delete_begin_def split: option.splits)
qed

lemma cstep_inv: "cstep c c' \<Longrightarrow> coordinator_inv c \<Longrightarrow> coordinator_inv c'"
proof (induction rule: cstep.induct)
  case (acquire_reserve c a ctxErr key initial)
  then show ?case by (intro reserve_inv)
next
  case (acquire_load c a l initial ctxErr)
  then show ?case by (intro load_inv)
next
  case (acquire_check c a l snapshot created)
  then have "lease_ok c a l" by (intro inv_lease)
  with acquire_check show ?case
    unfolding Acquire_check_def by (intro setLease_store_inv) (auto simp: lease_ok_def)
next
  case (acquire_ready c a l snapshot created)
  then have "lease_ok c a l" by (intro inv_lease)
  with acquire_ready show ?case
    unfolding Acquire_ready_def by (intro setLease_store_inv) (auto simp: lease_ok_def)
next
  case (save_begin c a l ctxErr nxt)
  then show ?case by (intro begin_inv)
next
  case (save_commit c a l nxt saveErr)
  then show ?case by (intro save_commit_inv)
next
  case (delete_begin c a l ctxErr)
  then show ?case by (intro begin_inv)
next
  case (delete_commit c a l deleteErr)
  then show ?case by (intro delete_commit_inv)
next
  case (retire c a l cause)
  then show ?case
    unfolding Retire_def by (intro setLease_store_inv) (auto intro: lease_ok_cancel inv_lease)
next
  case (context_cancelled c a l e)
  then show ?case by (intro setLease_store_inv) (auto intro: lease_ok_cancel inv_lease)
next
  case (release_begin c a l)
  then have "lease_ok c a l" by (intro inv_lease)
  with release_begin have "lease_ok c a (l\<lparr>lonce := True, lreleased := True\<rparr>)"
    by (auto simp: lease_ok_def)
  with release_begin show ?case
    unfolding Release_begin_def by (intro setLease_store_inv) (auto intro: lease_ok_cancel)
next
  case (release_finish c a l)
  then show ?case by (intro finish_inv)
qed

lemma reachable_inv: "reachable (NewLocalCoordinator store) c \<Longrightarrow> coordinator_inv c"
proof (induction rule: reachable.induct)
  case start
  then show ?case by (simp add: coordinator_inv_def NewLocalCoordinator_def)
next
  case (step c c')
  show ?case by (rule cstep_inv [OF step.hyps(2) step.IH])
qed

section \<open>Properties\<close>

text \<open>C7. Fencing.  Whenever a step of any goroutine changes what the store holds for a session,
  the current lease of that session is the one with the greatest generation ever issued for it,
  every other lease of that session has been released completely, and no other lease than the
  current one has a save or a delete in flight.  A stale owner never writes.\<close>

theorem lease_fencing:
  assumes "reachable (NewLocalCoordinator store) c" and step: "cstep c c'"
    and changed: "snapshots (cstore c') k \<noteq> snapshots (cstore c) k"
  shows "\<exists>a l. cleases c k = Some a \<and> cheap c a = Some l \<and> lgeneration l = cgenerations c k \<and>
    (\<forall>b m. cheap c b = Some m \<and> lkey m = k \<and> b \<noteq> a \<longrightarrow>
       lgeneration m < lgeneration l \<and> ldone m \<and> lop m = None)"
proof -
  have inv: "coordinator_inv c" by (rule reachable_inv [OF assms(1)])
  have "\<exists>a l. cheap c a = Some l \<and> lkey l = k \<and> \<not> ldone l"
    using step changed
  proof (cases rule: cstep.cases)
    case (acquire_reserve a ctxErr key initial)
    then show ?thesis using changed
      by (auto simp: Acquire_reserve_def Let_def split: if_splits option.splits)
  next
    case (acquire_load a l initial ctxErr)
    have ok: "lease_ok c a l" by (rule inv_lease [OF inv acquire_load(2)])
    have "k = lkey l" using changed acquire_load(1)
      by (auto simp: Acquire_load_def setLease_def MemoryStore_LoadOrCreate_def Let_def
          split: option.splits if_splits)
    with ok acquire_load show ?thesis by (auto simp: lease_ok_def)
  next
    case (save_commit a l nxt saveErr)
    have ok: "lease_ok c a l" by (rule inv_lease [OF inv save_commit(2)])
    have "k = lkey l" using changed save_commit(1)
      by (auto simp: Save_commit_def setLease_def MemoryStore_Save_def split: option.splits if_splits)
    with ok save_commit show ?thesis by (auto simp: lease_ok_def)
  next
    case (delete_commit a l deleteErr)
    have ok: "lease_ok c a l" by (rule inv_lease [OF inv delete_commit(2)])
    have "k = lkey l" using changed delete_commit(1)
      by (auto simp: Delete_commit_def setLease_def MemoryStore_Delete_def split: option.splits if_splits)
    with ok delete_commit show ?thesis by (auto simp: lease_ok_def)
  qed (use changed in \<open>auto simp: setLease_def Acquire_check_def Acquire_ready_def Save_begin_def
      Delete_begin_def Retire_def Release_begin_def Release_finish_def split: option.splits if_splits\<close>)
  then obtain a l where l: "cheap c a = Some l" "lkey l = k" "\<not> ldone l" by blast
  have ok: "lease_ok c a l" by (rule inv_lease [OF inv l(1)])
  then have cur: "cleases c k = Some a" "lgeneration l = cgenerations c k"
    using l by (auto simp: lease_ok_def)
  have "lgeneration m < lgeneration l \<and> ldone m \<and> lop m = None"
    if m: "cheap c b = Some m" "lkey m = k" "b \<noteq> a" for b m
  proof -
    have okm: "lease_ok c b m" by (rule inv_lease [OF inv m(1)])
    then have d: "ldone m" using cur(1) m(2,3) by (auto simp: lease_ok_def)
    moreover have "lgeneration m \<noteq> lgeneration l"
      using inv_unique [OF inv m(1) l(1)] m l(2) by auto
    ultimately show ?thesis using okm m(2) cur(2) by (auto simp: lease_ok_def)
  qed
  with cur l(1) show ?thesis by blast
qed

definition exampleReserved :: LocalCoordinator where
  "exampleReserved = snd (Acquire_reserve None 0 exampleKey exampleSnapshot (NewLocalCoordinator NewMemoryStore))"

definition exampleLease :: localLease where
  "exampleLease = \<lparr>lkey = exampleKey, lgeneration = 1, lcause = None, ldone = False, lonce = False,
     lop = None, lsnapshot = None, lcreated = False, lready = False, lreleased = False,
     lphase = Reserved exampleSnapshot\<rparr>"

definition exampleLoaded :: LocalCoordinator where
  "exampleLoaded = Acquire_load None 0 exampleLease exampleSnapshot exampleReserved"

lemma exampleKey_eq: "Snapshot_Key exampleSnapshot = exampleKey"
  by (simp add: Snapshot_Key_def exampleSnapshot_def exampleKey_def)

lemma exampleReserved_eq:
  "exampleReserved = \<lparr>cstore = NewMemoryStore, cleases = [exampleKey \<mapsto> 0],
     cgenerations = (\<lambda>_. 0)(exampleKey := 1), cheap = [0 \<mapsto> exampleLease]\<rparr>"
  by (simp add: exampleReserved_def Acquire_reserve_def NewLocalCoordinator_def exampleKey_eq
      exampleLease_def wrap64_def)

lemma exampleLoaded_eq:
  "exampleLoaded = exampleReserved\<lparr>cstore := \<lparr>snapshots = [exampleKey \<mapsto> exampleSnapshot]\<rparr>,
     cheap := [0 \<mapsto> exampleLease\<lparr>lphase := Loaded exampleSnapshot True\<rparr>]\<rparr>"
  by (simp add: exampleLoaded_def Acquire_load_def exampleReserved_eq MemoryStore_LoadOrCreate_def
      exampleKey_eq NewMemoryStore_def setLease_def exampleLease_def)

lemma exampleReserved_reachable: "reachable (NewLocalCoordinator NewMemoryStore) exampleReserved"
  unfolding exampleReserved_def
  by (rule reachable.step [OF reachable.start], rule cstep.acquire_reserve)
    (simp add: NewLocalCoordinator_def)

lemma exampleLoaded_step: "cstep exampleReserved exampleLoaded"
  unfolding exampleLoaded_def
  by (rule cstep.acquire_load) (simp_all add: exampleReserved_eq exampleLease_def)

theorem lease_fencing_witness:
  "\<exists>a l. cleases exampleReserved exampleKey = Some a \<and> cheap exampleReserved a = Some l \<and>
    lgeneration l = cgenerations exampleReserved exampleKey \<and>
    snapshots (cstore exampleLoaded) exampleKey \<noteq> snapshots (cstore exampleReserved) exampleKey"
proof -
  have changed: "snapshots (cstore exampleLoaded) exampleKey \<noteq> snapshots (cstore exampleReserved) exampleKey"
    by (simp add: exampleLoaded_eq exampleReserved_eq NewMemoryStore_def)
  from lease_fencing [OF exampleReserved_reachable exampleLoaded_step changed] changed show ?thesis by blast
qed

text \<open>Coherence.  Whatever the interleaving, when a lease reports its snapshot (it is ready, not
  released, not cancelled and still current), that snapshot is exactly what the store holds for
  the session.\<close>

theorem lease_snapshot_durable:
  assumes "reachable (NewLocalCoordinator store) c" "cheap c a = Some l"
    and "Lease_Snapshot a l c = Inr s"
  shows "s \<noteq> None \<and> snapshots (cstore c) (lkey l) = s"
proof -
  have inv: "coordinator_inv c" by (rule reachable_inv [OF assms(1)])
  have l: "lready l" "\<not> lreleased l" "s = lsnapshot l"
    using assms(3) by (auto simp: Lease_Snapshot_def ensureActiveLocked_def split: if_splits option.splits)
  with inv_lease [OF inv assms(2)] show ?thesis by (auto simp: lease_ok_def)
qed

definition exampleReady :: LocalCoordinator where
  "exampleReady = Acquire_ready 0 (exampleLease\<lparr>lphase := Checked exampleSnapshot True\<rparr>) exampleSnapshot True
     (Acquire_check 0 (exampleLease\<lparr>lphase := Loaded exampleSnapshot True\<rparr>) exampleSnapshot True exampleLoaded)"

theorem lease_snapshot_durable_witness:
  "\<exists>l. cheap exampleReady 0 = Some l \<and> Lease_Snapshot 0 l exampleReady = Inr (Some exampleSnapshot) \<and>
     snapshots (cstore exampleReady) (lkey l) = Some exampleSnapshot"
proof -
  have check: "cstep exampleLoaded
      (Acquire_check 0 (exampleLease\<lparr>lphase := Loaded exampleSnapshot True\<rparr>) exampleSnapshot True exampleLoaded)"
    by (rule cstep.acquire_check) (simp_all add: exampleLoaded_eq)
  have ready: "cstep (Acquire_check 0 (exampleLease\<lparr>lphase := Loaded exampleSnapshot True\<rparr>)
      exampleSnapshot True exampleLoaded) exampleReady"
    unfolding exampleReady_def
    by (rule cstep.acquire_ready) (simp_all add: Acquire_check_def setLease_def exampleLease_def)
  have r: "reachable (NewLocalCoordinator NewMemoryStore) exampleReady"
    by (rule reachable.step [OF reachable.step [OF reachable.step
          [OF exampleReserved_reachable exampleLoaded_step] check] ready])
  let ?l = "exampleLease\<lparr>lphase := Acquired, lsnapshot := Some exampleSnapshot, lcreated := True, lready := True\<rparr>"
  have l: "cheap exampleReady 0 = Some ?l"
    by (simp add: exampleReady_def Acquire_ready_def Acquire_check_def setLease_def exampleLease_def)
  have snap: "Lease_Snapshot 0 ?l exampleReady = Inr (Some exampleSnapshot)"
    by (simp add: Lease_Snapshot_def ensureActiveLocked_def exampleReady_def Acquire_ready_def
        Acquire_check_def setLease_def exampleLoaded_eq exampleReserved_eq exampleLease_def)
  from lease_snapshot_durable [OF r l snap] l snap show ?thesis by blast
qed

text \<open>Generations.  When \<open>Acquire\<close> installs a lease, its generation is greater than that of
  every lease there has ever been for the session, all of those have been released completely, and
  from then on exactly the new lease is the current one.\<close>

theorem acquire_generation:
  assumes "reachable (NewLocalCoordinator store) c" and fresh: "cheap c a = None"
    and new: "Acquire_reserve ctxErr a key initial c = (Inr None, c')"
  shows "\<exists>l. cheap c' a = Some l \<and> cleases c' key = Some a \<and>
    (\<forall>b m. cheap c b = Some m \<and> lkey m = key \<longrightarrow> lgeneration m < lgeneration l \<and> ldone m)"
proof -
  have inv: "coordinator_inv c" by (rule reachable_inv [OF assms(1)])
  have free: "cleases c key = None"
    and l: "\<exists>l. cheap c' a = Some l \<and> cleases c' key = Some a \<and> cgenerations c key < lgeneration l"
    using new by (auto simp: Acquire_reserve_def Let_def split: if_splits option.splits)
  have "lgeneration m \<le> cgenerations c key \<and> ldone m" if "cheap c b = Some m" "lkey m = key" for b m
    using inv_lease [OF inv that(1)] that(2) free by (auto simp: lease_ok_def)
  with l show ?thesis by (meson le_less_trans)
qed

theorem acquire_generation_witness:
  "\<exists>l. cheap exampleReserved 0 = Some l \<and> cleases exampleReserved exampleKey = Some 0"
proof -
  have "Acquire_reserve None 0 exampleKey exampleSnapshot (NewLocalCoordinator NewMemoryStore)
      = (Inr None, exampleReserved)"
    by (simp add: exampleReserved_def Acquire_reserve_def NewLocalCoordinator_def exampleKey_eq wrap64_def)
  from acquire_generation [OF reachable.start _ this] show ?thesis
    by (auto simp: NewLocalCoordinator_def)
qed

end
