(* ===== verification/Container_Heap.thy ===== *)
theory Container_Heap
  imports TLRPC_Prelude "HOL-Library.Multiset"
begin

text \<open>
  The binary heap of Go's \<open>container/heap\<close>, which the reliability store uses for its expiry
  queue.  As in Go the algorithms are written against an interface: \<open>Less\<close> compares two
  positions of a heap state, \<open>Swap\<close> exchanges them.  The locale \<open>heap_interface\<close> states
  what an implementation of the interface owes the algorithms, and the correctness of
  \<open>up\<close> and \<open>down\<close> is proved once inside it.
\<close>

section \<open>The algorithms\<close>

definition parent :: "nat \<Rightarrow> nat" where
  "parent j = (j - 1) div 2"

lemma parent_less [simp]: "0 < k \<Longrightarrow> parent k < k" by (auto simp: parent_def)

lemma parent_le: "parent k \<le> k" by (auto simp: parent_def)

lemma parent_0 [simp]: "parent 0 = 0" by (simp add: parent_def)

lemma parent_eq_iff: "0 < k \<Longrightarrow> parent k = i \<longleftrightarrow> k = 2 * i + 1 \<or> k = 2 * i + 2"
  by (auto simp: parent_def)

text \<open>\<open>up\<close>: at the root \<open>(j-1)/2\<close> is \<open>0\<close> in Go, which is also \<open>j\<close>.\<close>

function heap_up :: "('h \<Rightarrow> nat \<Rightarrow> nat \<Rightarrow> bool) \<Rightarrow> (nat \<Rightarrow> nat \<Rightarrow> 'h \<Rightarrow> 'h) \<Rightarrow> nat \<Rightarrow> 'h \<Rightarrow> 'h" where
  "heap_up Less Swap j h =
     (let i = parent j in
      if i = j \<or> \<not> Less h j i then h else heap_up Less Swap i (Swap i j h))"
  by auto
termination
  by (relation "measure (\<lambda>(Less, Swap, j, h). j)") (auto simp: parent_def)

text \<open>\<open>down\<close>: the final position and state; the Go function returns whether it moved.\<close>

function heap_down_loop ::
  "('h \<Rightarrow> nat \<Rightarrow> nat \<Rightarrow> bool) \<Rightarrow> (nat \<Rightarrow> nat \<Rightarrow> 'h \<Rightarrow> 'h) \<Rightarrow> nat \<Rightarrow> nat \<Rightarrow> 'h \<Rightarrow> nat \<times> 'h" where
  "heap_down_loop Less Swap i n h =
     (let j1 = 2 * i + 1 in
      if j1 \<ge> n then (i, h)
      else
        (let j2 = j1 + 1;
             j = (if j2 < n \<and> Less h j2 j1 then j2 else j1)
         in if \<not> Less h j i then (i, h) else heap_down_loop Less Swap j n (Swap i j h)))"
  by auto
termination
  by (relation "measure (\<lambda>(Less, Swap, i, n, h). n - i)") auto

declare heap_up.simps [simp del] heap_down_loop.simps [simp del]

definition heap_down ::
  "('h \<Rightarrow> nat \<Rightarrow> nat \<Rightarrow> bool) \<Rightarrow> (nat \<Rightarrow> nat \<Rightarrow> 'h \<Rightarrow> 'h) \<Rightarrow> nat \<Rightarrow> nat \<Rightarrow> 'h \<Rightarrow> bool \<times> 'h" where
  "heap_down Less Swap i0 n h =
     (case heap_down_loop Less Swap i0 n h of (i, h') \<Rightarrow> (i > i0, h'))"

definition heap_Fix ::
  "('h \<Rightarrow> nat \<Rightarrow> nat \<Rightarrow> bool) \<Rightarrow> (nat \<Rightarrow> nat \<Rightarrow> 'h \<Rightarrow> 'h) \<Rightarrow> ('h \<Rightarrow> nat) \<Rightarrow> nat \<Rightarrow> 'h \<Rightarrow> 'h" where
  "heap_Fix Less Swap Len i h =
     (case heap_down Less Swap i (Len h) h of (moved, h') \<Rightarrow> if moved then h' else heap_up Less Swap i h')"

definition heap_Push ::
  "('h \<Rightarrow> nat \<Rightarrow> nat \<Rightarrow> bool) \<Rightarrow> (nat \<Rightarrow> nat \<Rightarrow> 'h \<Rightarrow> 'h) \<Rightarrow> ('h \<Rightarrow> nat) \<Rightarrow> ('b \<Rightarrow> 'h \<Rightarrow> 'h) \<Rightarrow>
     'b \<Rightarrow> 'h \<Rightarrow> 'h" where
  "heap_Push Less Swap Len Push x h = (let h' = Push x h in heap_up Less Swap (Len h' - 1) h')"

definition heap_Pop ::
  "('h \<Rightarrow> nat \<Rightarrow> nat \<Rightarrow> bool) \<Rightarrow> (nat \<Rightarrow> nat \<Rightarrow> 'h \<Rightarrow> 'h) \<Rightarrow> ('h \<Rightarrow> nat) \<Rightarrow> ('h \<Rightarrow> 'b \<times> 'h) \<Rightarrow>
     'h \<Rightarrow> 'b \<times> 'h" where
  "heap_Pop Less Swap Len Pop h =
     (let n = Len h - 1 in Pop (snd (heap_down Less Swap 0 n (Swap 0 n h))))"

definition heap_Remove ::
  "('h \<Rightarrow> nat \<Rightarrow> nat \<Rightarrow> bool) \<Rightarrow> (nat \<Rightarrow> nat \<Rightarrow> 'h \<Rightarrow> 'h) \<Rightarrow> ('h \<Rightarrow> nat) \<Rightarrow> ('h \<Rightarrow> 'b \<times> 'h) \<Rightarrow>
     nat \<Rightarrow> 'h \<Rightarrow> 'b \<times> 'h" where
  "heap_Remove Less Swap Len Pop i h =
     (let n = Len h - 1 in
      if n \<noteq> i then
        (case heap_down Less Swap i n (Swap i n h) of
           (moved, h') \<Rightarrow> Pop (if moved then h' else heap_up Less Swap i h'))
      else Pop h)"

section \<open>Heap order on a list of keys\<close>

text \<open>The first \<open>n\<close> keys are in heap order; they are so but for the edge above position \<open>j\<close>; they
  are so but for the edges around position \<open>i\<close>.\<close>

definition heap_order :: "'k::linorder list \<Rightarrow> nat \<Rightarrow> bool" where
  "heap_order ks n \<longleftrightarrow> (\<forall>k < n. 0 < k \<longrightarrow> ks ! parent k \<le> ks ! k)"

definition over :: "'k::linorder list \<Rightarrow> nat \<Rightarrow> nat \<Rightarrow> bool" where
  "over ks n i \<longleftrightarrow> (\<forall>k < n. 0 < k \<and> parent k = i \<and> 0 < i \<longrightarrow> ks ! parent i \<le> ks ! k)"

definition heap_above :: "'k::linorder list \<Rightarrow> nat \<Rightarrow> nat \<Rightarrow> bool" where
  "heap_above ks n j \<longleftrightarrow> (\<forall>k < n. 0 < k \<and> k \<noteq> j \<longrightarrow> ks ! parent k \<le> ks ! k) \<and> over ks n j"

definition heap_around :: "'k::linorder list \<Rightarrow> nat \<Rightarrow> nat \<Rightarrow> bool" where
  "heap_around ks n i \<longleftrightarrow>
     (\<forall>k < n. 0 < k \<and> k \<noteq> i \<and> parent k \<noteq> i \<longrightarrow> ks ! parent k \<le> ks ! k) \<and> over ks n i"

definition swap :: "nat \<Rightarrow> nat \<Rightarrow> 'a list \<Rightarrow> 'a list" where
  "swap i j xs = xs[i := xs ! j, j := xs ! i]"

lemma length_swap [simp]: "length (swap i j xs) = length xs"
  by (simp add: swap_def)

lemma swap_nth:
  "i < length xs \<Longrightarrow> j < length xs \<Longrightarrow> swap i j xs ! k = (if k = i then xs ! j else if k = j then xs ! i else xs ! k)"
  by (simp add: swap_def nth_list_update)

lemma mset_swap_eq [simp]: "i < length xs \<Longrightarrow> j < length xs \<Longrightarrow> mset (swap i j xs) = mset xs"
  unfolding swap_def by (rule mset_swap)

lemma map_swap: "i < length xs \<Longrightarrow> j < length xs \<Longrightarrow> map f (swap i j xs) = swap i j (map f xs)"
  by (simp add: swap_def map_update)

lemma heap_order_min:
  assumes "heap_order ks n" "k < n" shows "ks ! 0 \<le> ks ! k"
  using assms(2)
proof (induction k rule: less_induct)
  case (less k)
  show ?case
  proof (cases "k = 0")
    case False
    then have p: "parent k < k" by simp
    then have "ks ! 0 \<le> ks ! parent k" using less.IH [OF p] less.prems by simp
    also have "\<dots> \<le> ks ! k" using assms(1) False less.prems by (simp add: heap_order_def)
    finally show ?thesis .
  qed simp
qed

text \<open>One turn of \<open>up\<close>, one turn of \<open>down\<close>, and what holds when they stop.\<close>

lemma up_turn:
  assumes a: "heap_above ks n j" and j: "0 < j" "j < n" "n \<le> length ks" and l: "ks ! j < ks ! parent j"
  shows "heap_above (swap (parent j) j ks) n (parent j)"
proof -
  let ?i = "parent j" and ?ks = "swap (parent j) j ks"
  have b: "?i < length ks" "j < length ks" "?i \<noteq> j" using j parent_less [of j] by linarith+
  note nth = swap_nth [OF b(1,2)]
  have e: "ks ! parent k \<le> ks ! k" if "k < n" "0 < k" "k \<noteq> j" for k
    using a that by (simp add: heap_above_def)
  have o: "ks ! ?i \<le> ks ! k" if "k < n" "0 < k" "parent k = j" for k
    using a that j(1) by (auto simp: heap_above_def over_def)
  have edges: "?ks ! parent k \<le> ?ks ! k" if k: "k < n" "0 < k" "k \<noteq> ?i" for k
  proof (cases "k = j")
    case True then show ?thesis using l b(3) by (simp add: nth)
  next
    case False
    have "parent k \<noteq> k" using k(2) parent_less [of k] by linarith
    consider "parent k = j" | "parent k = ?i" | "parent k \<noteq> j" "parent k \<noteq> ?i" by blast
    then show ?thesis
    proof cases
      case 1 then show ?thesis using o [OF k(1,2)] False k(3) b(3) by (simp add: nth)
    next
      case 2 then show ?thesis using e [OF k(1,2) False] l False k(3) b(3) by (simp add: nth)
    next
      case 3 then show ?thesis using e [OF k(1,2) False] False k(3) by (simp add: nth)
    qed
  qed
  have "?ks ! parent ?i \<le> ?ks ! k" if k: "k < n" "0 < k" "parent k = ?i" "0 < ?i" for k
  proof -
    have p: "parent ?i < ?i" "?i < j" using k(4) j(1) parent_less by auto
    then have up: "ks ! parent ?i \<le> ks ! ?i" using e [of ?i] k(4) j(2) b(3) by simp
    have "k \<noteq> ?i" using k(2,3) parent_less [of k] by linarith
    show ?thesis
    proof (cases "k = j")
      case True then show ?thesis using up p b(3) by (simp add: nth)
    next
      case False
      have "ks ! ?i \<le> ks ! k" using e [OF k(1,2) False] k(3) by simp
      then show ?thesis using up p False \<open>k \<noteq> ?i\<close> by (simp add: nth)
    qed
  qed
  then show ?thesis using edges by (auto simp: heap_above_def over_def)
qed

lemma up_stop: "heap_above ks n j \<Longrightarrow> j = 0 \<or> \<not> ks ! j < ks ! parent j \<Longrightarrow> heap_order ks n"
  by (force simp: heap_above_def heap_order_def not_less)


lemma down_turn:
  assumes a: "heap_around ks n i" and j: "0 < j" "j < n" "n \<le> length ks" "parent j = i"
    and least: "\<And>k. k < n \<Longrightarrow> 0 < k \<Longrightarrow> parent k = i \<Longrightarrow> ks ! j \<le> ks ! k" and l: "ks ! j < ks ! i"
  shows "heap_around (swap i j ks) n j \<and> swap i j ks ! parent j \<le> swap i j ks ! j"
proof -
  let ?ks = "swap i j ks"
  have i: "i < j" using j(1,4) parent_less [of j] by simp
  then have b: "i < length ks" "j < length ks" "i \<noteq> j" using j(2,3) by linarith+
  note nth = swap_nth [OF b(1,2)]
  have e: "ks ! parent k \<le> ks ! k" if "k < n" "0 < k" "k \<noteq> i" "parent k \<noteq> i" for k
    using a that by (simp add: heap_around_def)
  have o: "ks ! parent i \<le> ks ! k" if "k < n" "0 < k" "parent k = i" "0 < i" for k
    using a that by (auto simp: heap_around_def over_def)
  have edges: "?ks ! parent k \<le> ?ks ! k" if k: "k < n" "0 < k" "k \<noteq> j" "parent k \<noteq> j" for k
  proof -
    consider "k = i" | "parent k = i" "k \<noteq> i" | "parent k \<noteq> i" "k \<noteq> i" by blast
    then show ?thesis
    proof cases
      case 1
      have "parent i < i" using 1 k(2) by simp
      with 1 o [OF j(2) j(1) j(4)] k(2) i show ?thesis by (simp add: nth)
    next
      case 2 then show ?thesis using least [OF k(1,2)] k(3) by (simp add: nth)
    next
      case 3 then show ?thesis using e [OF k(1,2)] k(3,4) by (simp add: nth)
    qed
  qed
  have "?ks ! parent j \<le> ?ks ! k" if k: "k < n" "0 < k" "parent k = j" for k
  proof -
    have n: "k \<noteq> i" "k \<noteq> j" using k(2,3) i parent_less [of k] by linarith+
    then show ?thesis using e [OF k(1,2)] k(3) b(3) j(4) by (simp add: nth)
  qed
  then show ?thesis using edges l b(3) j(4) by (auto simp: heap_around_def over_def nth)
qed

lemma down_stop:
  assumes "heap_around ks n i" "\<And>k. k < n \<Longrightarrow> 0 < k \<Longrightarrow> parent k = i \<Longrightarrow> \<not> ks ! k < ks ! i"
  shows "heap_above ks n i"
  using assms by (auto simp: heap_above_def heap_around_def not_less)

text \<open>Exchanging a position with the last one, before that is cut off.\<close>

lemma swap_last_around:
  assumes h: "heap_order ks (Suc n)" and n: "length ks = Suc n" "i \<le> n"
  shows "heap_around (swap i n ks) n i"
proof -
  have e: "ks ! parent k \<le> ks ! k" if "k < Suc n" "0 < k" for k
    using h that by (simp add: heap_order_def)
  have edges: "swap i n ks ! parent k \<le> swap i n ks ! k" if k: "k < n" "0 < k" "k \<noteq> i" "parent k \<noteq> i" for k
  proof -
    have "parent k < n" using k parent_le [of k] by linarith
    then show ?thesis using e [of k] k n by (simp add: swap_nth)
  qed
  have "swap i n ks ! parent i \<le> swap i n ks ! k" if k: "k < n" "0 < k" "parent k = i" "0 < i" for k
  proof -
    have p: "parent i < i" "i < k" using k parent_less [of k] by auto
    have "ks ! parent i \<le> ks ! i" using e [of i] k(1,4) p by simp
    also have "\<dots> \<le> ks ! k" using e [of k] k by simp
    finally have "ks ! parent i \<le> ks ! k" .
    moreover have "parent i \<noteq> n" "parent i \<noteq> i" "k \<noteq> i" "k \<noteq> n" using p k(1) by linarith+
    ultimately show ?thesis using n by (simp add: swap_nth)
  qed
  with edges show ?thesis by (auto simp: heap_around_def over_def)
qed

lemma last_slot_eq:
  "drop n xs = drop n ys \<Longrightarrow> length xs = Suc n \<Longrightarrow> length ys = Suc n \<Longrightarrow> xs ! n = ys ! n"
  using hd_drop_conv_nth [of n xs] hd_drop_conv_nth [of n ys] by simp

section \<open>The interface and what the algorithms make of it\<close>

locale heap_interface =
  fixes Less :: "'h \<Rightarrow> nat \<Rightarrow> nat \<Rightarrow> bool"
    and Swap :: "nat \<Rightarrow> nat \<Rightarrow> 'h \<Rightarrow> 'h"
    and slots :: "'h \<Rightarrow> 'b list"
    and content :: "'h \<Rightarrow> 'c"
    and key :: "'c \<Rightarrow> 'b \<Rightarrow> 'k::linorder"
    and ok :: "'h \<Rightarrow> bool"
  assumes ok_Swap: "ok h \<Longrightarrow> i < length (slots h) \<Longrightarrow> j < length (slots h) \<Longrightarrow> ok (Swap i j h)"
    and slots_Swap: "ok h \<Longrightarrow> i < length (slots h) \<Longrightarrow> j < length (slots h) \<Longrightarrow>
      slots (Swap i j h) = swap i j (slots h)"
    and content_Swap: "ok h \<Longrightarrow> i < length (slots h) \<Longrightarrow> j < length (slots h) \<Longrightarrow> content (Swap i j h) = content h"
    and Less_key: "ok h \<Longrightarrow> i < length (slots h) \<Longrightarrow> j < length (slots h) \<Longrightarrow>
      Less h i j \<longleftrightarrow> key (content h) (slots h ! i) < key (content h) (slots h ! j)"
begin

abbreviation keys :: "'h \<Rightarrow> 'k list" where
  "keys h \<equiv> map (key (content h)) (slots h)"

text \<open>\<open>same_heap n h h'\<close>: a sound state with the same elements and contents, equal from position \<open>n\<close> on.\<close>

definition same_heap :: "nat \<Rightarrow> 'h \<Rightarrow> 'h \<Rightarrow> bool" where
  "same_heap n h h' \<longleftrightarrow> ok h' \<and> mset (slots h') = mset (slots h) \<and> content h' = content h \<and>
     drop n (slots h') = drop n (slots h)"

lemma same_heap_refl: "ok h \<Longrightarrow> same_heap n h h"
  by (simp add: same_heap_def)

lemma same_heap_trans: "same_heap n h h' \<Longrightarrow> same_heap n h' h'' \<Longrightarrow> same_heap n h h''"
  by (simp add: same_heap_def)

lemma same_heap_length: "same_heap n h h' \<Longrightarrow> length (slots h') = length (slots h)"
  by (metis same_heap_def size_mset)

lemma same_heap_Swap:
  "ok h \<Longrightarrow> i < n \<Longrightarrow> j < n \<Longrightarrow> n \<le> length (slots h) \<Longrightarrow> same_heap n h (Swap i j h)"
  by (simp add: same_heap_def ok_Swap slots_Swap content_Swap) (simp add: swap_def)

lemma keys_Swap:
  "ok h \<Longrightarrow> i < length (slots h) \<Longrightarrow> j < length (slots h) \<Longrightarrow> keys (Swap i j h) = swap i j (keys h)"
  by (simp add: slots_Swap content_Swap map_swap)

lemma up_correct:
  assumes "ok h" "n \<le> length (slots h)" "j < n" "heap_above (keys h) n j"
  shows "same_heap n h (heap_up Less Swap j h) \<and> heap_order (keys (heap_up Less Swap j h)) n"
  using assms
proof (induction j arbitrary: h rule: less_induct)
  case (less j)
  note prems = less.prems
  let ?i = "parent j" and ?h = "Swap (parent j) j h"
  have i: "?i < n" using prems(3) parent_le [of j] by linarith
  then have L: "Less h j ?i \<longleftrightarrow> keys h ! j < keys h ! ?i"
    using Less_key [OF prems(1), of j ?i] prems by simp
  show ?case
  proof (cases "?i = j \<or> \<not> Less h j ?i")
    case True
    have "j = 0" if "?i = j" using that parent_less [of j] by (cases j) auto
    then have "heap_order (keys h) n" using True L prems by (intro up_stop) auto
    with True prems(1) show ?thesis by (simp add: heap_up.simps [of _ _ j] same_heap_refl)
  next
    case False
    then have j: "?i < j" "0 < j" using parent_less [of j] by (cases "j = 0"; simp)+
    have s: "same_heap n h ?h" using same_heap_Swap [of h ?i n j] prems i by simp
    have "keys ?h = swap ?i j (keys h)" using prems i by (intro keys_Swap) auto
    then have "heap_above (keys ?h) n ?i"
      using up_turn [of "keys h" n j] prems False L i j by simp
    then have "same_heap n ?h (heap_up Less Swap ?i ?h) \<and> heap_order (keys (heap_up Less Swap ?i ?h)) n"
      using s same_heap_length [OF s] prems(2) i by (intro less.IH [OF j(1)]) (simp_all add: same_heap_def)
    with False show ?thesis
      by (simp add: heap_up.simps [of _ _ j] Let_def) (blast intro: same_heap_trans [OF s])
  qed
qed

lemma down_correct:
  assumes "ok h" "n \<le> length (slots h)" "i < n \<or> n = 0" "heap_around (keys h) n i"
    and "heap_down_loop Less Swap i n h = (i', h')"
  shows "same_heap n h h' \<and> i \<le> i' \<and>
    (if i' = i then h' = h \<and> heap_above (keys h) n i else heap_order (keys h') n)"
  using assms
proof (induction "n - i" arbitrary: i h rule: less_induct)
  case less
  note prems = less.prems
  let ?j1 = "2 * i + 1"
  define j where "j = (if ?j1 + 1 < n \<and> Less h (?j1 + 1) ?j1 then ?j1 + 1 else ?j1)"
  have step: "heap_down_loop Less Swap i n h =
      (if n \<le> ?j1 then (i, h) else if \<not> Less h j i then (i, h) else heap_down_loop Less Swap j n (Swap i j h))"
    by (subst heap_down_loop.simps) (simp add: Let_def j_def)
  show ?case
  proof (cases "?j1 \<ge> n")
    case True
    then have "parent k \<noteq> i" if "k < n" "0 < k" for k using parent_eq_iff [OF that(2)] that(1) by auto
    then have "heap_above (keys h) n i" by (intro down_stop [OF prems(4)]) auto
    with True prems(1,5) show ?thesis
      by (simp add: step same_heap_refl)
  next
    case False
    have j: "0 < j" "j < n" "parent j = i" "i < j"
      using False by (auto simp: j_def parent_def)
    have L: "Less h a b \<longleftrightarrow> keys h ! a < keys h ! b" if "a < n" "b < n" for a b
      using Less_key [OF prems(1), of a b] that prems(2) by simp
    have least: "keys h ! j \<le> keys h ! k" if "k < n" "0 < k" "parent k = i" for k
      using parent_eq_iff [OF that(2), of i] that L [of "?j1 + 1" ?j1] by (auto simp: j_def not_less)
    show ?thesis
    proof (cases "Less h j i")
      case stop: False
      have "heap_above (keys h) n i"
      proof (rule down_stop [OF prems(4)])
        fix k assume "k < n" "0 < k" "parent k = i"
        from least [OF this] stop L [of j i] j show "\<not> keys h ! k < keys h ! i" by auto
      qed
      with False stop prems(1,5) show ?thesis
        by (simp add: step same_heap_refl)
    next
      case True
      let ?h = "Swap i j h"
      have s: "same_heap n h ?h" using same_heap_Swap [of h i n j] prems j by simp
      have ks: "keys ?h = swap i j (keys h)" using prems j by (intro keys_Swap) auto
      have t: "heap_around (keys ?h) n j \<and> keys ?h ! i \<le> keys ?h ! j"
        using down_turn [of "keys h" n i j] prems j least True L [of j i] unfolding ks by simp
      have run: "heap_down_loop Less Swap j n ?h = (i', h')"
        using prems(5) False True by (simp add: step)
      have IH: "same_heap n ?h h' \<and> j \<le> i' \<and>
          (if i' = j then h' = ?h \<and> heap_above (keys ?h) n j else heap_order (keys h') n)"
      proof (rule less.hyps [OF _ _ _ _ _ run])
        show "n - j < n - i" using j by simp
        show "ok ?h" using s by (simp add: same_heap_def)
        show "n \<le> length (slots ?h)" using same_heap_length [OF s] prems(2) by simp
      qed (use t j in simp_all)
      have "heap_order (keys h') n"
        using IH t j(3) up_stop [of "keys ?h" n j] by (auto simp: not_less split: if_splits)
      with IH j(4) show ?thesis using same_heap_trans [OF s] by auto
    qed
  qed
qed

text \<open>Repairing one position: \<open>Fix\<close>, and \<open>Remove\<close> before the last element is cut off.\<close>

lemma repair_correct:
  assumes "ok h" "n \<le> length (slots h)" "i < n" "heap_around (keys h) n i"
    and "heap_down Less Swap i n h = (moved, h1)" "h' = (if moved then h1 else heap_up Less Swap i h1)"
  shows "same_heap n h h' \<and> heap_order (keys h') n"
proof -
  obtain i' where run: "heap_down_loop Less Swap i n h = (i', h1)" and m: "moved \<longleftrightarrow> i' > i"
    using assms(5) by (auto simp: heap_down_def split: prod.splits)
  have d: "same_heap n h h1" "i \<le> i'"
      "if i' = i then h1 = h \<and> heap_above (keys h) n i else heap_order (keys h1) n"
    using down_correct [OF assms(1,2) _ assms(4) run] assms(3) by auto
  show ?thesis
  proof (cases "i' = i")
    case True
    then have h: "h1 = h" "heap_above (keys h) n i" "\<not> moved" using d(3) m by auto
    show ?thesis using up_correct [OF assms(1,2,3) h(2)] h assms(6) by simp
  qed (use d m assms(6) in auto)
qed

lemma Fix_correct:
  assumes "ok h" "i < Len h" "Len h = length (slots h)" "heap_around (keys h) (length (slots h)) i"
  shows "same_heap (length (slots h)) h (heap_Fix Less Swap Len i h) \<and>
    heap_order (keys (heap_Fix Less Swap Len i h)) (length (slots h))"
  using repair_correct [of h "length (slots h)" i] assms
  by (auto simp: heap_Fix_def split: prod.splits)

text \<open>\<open>Pop\<close> before the last element is cut off: it is the old first one, and the others are a heap.\<close>

lemma Pop_correct:
  assumes "ok h" "slots h \<noteq> []" "heap_order (keys h) (length (slots h))"
    and "n = length (slots h) - 1" "h' = snd (heap_down Less Swap 0 n (Swap 0 n h))"
  shows "ok h' \<and> mset (slots h') = mset (slots h) \<and> content h' = content h \<and> length (slots h') = Suc n \<and>
    slots h' ! n = slots h ! 0 \<and> heap_order (keys h') n"
proof -
  let ?h = "Swap 0 n h"
  have n: "n < length (slots h)" "length (slots h) = Suc n" using assms(2,4) by (cases "slots h"; simp)+
  then have s: "same_heap (Suc n) h ?h" using same_heap_Swap [of h 0 "Suc n" n] assms(1) by simp
  have ks: "keys ?h = swap 0 n (keys h)" using n by (intro keys_Swap assms(1)) auto
  obtain i where run: "heap_down_loop Less Swap 0 n ?h = (i, h')"
    using assms(5) by (auto simp: heap_down_def split: prod.splits)
  have "heap_around (keys ?h) n 0"
    unfolding ks using assms(3) n by (intro swap_last_around) simp_all
  moreover have "ok ?h" "n \<le> length (slots ?h)"
    using s same_heap_length [OF s] n by (simp_all add: same_heap_def)
  ultimately have d: "same_heap n ?h h'" "if i = 0 then h' = ?h \<and> heap_above (keys ?h) n 0 else heap_order (keys h') n"
    using down_correct [OF _ _ _ _ run] by blast+
  have len: "length (slots h') = Suc n" using same_heap_length [OF s] same_heap_length [OF d(1)] n by simp
  have "slots h' ! n = slots ?h ! n"
    using d(1) len same_heap_length [OF s] n by (intro last_slot_eq) (simp_all add: same_heap_def)
  also have "\<dots> = slots h ! 0" using n slots_Swap [OF assms(1), of 0 n] by (simp add: swap_nth)
  finally have "slots h' ! n = slots h ! 0" .
  moreover have "heap_order (keys h') n" using d(2) up_stop by (auto split: if_splits)
  ultimately show ?thesis using d(1) s len by (simp add: same_heap_def)
qed

text \<open>\<open>Remove\<close> before the last element is cut off.\<close>

lemma Remove_correct:
  assumes "ok h" "i < n" "length (slots h) = Suc n" "heap_order (keys h) (Suc n)"
    and "heap_down Less Swap i n (Swap i n h) = (moved, h1)"
    and "h' = (if moved then h1 else heap_up Less Swap i h1)"
  shows "ok h' \<and> mset (slots h') = mset (slots h) \<and> content h' = content h \<and> length (slots h') = Suc n \<and>
    slots h' ! n = slots h ! i \<and> heap_order (keys h') n"
proof -
  let ?h = "Swap i n h"
  have s: "same_heap (Suc n) h ?h" using same_heap_Swap [of h i "Suc n" n] assms(1,2,3) by simp
  have ks: "keys ?h = swap i n (keys h)" using assms(2,3) by (intro keys_Swap assms(1)) auto
  have "heap_around (keys ?h) n i"
    unfolding ks using assms(2,3,4) by (intro swap_last_around) simp_all
  moreover have "ok ?h" "n \<le> length (slots ?h)"
    using s same_heap_length [OF s] assms(3) by (simp_all add: same_heap_def)
  ultimately have d: "same_heap n ?h h' \<and> heap_order (keys h') n"
    using repair_correct [OF _ _ assms(2) _ assms(5,6)] by blast
  have len: "length (slots h') = Suc n"
    using same_heap_length [OF s] same_heap_length [OF conjunct1 [OF d]] assms(3) by simp
  have "slots h' ! n = slots ?h ! n"
    using d len same_heap_length [OF s] assms(3) by (intro last_slot_eq) (simp_all add: same_heap_def)
  also have "\<dots> = slots h ! i"
    using assms(2,3) slots_Swap [OF assms(1), of i n] by (simp add: swap_nth)
  finally have "slots h' ! n = slots h ! i" .
  moreover have "heap_order (keys h') n" "same_heap n ?h h'" using d by blast+
  ultimately show ?thesis using s len by (simp add: same_heap_def)
qed

lemma Push_correct:
  assumes "ok h" "slots h \<noteq> []" "heap_order (keys h) (length (slots h) - 1)"
  shows "same_heap (length (slots h)) h (heap_up Less Swap (length (slots h) - 1) h) \<and>
    heap_order (keys (heap_up Less Swap (length (slots h) - 1) h)) (length (slots h))"
proof (rule up_correct)
  let ?n = "length (slots h)"
  have "parent k \<noteq> ?n - 1" if "k < ?n" "0 < k" for k using that parent_less [of k] by linarith
  then show "heap_above (keys h) ?n (?n - 1)"
    using assms(3) by (auto simp: heap_above_def over_def heap_order_def)
qed (use assms in auto)

end

end
