(* ===== verification/Reliability_Store.thy ===== *)
theory Reliability_Store
  imports Container_Heap "HOL-Library.Product_Lexorder"
begin

text \<open>
  The retention store of outbound messages, \<open>mtproto/reliability/store.go\<close>.  A pointer to an
  entry is the message identifier the entry is filed under: an entry never changes its identifier,
  so \<open>expiry\<close>, the heap of pointers, is a list of identifiers and \<open>entries\<close> is what they
  point to.  The heap algorithms are those of \<open>Container_Heap\<close> over \<open>Less\<close>, \<open>Swap\<close>,
  \<open>Push\<close> and \<open>Pop\<close> of \<open>expiryHeap\<close>.  The clock's reading is an argument, and so is the order in which
  Go happens to iterate over the map in \<open>LookupResponse\<close>.
\<close>

section \<open>State\<close>

record SentMessage =
  smMessageID :: int
  smRequestMessageID :: int
  smSequenceNumber :: int
  smPayload :: bytes
  smSentAt :: gotime
  smAcknowledged :: bool

record entry =
  eMessage :: SentMessage
  eExpiresAt :: gotime
  eOrder :: int
  eIndex :: int

record RetentionConfig =
  cfgCapacity :: int
  cfgTTL :: duration

record Store =
  capacity :: int
  ttl :: duration
  order :: int
  entries :: "int \<rightharpoonup> entry"
  expiry :: "int list"

definition item :: "Store \<Rightarrow> int \<Rightarrow> entry" where
  "item s p = the (entries s p)"

definition setEntry :: "int \<Rightarrow> entry \<Rightarrow> Store \<Rightarrow> Store" where
  "setEntry p e s = s\<lparr>entries := (entries s)(p \<mapsto> e)\<rparr>"

definition lenEntries :: "Store \<Rightarrow> int" where
  "lenEntries s = int (card (dom (entries s)))"

section \<open>The expiry heap\<close>

definition expiryHeap_Len :: "Store \<Rightarrow> nat" where
  "expiryHeap_Len s = length (expiry s)"

definition expiryHeap_Less :: "Store \<Rightarrow> nat \<Rightarrow> nat \<Rightarrow> bool" where
  "expiryHeap_Less s i j =
     (let a = item s (expiry s ! i); b = item s (expiry s ! j) in
      if eExpiresAt a = eExpiresAt b then eOrder a < eOrder b else eExpiresAt a < eExpiresAt b)"

definition setIndex :: "int \<Rightarrow> int \<Rightarrow> Store \<Rightarrow> Store" where
  "setIndex p i s = setEntry p ((item s p)\<lparr>eIndex := i\<rparr>) s"

definition expiryHeap_Swap :: "nat \<Rightarrow> nat \<Rightarrow> Store \<Rightarrow> Store" where
  "expiryHeap_Swap i j s =
     (let s = s\<lparr>expiry := swap i j (expiry s)\<rparr>;
          s = setIndex (expiry s ! i) (int i) s
      in setIndex (expiry s ! j) (int j) s)"

definition expiryHeap_Push :: "int \<Rightarrow> Store \<Rightarrow> Store" where
  "expiryHeap_Push p s =
     (let s = setIndex p (int (length (expiry s))) s in s\<lparr>expiry := expiry s @ [p]\<rparr>)"

definition expiryHeap_Pop :: "Store \<Rightarrow> int \<times> Store" where
  "expiryHeap_Pop s =
     (let p = last (expiry s) in (p, (setIndex p (- 1) s)\<lparr>expiry := butlast (expiry s)\<rparr>))"

abbreviation "Heap_up \<equiv> heap_up expiryHeap_Less expiryHeap_Swap"
abbreviation "Heap_down \<equiv> heap_down expiryHeap_Less expiryHeap_Swap"
abbreviation "Heap_Fix \<equiv> heap_Fix expiryHeap_Less expiryHeap_Swap expiryHeap_Len"
abbreviation "Heap_Push \<equiv> heap_Push expiryHeap_Less expiryHeap_Swap expiryHeap_Len expiryHeap_Push"
abbreviation "Heap_Pop \<equiv> heap_Pop expiryHeap_Less expiryHeap_Swap expiryHeap_Len expiryHeap_Pop"
abbreviation "Heap_Remove \<equiv> heap_Remove expiryHeap_Less expiryHeap_Swap expiryHeap_Len expiryHeap_Pop"

section \<open>Operations\<close>

definition New :: "RetentionConfig \<Rightarrow> go_error + Store" where
  "New config =
     (if cfgCapacity config \<le> 0 then Inl (RetentionError InvalidCapacity)
      else if cfgTTL config \<le> 0 then Inl (RetentionError InvalidTTL)
      else Inr \<lparr>capacity = cfgCapacity config, ttl = cfgTTL config, order = 0,
        entries = (\<lambda>_. None), expiry = []\<rparr>)"

text \<open>Popping from the heap and deleting from the map, as \<open>expireLocked\<close> and \<open>Put\<close> do.\<close>

definition popEntry :: "Store \<Rightarrow> SentMessage \<times> Store" where
  "popEntry s =
     (case Heap_Pop s of
        (p, s) \<Rightarrow>
          (let message = eMessage (item s p) in
           (message, s\<lparr>entries := (entries s)(smMessageID message := None)\<rparr>)))"

text \<open>Every pass of the loop shortens the heap; \<open>expireLocked\<close> is given its length as fuel.\<close>

fun expire_loop :: "nat \<Rightarrow> gotime \<Rightarrow> Store \<Rightarrow> int \<times> Store" where
  "expire_loop 0 now s = (0, s)"
| "expire_loop (Suc fuel) now s =
     (if expiry s \<noteq> [] \<and> \<not> eExpiresAt (item s (expiry s ! 0)) > now then
        (case expire_loop fuel now (snd (popEntry s)) of (removed, s) \<Rightarrow> (removed + 1, s))
      else (0, s))"

definition expireLocked :: "gotime \<Rightarrow> Store \<Rightarrow> int \<times> Store" where
  "expireLocked now s = expire_loop (length (expiry s)) now s"

definition cloneMessage :: "SentMessage \<Rightarrow> SentMessage" where
  "cloneMessage message = message\<lparr>smPayload := smPayload message\<rparr>"

definition Put :: "gotime \<Rightarrow> SentMessage \<Rightarrow> Store \<Rightarrow> (go_error + SentMessage option) \<times> Store" where
  "Put now message s =
     (let s = snd (expireLocked now s);
          message = (if IsZero (smSentAt message) then message\<lparr>smSentAt := now\<rparr> else message);
          expiresAt = smSentAt message + ttl s
      in if \<not> expiresAt > now then (Inl (RetentionError Expired), s)
         else
           (let s = s\<lparr>order := u64 (order s + 1)\<rparr> in
            case entries s (smMessageID message) of
              Some current \<Rightarrow>
                (let s = setEntry (smMessageID message)
                       (current\<lparr>eMessage := message, eExpiresAt := expiresAt, eOrder := order s\<rparr>) s
                 in (Inr None, Heap_Fix (nat (eIndex current)) s))
            | None \<Rightarrow>
                (let (evicted, s) =
                       (if lenEntries s = capacity s
                        then (case popEntry s of (m, s) \<Rightarrow> (Some (cloneMessage m), s))
                        else (None, s));
                     s = setEntry (smMessageID message)
                       \<lparr>eMessage = message, eExpiresAt = expiresAt, eOrder = order s, eIndex = 0\<rparr> s
                 in (Inr evicted, Heap_Push (smMessageID message) s))))"

definition Acknowledge :: "gotime \<Rightarrow> int \<Rightarrow> Store \<Rightarrow> bool \<times> Store" where
  "Acknowledge now mid s =
     (let s = snd (expireLocked now s) in
      case entries s mid of
        None \<Rightarrow> (False, s)
      | Some e \<Rightarrow> (True, setEntry mid (e\<lparr>eMessage := (eMessage e)\<lparr>smAcknowledged := True\<rparr>\<rparr>) s))"

definition Lookup :: "gotime \<Rightarrow> int \<Rightarrow> Store \<Rightarrow> SentMessage option \<times> Store" where
  "Lookup now mid s =
     (let s = snd (expireLocked now s) in
      (case entries s mid of None \<Rightarrow> None | Some e \<Rightarrow> Some (cloneMessage (eMessage e)), s))"

definition LookupForResend :: "gotime \<Rightarrow> int \<Rightarrow> Store \<Rightarrow> SentMessage option \<times> Store" where
  "LookupForResend now mid s =
     (let s = snd (expireLocked now s) in
      (case entries s mid of
         None \<Rightarrow> None
       | Some e \<Rightarrow> if smAcknowledged (eMessage e) then None else Some (cloneMessage (eMessage e)), s))"

definition Remove :: "gotime \<Rightarrow> int \<Rightarrow> Store \<Rightarrow> SentMessage option \<times> Store" where
  "Remove now mid s =
     (let s = snd (expireLocked now s) in
      case entries s mid of
        None \<Rightarrow> (None, s)
      | Some e \<Rightarrow>
          (let s = snd (Heap_Remove (nat (eIndex e)) s);
               s = s\<lparr>entries := (entries s)(mid := None)\<rparr>
           in (Some (cloneMessage (eMessage e)), s)))"

definition Expire :: "gotime \<Rightarrow> Store \<Rightarrow> int \<times> Store" where
  "Expire now s = expireLocked now s"

definition Store_Len :: "gotime \<Rightarrow> Store \<Rightarrow> int \<times> Store" where
  "Store_Len now s = (let s = snd (expireLocked now s) in (lenEntries s, s))"

definition newestResponse :: "int \<Rightarrow> entry \<Rightarrow> entry option \<Rightarrow> entry option" where
  "newestResponse requestID e found =
     (if smRequestMessageID (eMessage e) = requestID \<and> requestID \<noteq> 0 \<and>
         (case found of None \<Rightarrow> True | Some f \<Rightarrow> smMessageID (eMessage e) > smMessageID (eMessage f))
      then Some e else found)"

definition LookupResponse :: "gotime \<Rightarrow> int list \<Rightarrow> int \<Rightarrow> Store \<Rightarrow> SentMessage option \<times> Store" where
  "LookupResponse now ps requestID s =
     (let s = snd (expireLocked now s);
          found = fold (newestResponse requestID) (map (item s) ps) None
      in (map_option (cloneMessage \<circ> eMessage) found, s))"

section \<open>Soundness of the pointers, and the interface of the heap\<close>

text \<open>What the store holds, apart from the positions in the heap.\<close>

type_synonym retained = "int \<rightharpoonup> SentMessage \<times> gotime \<times> int"

definition held :: "Store \<Rightarrow> retained" where
  "held s = (\<lambda>p. map_option (\<lambda>e. (eMessage e, eExpiresAt e, eOrder e)) (entries s p))"

definition content :: "Store \<Rightarrow> retained \<times> int \<times> duration \<times> int" where
  "content s = (held s, capacity s, ttl s, order s)"

definition expiryKey :: "retained \<times> int \<times> duration \<times> int \<Rightarrow> int \<Rightarrow> gotime \<times> int" where
  "expiryKey c p = snd (the (fst c p))"

definition store_ok :: "Store \<Rightarrow> bool" where
  "store_ok s \<longleftrightarrow> distinct (expiry s) \<and> set (expiry s) = dom (entries s) \<and>
     (\<forall>p e. entries s p = Some e \<longrightarrow> smMessageID (eMessage e) = p) \<and>
     (\<forall>i < length (expiry s). eIndex (item s (expiry s ! i)) = int i)"

lemma held_Some: "held s p = Some (m, t, k) \<longleftrightarrow>
    (\<exists>e. entries s p = Some e \<and> eMessage e = m \<and> eExpiresAt e = t \<and> eOrder e = k)"
  by (auto simp: held_def)

lemma held_at: "held s p = map_option (\<lambda>e. (eMessage e, eExpiresAt e, eOrder e)) (entries s p)"
  by (simp add: held_def)

lemma dom_held [simp]: "dom (held s) = dom (entries s)"
  by (auto simp: held_def dom_def)

lemma expiryKey_item:
  "p \<in> dom (entries s) \<Longrightarrow> expiryKey (content s) p = (eExpiresAt (item s p), eOrder (item s p))"
  by (auto simp: expiryKey_def content_def held_def item_def)

lemma item_setEntry: "item (setEntry p e s) q = (if q = p then e else item s q)"
  by (simp add: item_def setEntry_def)

lemma setIndex_frame [simp]:
  "expiry (setIndex p i s) = expiry s" "capacity (setIndex p i s) = capacity s"
  "ttl (setIndex p i s) = ttl s" "order (setIndex p i s) = order s"
  by (simp_all add: setIndex_def setEntry_def)

lemma entries_setIndex:
  "entries (setIndex p i s) = (entries s)(p \<mapsto> (item s p)\<lparr>eIndex := i\<rparr>)"
  by (simp add: setIndex_def setEntry_def)

lemma item_setIndex: "item (setIndex p i s) q = (if q = p then (item s p)\<lparr>eIndex := i\<rparr> else item s q)"
  by (simp add: setIndex_def item_setEntry)

lemma item_expiry [simp]: "item (s\<lparr>expiry := ps\<rparr>) q = item s q"
  by (simp add: item_def)

lemma held_setIndex: "p \<in> dom (entries s) \<Longrightarrow> held (setIndex p i s) = held s"
  by (auto simp: held_def entries_setIndex item_def)

lemma dom_setIndex: "p \<in> dom (entries s) \<Longrightarrow> dom (entries (setIndex p i s)) = dom (entries s)"
  by (auto simp: entries_setIndex)

lemma ids_setIndex:
  "p \<in> dom (entries s) \<Longrightarrow> \<forall>q e. entries s q = Some e \<longrightarrow> smMessageID (eMessage e) = q \<Longrightarrow>
     entries (setIndex p i s) q = Some e \<Longrightarrow> smMessageID (eMessage e) = q"
  by (auto simp: entries_setIndex item_def split: if_splits)

lemma Swap_frame:
  assumes "store_ok s" "i < length (expiry s)" "j < length (expiry s)"
  shows "expiry (expiryHeap_Swap i j s) = swap i j (expiry s)"
    and "content (expiryHeap_Swap i j s) = content s"
    and "dom (entries (expiryHeap_Swap i j s)) = dom (entries s)"
    and "\<And>q e. entries (expiryHeap_Swap i j s) q = Some e \<Longrightarrow> smMessageID (eMessage e) = q"
    and "\<And>q. item (expiryHeap_Swap i j s) q =
      (if q = expiry s ! i then (item s q)\<lparr>eIndex := int j\<rparr>
       else if q = expiry s ! j then (item s q)\<lparr>eIndex := int i\<rparr> else item s q)"
proof -
  let ?s1 = "s\<lparr>expiry := swap i j (expiry s)\<rparr>"
  let ?s2 = "setIndex (expiry s ! j) (int i) ?s1"
  have run: "expiryHeap_Swap i j s = setIndex (expiry s ! i) (int j) ?s2"
    using assms(2,3) by (simp add: expiryHeap_Swap_def Let_def swap_nth)
  have d: "expiry s ! i \<in> dom (entries ?s1)" "expiry s ! j \<in> dom (entries ?s1)"
    using assms nth_mem [of i "expiry s"] nth_mem [of j "expiry s"] by (simp_all add: store_ok_def)
  then have d2: "expiry s ! i \<in> dom (entries ?s2)" by (simp add: dom_setIndex)
  have m: "\<forall>q e. entries ?s1 q = Some e \<longrightarrow> smMessageID (eMessage e) = q"
    using assms(1) by (simp add: store_ok_def)
  show "expiry (expiryHeap_Swap i j s) = swap i j (expiry s)" by (simp add: run)
  show "content (expiryHeap_Swap i j s) = content s"
    by (simp add: run content_def held_setIndex [OF d2] held_setIndex [OF d(2)]) (simp add: held_def)
  show "dom (entries (expiryHeap_Swap i j s)) = dom (entries s)"
    by (simp add: run dom_setIndex [OF d2] dom_setIndex [OF d(2)])
  show "smMessageID (eMessage e) = q" if "entries (expiryHeap_Swap i j s) q = Some e" for q e
    using ids_setIndex [OF d2 _ that [unfolded run]] ids_setIndex [OF d(2) m] by blast
  show "item (expiryHeap_Swap i j s) q =
      (if q = expiry s ! i then (item s q)\<lparr>eIndex := int j\<rparr>
       else if q = expiry s ! j then (item s q)\<lparr>eIndex := int i\<rparr> else item s q)" for q
    by (simp add: run item_setIndex)
qed

lemma Swap_ok:
  assumes "store_ok s" "i < length (expiry s)" "j < length (expiry s)"
  shows "store_ok (expiryHeap_Swap i j s)"
proof -
  note f = Swap_frame [OF assms]
  have dist: "distinct (expiry s)" and ix: "\<And>k. k < length (expiry s) \<Longrightarrow> eIndex (item s (expiry s ! k)) = int k"
    using assms(1) by (auto simp: store_ok_def)
  have "eIndex (item (expiryHeap_Swap i j s) (swap i j (expiry s) ! k)) = int k" if k: "k < length (expiry s)" for k
    using dist k assms(2,3) ix [OF k]
    by (auto simp: f(5) swap_nth [OF assms(2,3)] nth_eq_iff_index_eq)
  then show ?thesis
    unfolding store_ok_def f(1) f(3)
    using assms f(4) mset_eq_setD [OF mset_swap_eq [OF assms(2,3)]]
      mset_eq_imp_distinct_iff [OF mset_swap_eq [OF assms(2,3)]]
    by (auto simp: store_ok_def)
qed

lemma Less_expiryKey:
  assumes "store_ok s" "i < length (expiry s)" "j < length (expiry s)"
  shows "expiryHeap_Less s i j \<longleftrightarrow> expiryKey (content s) (expiry s ! i) < expiryKey (content s) (expiry s ! j)"
proof -
  have "expiry s ! i \<in> dom (entries s)" "expiry s ! j \<in> dom (entries s)"
    using assms nth_mem [of i "expiry s"] nth_mem [of j "expiry s"] by (simp_all add: store_ok_def)
  then show ?thesis by (auto simp: expiryHeap_Less_def Let_def expiryKey_item less_prod_def')
qed

interpretation eh: heap_interface expiryHeap_Less expiryHeap_Swap expiry content expiryKey store_ok
  by unfold_locales (fact Swap_ok Swap_frame Less_expiryKey)+

section \<open>Invariant\<close>

definition store_inv :: "Store \<Rightarrow> bool" where
  "store_inv s \<longleftrightarrow> store_ok s \<and> heap_order (map (expiryKey (content s)) (expiry s)) (length (expiry s)) \<and>
     0 < capacity s \<and> 0 < ttl s \<and> int (length (expiry s)) \<le> capacity s"

abbreviation same_settings :: "Store \<Rightarrow> Store \<Rightarrow> bool" where
  "same_settings s s' \<equiv> capacity s' = capacity s \<and> ttl s' = ttl s \<and> order s' = order s"

lemma content_eq_iff: "content s' = content s \<longleftrightarrow> held s' = held s \<and> same_settings s s'"
  by (auto simp: content_def)

lemma store_ok_finite: "store_ok s \<Longrightarrow> finite (dom (entries s))"
  by (metis store_ok_def List.finite_set)

lemma store_ok_length: "store_ok s \<Longrightarrow> lenEntries s = int (length (expiry s))"
  by (metis store_ok_def distinct_card lenEntries_def)

text \<open>Cutting off the last position and deleting its entry.\<close>

lemma cut_last:
  assumes ok: "store_ok s" and ne: "expiry s \<noteq> []" and p: "p = last (expiry s)"
    and s': "s' = (snd (expiryHeap_Pop s))\<lparr>entries := (entries (snd (expiryHeap_Pop s)))(p := None)\<rparr>"
  shows "store_ok s' \<and> expiry s' = butlast (expiry s) \<and> held s' = (held s)(p := None) \<and> same_settings s s' \<and>
    fst (expiryHeap_Pop s) = p \<and> eMessage (item (snd (expiryHeap_Pop s)) p) = eMessage (item s p)"
proof -
  obtain ps where ps: "expiry s = ps @ [p]" using ne p by (metis append_butlast_last_id)
  have d: "distinct ps" "p \<notin> set ps" "set ps \<union> {p} = dom (entries s)"
    using ok ps by (auto simp: store_ok_def)
  have e: "entries s' = (entries s)(p := None)" "expiry s' = ps"
    by (simp_all add: s' expiryHeap_Pop_def Let_def ps entries_setIndex)
  then have i: "item s' q = item s q" if "q \<noteq> p" for q using that by (simp add: item_def)
  have "eIndex (item s' (ps ! k)) = int k" if k: "k < length ps" for k
  proof -
    have "ps ! k \<noteq> p" using k d(2) nth_mem by metis
    moreover have "eIndex (item s (expiry s ! k)) = int k" using ok k by (auto simp: store_ok_def ps)
    ultimately show ?thesis using i k by (simp add: ps nth_append)
  qed
  then have "store_ok s'" using ok d e unfolding store_ok_def by auto
  then show ?thesis
    using e ps by (simp add: s' expiryHeap_Pop_def Let_def item_setIndex) (auto simp: held_def)
qed

lemma heap_order_take: "heap_order ks n \<Longrightarrow> n \<le> length ks \<Longrightarrow> heap_order (take n ks) n"
  unfolding heap_order_def using parent_le by (auto simp: less_le_trans) (metis le_less_trans nth_take parent_le)

lemma keys_cut:
  assumes "store_ok s" "expiry s \<noteq> []" "held s' = (held s)(last (expiry s) := None)"
    and "expiry s' = butlast (expiry s)"
  shows "map (expiryKey (content s')) (expiry s') =
    take (length (expiry s) - 1) (map (expiryKey (content s)) (expiry s))"
proof -
  have "last (expiry s) \<notin> set (butlast (expiry s))"
    using assms(1,2) by (metis append_butlast_last_id distinct_append disjoint_insert(1) list.set(2) store_ok_def)
  then show ?thesis
    unfolding take_map butlast_conv_take [symmetric] assms(4)
    using assms(3) by (intro map_cong refl) (auto simp: expiryKey_def content_def)
qed

lemma popEntry_correct:
  assumes inv: "store_inv s" and ne: "expiry s \<noteq> []" and run: "popEntry s = (m, s')"
  shows "store_inv s' \<and> held s' = (held s)(expiry s ! 0 := None) \<and> same_settings s s' \<and>
    m = eMessage (item s (expiry s ! 0)) \<and> length (expiry s') = length (expiry s) - 1 \<and>
    (\<forall>q \<in> dom (held s). expiryKey (content s) (expiry s ! 0) \<le> expiryKey (content s) q)"
proof -
  let ?n = "length (expiry s) - 1" and ?p = "expiry s ! 0"
  define h where "h = snd (Heap_down 0 ?n (expiryHeap_Swap 0 ?n s))"
  have ok: "store_ok s" and ho: "heap_order (map (expiryKey (content s)) (expiry s)) (length (expiry s))"
    using inv by (simp_all add: store_inv_def)
  have h: "store_ok h" "content h = content s" "length (expiry h) = Suc ?n" "expiry h ! ?n = ?p"
      "heap_order (map (expiryKey (content h)) (expiry h)) ?n"
    using eh.Pop_correct [OF ok ne ho refl h_def] by auto
  have hn: "expiry h \<noteq> []" using h(3) by auto
  then have hp: "last (expiry h) = ?p" using h(3,4) by (simp add: last_conv_nth)
  define h1 where "h1 = snd (expiryHeap_Pop h)"
  have "Heap_Pop s = expiryHeap_Pop h" by (simp only: heap_Pop_def Let_def expiryHeap_Len_def h_def)
  then have pop: "Heap_Pop s = (?p, h1)" by (simp add: h1_def expiryHeap_Pop_def Let_def hp)
  have in_s: "?p \<in> dom (entries s)" using ok ne by (auto simp: store_ok_def)
  note cut = cut_last [OF h(1) hn hp [symmetric] refl, folded h1_def]
  have msg: "eMessage (item h ?p) = eMessage (item s ?p)"
    using h(2) in_s unfolding content_eq_iff held_def item_def fun_eq_iff by (auto dest!: spec [of _ ?p])
  have id: "smMessageID (eMessage (item h1 ?p)) = ?p"
    using cut msg ok in_s by (auto simp: store_ok_def item_def)
  have s': "s' = h1\<lparr>entries := (entries h1)(?p := None)\<rparr>" and m: "m = eMessage (item s ?p)"
    using run cut msg id by (auto simp: popEntry_def pop Let_def)
  have "heap_order (map (expiryKey (content s')) (expiry s')) (length (expiry s'))"
    using keys_cut [OF h(1) hn, of s'] cut h heap_order_take [OF h(5)] by (simp add: s' hp)
  moreover have "expiryKey (content s) ?p \<le> expiryKey (content s) q" if "q \<in> dom (held s)" for q
  proof -
    have "q \<in> set (expiry s)" using that ok by (simp only: store_ok_def dom_held)
    then obtain k where "k < length (expiry s)" "expiry s ! k = q" by (auto simp: in_set_conv_nth)
    then show ?thesis using heap_order_min [OF ho, of k] ne by simp
  qed
  ultimately show ?thesis
    using inv cut h m by (auto simp: store_inv_def content_eq_iff s')
qed

section \<open>Expiry, insertion and removal\<close>

definition alive :: "gotime \<Rightarrow> retained \<Rightarrow> retained" where
  "alive now c = (\<lambda>p. case c p of Some (m, t, k) \<Rightarrow> if t > now then Some (m, t, k) else None | None \<Rightarrow> None)"

lemma expire_loop_correct:
  assumes "store_inv s" "length (expiry s) \<le> fuel" "expire_loop fuel now s = (removed, s')"
  shows "store_inv s' \<and> held s' = alive now (held s) \<and> same_settings s s' \<and>
    removed = int (length (expiry s)) - int (length (expiry s'))"
  using assms
proof (induction fuel arbitrary: s removed)
  case 0
  then have "entries s = Map.empty" by (auto simp: store_inv_def store_ok_def)
  with 0 show ?case by (auto simp: held_def alive_def fun_eq_iff)
next
  case (Suc fuel)
  let ?p = "expiry s ! 0"
  have ok: "store_ok s" using Suc.prems(1) by (simp add: store_inv_def)
  show ?case
  proof (cases "expiry s = []")
    case True
    then have "entries s = Map.empty" using ok by (auto simp: store_ok_def)
    with True Suc.prems show ?thesis by (auto simp: held_def alive_def fun_eq_iff)
  next
    case ne: False
    obtain m s1 where pop: "popEntry s = (m, s1)" by fastforce
    note p = popEntry_correct [OF Suc.prems(1) ne pop]
    have "?p \<in> dom (entries s)" using ok ne by (auto simp: store_ok_def)
    then obtain e where e: "entries s ?p = Some e" "item s ?p = e" by (auto simp: item_def)
    show ?thesis
    proof (cases "eExpiresAt (item s ?p) > now")
      case True
      have "t > now" if "held s q = Some (x, t, k)" for q x t k
      proof -
        have "expiryKey (content s) ?p \<le> expiryKey (content s) q" using p that by blast
        then have "eExpiresAt e \<le> t"
          using that e by (auto simp: expiryKey_def content_def held_def less_eq_prod_def)
        with True e show ?thesis by simp
      qed
      then have "alive now (held s) = held s" by (fastforce simp: alive_def fun_eq_iff split: option.splits)
      with True Suc.prems show ?thesis by simp
    next
      case False
      obtain r where run: "expire_loop fuel now s1 = (r, s')" "removed = r + 1"
        using Suc.prems(3) False ne pop by (auto split: prod.splits)
      have s1: "store_inv s1" "length (expiry s1) \<le> fuel" using p Suc.prems(2) by auto
      note IH = Suc.IH [OF s1 run(1)]
      have "alive now ((held s)(?p := None)) = alive now (held s)"
        using False e by (auto simp: alive_def fun_eq_iff held_def)
      then have "held s' = alive now (held s)" using IH p by metis
      with IH p ne run(2) show ?thesis by (auto simp: of_nat_diff Suc_le_eq)
    qed
  qed
qed

lemma expireLocked_correct:
  assumes "store_inv s" "expireLocked now s = (removed, s')"
  shows "store_inv s'" "held s' = alive now (held s)" "same_settings s s'"
    "removed = lenEntries s - lenEntries s'"
  using expire_loop_correct [OF assms(1) order.refl, of now removed s'] assms store_ok_length
  by (auto simp: expireLocked_def store_inv_def)

text \<open>Replacing the entry at a position of the heap.\<close>

lemma heap_around_update:
  assumes "heap_order ks n" "i < n" "n \<le> length ks"
  shows "heap_around (ks[i := x]) n i"
proof -
  have e: "ks ! parent k \<le> ks ! k" if "k < n" "0 < k" for k
    using assms(1) that by (simp add: heap_order_def)
  have "ks[i := x] ! parent i \<le> ks[i := x] ! k" if k: "k < n" "0 < k" "parent k = i" "0 < i" for k
  proof -
    have "i < k" "parent i < i" using k parent_less by auto
    moreover have "ks ! parent i \<le> ks ! i" using e [of i] k(4) assms(2) by simp
    moreover have "ks ! i \<le> ks ! k" using e [of k] k by simp
    ultimately show ?thesis by simp
  qed
  then show ?thesis using e by (auto simp: heap_around_def over_def nth_list_update)
qed

lemma Fix_entry:
  assumes inv: "store_inv s" and cur: "entries s p = Some cur" and e: "smMessageID (eMessage e) = p"
    "eIndex e = eIndex cur"
    and s': "s' = Heap_Fix (nat (eIndex cur)) (setEntry p e s)"
  shows "store_inv s' \<and> held s' = (held s)(p \<mapsto> (eMessage e, eExpiresAt e, eOrder e)) \<and> same_settings s s'"
proof -
  let ?s = "setEntry p e s"
  have ok: "store_ok s" and ho: "heap_order (map (expiryKey (content s)) (expiry s)) (length (expiry s))"
    using inv by (simp_all add: store_inv_def)
  have "p \<in> set (expiry s)" using ok cur by (auto simp: store_ok_def)
  then obtain i where i: "i < length (expiry s)" "expiry s ! i = p" by (auto simp: in_set_conv_nth)
  then have ix: "eIndex cur = int i" using ok cur by (auto simp: store_ok_def item_def)
  have ok': "store_ok ?s"
    using ok e cur by (auto simp: store_ok_def item_setEntry setEntry_def item_def split: if_splits)
  have frame: "expiry ?s = expiry s" "same_settings s ?s"
      "held ?s = (held s)(p \<mapsto> (eMessage e, eExpiresAt e, eOrder e))"
    by (auto simp: setEntry_def held_def)
  have ks: "map (expiryKey (content ?s)) (expiry ?s) =
      (map (expiryKey (content s)) (expiry s))[i := (eExpiresAt e, eOrder e)]"
    using ok i frame
    by (auto simp: store_ok_def content_def expiryKey_def nth_list_update nth_eq_iff_index_eq intro!: nth_equalityI)
  have "heap_around (map (expiryKey (content ?s)) (expiry ?s)) (length (expiry ?s)) i"
    unfolding ks using i frame(1) by (simp add: heap_around_update [OF ho])
  then have sh: "eh.same_heap (length (expiry ?s)) ?s s'"
      "heap_order (map (expiryKey (content s')) (expiry s')) (length (expiry ?s))"
    using eh.Fix_correct [OF ok', of i expiryHeap_Len] i(1) frame(1) ix by (simp_all add: s' expiryHeap_Len_def)
  then have "content s' = content ?s" "store_ok s'" by (simp_all add: eh.same_heap_def)
  then show ?thesis
    using inv frame sh(2) eh.same_heap_length [OF sh(1)] by (simp add: store_inv_def content_eq_iff)
qed

text \<open>Filing a new entry and pushing it.\<close>

lemma Push_entry:
  assumes inv: "store_inv s" and new: "entries s p = None" and e: "smMessageID (eMessage e) = p"
    and room: "int (length (expiry s)) < capacity s"
    and s': "s' = Heap_Push p (setEntry p e s)"
  shows "store_inv s' \<and> held s' = (held s)(p \<mapsto> (eMessage e, eExpiresAt e, eOrder e)) \<and> same_settings s s'"
proof -
  define h where "h = expiryHeap_Push p (setEntry p e s)"
  have ok: "store_ok s" and ho: "heap_order (map (expiryKey (content s)) (expiry s)) (length (expiry s))"
    using inv by (simp_all add: store_inv_def)
  have p: "p \<notin> set (expiry s)" using ok new by (auto simp: store_ok_def)
  have h: "expiry h = expiry s @ [p]" "same_settings s h"
      "entries h = (entries s)(p \<mapsto> e\<lparr>eIndex := int (length (expiry s))\<rparr>)"
    by (simp_all add: h_def expiryHeap_Push_def Let_def entries_setIndex item_setEntry) (simp_all add: setEntry_def)
  have held: "held h = (held s)(p \<mapsto> (eMessage e, eExpiresAt e, eOrder e))" by (auto simp: held_def h)
  have "eIndex (item h (expiry h ! k)) = int k" if "k < length (expiry h)" for k
  proof (cases "k < length (expiry s)")
    case True
    then have "expiry s ! k \<noteq> p" using p nth_mem by metis
    with True ok show ?thesis by (simp add: store_ok_def h nth_append item_def)
  qed (use that in \<open>auto simp: h nth_append item_def less_Suc_eq\<close>)
  then have okh: "store_ok h" using ok e p by (auto simp: store_ok_def h)
  have "map (expiryKey (content h)) (expiry s) = map (expiryKey (content s)) (expiry s)"
    using p by (intro map_cong refl) (auto simp: expiryKey_def content_def held)
  then have "heap_order (map (expiryKey (content h)) (expiry h)) (length (expiry h) - 1)"
    using ho parent_le by (auto simp: heap_order_def h nth_append intro: le_less_trans)
  then have sh: "eh.same_heap (length (expiry h)) h s'"
      "heap_order (map (expiryKey (content s')) (expiry s')) (length (expiry h))"
    using eh.Push_correct [OF okh] h(1) unfolding s' heap_Push_def Let_def h_def [symmetric] expiryHeap_Len_def
    by auto
  then have "content s' = content h" "store_ok s'" by (simp_all add: eh.same_heap_def)
  then show ?thesis
    using inv room h held sh(2) eh.same_heap_length [OF sh(1)] by (simp add: store_inv_def content_eq_iff)
qed

text \<open>Evicting the entry that expires first and pushing a new one.\<close>

lemma Evict_entry:
  assumes inv: "store_inv s" and new: "entries s p = None" and full: "lenEntries s = capacity s"
    and pop: "popEntry s = (x, s1)" and e: "smMessageID (eMessage e) = p"
    and s': "s' = Heap_Push p (setEntry p e s1)"
  shows "store_inv s' \<and> same_settings s s' \<and>
    (\<exists>q k. held s q = Some (x, k) \<and> (\<forall>q' y l. held s q' = Some (y, l) \<longrightarrow> k \<le> l) \<and>
      held s' = ((held s)(q := None))(p \<mapsto> (eMessage e, eExpiresAt e, eOrder e)))"
proof -
  have ok: "store_ok s" and len: "int (length (expiry s)) = capacity s" "0 < capacity s"
    using inv full store_ok_length [of s] by (auto simp: store_inv_def)
  then have ne: "expiry s \<noteq> []" by auto
  let ?q = "expiry s ! 0"
  note pp = popEntry_correct [OF inv ne pop]
  have "?q \<in> dom (entries s)" using ok ne by (auto simp: store_ok_def)
  then obtain k where k: "held s ?q = Some (x, k)" using pp by (auto simp: held_def item_def)
  have least: "k \<le> l" if "held s q' = Some (y, l)" for q' y l
  proof -
    have "expiryKey (content s) ?q \<le> expiryKey (content s) q'" using pp that by blast
    then show ?thesis using that k by (simp add: expiryKey_def content_def)
  qed
  have i1: "store_inv s1" and "held s1 p = None" using pp new by (auto simp: held_def)
  then have n1: "entries s1 p = None" by (simp add: held_def)
  have room: "int (length (expiry s1)) < capacity s1" using pp len ne by (auto simp: of_nat_diff Suc_le_eq)
  note push = Push_entry [OF i1 n1 e room s']
  show ?thesis
    by (intro conjI exI [of _ ?q] exI [of _ k] allI impI least) (use push pp k in auto)
qed

text \<open>\<open>SentAt\<close> as \<open>Put\<close> stamps it.\<close>

definition stamped :: "gotime \<Rightarrow> SentMessage \<Rightarrow> SentMessage" where
  "stamped now m = (if IsZero (smSentAt m) then m\<lparr>smSentAt := now\<rparr> else m)"

definition put_entry :: "gotime \<Rightarrow> SentMessage \<Rightarrow> Store \<Rightarrow> SentMessage \<times> gotime \<times> int" where
  "put_entry now m s = (stamped now m, smSentAt (stamped now m) + ttl s, u64 (order s + 1))"

lemma smMessageID_stamped [simp]: "smMessageID (stamped now m) = smMessageID m"
  by (simp add: stamped_def)

lemma store_inv_order: "store_inv (s\<lparr>order := n\<rparr>) = store_inv s" "held (s\<lparr>order := n\<rparr>) = held s"
proof -
  have "expiryKey (content (s\<lparr>order := n\<rparr>)) = expiryKey (content s)"
    by (simp add: content_def expiryKey_def held_def fun_eq_iff)
  then show "store_inv (s\<lparr>order := n\<rparr>) = store_inv s"
    by (simp add: store_inv_def store_ok_def item_def)
qed (simp add: held_def)

lemma alive_Some: "alive now c p = Some (m, t, k) \<longleftrightarrow> c p = Some (m, t, k) \<and> t > now"
  by (auto simp: alive_def split: option.splits if_splits)

lemma alive_idem: "alive now (alive now c) = alive now c"
  by (auto simp: alive_def fun_eq_iff split: option.splits if_splits)

text \<open>What \<open>Put\<close> does to the retained messages.\<close>

lemma Put_correct:
  assumes inv: "store_inv s" and run: "Put now m s = (r, s')" and c: "c = alive now (held s)"
    and e: "e = put_entry now m s"
  shows "store_inv s' \<and> capacity s' = capacity s \<and> ttl s' = ttl s \<and>
    (if fst (snd e) \<le> now then r = Inl (RetentionError Expired) \<and> held s' = c
     else if smMessageID m \<in> dom c \<or> int (card (dom c)) < capacity s
     then r = Inr None \<and> held s' = c(smMessageID m \<mapsto> e)
     else \<exists>p x k. c p = Some (x, k) \<and> (\<forall>q y l. c q = Some (y, l) \<longrightarrow> k \<le> l) \<and>
       r = Inr (Some x) \<and> held s' = (c(p := None))(smMessageID m \<mapsto> e))"
proof -
  obtain n s1 where s1: "expireLocked now s = (n, s1)" by fastforce
  note x = expireLocked_correct [OF inv s1]
  define s2 where "s2 = s1\<lparr>order := u64 (order s1 + 1)\<rparr>"
  have i2: "store_inv s2" and h2: "held s2 = c" using x c by (simp_all add: s2_def store_inv_order)
  have set2: "capacity s2 = capacity s" "ttl s2 = ttl s" "order s2 = u64 (order s + 1)"
    using x(3) by (simp_all add: s2_def)
  let ?id = "smMessageID m" and ?m = "stamped now m"
  let ?t = "smSentAt ?m + ttl s"
  have e': "e = (?m, ?t, order s2)" using e set2 by (simp add: put_entry_def)
  have dom: "dom c = dom (entries s2)" using h2 by (metis dom_held)
  have card: "int (card (dom c)) = int (length (expiry s2))" "int (length (expiry s2)) \<le> capacity s2"
    using store_ok_length [of s2] i2 by (auto simp: dom lenEntries_def store_inv_def)
  show ?thesis
  proof (cases "?t \<le> now")
    case True
    then have "r = Inl (RetentionError Expired)" "s' = s1"
      using run s1 x(3) by (auto simp: Put_def Let_def stamped_def split: if_splits)
    with True x c e' show ?thesis by simp
  next
    case late: False
    show ?thesis
    proof (cases "entries s2 ?id")
      case (Some cur)
      have "r = Inr None" and s': "s' = Heap_Fix (nat (eIndex cur))
          (setEntry ?id (cur\<lparr>eMessage := ?m, eExpiresAt := ?t, eOrder := order s2\<rparr>) s2)"
        using run s1 x(3) late Some
        by (auto simp: Put_def Let_def stamped_def [symmetric] s2_def split: if_splits)
      moreover have "?id \<in> dom c" using Some by (auto simp: dom)
      ultimately show ?thesis
        using Fix_entry [OF i2 Some _ _ s'] late h2 e' set2 by simp
    next
      case None
      let ?e = "\<lparr>eMessage = ?m, eExpiresAt = ?t, eOrder = order s2, eIndex = 0\<rparr>"
      have new: "?id \<notin> dom c" using None by (auto simp: dom)
      show ?thesis
      proof (cases "lenEntries s2 = capacity s2")
        case False
        then have "r = Inr None" and s': "s' = Heap_Push ?id (setEntry ?id ?e s2)"
          using run s1 x(3) late None
          by (auto simp: Put_def Let_def stamped_def [symmetric] s2_def split: if_splits)
        moreover have room: "int (length (expiry s2)) < capacity s2"
          using False card i2 store_ok_length [of s2] by (simp add: store_inv_def)
        ultimately show ?thesis
          using Push_entry [OF i2 None _ room s'] late h2 e' set2 card by simp
      next
        case full: True
        obtain x0 s3 where pop: "popEntry s2 = (x0, s3)" by fastforce
        have r: "r = Inr (Some x0)" and s': "s' = Heap_Push ?id (setEntry ?id (?e\<lparr>eOrder := order s3\<rparr>) s3)"
          using run s1 x(3) late None full pop
          by (auto simp: Put_def Let_def stamped_def [symmetric] s2_def cloneMessage_def split: if_splits)
        have "order s3 = order s2"
          using popEntry_correct [OF i2 _ pop] full i2 store_ok_length [of s2] by (fastforce simp: store_inv_def)
        then have "store_inv s' \<and> same_settings s2 s' \<and>
            (\<exists>q k. c q = Some (x0, k) \<and> (\<forall>q' y l. c q' = Some (y, l) \<longrightarrow> k \<le> l) \<and>
              held s' = (c(q := None))(?id \<mapsto> e))"
          using Evict_entry [OF i2 None full pop _ s'] h2 e' by simp
        moreover have "\<not> int (card (dom c)) < capacity s"
          using full card i2 store_ok_length [of s2] set2 by (simp add: store_inv_def)
        ultimately show ?thesis using late new r set2 e' by auto
      qed
    qed
  qed
qed

lemma Heap_Remove_correct:
  assumes inv: "store_inv s" and cur: "entries s p = Some e"
    and s': "s' = (let h = snd (Heap_Remove (nat (eIndex e)) s) in h\<lparr>entries := (entries h)(p := None)\<rparr>)"
  shows "store_inv s' \<and> held s' = (held s)(p := None) \<and> same_settings s s'"
proof -
  have ok: "store_ok s" and ho: "heap_order (map (expiryKey (content s)) (expiry s)) (length (expiry s))"
    using inv by (simp_all add: store_inv_def)
  have "p \<in> set (expiry s)" using ok cur by (auto simp: store_ok_def)
  then obtain i where i: "i < length (expiry s)" "expiry s ! i = p" by (auto simp: in_set_conv_nth)
  then have ix: "nat (eIndex e) = i" using ok cur by (auto simp: store_ok_def item_def)
  define n where "n = length (expiry s) - 1"
  have n: "length (expiry s) = Suc n" "i \<le> n" using i(1) by (auto simp: n_def)
  obtain h where rem: "snd (Heap_Remove i s) = snd (expiryHeap_Pop h)" and h: "store_ok h"
      "content h = content s" "length (expiry h) = Suc n" "expiry h ! n = p"
      "heap_order (map (expiryKey (content h)) (expiry h)) n"
  proof (cases "i = n")
    case True
    have "snd (Heap_Remove i s) = snd (expiryHeap_Pop s)"
      using True by (simp add: heap_Remove_def Let_def expiryHeap_Len_def n)
    then show thesis using that [of s] True ok ho n i(2) by (auto simp: heap_order_def)
  next
    case False
    obtain moved h1 where d: "Heap_down i n (expiryHeap_Swap i n s) = (moved, h1)" by fastforce
    define h2 where "h2 = (if moved then h1 else Heap_up i h1)"
    have "snd (Heap_Remove i s) = snd (expiryHeap_Pop h2)"
      using False d by (simp add: heap_Remove_def Let_def expiryHeap_Len_def n h2_def)
    moreover have "i < n" using False n(2) by simp
    note R = eh.Remove_correct [OF ok this n(1) _ d h2_def]
    then have "store_ok h2" "content h2 = content s" "length (expiry h2) = Suc n" "expiry h2 ! n = p"
        "heap_order (map (expiryKey (content h2)) (expiry h2)) n"
      using ho unfolding n(1) i(2) by blast+
    ultimately show thesis by (rule that)
  qed
  have hn: "expiry h \<noteq> []" using h(3) by auto
  then have hp: "p = last (expiry h)" using h(3,4) by (simp add: last_conv_nth)
  have s'': "s' = (snd (expiryHeap_Pop h))\<lparr>entries := (entries (snd (expiryHeap_Pop h)))(p := None)\<rparr>"
    by (simp add: s' ix rem Let_def)
  note cut = cut_last [OF h(1) hn hp s'']
  have "heap_order (map (expiryKey (content s')) (expiry s')) (length (expiry s'))"
    using keys_cut [OF h(1) hn, of s'] cut h heap_order_take [OF h(5)] by (simp add: hp)
  then show ?thesis using inv cut h(2,3) n by (auto simp: store_inv_def content_eq_iff)
qed

lemma Remove_held:
  assumes inv: "store_inv s" and run: "Remove now mid s = (r, s')" and c: "c = alive now (held s)"
  shows "store_inv s' \<and> held s' = c(mid := None) \<and> same_settings s s' \<and> r = map_option fst (c mid)"
proof -
  obtain n s1 where s1: "expireLocked now s = (n, s1)" by fastforce
  note x = expireLocked_correct [OF inv s1]
  have cs: "c = held s1" using x(2) c by simp
  show ?thesis
  proof (cases "entries s1 mid")
    case None
    then show ?thesis using run s1 x(1,3) by (auto simp: Remove_def Let_def cs held_at)
  next
    case (Some e)
    have r: "r = Some (eMessage e)" and s': "s' = (let h = snd (Heap_Remove (nat (eIndex e)) s1) in
        h\<lparr>entries := (entries h)(mid := None)\<rparr>)"
      using run s1 Some by (auto simp: Remove_def Let_def cloneMessage_def)
    show ?thesis
      using Heap_Remove_correct [OF x(1) Some s'] x(3) Some r by (simp add: cs held_at)
  qed
qed

lemma Acknowledge_correct:
  assumes inv: "store_inv s" and run: "Acknowledge now mid s = (b, s')" and c: "c = alive now (held s)"
  shows "store_inv s' \<and> same_settings s s' \<and> (b \<longleftrightarrow> mid \<in> dom c) \<and>
    held s' = c(mid := map_option (apfst (smAcknowledged_update (\<lambda>_. True))) (c mid))"
proof -
  obtain n s1 where s1: "expireLocked now s = (n, s1)" by fastforce
  note x = expireLocked_correct [OF inv s1]
  have cs: "c = held s1" using x(2) c by simp
  show ?thesis
  proof (cases "entries s1 mid")
    case None
    then show ?thesis using run s1 x(1,3) by (auto simp: Acknowledge_def Let_def cs held_at)
  next
    case (Some e)
    let ?e = "e\<lparr>eMessage := (eMessage e)\<lparr>smAcknowledged := True\<rparr>\<rparr>"
    have b: "b" and s': "s' = setEntry mid ?e s1"
      using run s1 Some by (auto simp: Acknowledge_def Let_def)
    have cm: "c mid = Some (eMessage e, eExpiresAt e, eOrder e)"
      using Some by (simp add: cs held_at)
    have held: "held s' = c(mid := map_option (apfst (smAcknowledged_update (\<lambda>_. True))) (c mid))"
      using cm by (auto simp: s' setEntry_def cs held_at fun_eq_iff)
    have "expiryKey (content s') = expiryKey (content s1)"
      using Some by (auto simp: expiryKey_def content_def held_def s' setEntry_def fun_eq_iff)
    moreover have "store_ok s'" using x(1) Some
      by (auto simp: s' store_inv_def store_ok_def item_setEntry setEntry_def item_def split: if_splits)
    ultimately have "store_inv s'" using x(1) by (simp add: s' store_inv_def) (simp add: setEntry_def)
    then show ?thesis using held b cm x(3) by (auto simp: s') (simp_all add: setEntry_def)
  qed
qed

lemma New_inv: "New config = Inr s \<Longrightarrow> store_inv s"
  by (auto simp: New_def store_inv_def store_ok_def heap_order_def split: if_splits)

section \<open>Lookups and histories\<close>

lemma lookups_snd [simp]:
  "snd (Lookup now mid s) = snd (expireLocked now s)"
  "snd (LookupForResend now mid s) = snd (expireLocked now s)"
  "snd (LookupResponse now ps req s) = snd (expireLocked now s)"
  by (simp_all add: Lookup_def LookupForResend_def LookupResponse_def Let_def)

lemma expired_held: "store_inv s \<Longrightarrow> held (snd (expireLocked now s)) = alive now (held s)"
  using expireLocked_correct(2) by (metis prod.collapse)

lemma Lookup_alive:
  assumes "store_inv s" shows "fst (Lookup now mid s) = map_option fst (alive now (held s) mid)"
  unfolding expired_held [OF assms, symmetric]
  by (simp add: Lookup_def Let_def cloneMessage_def held_at split: option.splits)

lemma LookupForResend_alive:
  assumes "store_inv s"
  shows "fst (LookupForResend now mid s) =
    (case alive now (held s) mid of Some (m, _) \<Rightarrow> if smAcknowledged m then None else Some m | None \<Rightarrow> None)"
  unfolding expired_held [OF assms, symmetric]
  by (simp add: LookupForResend_def Let_def cloneMessage_def held_at split: option.splits)

datatype retention_op =
    OpPut SentMessage | OpAcknowledge int | OpLookup int | OpLookupForResend int
  | OpLookupResponse "int list" int | OpRemove int | OpExpire

fun retentionStep :: "gotime \<times> retention_op \<Rightarrow> Store \<Rightarrow> Store" where
  "retentionStep (now, OpPut m) s = snd (Put now m s)"
| "retentionStep (now, OpAcknowledge mid) s = snd (Acknowledge now mid s)"
| "retentionStep (now, OpLookup mid) s = snd (Lookup now mid s)"
| "retentionStep (now, OpLookupForResend mid) s = snd (LookupForResend now mid s)"
| "retentionStep (now, OpLookupResponse ps req) s = snd (LookupResponse now ps req s)"
| "retentionStep (now, OpRemove mid) s = snd (Remove now mid s)"
| "retentionStep (now, OpExpire) s = snd (Expire now s)"

lemma expire_inv: "store_inv s \<Longrightarrow> store_inv (snd (expireLocked now s)) \<and> capacity (snd (expireLocked now s)) = capacity s"
  using expireLocked_correct(1,3) by (metis prod.collapse)

lemma retentionStep_inv:
  "store_inv s \<Longrightarrow> store_inv (retentionStep op s) \<and> capacity (retentionStep op s) = capacity s"
proof (induction op s rule: retentionStep.induct)
  case (1 now m s)
  then show ?case using Put_correct [OF 1 _ refl refl, of now m] by (metis prod.collapse retentionStep.simps(1))
next
  case (2 now mid s)
  then show ?case using Acknowledge_correct [OF 2 _ refl, of now mid] by (metis prod.collapse retentionStep.simps(2))
next
  case (6 now mid s)
  then show ?case using Remove_held [OF 6 _ refl, of now mid] by (metis prod.collapse retentionStep.simps(6))
qed (simp_all add: expire_inv Expire_def)

lemma history_inv:
  "store_inv s \<Longrightarrow> store_inv (fold retentionStep ops s) \<and> capacity (fold retentionStep ops s) = capacity s"
  by (induction ops arbitrary: s) (auto simp: retentionStep_inv)

text \<open>The newest matching entry, whatever the order of iteration.\<close>

lemma newest_fold:
  assumes "requestID \<noteq> 0" "\<forall>f. found = Some f \<longrightarrow> smRequestMessageID (eMessage f) = requestID"
  shows "case fold (newestResponse requestID) es found of
      None \<Rightarrow> found = None \<and> (\<forall>e \<in> set es. smRequestMessageID (eMessage e) \<noteq> requestID)
    | Some e \<Rightarrow> smRequestMessageID (eMessage e) = requestID \<and> (e \<in> set es \<or> found = Some e) \<and>
        (\<forall>e' \<in> set es. smRequestMessageID (eMessage e') = requestID \<longrightarrow>
           smMessageID (eMessage e') \<le> smMessageID (eMessage e)) \<and>
        (\<forall>f. found = Some f \<longrightarrow> smMessageID (eMessage f) \<le> smMessageID (eMessage e))"
  using assms
proof (induction es arbitrary: found)
  case Nil
  then show ?case by (cases found) auto
next
  case (Cons e es)
  let ?f = "newestResponse requestID e found"
  have "\<forall>f. ?f = Some f \<longrightarrow> smRequestMessageID (eMessage f) = requestID"
    using Cons.prems by (auto simp: newestResponse_def)
  note IH = Cons.IH [OF Cons.prems(1) this]
  show ?case
    using IH Cons.prems
    by (cases found; cases "smRequestMessageID (eMessage e) = requestID")
      (auto simp: newestResponse_def split: option.splits if_splits)
qed

lemma LookupResponse_newest:
  assumes inv: "store_inv s" and ps: "set ps = dom (held (snd (expireLocked now s)))"
    and c: "c = alive now (held s)"
  shows "case fst (LookupResponse now ps requestID s) of
      None \<Rightarrow> requestID = 0 \<or> (\<forall>q y l. c q = Some (y, l) \<longrightarrow> smRequestMessageID y \<noteq> requestID)
    | Some m \<Rightarrow> requestID \<noteq> 0 \<and> smRequestMessageID m = requestID \<and> map_option fst (c (smMessageID m)) = Some m \<and>
        (\<forall>q y l. c q = Some (y, l) \<and> smRequestMessageID y = requestID \<longrightarrow> q \<le> smMessageID m)"
proof (cases "requestID = 0")
  case True
  have "fold (newestResponse requestID) es None = None" for es
    using True by (induction es) (auto simp: newestResponse_def)
  with True show ?thesis by (simp add: LookupResponse_def Let_def)
next
  case False
  define s1 where "s1 = snd (expireLocked now s)"
  have ok: "store_ok s1" using expire_inv [OF inv] by (simp add: s1_def store_inv_def)
  have cs: "c = held s1" using expired_held [OF inv] c by (simp add: s1_def)
  have items: "\<And>e. e \<in> set (map (item s1) ps) \<longleftrightarrow> (\<exists>p. entries s1 p = Some e)"
    using ps by (force simp: s1_def [symmetric] item_def)
  have id: "\<And>p e. entries s1 p = Some e \<Longrightarrow> smMessageID (eMessage e) = p" using ok by (simp add: store_ok_def)
  have r: "fst (LookupResponse now ps requestID s) =
      map_option eMessage (fold (newestResponse requestID) (map (item s1) ps) None)"
    by (simp add: LookupResponse_def Let_def s1_def cloneMessage_def comp_def)
  have held: "\<And>q y l. c q = Some (y, l) \<Longrightarrow> \<exists>e \<in> set (map (item s1) ps). eMessage e = y \<and> smMessageID y = q"
  proof -
    fix q y l assume "c q = Some (y, l)"
    then obtain e where e: "entries s1 q = Some e" "eMessage e = y" by (auto simp: cs held_at)
    then show "\<exists>e \<in> set (map (item s1) ps). eMessage e = y \<and> smMessageID y = q"
      using items [of e] id [OF e(1)] by blast
  qed
  have n: "\<forall>f. None = Some f \<longrightarrow> smRequestMessageID (eMessage f) = requestID" by simp
  show ?thesis
  proof (cases "fold (newestResponse requestID) (map (item s1) ps) None")
    case None
    then show ?thesis using newest_fold [OF False n, of "map (item s1) ps"] held r by fastforce
  next
    case (Some e)
    then have e: "smRequestMessageID (eMessage e) = requestID" "e \<in> set (map (item s1) ps)"
        "\<forall>e' \<in> set (map (item s1) ps). smRequestMessageID (eMessage e') = requestID \<longrightarrow>
           smMessageID (eMessage e') \<le> smMessageID (eMessage e)"
      using newest_fold [OF False n, of "map (item s1) ps"] by auto
    then obtain p where "entries s1 p = Some e" using items by blast
    then have "map_option fst (c (smMessageID (eMessage e))) = Some (eMessage e)"
      using id by (simp add: cs held_at)
    with Some e held False r show ?thesis by fastforce
  qed
qed

section \<open>Properties\<close>

text \<open>C32. \<open>Put\<close> on every branch.  A message whose lifetime is over is refused and only expired messages
  disappear.  Otherwise the message is retained until \<open>SentAt\<close> plus the TTL, replacing an earlier one of the same
  identifier; when the store is full, exactly one message is evicted and returned, and it is one that
  expires first, ties resolved by insertion order.  No other unexpired message is touched.\<close>

theorem retention_put:
  assumes "store_inv s" "Put now m s = (r, s')" "c = alive now (held s)" "e = put_entry now m s"
  shows "store_inv s' \<and>
    (if fst (snd e) \<le> now then r = Inl (RetentionError Expired) \<and> held s' = c
     else if smMessageID m \<in> dom c \<or> int (card (dom c)) < capacity s
     then r = Inr None \<and> held s' = c(smMessageID m \<mapsto> e)
     else \<exists>p x k. c p = Some (x, k) \<and> (\<forall>q y l. c q = Some (y, l) \<longrightarrow> k \<le> l) \<and>
       r = Inr (Some x) \<and> held s' = (c(p := None))(smMessageID m \<mapsto> e))"
  using Put_correct [OF assms] by (elim conjE) (intro conjI, assumption+)

definition exampleSent :: "int \<Rightarrow> gotime \<Rightarrow> SentMessage" where
  "exampleSent mid t = \<lparr>smMessageID = mid, smRequestMessageID = 8, smSequenceNumber = 1, smPayload = [1],
     smSentAt = t, smAcknowledged = False\<rparr>"

definition exampleStore :: Store where
  "exampleStore = \<lparr>capacity = 1, ttl = 10, order = 1,
     entries = [1 \<mapsto> \<lparr>eMessage = exampleSent 1 5, eExpiresAt = 15, eOrder = 1, eIndex = 0\<rparr>], expiry = [1]\<rparr>"

lemma exampleStore_inv: "store_inv exampleStore"
  by (simp add: store_inv_def store_ok_def exampleStore_def item_def exampleSent_def heap_order_def)

lemma exampleStore_held: "held exampleStore = [1 \<mapsto> (exampleSent 1 5, 15, 1)]"
  by (simp add: held_def exampleStore_def fun_eq_iff)

theorem retention_put_witness:
  "\<exists>r s'. Put 6 (exampleSent 2 0) exampleStore = (r, s') \<and> r = Inr (Some (exampleSent 1 5)) \<and>
    held s' = [2 \<mapsto> (exampleSent 2 6, 16, 2)]"
proof -
  obtain r s' where run: "Put 6 (exampleSent 2 0) exampleStore = (r, s')" by fastforce
  have c: "alive 6 (held exampleStore) = [1 \<mapsto> (exampleSent 1 5, 15, 1)]"
    by (simp add: alive_def exampleStore_held fun_eq_iff)
  have e: "put_entry 6 (exampleSent 2 0) exampleStore = (exampleSent 2 6, 16, 2)"
    by (simp add: put_entry_def stamped_def IsZero_def exampleSent_def exampleStore_def u64_def)
  have m: "smMessageID (exampleSent 2 0) = 2" "capacity exampleStore = 1"
    by (simp_all add: exampleSent_def exampleStore_def)
  show ?thesis
    using retention_put [OF exampleStore_inv run refl refl] run
    unfolding c e m by (auto split: if_splits)
qed

text \<open>C33. Bounded retention.  After any history of operations at any clock readings the store holds at most its
  configured capacity, the heap and the map hold exactly the same messages, each entry knows its own
  position in the heap, and the entry at the front is one that expires first.\<close>

theorem retention_history:
  assumes "New config = Inr s" and s': "s' = fold retentionStep ops s"
  shows "lenEntries s' \<le> cfgCapacity config \<and> distinct (expiry s') \<and> set (expiry s') = dom (entries s') \<and>
    (\<forall>i < length (expiry s'). eIndex (item s' (expiry s' ! i)) = int i \<and>
       smMessageID (eMessage (item s' (expiry s' ! i))) = expiry s' ! i \<and>
       eExpiresAt (item s' (expiry s' ! 0)) \<le> eExpiresAt (item s' (expiry s' ! i)))"
proof -
  have inv: "store_inv s'" "capacity s' = cfgCapacity config"
    using history_inv [OF New_inv [OF assms(1)], of ops] assms by (auto simp: New_def split: if_splits)
  then have ok: "store_ok s'" and ho: "heap_order (map (expiryKey (content s')) (expiry s')) (length (expiry s'))"
    by (simp_all add: store_inv_def)
  have d: "expiry s' ! i \<in> dom (entries s')" if "i < length (expiry s')" for i
    using ok nth_mem [OF that] by (simp add: store_ok_def)
  have "eExpiresAt (item s' (expiry s' ! 0)) \<le> eExpiresAt (item s' (expiry s' ! i))"
    if i: "i < length (expiry s')" for i
  proof -
    have "0 < length (expiry s')" using i by linarith
    with heap_order_min [OF ho i] i show ?thesis
      by (auto simp: expiryKey_item [OF d [OF i]] expiryKey_item [OF d [of 0]] less_eq_prod_def)
  qed
  moreover have "smMessageID (eMessage (item s' (expiry s' ! i))) = expiry s' ! i"
    if "i < length (expiry s')" for i
    using d [OF that] ok by (auto simp: store_ok_def item_def)
  ultimately show ?thesis
    using inv ok store_ok_length [OF ok] by (simp add: store_inv_def store_ok_def)
qed

theorem retention_history_witness:
  "\<exists>s s'. New \<lparr>cfgCapacity = 1, cfgTTL = 10\<rparr> = Inr s \<and>
    s' = fold retentionStep [(6, OpPut (exampleSent 1 0)), (7, OpPut (exampleSent 2 0))] s \<and>
    lenEntries s' \<le> 1"
proof -
  let ?s = "\<lparr>capacity = 1, ttl = 10, order = 0, entries = (\<lambda>_. None), expiry = []\<rparr>"
  have new: "New \<lparr>cfgCapacity = 1, cfgTTL = 10\<rparr> = Inr ?s" by (simp add: New_def)
  show ?thesis
    using retention_history [OF new refl, of "[(6, OpPut (exampleSent 1 0)), (7, OpPut (exampleSent 2 0))]"] new
    by auto
qed

text \<open>Put and look up.  What \<open>Put\<close> accepted is found unchanged at every time before its expiry and not at
  or after it; it is offered for resending exactly until it has been acknowledged.\<close>

theorem retention_lookup:
  assumes inv: "store_inv s" and put: "Put now m s = (Inr evicted, s1)"
  shows "(\<forall>later. fst (Lookup later (smMessageID m) s1) =
      (if later < smSentAt (stamped now m) + ttl s then Some (stamped now m) else None)) \<and>
    (\<forall>later. later < smSentAt (stamped now m) + ttl s \<and> \<not> smAcknowledged m \<longrightarrow>
      fst (LookupForResend later (smMessageID m) s1) = Some (stamped now m) \<and>
      (\<forall>t. fst (LookupForResend t (smMessageID m) (snd (Acknowledge later (smMessageID m) s1))) = None))"
proof -
  let ?id = "smMessageID m" and ?e = "put_entry now m s"
  have i1: "store_inv s1" and h: "held s1 ?id = Some ?e"
    using Put_correct [OF inv put refl refl] by (auto split: if_splits)
  have al: "alive t (held s1) ?id = (if t < smSentAt (stamped now m) + ttl s then Some ?e else None)" for t
    by (simp add: alive_def h) (simp add: put_entry_def)
  have ack: "smAcknowledged (stamped now m) = smAcknowledged m" by (simp add: stamped_def)
  have "fst (LookupForResend t ?id (snd (Acknowledge later ?id s1))) = None"
    if l: "later < smSentAt (stamped now m) + ttl s" for t later
  proof -
    obtain b s2 where s2: "Acknowledge later ?id s1 = (b, s2)" by fastforce
    note a = Acknowledge_correct [OF i1 s2 refl]
    have i2: "store_inv s2" using a by blast
    have "held s2 ?id = Some (apfst (smAcknowledged_update (\<lambda>_. True)) ?e)" using a al [of later] l by simp
    then show ?thesis
      unfolding s2 snd_conv LookupForResend_alive [OF i2] by (simp add: alive_def [of t] put_entry_def)
  qed
  then show ?thesis
    using Lookup_alive [OF i1] LookupForResend_alive [OF i1] ack by (auto simp: al) (simp_all add: put_entry_def)
qed

theorem retention_lookup_witness:
  "\<exists>evicted s1. Put 6 (exampleSent 2 0) exampleStore = (Inr evicted, s1) \<and>
    fst (Lookup 7 2 s1) = Some (exampleSent 2 6) \<and> fst (Lookup 16 2 s1) = None"
proof -
  obtain r s1 where run: "Put 6 (exampleSent 2 0) exampleStore = (r, s1)" by fastforce
  have "r \<noteq> Inl x" for x
    using Put_correct [OF exampleStore_inv run refl refl]
    by (auto simp: put_entry_def stamped_def IsZero_def exampleSent_def exampleStore_def split: if_splits)
  then obtain ev where r: "r = Inr ev" by (cases r) auto
  have e: "stamped 6 (exampleSent 2 0) = exampleSent 2 6" "smMessageID (exampleSent 2 0) = 2"
      "ttl exampleStore = 10" "smSentAt (exampleSent 2 6) = 6"
    by (simp_all add: stamped_def IsZero_def exampleSent_def exampleStore_def)
  from retention_lookup [OF exampleStore_inv run [unfolded r]] show ?thesis
    unfolding e using run r by auto
qed

text \<open>\<open>LookupResponse\<close> does not depend on the order in which Go iterates over the map: it finds nothing
  exactly if no unexpired message answers the request, and otherwise the one with the greatest
  identifier.\<close>

theorem response_newest:
  assumes "store_inv s" "set ps = dom (held (snd (expireLocked now s)))" "c = alive now (held s)"
  shows "case fst (LookupResponse now ps requestID s) of
      None \<Rightarrow> requestID = 0 \<or> (\<forall>q y l. c q = Some (y, l) \<longrightarrow> smRequestMessageID y \<noteq> requestID)
    | Some m \<Rightarrow> requestID \<noteq> 0 \<and> smRequestMessageID m = requestID \<and> map_option fst (c (smMessageID m)) = Some m \<and>
        (\<forall>q y l. c q = Some (y, l) \<and> smRequestMessageID y = requestID \<longrightarrow> q \<le> smMessageID m)"
  by (rule LookupResponse_newest [OF assms])

theorem response_newest_witness:
  "case fst (LookupResponse 6 [1] 8 exampleStore) of
      None \<Rightarrow> False | Some m \<Rightarrow> smRequestMessageID m = 8"
proof -
  have c: "alive 6 (held exampleStore) = [1 \<mapsto> (exampleSent 1 5, 15, 1)]"
    by (simp add: alive_def exampleStore_held fun_eq_iff)
  have ps: "set [1] = dom (held (snd (expireLocked 6 exampleStore)))"
    unfolding expired_held [OF exampleStore_inv] c by simp
  from response_newest [OF exampleStore_inv ps refl, of 8] show ?thesis
    unfolding c by (auto simp: exampleSent_def split: option.splits if_splits)
qed

end
