(* ===== verification/Packet_Codec.thy ===== *)
theory Packet_Codec
  imports TLRPC_Prelude
begin

unbundle bit_operations_syntax

text \<open>
  Packet framing over a byte stream, \<open>transport/mtproto_codec\<close>, and the streams it runs on.
  A connection delivers what its peer wrote in pieces of any size: the source of a stream is the
  list of pieces still to be delivered, and one \<open>Read\<close> returns at most one of them.  A stream may be
  wrapped in AES-CTR in either direction (\<open>transport/obfuscated2.go\<close>); the key stream is a
  parameter \<open>ks\<close>, from key, initial vector and position to a byte, because all the code uses of
  a \<open>cipher.Stream\<close> is that it exclusive-ors with such a sequence.  \<open>hash/crc32\<close> is
  written out.
\<close>

section \<open>Streams\<close>

type_synonym keystream = "bytes \<Rightarrow> bytes \<Rightarrow> nat \<Rightarrow> byte"

record CTR =
  ctrKey :: bytes
  ctrIV :: bytes
  ctrPos :: nat

definition XORKeyStream :: "keystream \<Rightarrow> CTR \<Rightarrow> bytes \<Rightarrow> bytes \<times> CTR" where
  "XORKeyStream ks c p =
     (map2 (XOR) p (map (ks (ctrKey c) (ctrIV c)) [ctrPos c..<ctrPos c + length p]),
      c\<lparr>ctrPos := ctrPos c + length p\<rparr>)"

record ReadWriter =
  source :: "bytes list"
  sink :: bytes
  decrypt :: "CTR option"
  encrypt :: "CTR option"

fun source_Read :: "nat \<Rightarrow> bytes list \<Rightarrow> bytes \<times> go_error option \<times> bytes list" where
  "source_Read n [] = ([], Some (IOError EOF), [])"
| "source_Read n (piece # rest) =
     (if piece = [] then source_Read n rest
      else (take n piece, None, if drop n piece = [] then rest else drop n piece # rest))"

definition stream_Read :: "keystream \<Rightarrow> nat \<Rightarrow> ReadWriter \<Rightarrow> bytes \<times> go_error option \<times> ReadWriter" where
  "stream_Read ks n rw =
     (case source_Read n (source rw) of
        (p, e, src) \<Rightarrow>
          (case decrypt rw of
             None \<Rightarrow> (p, e, rw\<lparr>source := src\<rparr>)
           | Some d \<Rightarrow>
               (if p = [] then (p, e, rw\<lparr>source := src\<rparr>)
                else case XORKeyStream ks d p of
                  (p', d') \<Rightarrow> (p', e, rw\<lparr>source := src, decrypt := Some d'\<rparr>))))"

definition stream_Write :: "keystream \<Rightarrow> bytes \<Rightarrow> (ReadWriter, unit) io" where
  "stream_Write ks p rw =
     (case encrypt rw of
        None \<Rightarrow> (Inr (), rw\<lparr>sink := sink rw @ p\<rparr>)
      | Some c \<Rightarrow>
          (case XORKeyStream ks c p of
             (buf, c') \<Rightarrow> (Inr (), rw\<lparr>sink := sink rw @ buf, encrypt := Some c'\<rparr>)))"

lemmas [simp del] = concat_eq_Nil_conv Nil_eq_concat_conv

lemma source_Read_concat:
  "source_Read n src = (p, e, src') \<Longrightarrow> concat src = p @ concat src' \<and> length p \<le> n \<and>
     (case e of Some e' \<Rightarrow> e' = IOError EOF \<and> p = [] \<and> concat src = [] | None \<Rightarrow> concat src \<noteq> [] \<and> (0 < n \<longrightarrow> p \<noteq> []))"
  by (induction n src rule: source_Read.induct) (auto split: if_splits option.splits)

text \<open>\<open>io.ReadFull\<close>.\<close>

function stream_ReadFull_loop :: "keystream \<Rightarrow> nat \<Rightarrow> bytes \<Rightarrow> (ReadWriter, bytes) io" where
  "stream_ReadFull_loop ks need acc rw =
     (if need = 0 then (Inr acc, rw)
      else case stream_Read ks need rw of
        (got, None, rw') \<Rightarrow> stream_ReadFull_loop ks (need - length got) (acc @ got) rw'
      | (got, Some e, rw') \<Rightarrow>
          (if need = length got then (Inr (acc @ got), rw')
           else if acc @ got \<noteq> [] \<and> e = IOError EOF then (Inl (IOError UnexpectedEOF), rw')
           else (Inl e, rw')))"
  by pat_completeness auto

lemma stream_Read_progress:
  assumes "(got, None, rw') = stream_Read ks need rw" "0 < need"
  shows "length (concat (source rw')) < length (concat (source rw))"
proof -
  obtain p e src where r: "source_Read need (source rw) = (p, e, src)" by (cases "source_Read need (source rw)")
  then have "e = None" "source rw' = src"
    using assms by (auto simp: stream_Read_def XORKeyStream_def split: option.splits prod.splits if_splits)
  then show ?thesis using source_Read_concat [OF r] assms(2) by auto
qed

termination stream_ReadFull_loop
  by (relation "measure (\<lambda>(ks, need, acc, rw). length (concat (source rw)))")
    (auto dest: stream_Read_progress)

declare stream_ReadFull_loop.simps [simp del]

definition stream_ReadFull :: "keystream \<Rightarrow> nat \<Rightarrow> (ReadWriter, bytes) io" where
  "stream_ReadFull ks n = stream_ReadFull_loop ks n []"

section \<open>Checksums\<close>

text \<open>\<open>hash/crc32\<close> with the IEEE polynomial, bit-reflected.\<close>

definition crc32_bit :: "32 word \<Rightarrow> 32 word" where
  "crc32_bit c = (if bit c 0 then drop_bit 1 c XOR 0xEDB88320 else drop_bit 1 c)"

definition crc32_byte :: "byte \<Rightarrow> 32 word \<Rightarrow> 32 word" where
  "crc32_byte b c = (crc32_bit ^^ 8) (c XOR ucast b)"

definition crc32 :: "bytes \<Rightarrow> int" where
  "crc32 bs = uint (NOT (fold crc32_byte bs (NOT 0)))"

section \<open>Codecs\<close>

datatype Codec = Abridged bool | Intermediate bool | PaddedIntermediate bool | Full int

definition MaxPacketPayloadBytes :: int where "MaxPacketPayloadBytes = 2 ^ 24"
definition intermediateTag :: int where "intermediateTag = 0xEEEEEEEE"
definition paddedIntermediateTag :: int where "paddedIntermediateTag = 0xDDDDDDDD"
definition fullMinLen :: int where "fullMinLen = 12"

definition packetLimit :: "int \<Rightarrow> int" where
  "packetLimit maxPayloadBytes =
     (if maxPayloadBytes > 0 \<and> maxPayloadBytes < MaxPacketPayloadBytes then maxPayloadBytes
      else MaxPacketPayloadBytes)"

definition checkedPayloadLength :: "int \<Rightarrow> int \<Rightarrow> go_error + int" where
  "checkedPayloadLength declared maxPayloadBytes =
     (if declared = 0 then Inl (TransportError InvalidLength)
      else if declared > packetLimit maxPayloadBytes then Inl (TransportError PayloadTooLarge)
      else Inr declared)"

definition readTransportError :: "bytes \<Rightarrow> go_error option" where
  "readTransportError payload =
     (if length payload \<noteq> 4 then None
      else
        (let code = wrap32 (le_int payload) in
         if code \<ge> 0 then None else Some (TransportError (TransportErrorCode code))))"

text \<open>The tail every \<open>ReadPacket\<close> ends with.\<close>

definition finishPacket :: "bytes \<Rightarrow> (ReadWriter, bytes) io" where
  "finishPacket payload = (case readTransportError payload of Some e \<Rightarrow> raise e | None \<Rightarrow> ret payload)"

definition Abridged_readPayload :: "keystream \<Rightarrow> int \<Rightarrow> int \<Rightarrow> (ReadWriter, bytes) io" where
  "Abridged_readPayload ks maxPayloadBytes len =
     (if len = 0 then raise (TransportError InvalidLength)
      else case checkedPayloadLength (len * 4) maxPayloadBytes of
          Inl e \<Rightarrow> raise e
        | Inr payloadLen \<Rightarrow> andThen (stream_ReadFull ks (nat payloadLen)) finishPacket)"

definition Abridged_ReadPacket :: "keystream \<Rightarrow> bool \<Rightarrow> int \<Rightarrow> (ReadWriter, bytes) io" where
  "Abridged_ReadPacket ks allowQuickAck maxPayloadBytes =
     andThen (stream_ReadFull ks 1) (\<lambda>first.
       let lengthByte = uint (hd first) in
       if allowQuickAck \<and> lengthByte = 0x80 then
         andThen (stream_ReadFull ks 3) (\<lambda>rest. raise (TransportError (QuickAck (le_int (first @ rest)))))
       else
         andThen (if lengthByte = 0x7f
                  then andThen (stream_ReadFull ks 3) (\<lambda>ext. ret (le_int ext))
                  else ret (lengthByte mod 0x80)) (Abridged_readPayload ks maxPayloadBytes))"

definition Abridged_WritePacket :: "keystream \<Rightarrow> bytes \<Rightarrow> (ReadWriter, unit) io" where
  "Abridged_WritePacket ks payload =
     (if length payload mod 4 \<noteq> 0 then raise (TransportError InvalidLength)
      else
        (let len = int (length payload) div 4 in
         andThen (if len < 0x7f then stream_Write ks (le_bytes 1 len)
                  else stream_Write ks (0x7f # le_bytes 3 len)) (\<lambda>_.
         stream_Write ks payload)))"

definition WriteAbridgedHeader :: "keystream \<Rightarrow> (ReadWriter, unit) io" where
  "WriteAbridgedHeader ks = stream_Write ks [0xEF]"

definition Intermediate_ReadPacket :: "keystream \<Rightarrow> bool \<Rightarrow> int \<Rightarrow> (ReadWriter, bytes) io" where
  "Intermediate_ReadPacket ks allowQuickAck maxPayloadBytes =
     andThen (stream_ReadFull ks 4) (\<lambda>header.
       let len = le_int header in
       if len \<ge> 2 ^ 31 \<and> allowQuickAck then raise (TransportError (QuickAck (len mod 2 ^ 31)))
       else case checkedPayloadLength len maxPayloadBytes of
           Inl e \<Rightarrow> raise e
         | Inr payloadLen \<Rightarrow> andThen (stream_ReadFull ks (nat payloadLen)) finishPacket)"

definition Intermediate_WritePacket :: "keystream \<Rightarrow> bytes \<Rightarrow> (ReadWriter, unit) io" where
  "Intermediate_WritePacket ks payload =
     andThen (stream_Write ks (le_bytes 4 (u32 (int (length payload))))) (\<lambda>_. stream_Write ks payload)"

definition PaddedIntermediate_ReadPacket :: "keystream \<Rightarrow> bool \<Rightarrow> int \<Rightarrow> (ReadWriter, bytes) io" where
  "PaddedIntermediate_ReadPacket ks allowQuickAck maxPayloadBytes =
     andThen (stream_ReadFull ks 4) (\<lambda>header.
       let len = le_int header in
       if len \<ge> 2 ^ 31 \<and> allowQuickAck then raise (TransportError (QuickAck (len mod 2 ^ 31)))
       else if len = 0 \<or> len > MaxPacketPayloadBytes + 3 then
         (if len = 0 then raise (TransportError InvalidLength) else raise (TransportError PayloadTooLarge))
       else case checkedPayloadLength (len - len mod 4) maxPayloadBytes of
           Inl e \<Rightarrow> raise e
         | Inr _ \<Rightarrow>
             andThen (stream_ReadFull ks (nat len)) (\<lambda>payload.
               let pad = length payload mod 4 in
               finishPacket (if pad > 0 then take (length payload - pad) payload else payload)))"

definition PaddedIntermediate_WritePacket :: "keystream \<Rightarrow> bytes \<Rightarrow> (ReadWriter, unit) io" where
  "PaddedIntermediate_WritePacket ks payload =
     andThen (stream_Write ks (le_bytes 4 (u32 (int (length payload))))) (\<lambda>_. stream_Write ks payload)"

definition Full_ReadPacket :: "keystream \<Rightarrow> int \<Rightarrow> (ReadWriter, bytes) io" where
  "Full_ReadPacket ks maxPayloadBytes =
     andThen (stream_ReadFull ks 8) (\<lambda>header.
       let len = le_int (take 4 header) in
       if len < fullMinLen then raise (TransportError InvalidLength)
       else case checkedPayloadLength (len - fullMinLen) maxPayloadBytes of
           Inl e \<Rightarrow> raise e
         | Inr payloadLen \<Rightarrow>
             andThen (stream_ReadFull ks (nat payloadLen)) (\<lambda>payload.
             andThen (stream_ReadFull ks 4) (\<lambda>crcBuf.
               if crc32 (header @ payload) \<noteq> le_int crcBuf then raise (TransportError InvalidLength)
               else finishPacket payload)))"

definition writeFullPacket :: "keystream \<Rightarrow> int \<Rightarrow> bytes \<Rightarrow> (ReadWriter, unit) io" where
  "writeFullPacket ks seqno payload =
     (let header = le_bytes 4 (u32 (int (length payload) + 12)) @ le_bytes 4 seqno in
      andThen (stream_Write ks header) (\<lambda>_.
      andThen (stream_Write ks payload) (\<lambda>_.
      stream_Write ks (le_bytes 4 (crc32 (header @ payload))))))"

text \<open>The interface \<open>Codec\<close>; \<open>Full\<close> counts the packets it has written.\<close>

fun ReadPacket :: "keystream \<Rightarrow> Codec \<Rightarrow> int \<Rightarrow> (ReadWriter, bytes) io" where
  "ReadPacket ks (Abridged q) n = Abridged_ReadPacket ks q n"
| "ReadPacket ks (Intermediate q) n = Intermediate_ReadPacket ks q n"
| "ReadPacket ks (PaddedIntermediate q) n = PaddedIntermediate_ReadPacket ks q n"
| "ReadPacket ks (Full nxt) n = Full_ReadPacket ks n"

fun WritePacket :: "keystream \<Rightarrow> bytes \<Rightarrow> Codec \<Rightarrow> ReadWriter \<Rightarrow> (go_error + unit) \<times> Codec \<times> ReadWriter" where
  "WritePacket ks payload (Abridged q) rw = (case Abridged_WritePacket ks payload rw of (r, rw') \<Rightarrow> (r, Abridged q, rw'))"
| "WritePacket ks payload (Intermediate q) rw =
     (case Intermediate_WritePacket ks payload rw of (r, rw') \<Rightarrow> (r, Intermediate q, rw'))"
| "WritePacket ks payload (PaddedIntermediate q) rw =
     (case PaddedIntermediate_WritePacket ks payload rw of (r, rw') \<Rightarrow> (r, PaddedIntermediate q, rw'))"
| "WritePacket ks payload (Full nxt) rw =
     (case writeFullPacket ks nxt payload rw of (r, rw') \<Rightarrow> (r, Full (u32 (nxt + 1)), rw'))"

fun ProtocolTag :: "Codec \<Rightarrow> int" where
  "ProtocolTag (Abridged q) = 0xEFEFEFEF"
| "ProtocolTag (Intermediate q) = intermediateTag"
| "ProtocolTag (PaddedIntermediate q) = paddedIntermediateTag"
| "ProtocolTag (Full nxt) = 0"

section \<open>Facts about streams\<close>

lemma XOR_cancel: "(x XOR k) XOR k = (x :: byte)"
  by (simp add: xor.assoc)

lemma length_XORKeyStream [simp]: "length (fst (XORKeyStream ks c p)) = length p"
  by (simp add: XORKeyStream_def)

lemma XORKeyStream_eq_Nil [simp]: "fst (XORKeyStream ks c p) = [] \<longleftrightarrow> p = []"
  by (metis length_XORKeyStream length_0_conv)

lemma XORKeyStream_nth:
  "i < length p \<Longrightarrow> fst (XORKeyStream ks c p) ! i = p ! i XOR ks (ctrKey c) (ctrIV c) (ctrPos c + i)"
  by (simp add: XORKeyStream_def)

lemma XORKeyStream_inverse: "fst (XORKeyStream ks c (fst (XORKeyStream ks c p))) = p"
  by (rule nth_equalityI) (simp_all add: XORKeyStream_nth XOR_cancel)

lemma XORKeyStream_append:
  "XORKeyStream ks c (a @ b) =
     (fst (XORKeyStream ks c a) @ fst (XORKeyStream ks (snd (XORKeyStream ks c a)) b),
      snd (XORKeyStream ks (snd (XORKeyStream ks c a)) b))"
proof (rule prod_eqI)
  show "fst (XORKeyStream ks c (a @ b)) =
      fst (fst (XORKeyStream ks c a) @ fst (XORKeyStream ks (snd (XORKeyStream ks c a)) b),
        snd (XORKeyStream ks (snd (XORKeyStream ks c a)) b))"
    by (rule nth_equalityI) (auto simp: XORKeyStream_nth nth_append XORKeyStream_def [of _ _ a] add.commute)
qed (simp add: XORKeyStream_def add.assoc)

lemma XORKeyStream_Nil [simp]: "XORKeyStream ks c [] = ([], c)"
  by (simp add: XORKeyStream_def)

text \<open>What a stream has still to deliver, in the clear.\<close>

definition pending :: "keystream \<Rightarrow> ReadWriter \<Rightarrow> bytes" where
  "pending ks rw =
     (case decrypt rw of None \<Rightarrow> concat (source rw) | Some d \<Rightarrow> fst (XORKeyStream ks d (concat (source rw))))"

abbreviation same_output :: "ReadWriter \<Rightarrow> ReadWriter \<Rightarrow> bool" where
  "same_output rw rw' \<equiv> sink rw' = sink rw \<and> encrypt rw' = encrypt rw"

lemma stream_Read_pending:
  assumes "stream_Read ks n rw = (got, e, rw')"
  shows "pending ks rw = got @ pending ks rw' \<and> same_output rw rw' \<and> length got \<le> n \<and>
    (case e of Some e' \<Rightarrow> e' = IOError EOF \<and> got = [] \<and> pending ks rw = [] | None \<Rightarrow> 0 < n \<longrightarrow> got \<noteq> [])"
proof -
  obtain p e' src where r: "source_Read n (source rw) = (p, e', src)" by (cases "source_Read n (source rw)")
  note c = source_Read_concat [OF r]
  show ?thesis
  proof (cases "decrypt rw")
    case None
    then show ?thesis using assms r c by (auto simp: stream_Read_def pending_def split: option.splits)
  next
    case (Some d)
    then show ?thesis
      using assms r c
      by (auto simp: stream_Read_def pending_def XORKeyStream_append case_prod_unfold split: option.splits if_splits)
  qed
qed

lemma stream_ReadFull_loop_pending:
  "need \<le> length (pending ks rw) \<Longrightarrow>
     \<exists>rw'. stream_ReadFull_loop ks need acc rw = (Inr (acc @ take need (pending ks rw)), rw') \<and>
       pending ks rw' = drop need (pending ks rw) \<and> same_output rw rw'"
proof (induction ks need acc rw rule: stream_ReadFull_loop.induct)
  case (1 ks need acc rw)
  show ?case
  proof (cases "need = 0")
    case True then show ?thesis by (simp add: stream_ReadFull_loop.simps)
  next
    case False
    obtain got e rw1 where r: "stream_Read ks need rw = (got, e, rw1)" by (cases "stream_Read ks need rw")
    note p = stream_Read_pending [OF r]
    have e: "e = None" using p False "1.prems" by (auto split: option.splits)
    with p have pd: "pending ks rw = got @ pending ks rw1" "length got \<le> need" "same_output rw rw1" by auto
    have "need - length got \<le> length (pending ks rw1)" using pd(1) "1.prems" by simp
    then obtain rw' where "stream_ReadFull_loop ks (need - length got) (acc @ got) rw1 =
        (Inr ((acc @ got) @ take (need - length got) (pending ks rw1)), rw')"
        "pending ks rw' = drop (need - length got) (pending ks rw1)" "same_output rw1 rw'"
      using "1.IH" [OF False, of got "(None, rw1)" None rw1] r e by auto
    then show ?thesis using False r e pd by (simp add: stream_ReadFull_loop.simps [of ks need])
  qed
qed

lemma stream_ReadFull_loop_short:
  "length (pending ks rw) < need \<Longrightarrow>
     \<exists>rw'. stream_ReadFull_loop ks need acc rw =
       (Inl (IOError (if acc @ pending ks rw = [] then EOF else UnexpectedEOF)), rw') \<and> pending ks rw' = []"
proof (induction ks need acc rw rule: stream_ReadFull_loop.induct)
  case (1 ks need acc rw)
  have need: "need \<noteq> 0" using "1.prems" by simp
  obtain got e rw1 where r: "stream_Read ks need rw = (got, e, rw1)" by (cases "stream_Read ks need rw")
  note p = stream_Read_pending [OF r]
  show ?case
  proof (cases e)
    case None
    have "length (pending ks rw1) < need - length got" using p "1.prems" by simp
    then obtain rw' where "stream_ReadFull_loop ks (need - length got) (acc @ got) rw1 =
        (Inl (IOError (if (acc @ got) @ pending ks rw1 = [] then EOF else UnexpectedEOF)), rw')" "pending ks rw' = []"
      using "1.IH" [OF need, of got "(None, rw1)" None rw1] r None by auto
    then show ?thesis using need r None p by (auto simp: stream_ReadFull_loop.simps [of ks need])
  next
    case (Some x)
    then show ?thesis using need r p by (auto simp: stream_ReadFull_loop.simps [of ks need])
  qed
qed

section \<open>What a reader consumes and a writer produces\<close>

definition reads :: "keystream \<Rightarrow> (ReadWriter, 'a) io \<Rightarrow> bytes \<Rightarrow> 'a \<Rightarrow> bool" where
  "reads ks m bs x \<longleftrightarrow>
     (\<forall>rw rest. pending ks rw = bs @ rest \<longrightarrow>
        (\<exists>rw'. m rw = (Inr x, rw') \<and> pending ks rw' = rest \<and> same_output rw rw'))"

named_theorems read_intros \<open>what a packet reader consumes\<close>

lemma reads_ReadFull [read_intros]: "length bs = n \<Longrightarrow> reads ks (stream_ReadFull ks n) bs bs"
  unfolding reads_def stream_ReadFull_def
proof (intro allI impI)
  fix rw rest assume "length bs = n" "pending ks rw = bs @ rest"
  then show "\<exists>rw'. stream_ReadFull_loop ks n [] rw = (Inr bs, rw') \<and> pending ks rw' = rest \<and> same_output rw rw'"
    using stream_ReadFull_loop_pending [of n ks rw "[]"] by simp
qed

lemma reads_ret [read_intros]: "reads ks (ret x) [] x"
  by (simp add: reads_def)

lemma reads_andThen:
  assumes "reads ks m as x" "reads ks (f x) bs y"
  shows "reads ks (andThen m f) (as @ bs) y"
  unfolding reads_def
proof (intro allI impI)
  fix rw rest assume p: "pending ks rw = (as @ bs) @ rest"
  then obtain rw1 where "m rw = (Inr x, rw1)" "pending ks rw1 = bs @ rest" "same_output rw rw1"
    using assms(1) unfolding reads_def by (metis append_assoc)
  moreover then obtain rw2 where "f x rw1 = (Inr y, rw2)" "pending ks rw2 = rest" "same_output rw1 rw2"
    using assms(2) unfolding reads_def by metis
  ultimately show "\<exists>rw'. andThen m f rw = (Inr y, rw') \<and> pending ks rw' = rest \<and> same_output rw rw'" by auto
qed

lemma reads_last: "reads ks m bs x \<Longrightarrow> reads ks (f x) [] y \<Longrightarrow> reads ks (andThen m f) bs y"
  using reads_andThen [of ks m bs x f "[]" y] by simp

lemma stream_Write_ok [simp]: "fst (stream_Write ks b rw) = Inr ()"
  by (simp add: stream_Write_def split: option.splits prod.splits)

lemma stream_Write_append:
  "andThen (stream_Write ks a) (\<lambda>_. stream_Write ks b) = stream_Write ks (a @ b)"
  by (auto simp: fun_eq_iff stream_Write_def andThen_def XORKeyStream_append split: option.splits prod.splits)

section \<open>Packets\<close>

text \<open>The bytes of a packet, and the payloads a codec can carry under a limit.\<close>

fun packetBytes :: "Codec \<Rightarrow> bytes \<Rightarrow> bytes" where
  "packetBytes (Abridged q) p =
     (let len = int (length p) div 4 in if len < 0x7f then le_bytes 1 len else 0x7f # le_bytes 3 len) @ p"
| "packetBytes (Intermediate q) p = le_bytes 4 (int (length p)) @ p"
| "packetBytes (PaddedIntermediate q) p = le_bytes 4 (int (length p)) @ p"
| "packetBytes (Full nxt) p =
     (let h = le_bytes 4 (int (length p) + 12) @ le_bytes 4 nxt in h @ p @ le_bytes 4 (crc32 (h @ p)))"

declare packetBytes.simps [simp del]

fun needsAlignment :: "Codec \<Rightarrow> bool" where
  "needsAlignment (Abridged q) = True"
| "needsAlignment (PaddedIntermediate q) = True"
| "needsAlignment c = False"

definition packet_ok :: "Codec \<Rightarrow> int \<Rightarrow> bytes \<Rightarrow> bool" where
  "packet_ok codec maxPayloadBytes p \<longleftrightarrow> p \<noteq> [] \<and> int (length p) \<le> packetLimit maxPayloadBytes \<and>
     readTransportError p = None \<and> (needsAlignment codec \<longrightarrow> length p mod 4 = 0)"

fun advanceCodec :: "Codec \<Rightarrow> Codec" where
  "advanceCodec (Full nxt) = Full (u32 (nxt + 1))"
| "advanceCodec c = c"

lemma packetLimit_le: "packetLimit n \<le> 2 ^ 24"
  by (simp add: packetLimit_def MaxPacketPayloadBytes_def)

lemma packet_length:
  assumes "packet_ok codec n p"
  shows "0 < length p" "int (length p) \<le> packetLimit n" "int (length p) \<le> 2 ^ 24"
  using assms packetLimit_le [of n] by (auto simp: packet_ok_def)

lemma checkedPayloadLength_ok:
  "0 < k \<Longrightarrow> k \<le> packetLimit n \<Longrightarrow> checkedPayloadLength k n = Inr k"
  by (simp add: checkedPayloadLength_def)

lemma reads_finish: "packet_ok codec n p \<Longrightarrow> reads ks (finishPacket p) [] p"
  by (simp add: finishPacket_def packet_ok_def reads_def)

text \<open>A header that is read first, and a payload with it.\<close>

lemma reads_body:
  assumes "packet_ok codec n p"
  shows "reads ks (andThen (stream_ReadFull ks (length p)) finishPacket) p p"
  by (rule reads_last [where x = p]) (rule reads_ReadFull reads_finish [OF assms] refl)+

lemma Abridged_reads:
  assumes ok: "packet_ok (Abridged q) n p"
  shows "reads ks (Abridged_ReadPacket ks q n) (packetBytes (Abridged q) p) p"
proof -
  note l = packet_length [OF ok]
  define len where "len = int (length p) div 4"
  have al: "int (length p) = len * 4" "length p mod 4 = 0"
    using ok by (auto simp: packet_ok_def len_def)
  have pos: "0 < len" "len < 2 ^ 24" using l(1,3) al(1) by linarith+
  have "checkedPayloadLength (len * 4) n = Inr (len * 4)"
    using l(2) pos(1) al(1) by (intro checkedPayloadLength_ok) linarith+
  moreover have "nat (len * 4) = length p" using al(1) by linarith
  ultimately have body: "reads ks (Abridged_readPayload ks n len) p p"
    using pos(1) reads_body [OF ok] by (simp add: Abridged_readPayload_def)
  show ?thesis
  proof (cases "len < 0x7f")
    case True
    have b: "uint (word_of_int len :: byte) = len" using True pos by (simp add: uint_byte_of_int)
    have "reads ks (Abridged_ReadPacket ks q n) (le_bytes 1 len @ p) p"
      unfolding Abridged_ReadPacket_def
      by (rule reads_andThen [where x = "le_bytes 1 len"])
        (use body True pos b in \<open>simp_all add: Let_def reads_ReadFull del: ret_apply\<close>)
    then show ?thesis using True by (simp add: packetBytes.simps len_def)
  next
    case False
    have e: "le_int (le_bytes 3 len) = len" using pos by (simp add: le_int_le_bytes)
    have ext: "reads ks (andThen (stream_ReadFull ks 3) (\<lambda>ext. ret (le_int ext))) (le_bytes 3 len) len"
      by (rule reads_last [where x = "le_bytes 3 len"]) (use reads_ret [of ks len] in \<open>simp_all add: e reads_ReadFull del: ret_apply\<close>)
    have "reads ks (Abridged_ReadPacket ks q n) ([0x7f] @ le_bytes 3 len @ p) p"
      unfolding Abridged_ReadPacket_def
      by (rule reads_andThen [where x = "[0x7f]"])
        (use reads_andThen [OF ext, of "Abridged_readPayload ks n" p p] body in \<open>simp_all add: Let_def reads_ReadFull del: ret_apply\<close>)
    then show ?thesis using False by (simp add: packetBytes.simps len_def)
  qed
qed

lemma header_length: "packet_ok codec n p \<Longrightarrow> 0 \<le> k \<Longrightarrow> k \<le> 12 \<Longrightarrow>
    le_int (le_bytes 4 (int (length p) + k)) = int (length p) + k"
  using packet_length(3) [of codec n p] by (simp add: le_int_le_bytes)

lemma Intermediate_reads:
  assumes ok: "packet_ok (Intermediate q) n p"
  shows "reads ks (Intermediate_ReadPacket ks q n) (packetBytes (Intermediate q) p) p"
  unfolding Intermediate_ReadPacket_def packetBytes.simps
  by (rule reads_andThen [OF reads_ReadFull])
    (use packet_length [OF ok] header_length [OF ok, of 0] checkedPayloadLength_ok [of "int (length p)" n]
      reads_body [OF ok] in \<open>simp_all add: Let_def\<close>)

lemma PaddedIntermediate_reads:
  assumes ok: "packet_ok (PaddedIntermediate q) n p"
  shows "reads ks (PaddedIntermediate_ReadPacket ks q n) (packetBytes (PaddedIntermediate q) p) p"
proof -
  have al: "length p mod 4 = 0" "int (length p) mod 4 = 0" using ok by (auto simp: packet_ok_def)
  have "reads ks (andThen (stream_ReadFull ks (length p)) (\<lambda>payload. let pad = length payload mod 4 in
      finishPacket (if pad > 0 then take (length payload - pad) payload else payload))) p p"
    by (rule reads_last [where x = p]) (use reads_finish [OF ok] al in \<open>auto intro: reads_ReadFull\<close>)
  then show ?thesis
    unfolding PaddedIntermediate_ReadPacket_def packetBytes.simps
    by (intro reads_andThen [OF reads_ReadFull])
      (use packet_length [OF ok] header_length [OF ok, of 0] al
        checkedPayloadLength_ok [of "int (length p)" n] in \<open>simp_all add: Let_def MaxPacketPayloadBytes_def\<close>)
qed

lemma crc32_range: "in_u32 (crc32 bs)"
  using uint_lt2p [of "NOT (fold crc32_byte bs (NOT 0))"] by (simp add: crc32_def in_u32_def)

lemma Full_reads:
  assumes ok: "packet_ok (Full nxt) n p"
  shows "reads ks (Full_ReadPacket ks n) (packetBytes (Full nxt) p) p"
proof -
  let ?h = "le_bytes 4 (int (length p) + 12) @ le_bytes 4 nxt"
  let ?c = "le_bytes 4 (crc32 (?h @ p))"
  have c: "le_int ?c = crc32 (?h @ p)" using crc32_range [of "?h @ p"] by (simp add: in_u32_def)
  have "reads ks (andThen (stream_ReadFull ks 4) (\<lambda>crcBuf.
      if crc32 (?h @ p) \<noteq> le_int crcBuf then raise (TransportError InvalidLength) else finishPacket p)) ?c p"
    by (rule reads_last [where x = ?c]) (use reads_finish [OF ok] c in \<open>auto intro: reads_ReadFull\<close>)
  then have "reads ks (andThen (stream_ReadFull ks (length p)) (\<lambda>payload.
      andThen (stream_ReadFull ks 4) (\<lambda>crcBuf.
        if crc32 (?h @ payload) \<noteq> le_int crcBuf then raise (TransportError InvalidLength)
        else finishPacket payload))) (p @ ?c) p"
    by (intro reads_andThen [where x = p] reads_ReadFull refl)
  then have "reads ks (Full_ReadPacket ks n) (?h @ p @ ?c) p"
    unfolding Full_ReadPacket_def
    by (intro reads_andThen [where x = ?h])
      (use packet_length [OF ok] header_length [OF ok, of 12] checkedPayloadLength_ok [of "int (length p)" n]
        in \<open>auto simp: Let_def fullMinLen_def intro: reads_ReadFull\<close>)
  then show ?thesis by (simp add: packetBytes.simps Let_def)
qed

section \<open>The contract of a codec\<close>

text \<open>What a connection relies on: a packet is one \<open>Write\<close> of some bytes, and those bytes are read back as that
  packet, whatever follows.\<close>

locale packet_codec =
  fixes ks :: keystream
    and rd :: "int \<Rightarrow> (ReadWriter, bytes) io"
    and wr :: "bytes \<Rightarrow> (ReadWriter, unit) io"
    and enc :: "bytes \<Rightarrow> bytes"
    and ok :: "int \<Rightarrow> bytes \<Rightarrow> bool"
  assumes writes: "ok n p \<Longrightarrow> wr p = stream_Write ks (enc p)"
    and reads: "ok n p \<Longrightarrow> reads ks (rd n) (enc p) p"
begin

lemma read_sequence:
  assumes "\<forall>p \<in> set ps. ok n p" "pending ks rw = concat (map enc ps) @ rest"
  shows "\<exists>rw'. repeatM (length ps) (rd n) rw = (Inr ps, rw') \<and> pending ks rw' = rest \<and> same_output rw rw'"
  using assms
proof (induction ps arbitrary: rw)
  case (Cons p ps)
  then obtain rw1 where 1: "rd n rw = (Inr p, rw1)" "pending ks rw1 = concat (map enc ps) @ rest" "same_output rw rw1"
    using reads [of n p] unfolding reads_def by fastforce
  with Cons obtain rw2 where "repeatM (length ps) (rd n) rw1 = (Inr ps, rw2)" "pending ks rw2 = rest"
      "same_output rw1 rw2" by fastforce
  with 1 show ?case by (auto simp: andThen_def)
qed simp

end

interpretation abridged: packet_codec ks "Abridged_ReadPacket ks q" "Abridged_WritePacket ks"
  "packetBytes (Abridged q)" "packet_ok (Abridged q)" for ks q
proof
  show "Abridged_WritePacket ks p = stream_Write ks (packetBytes (Abridged q) p)"
    if "packet_ok (Abridged q) n p" for n p
    using that by (simp add: packet_ok_def packetBytes.simps Abridged_WritePacket_def Let_def stream_Write_append)
qed (rule Abridged_reads)

interpretation intermediate: packet_codec ks "Intermediate_ReadPacket ks q" "Intermediate_WritePacket ks"
  "packetBytes (Intermediate q)" "packet_ok (Intermediate q)" for ks q
proof
  show "Intermediate_WritePacket ks p = stream_Write ks (packetBytes (Intermediate q) p)"
    if "packet_ok (Intermediate q) n p" for n p
    using packet_length [OF that] by (simp add: packetBytes.simps Intermediate_WritePacket_def stream_Write_append in_u32_def)
qed (rule Intermediate_reads)

interpretation padded: packet_codec ks "PaddedIntermediate_ReadPacket ks q" "PaddedIntermediate_WritePacket ks"
  "packetBytes (PaddedIntermediate q)" "packet_ok (PaddedIntermediate q)" for ks q
proof
  show "PaddedIntermediate_WritePacket ks p = stream_Write ks (packetBytes (PaddedIntermediate q) p)"
    if "packet_ok (PaddedIntermediate q) n p" for n p
    using packet_length [OF that]
    by (simp add: packetBytes.simps PaddedIntermediate_WritePacket_def stream_Write_append in_u32_def)
qed (rule PaddedIntermediate_reads)

interpretation full: packet_codec ks "Full_ReadPacket ks" "writeFullPacket ks nxt"
  "packetBytes (Full nxt)" "packet_ok (Full nxt)" for ks nxt
proof
  show "writeFullPacket ks nxt p = stream_Write ks (packetBytes (Full nxt) p)"
    if "packet_ok (Full nxt) n p" for n p
    using packet_length [OF that]
    by (simp add: packetBytes.simps writeFullPacket_def Let_def stream_Write_append in_u32_def)
qed (rule Full_reads)

section \<open>Sequences of packets\<close>

fun WritePackets :: "keystream \<Rightarrow> bytes list \<Rightarrow> Codec \<Rightarrow> ReadWriter \<Rightarrow> (go_error + unit) \<times> Codec \<times> ReadWriter" where
  "WritePackets ks [] codec rw = (Inr (), codec, rw)"
| "WritePackets ks (p # ps) codec rw =
     (case WritePacket ks p codec rw of
        (Inl e, codec', rw') \<Rightarrow> (Inl e, codec', rw')
      | (Inr _, codec', rw') \<Rightarrow> WritePackets ks ps codec' rw')"

fun packetsBytes :: "Codec \<Rightarrow> bytes list \<Rightarrow> bytes" where
  "packetsBytes codec [] = []"
| "packetsBytes codec (p # ps) = packetBytes codec p @ packetsBytes (advanceCodec codec) ps"

lemma packet_ok_advance [simp]: "packet_ok (advanceCodec codec) n p = packet_ok codec n p"
  by (cases codec) (simp_all add: packet_ok_def)

lemma ReadPacket_advance [simp]: "ReadPacket ks (advanceCodec codec) = ReadPacket ks codec"
  by (cases codec) (simp_all add: fun_eq_iff)

lemma WritePacket_bytes:
  assumes "packet_ok codec n p"
  shows "WritePacket ks p codec rw = (Inr (), advanceCodec codec, snd (stream_Write ks (packetBytes codec p) rw))"
proof (cases codec)
  case (Abridged q)
  then show ?thesis using abridged.writes [of q n p] assms by (simp add: case_prod_unfold)
next
  case (Intermediate q)
  then show ?thesis using intermediate.writes [of q n p] assms by (simp add: case_prod_unfold)
next
  case (PaddedIntermediate q)
  then show ?thesis using padded.writes [of q n p] assms by (simp add: case_prod_unfold)
next
  case (Full nxt)
  then show ?thesis using full.writes [of nxt n p] assms by (simp add: case_prod_unfold)
qed

lemma ReadPacket_reads: "packet_ok codec n p \<Longrightarrow> reads ks (ReadPacket ks codec n) (packetBytes codec p) p"
  by (cases codec) (simp_all add: abridged.reads intermediate.reads padded.reads full.reads)

lemma stream_Write_twice:
  "snd (stream_Write ks b (snd (stream_Write ks a rw))) = snd (stream_Write ks (a @ b) rw)"
  by (simp add: stream_Write_def XORKeyStream_append case_prod_unfold split: option.splits)

lemma WritePackets_bytes:
  "\<forall>p \<in> set ps. packet_ok codec n p \<Longrightarrow>
     fst (WritePackets ks ps codec rw) = Inr () \<and>
     snd (snd (WritePackets ks ps codec rw)) = snd (stream_Write ks (packetsBytes codec ps) rw)"
proof (induction ps arbitrary: codec rw)
  case Nil
  then show ?case by (simp add: stream_Write_def split: option.splits)
next
  case (Cons p ps)
  then show ?case by (simp add: WritePacket_bytes [of codec n p] stream_Write_twice)
qed

lemma ReadPackets_reads:
  "\<forall>p \<in> set ps. packet_ok codec n p \<Longrightarrow> pending ks rw = packetsBytes codec ps @ rest \<Longrightarrow>
     \<exists>rw'. repeatM (length ps) (ReadPacket ks codec n) rw = (Inr ps, rw') \<and> pending ks rw' = rest \<and> same_output rw rw'"
proof (induction ps arbitrary: codec rw)
  case (Cons p ps)
  obtain rw1 where 1: "ReadPacket ks codec n rw = (Inr p, rw1)"
      "pending ks rw1 = packetsBytes (advanceCodec codec) ps @ rest" "same_output rw rw1"
    using ReadPacket_reads [of codec n p ks] Cons.prems unfolding reads_def by fastforce
  obtain rw2 where "repeatM (length ps) (ReadPacket ks (advanceCodec codec) n) rw1 = (Inr ps, rw2)"
      "pending ks rw2 = rest" "same_output rw1 rw2"
    using Cons.IH [OF _ 1(2)] Cons.prems(1) by auto
  with 1 show ?case by (auto simp: andThen_def)
qed simp

text \<open>What a successful read says about the input.\<close>

lemma stream_ReadFull_Inr:
  assumes "stream_ReadFull ks n rw = (Inr x, rw')"
  shows "length x = n \<and> pending ks rw = x @ pending ks rw' \<and> same_output rw rw'"
proof (cases "n \<le> length (pending ks rw)")
  case True
  then show ?thesis
    using assms stream_ReadFull_loop_pending [of n ks rw "[]"] by (auto simp: stream_ReadFull_def)
next
  case False
  then show ?thesis
    using assms stream_ReadFull_loop_short [of ks rw n "[]"] by (auto simp: stream_ReadFull_def)
qed

lemma finishPacket_Inr: "finishPacket p rw = (Inr x, rw') \<Longrightarrow> x = p \<and> rw' = rw \<and> readTransportError p = None"
  by (auto simp: finishPacket_def split: option.splits)

lemma checkedPayloadLength_Inr:
  "checkedPayloadLength k n = Inr m \<Longrightarrow> 0 \<le> k \<Longrightarrow> m = k \<and> 0 < m \<and> m \<le> packetLimit n"
  by (auto simp: checkedPayloadLength_def split: if_splits)

definition good_packet :: "keystream \<Rightarrow> int \<Rightarrow> ReadWriter \<Rightarrow> bytes \<Rightarrow> ReadWriter \<Rightarrow> bool" where
  "good_packet ks n rw p rw' \<longleftrightarrow> p \<noteq> [] \<and> int (length p) \<le> packetLimit n \<and> readTransportError p = None \<and>
     same_output rw rw' \<and> (\<exists>header trailer. pending ks rw = header @ p @ trailer @ pending ks rw')"

lemma read_payload_good:
  assumes "andThen (stream_ReadFull ks (nat m)) finishPacket rw = (Inr p, rw')" "0 < m" "m \<le> packetLimit n"
  shows "good_packet ks n rw p rw'"
proof -
  obtain x where x: "stream_ReadFull ks (nat m) rw = (Inr x, rw')" "p = x" "readTransportError x = None"
    using assms(1) by (auto simp: andThen_Inr_iff dest!: finishPacket_Inr)
  then have "pending ks rw = [] @ p @ [] @ pending ks rw'" "length p = nat m" "same_output rw rw'"
    using stream_ReadFull_Inr [OF x(1)] by auto
  then show ?thesis using x assms(2,3) unfolding good_packet_def by fastforce
qed

lemma good_packet_prefix:
  "good_packet ks n rw1 p rw' \<Longrightarrow> pending ks rw = h @ pending ks rw1 \<Longrightarrow> same_output rw rw1 \<Longrightarrow>
     good_packet ks n rw p rw'"
  unfolding good_packet_def by (metis append_assoc)

lemma Abridged_good:
  assumes "Abridged_ReadPacket ks q n rw = (Inr p, rw')"
  shows "good_packet ks n rw p rw'"
proof -
  have body: "good_packet ks n rw1 p rw'" if "Abridged_readPayload ks n len rw1 = (Inr p, rw')" "0 \<le> len" for len rw1
    using that checkedPayloadLength_Inr [of "len * 4" n] read_payload_good
    by (auto simp: Abridged_readPayload_def split: if_splits sum.splits)
  obtain first rw1 where 1: "stream_ReadFull ks 1 rw = (Inr first, rw1)"
    and 2: "(let lengthByte = uint (hd first) in
       if q \<and> lengthByte = 0x80 then
         andThen (stream_ReadFull ks 3) (\<lambda>rest. raise (TransportError (QuickAck (le_int (first @ rest)))))
       else andThen (if lengthByte = 0x7f then andThen (stream_ReadFull ks 3) (\<lambda>ext. ret (le_int ext))
          else ret (lengthByte mod 0x80)) (Abridged_readPayload ks n)) rw1 = (Inr p, rw')"
    using assms unfolding Abridged_ReadPacket_def andThen_Inr_iff by blast
  note f = stream_ReadFull_Inr [OF 1]
  have "\<exists>h rw2. pending ks rw1 = h @ pending ks rw2 \<and> same_output rw1 rw2 \<and> good_packet ks n rw2 p rw'"
  proof (cases "uint (hd first) = 0x7f")
    case True
    then obtain ext rw2 where e: "stream_ReadFull ks 3 rw1 = (Inr ext, rw2)"
        "Abridged_readPayload ks n (le_int ext) rw2 = (Inr p, rw')"
      using 2 by (auto simp: Let_def andThen_Inr_iff)
    then show ?thesis using stream_ReadFull_Inr [OF e(1)] body [OF e(2)] by auto
  next
    case False
    then have "Abridged_readPayload ks n (uint (hd first) mod 0x80) rw1 = (Inr p, rw')"
      using 2 by (auto simp: Let_def andThen_Inr_iff split: if_splits)
    then show ?thesis using body by (intro exI [of _ "[]"] exI [of _ rw1]) auto
  qed
  then show ?thesis using f good_packet_prefix by (metis append_assoc)
qed

lemma Intermediate_good:
  assumes "Intermediate_ReadPacket ks q n rw = (Inr p, rw')"
  shows "good_packet ks n rw p rw'"
proof -
  obtain h m rw1 where 1: "stream_ReadFull ks 4 rw = (Inr h, rw1)" and c: "checkedPayloadLength (le_int h) n = Inr m"
    and b: "andThen (stream_ReadFull ks (nat m)) finishPacket rw1 = (Inr p, rw')"
    using assms by (auto simp: Intermediate_ReadPacket_def andThen_Inr_iff [of "stream_ReadFull ks 4"] Let_def
        split: if_splits sum.splits)
  have "0 < m" "m \<le> packetLimit n" using checkedPayloadLength_Inr [OF c] by auto
  from read_payload_good [OF b this] show ?thesis
    using stream_ReadFull_Inr [OF 1] good_packet_prefix by blast
qed

lemma PaddedIntermediate_good:
  assumes "PaddedIntermediate_ReadPacket ks q n rw = (Inr p, rw')"
  shows "good_packet ks n rw p rw'"
proof -
  obtain h m x rw1 where 1: "stream_ReadFull ks 4 rw = (Inr h, rw1)"
    and c: "checkedPayloadLength (le_int h - le_int h mod 4) n = Inr m"
    and x: "stream_ReadFull ks (nat (le_int h)) rw1 = (Inr x, rw')"
    and p: "p = take (length x - length x mod 4) x" "readTransportError p = None"
    using assms
    by (auto simp: PaddedIntermediate_ReadPacket_def andThen_Inr_iff Let_def split: if_splits sum.splits
        dest!: finishPacket_Inr)
  have m: "m = le_int h - le_int h mod 4" "0 < m" "m \<le> packetLimit n"
    using checkedPayloadLength_Inr [OF c] zmod_le_nonneg_dividend [of "le_int h" 4] by simp_all
  note f = stream_ReadFull_Inr [OF 1] and g = stream_ReadFull_Inr [OF x]
  have "int (length p) = m"
    using g by (simp add: p m(1) of_nat_diff zmod_int)
  moreover have "pending ks rw = h @ p @ drop (length x - length x mod 4) x @ pending ks rw'"
    using f g by (simp add: p)
  ultimately show ?thesis using m f g p(2) unfolding good_packet_def by fastforce
qed

lemma Full_good:
  assumes "Full_ReadPacket ks n rw = (Inr p, rw')"
  shows "good_packet ks n rw p rw' \<and>
    (\<exists>h c. pending ks rw = h @ p @ c @ pending ks rw' \<and> length h = 8 \<and> length c = 4 \<and> crc32 (h @ p) = le_int c)"
proof -
  obtain h m c rw1 rw2 where 1: "stream_ReadFull ks 8 rw = (Inr h, rw1)"
    and l: "fullMinLen \<le> le_int (take 4 h)" and m: "checkedPayloadLength (le_int (take 4 h) - fullMinLen) n = Inr m"
    and x: "stream_ReadFull ks (nat m) rw1 = (Inr p, rw2)" and y: "stream_ReadFull ks 4 rw2 = (Inr c, rw')"
    and crc: "crc32 (h @ p) = le_int c" "readTransportError p = None"
    using assms
    by (auto simp: Full_ReadPacket_def andThen_Inr_iff Let_def not_less split: if_splits sum.splits
        dest!: finishPacket_Inr)
  note f = stream_ReadFull_Inr [OF 1] stream_ReadFull_Inr [OF x] stream_ReadFull_Inr [OF y]
  have "pending ks rw = h @ p @ c @ pending ks rw'" using f by simp
  moreover have "0 < m" "m \<le> packetLimit n" using checkedPayloadLength_Inr [OF m] l by auto
  ultimately show ?thesis using f crc unfolding good_packet_def by fastforce
qed

lemma ReadPacket_good: "ReadPacket ks codec n rw = (Inr p, rw') \<Longrightarrow> good_packet ks n rw p rw'"
  by (cases codec) (auto dest: Abridged_good Intermediate_good PaddedIntermediate_good Full_good)

section \<open>Properties\<close>

text \<open>C34. Round trip of packets.  Any sequence of acceptable payloads written through a codec, in the clear or
  encrypted, is read back unchanged by the same codec on a stream that starts from the same key stream
  position, however the bytes were cut into pieces on the way, and nothing is left over.\<close>

theorem packets_roundtrip:
  assumes ok: "\<forall>p \<in> set ps. packet_ok codec n p"
    and sent: "sink a = []" "WritePackets ks ps codec a = (r, codec', a')"
    and received: "concat (source b) = sink a'" "decrypt b = encrypt a"
  shows "r = Inr () \<and> (\<exists>b'. repeatM (length ps) (ReadPacket ks codec n) b = (Inr ps, b') \<and> pending ks b' = [])"
proof -
  have w: "r = Inr ()" "a' = snd (stream_Write ks (packetsBytes codec ps) a)"
    using WritePackets_bytes [OF ok, of ks a] sent(2) by simp_all
  have "pending ks b = packetsBytes codec ps"
    using received sent(1)
    by (auto simp: w pending_def stream_Write_def XORKeyStream_inverse case_prod_unfold split: option.splits)
  with ReadPackets_reads [OF ok, of ks b "[]"] w show ?thesis by auto
qed

definition exampleKeystream :: keystream where
  "exampleKeystream key iv i = word_of_nat (7 * i + 3)"

definition exampleRW :: "CTR option \<Rightarrow> bytes list \<Rightarrow> ReadWriter" where
  "exampleRW c pieces = \<lparr>source = pieces, sink = [], decrypt = c, encrypt = c\<rparr>"

theorem packets_roundtrip_witness:
  "let c = Some \<lparr>ctrKey = [], ctrIV = [], ctrPos = 64\<rparr>;
       (r, codec', a') = WritePackets exampleKeystream [[1, 2, 3, 4], [5, 6, 7, 8]] (Abridged False) (exampleRW c []);
       b = exampleRW c [take 3 (sink a'), drop 3 (sink a')]
   in fst (repeatM 2 (ReadPacket exampleKeystream (Abridged False) 0) b) = Inr [[1, 2, 3, 4], [5, 6, 7, 8]]"
proof -
  let ?c = "Some \<lparr>ctrKey = [], ctrIV = [], ctrPos = 64\<rparr>" and ?ps = "[[1, 2, 3, 4], [5, 6, 7, 8]] :: bytes list"
  obtain r codec' a' where w: "WritePackets exampleKeystream ?ps (Abridged False) (exampleRW ?c []) = (r, codec', a')"
    by (metis prod_cases3)
  have ok: "\<forall>p \<in> set ?ps. packet_ok (Abridged False) 0 p"
    by (simp add: packet_ok_def packetLimit_def MaxPacketPayloadBytes_def readTransportError_def wrap32_def)
  let ?b = "exampleRW ?c [take 3 (sink a'), drop 3 (sink a')]"
  have "r = Inr () \<and> (\<exists>b'. repeatM (length ?ps) (ReadPacket exampleKeystream (Abridged False) 0) ?b = (Inr ?ps, b') \<and>
      pending exampleKeystream b' = [])"
    by (rule packets_roundtrip [OF ok _ w]) (simp_all add: exampleRW_def)
  then show ?thesis
    unfolding Let_def w by (auto simp: numeral_2_eq_2 simp del: repeatM.simps ReadPacket.simps)
qed

text \<open>Bounded packets.  On any input, a packet that a codec returns is not empty, not longer than the caller's
  limit and the framework's ceiling, and not a transport error; it is a contiguous part of the input,
  and reading it has written nothing.\<close>

theorem packet_bounds:
  assumes "ReadPacket ks codec n rw = (Inr p, rw')"
  shows "p \<noteq> [] \<and> int (length p) \<le> packetLimit n \<and> packetLimit n \<le> 2 ^ 24 \<and> readTransportError p = None \<and>
    sink rw' = sink rw \<and> (\<exists>header trailer. pending ks rw = header @ p @ trailer @ pending ks rw')"
  using ReadPacket_good [OF assms] packetLimit_le unfolding good_packet_def by blast

theorem packet_bounds_witness:
  "\<exists>rw'. ReadPacket exampleKeystream (Intermediate False) 8 (exampleRW None [[4, 0, 0, 0, 1], [2, 3, 4]]) =
    (Inr [1, 2, 3, 4], rw') \<and> int (length ([1, 2, 3, 4] :: bytes)) \<le> packetLimit 8"
proof -
  let ?p = "[1, 2, 3, 4] :: bytes" and ?rw = "exampleRW None [[4, 0, 0, 0, 1], [2, 3, 4]]"
  have ok: "packet_ok (Intermediate False) 8 ?p"
    by (simp add: packet_ok_def packetLimit_def MaxPacketPayloadBytes_def readTransportError_def wrap32_def)
  have "pending exampleKeystream ?rw = packetBytes (Intermediate False) ?p @ []"
    by (simp add: pending_def exampleRW_def packetBytes.simps numeral_nat)
  then obtain rw' where r: "ReadPacket exampleKeystream (Intermediate False) 8 ?rw = (Inr ?p, rw')"
    using ReadPacket_reads [OF ok, of exampleKeystream] unfolding reads_def by blast
  from packet_bounds [OF r] r show ?thesis by blast
qed

text \<open>C35. Integrity of full packets.  What the full codec accepts carries the CRC-32 of its own length, sequence
  number and payload.\<close>

theorem full_packet_checksum:
  assumes "ReadPacket ks (Full nxt) n rw = (Inr p, rw')"
  shows "\<exists>h c. pending ks rw = h @ p @ c @ pending ks rw' \<and> length h = 8 \<and> length c = 4 \<and> crc32 (h @ p) = le_int c"
  using Full_good assms by auto

theorem full_packet_checksum_witness:
  "\<exists>rw rw'. ReadPacket exampleKeystream (Full 0) 0 rw = (Inr [1, 2, 3, 4], rw') \<and>
    (\<exists>h c. pending exampleKeystream rw = h @ [1, 2, 3, 4] @ c @ pending exampleKeystream rw' \<and>
      crc32 (h @ [1, 2, 3, 4]) = le_int c)"
proof -
  let ?p = "[1, 2, 3, 4] :: bytes" and ?rw = "exampleRW None [packetBytes (Full 0) [1, 2, 3, 4]]"
  have ok: "packet_ok (Full 0) 0 ?p"
    by (simp add: packet_ok_def packetLimit_def MaxPacketPayloadBytes_def readTransportError_def wrap32_def)
  have "pending exampleKeystream ?rw = packetBytes (Full 0) ?p @ []" by (simp add: pending_def exampleRW_def)
  then obtain rw' where r: "ReadPacket exampleKeystream (Full 0) 0 ?rw = (Inr ?p, rw')"
    using ReadPacket_reads [OF ok, of exampleKeystream] unfolding reads_def by blast
  from full_packet_checksum [OF r] r show ?thesis by blast
qed

end
