(* ===== verification/Transport_Negotiation.thy ===== *)
theory Transport_Negotiation
  imports Packet_Codec
begin

unbundle bit_operations_syntax

text \<open>
  How two peers agree on a packet codec and on a cipher: \<open>transport/negotiator.go\<close>,
  \<open>transport/obfuscated2.go\<close> and the connection of \<open>transport/mtproto_conn.go\<close>.  SHA-256 is
  a parameter \<open>sha\<close>; the results of \<open>rand.Read\<close> are an argument, the list of draws, and a loop that
  has used them all up has not returned (\<open>None\<close>).  A buffered writer is flushed after every
  message, so the sink holds what has been written.
\<close>

section \<open>Obfuscation\<close>

definition disallowedPrefixes :: "int list" where
  "disallowedPrefixes = [0x44414548, 0x54534f50, 0x20544547, 0x4954504f, 0xEEEEEEEE, 0xDDDDDDDD, 0x02010316, 0]"

definition isDisallowedHeader :: "bytes \<Rightarrow> bool" where
  "isDisallowedHeader header \<longleftrightarrow>
     length header < 4 \<or> le_int (take 4 header) \<in> set disallowedPrefixes \<or> header ! 0 = 0xef \<or>
     (length header \<ge> 8 \<and> header ! 4 = 0 \<and> header ! 5 = 0 \<and> header ! 6 = 0 \<and> header ! 7 = 0)"

record ObfuscatedStreams =
  osEncrypt :: CTR
  osDecrypt :: CTR
  osTag :: int

definition applySecret :: "(bytes \<Rightarrow> bytes) \<Rightarrow> bytes \<Rightarrow> bytes \<Rightarrow> bytes" where
  "applySecret sha key secret = (if secret = [] then key else take 32 (sha (key @ secret)))"

text \<open>\<open>aes.NewCipher\<close> accepts keys of 16, 24 and 32 bytes.\<close>

definition newCTR :: "bytes \<Rightarrow> bytes \<Rightarrow> go_error + CTR" where
  "newCTR key iv =
     (if length key \<in> {16, 24, 32} then Inr \<lparr>ctrKey = key, ctrIV = iv, ctrPos = 0\<rparr>
      else Inl (TransportError (InvalidKeySize (int (length key)))))"

definition reverseBytes :: "bytes \<Rightarrow> bytes" where
  "reverseBytes bs = map (\<lambda>i. bs ! (length bs - 1 - i)) [0..<length bs]"

fun drawInit :: "(go_error + bytes) list \<Rightarrow> (go_error + bytes) option" where
  "drawInit [] = None"
| "drawInit (Inl e # draws) = Some (Inl e)"
| "drawInit (Inr init # draws) = (if \<not> isDisallowedHeader init then Some (Inr init) else drawInit draws)"

definition clientStreams ::
  "keystream \<Rightarrow> (bytes \<Rightarrow> bytes) \<Rightarrow> int \<Rightarrow> bytes \<Rightarrow> bytes \<Rightarrow> go_error + bytes \<times> ObfuscatedStreams" where
  "clientStreams ks sha tag secret drawn =
     (let init = take 56 drawn @ le_bytes 4 tag @ drop 60 drawn;
          encryptKey = applySecret sha (slice 8 40 init) secret;
          decryptKey = applySecret sha (slice 8 40 (reverseBytes init)) secret
      in case newCTR encryptKey (slice 40 56 init) of
           Inl e \<Rightarrow> Inl e
         | Inr enc \<Rightarrow>
             (case newCTR decryptKey (slice 40 56 (reverseBytes init)) of
                Inl e \<Rightarrow> Inl e
              | Inr dec \<Rightarrow>
                  (case XORKeyStream ks enc init of
                     (encryptedInit, enc') \<Rightarrow>
                       Inr (take 56 init @ slice 56 64 encryptedInit,
                         \<lparr>osEncrypt = enc', osDecrypt = dec, osTag = tag\<rparr>))))"

definition NewClientObfuscated ::
  "keystream \<Rightarrow> (bytes \<Rightarrow> bytes) \<Rightarrow> (go_error + bytes) list \<Rightarrow> int \<Rightarrow> bytes \<Rightarrow>
     (go_error + bytes \<times> ObfuscatedStreams) option" where
  "NewClientObfuscated ks sha draws tag secret =
     map_option (\<lambda>d. case d of Inl e \<Rightarrow> Inl e | Inr init \<Rightarrow> clientStreams ks sha tag secret init) (drawInit draws)"

definition NewServerObfuscated ::
  "keystream \<Rightarrow> (bytes \<Rightarrow> bytes) \<Rightarrow> bytes \<Rightarrow> bytes \<Rightarrow> go_error + ObfuscatedStreams" where
  "NewServerObfuscated ks sha header secret =
     (if length header \<noteq> 64 then Inl (TransportError InvalidObfuscatedHeader)
      else if isDisallowedHeader header then Inl (TransportError InvalidObfuscatedHeader)
      else
        (let decryptKey = applySecret sha (slice 8 40 header) secret;
             encryptKey = applySecret sha (slice 8 40 (reverseBytes header)) secret
         in case newCTR encryptKey (slice 40 56 (reverseBytes header)) of
              Inl e \<Rightarrow> Inl e
            | Inr enc \<Rightarrow>
                (case newCTR decryptKey (slice 40 56 header) of
                   Inl e \<Rightarrow> Inl e
                 | Inr dec \<Rightarrow>
                     (case XORKeyStream ks dec header of
                        (plain, dec') \<Rightarrow>
                          Inr \<lparr>osEncrypt = enc, osDecrypt = dec', osTag = le_int (slice 56 60 plain)\<rparr>))))"

definition newObfuscatedStream :: "ObfuscatedStreams \<Rightarrow> ReadWriter \<Rightarrow> ReadWriter" where
  "newObfuscatedStream streams rw = rw\<lparr>encrypt := Some (osEncrypt streams), decrypt := Some (osDecrypt streams)\<rparr>"

section \<open>Negotiation\<close>

datatype Protocol = ProtocolUnknown | ProtocolAbridged | ProtocolIntermediate | ProtocolPaddedIntermediate | ProtocolFull

record NegotiatorConfig =
  AllowObfuscation :: bool
  RequireObfuscation :: bool
  Secret :: bytes
  ClientPreference :: Protocol

definition codecFromTag :: "int \<Rightarrow> go_error + Codec" where
  "codecFromTag tag =
     (if tag = ProtocolTag (Intermediate False) then Inr (Intermediate False)
      else if tag = ProtocolTag (PaddedIntermediate False) then Inr (PaddedIntermediate False)
      else if tag = ProtocolTag (Abridged False) then Inr (Abridged False)
      else Inl (TransportError (UnknownObfuscatedTag tag)))"

definition isPlausibleFullLength :: "int \<Rightarrow> bool" where
  "isPlausibleFullLength len \<longleftrightarrow> len \<ge> 12 \<and> len \<le> 2 ^ 24"

text \<open>\<open>acceptObfuscated\<close> and \<open>tryObfuscated\<close> have the same body.\<close>

definition acceptObfuscated ::
  "keystream \<Rightarrow> (bytes \<Rightarrow> bytes) \<Rightarrow> NegotiatorConfig \<Rightarrow> (ReadWriter, Codec) io" where
  "acceptObfuscated ks sha config =
     andThen (stream_ReadFull ks 64) (\<lambda>init.
       case NewServerObfuscated ks sha init (Secret config) of
         Inl e \<Rightarrow> raise e
       | Inr streams \<Rightarrow>
           (case codecFromTag (osTag streams) of
              Inl e \<Rightarrow> raise e
            | Inr codec \<Rightarrow> (\<lambda>rw. (Inr codec, newObfuscatedStream streams rw))))"

definition tryObfuscated ::
  "keystream \<Rightarrow> (bytes \<Rightarrow> bytes) \<Rightarrow> NegotiatorConfig \<Rightarrow> (ReadWriter, Codec) io" where
  "tryObfuscated ks sha config =
     andThen (stream_ReadFull ks 64) (\<lambda>init.
       case NewServerObfuscated ks sha init (Secret config) of
         Inl e \<Rightarrow> raise e
       | Inr streams \<Rightarrow>
           (case codecFromTag (osTag streams) of
              Inl e \<Rightarrow> raise e
            | Inr codec \<Rightarrow> (\<lambda>rw. (Inr codec, newObfuscatedStream streams rw))))"

text \<open>\<open>bufio.Reader.Peek\<close> shows bytes without consuming them; \<open>ReadByte\<close> and \<open>Discard\<close> consume.\<close>

definition bufio_Peek :: "nat \<Rightarrow> (ReadWriter, bytes) io" where
  "bufio_Peek n rw =
     (if length (concat (source rw)) < n then (Inl (IOError EOF), rw) else (Inr (take n (concat (source rw))), rw))"

definition bufio_Discard :: "keystream \<Rightarrow> nat \<Rightarrow> (ReadWriter, unit) io" where
  "bufio_Discard ks n = andThen (stream_ReadFull ks n) (\<lambda>_. ret ())"

definition Negotiate :: "keystream \<Rightarrow> (bytes \<Rightarrow> bytes) \<Rightarrow> NegotiatorConfig \<Rightarrow> (ReadWriter, Codec) io" where
  "Negotiate ks sha config =
     (if RequireObfuscation config then acceptObfuscated ks sha config
      else
        andThen (bufio_Peek 4) (\<lambda>peek.
          if peek ! 0 = 0xEF then andThen (bufio_Discard ks 1) (\<lambda>_. ret (Abridged False))
          else
            (let sig = le_int peek in
             if sig = ProtocolTag (Intermediate False)
             then andThen (bufio_Discard ks 4) (\<lambda>_. ret (Intermediate False))
             else if sig = ProtocolTag (PaddedIntermediate False)
             then andThen (bufio_Discard ks 4) (\<lambda>_. ret (PaddedIntermediate False))
             else if isPlausibleFullLength sig then ret (Full 0)
             else if AllowObfuscation config then tryObfuscated ks sha config
             else raise (TransportError InvalidObfuscatedHeader))))"

fun clientTag :: "Protocol \<Rightarrow> int option" where
  "clientTag ProtocolAbridged = Some (ProtocolTag (Abridged False))"
| "clientTag ProtocolIntermediate = Some (ProtocolTag (Intermediate False))"
| "clientTag ProtocolPaddedIntermediate = Some (ProtocolTag (PaddedIntermediate False))"
| "clientTag _ = None"

definition ClientNegotiate ::
  "keystream \<Rightarrow> (bytes \<Rightarrow> bytes) \<Rightarrow> NegotiatorConfig \<Rightarrow> (go_error + bytes) list \<Rightarrow> ReadWriter \<Rightarrow>
     ((go_error + Codec) \<times> ReadWriter) option" where
  "ClientNegotiate ks sha config draws rw =
     (if ClientPreference config = ProtocolUnknown then Some (Inl (TransportError ClientProtocol), rw)
      else if RequireObfuscation config \<or> AllowObfuscation config then
        (case clientTag (ClientPreference config) of
           None \<Rightarrow> Some (Inl (TransportError ClientProtocol), rw)
         | Some tag \<Rightarrow>
             (case NewClientObfuscated ks sha draws tag (Secret config) of
                None \<Rightarrow> None
              | Some (Inl e) \<Rightarrow> Some (Inl e, rw)
              | Some (Inr (header, streams)) \<Rightarrow>
                  Some (case stream_Write ks header rw of
                      (Inl e, rw) \<Rightarrow> (Inl e, rw)
                    | (Inr _, rw) \<Rightarrow> (codecFromTag tag, newObfuscatedStream streams rw))))
      else
        Some (case ClientPreference config of
            ProtocolAbridged \<Rightarrow> andThen (stream_Write ks [0xEF]) (\<lambda>_. ret (Abridged False)) rw
          | ProtocolIntermediate \<Rightarrow>
              andThen (stream_Write ks [0xEE, 0xEE, 0xEE, 0xEE]) (\<lambda>_. ret (Intermediate False)) rw
          | ProtocolPaddedIntermediate \<Rightarrow>
              andThen (stream_Write ks [0xDD, 0xDD, 0xDD, 0xDD]) (\<lambda>_. ret (PaddedIntermediate False)) rw
          | ProtocolFull \<Rightarrow> ret (Full 0) rw
          | ProtocolUnknown \<Rightarrow> (Inl (TransportError ClientProtocol), rw)))"

section \<open>Connections\<close>

record MTProtoConn =
  connConfig :: NegotiatorConfig
  connCodec :: "Codec option"
  connRW :: ReadWriter
  isClient :: bool

definition NewMTProtoConn :: "bytes list \<Rightarrow> NegotiatorConfig \<Rightarrow> MTProtoConn" where
  "NewMTProtoConn incoming config =
     \<lparr>connConfig = config, connCodec = None,
      connRW = \<lparr>source = incoming, sink = [], decrypt = None, encrypt = None\<rparr>, isClient = False\<rparr>"

definition NewClientMTProtoConn :: "bytes list \<Rightarrow> NegotiatorConfig \<Rightarrow> MTProtoConn" where
  "NewClientMTProtoConn incoming config = (NewMTProtoConn incoming config)\<lparr>isClient := True\<rparr>"

definition ensureNegotiated ::
  "keystream \<Rightarrow> (bytes \<Rightarrow> bytes) \<Rightarrow> (go_error + bytes) list \<Rightarrow> MTProtoConn \<Rightarrow> ((go_error + Codec) \<times> MTProtoConn) option" where
  "ensureNegotiated ks sha draws c =
     (case connCodec c of
        Some x \<Rightarrow> Some (Inr x, c)
      | None \<Rightarrow>
          (case (if isClient c then ClientNegotiate ks sha (connConfig c) draws (connRW c)
                 else Some (Negotiate ks sha (connConfig c) (connRW c))) of
             None \<Rightarrow> None
           | Some (Inl e, s) \<Rightarrow> Some (Inl e, c\<lparr>connRW := s\<rparr>)
           | Some (Inr x, s) \<Rightarrow> Some (Inr x, c\<lparr>connRW := s, connCodec := Some x\<rparr>)))"

definition isQuickAck :: "go_error + 'a \<Rightarrow> bool" where
  "isQuickAck r = (case r of Inl (TransportError (QuickAck t)) \<Rightarrow> True | _ \<Rightarrow> False)"

lemma isQuickAck_simps [simp]:
  "isQuickAck (Inl e) \<longleftrightarrow> (\<exists>t. e = TransportError (QuickAck t))" "\<not> isQuickAck (Inr x)"
  by (auto simp: isQuickAck_def split: go_error.splits transport_error.splits)

text \<open>Readers that never answer with a quick acknowledgement.\<close>

definition no_quick :: "(ReadWriter, 'a) io \<Rightarrow> bool" where
  "no_quick m \<longleftrightarrow> (\<forall>s. \<not> isQuickAck (fst (m s)))"

named_theorems quick_intros \<open>readers without quick acknowledgements\<close>

lemma no_quick_finish [quick_intros]: "no_quick (finishPacket p)"
  by (auto simp: no_quick_def finishPacket_def isQuickAck_def readTransportError_def Let_def split: option.splits if_splits)

lemma no_quick_ReadFull [quick_intros]: "no_quick (stream_ReadFull ks n)"
  unfolding no_quick_def
proof
  fix s show "\<not> isQuickAck (fst (stream_ReadFull ks n s))"
    using stream_ReadFull_loop_pending [of n ks s "[]"] stream_ReadFull_loop_short [of ks s n "[]"]
    by (cases "n \<le> length (pending ks s)") (auto simp: stream_ReadFull_def isQuickAck_def)
qed

lemma no_quick_andThen [quick_intros]: "no_quick m \<Longrightarrow> (\<And>x. no_quick (f x)) \<Longrightarrow> no_quick (andThen m f)"
  unfolding no_quick_def
proof
  fix s
  assume m: "\<forall>s. \<not> isQuickAck (fst (m s))" and f: "\<And>x. \<forall>s. \<not> isQuickAck (fst (f x s))"
  obtain r1 s1 where "m s = (r1, s1)" by fastforce
  with m [rule_format, of s] f show "\<not> isQuickAck (fst (andThen m f s))" by (cases r1) simp_all
qed

lemma no_quick_raise [quick_intros]: "\<not> isQuickAck (Inl e) \<Longrightarrow> no_quick (raise e)"
  by (simp add: no_quick_def isQuickAck_def)

lemma no_quick_ret [quick_intros]: "no_quick (ret x)"
  by (simp add: no_quick_def isQuickAck_def)

lemma no_quick_if [quick_intros]: "no_quick m \<Longrightarrow> no_quick m' \<Longrightarrow> no_quick (if b then m else m')"
  by simp

lemma no_quick_checked [quick_intros]:
  "(\<And>k. no_quick (f k)) \<Longrightarrow> no_quick (case checkedPayloadLength d n of Inl e \<Rightarrow> raise e | Inr k \<Rightarrow> f k)"
  by (auto simp: checkedPayloadLength_def isQuickAck_def intro!: quick_intros)

text \<open>A quick acknowledgement comes out of the header, which has been consumed.\<close>

lemma header_quick:
  assumes "andThen (stream_ReadFull ks n) f s = (r, s')" "isQuickAck r" "0 < n"
    and "\<And>h. (if q h then f h = raise (e h) else no_quick (f h)) \<or> (\<exists>m. f h = andThen (stream_ReadFull ks m) (\<lambda>x. raise (e (h @ x))))"
  shows "length (pending ks s') < length (pending ks s)"
proof -
  obtain r1 s1 where 1: "stream_ReadFull ks n s = (r1, s1)" by fastforce
  then obtain h where h: "r1 = Inr h" "f h s1 = (r, s')"
    using assms(1,2) no_quick_ReadFull [of ks n] unfolding no_quick_def
    by (cases r1) (auto simp: andThen_def isQuickAck_def dest!: spec [of _ s])
  note p = stream_ReadFull_Inr [OF 1 [unfolded h(1)]]
  have "length (pending ks s') \<le> length (pending ks s1)"
  proof (cases "\<exists>m. f h = andThen (stream_ReadFull ks m) (\<lambda>x. raise (e (h @ x)))")
    case True
    then obtain m where m: "f h = andThen (stream_ReadFull ks m) (\<lambda>x. raise (e (h @ x)))" by blast
    obtain r2 s2 where 2: "stream_ReadFull ks m s1 = (r2, s2)" by fastforce
    then obtain x where "r2 = Inr x" "s' = s2"
      using h(2) m assms(2) no_quick_ReadFull [of ks m] unfolding no_quick_def
      by (cases r2) (auto simp: andThen_def isQuickAck_def dest!: spec [of _ s1])
    then show ?thesis using stream_ReadFull_Inr [of ks m s1 x s2] 2 by simp
  next
    case False
    then have "s' = s1"
      using assms(4) [of h] h(2) assms(2) by (auto simp: no_quick_def split: if_splits) (metis fst_conv)
    then show ?thesis by simp
  qed
  with p assms(3) show ?thesis by auto
qed

lemma ReadPacket_quickAck:
  assumes run: "ReadPacket ks c n s = (r, s')" and r: "isQuickAck r"
  shows "length (pending ks s') < length (pending ks s)"
proof (cases c)
  case (Abridged q)
  have no: "no_quick (Abridged_readPayload ks n len)" for len
    unfolding Abridged_readPayload_def by (intro quick_intros) simp
  show ?thesis
    using run [unfolded Abridged ReadPacket.simps Abridged_ReadPacket_def Let_def] r
    by (rule header_quick [where q = "\<lambda>_. False" and e = "\<lambda>h. TransportError (QuickAck (le_int h))"])
      (auto intro!: quick_intros no)
next
  case (Intermediate q)
  show ?thesis
    using run [unfolded Intermediate ReadPacket.simps Intermediate_ReadPacket_def Let_def] r
    by (rule header_quick [where q = "\<lambda>h. le_int h \<ge> 2 ^ 31 \<and> q" and e = "\<lambda>h. TransportError (QuickAck (le_int h mod 2 ^ 31))"])
      (auto intro!: quick_intros)
next
  case (PaddedIntermediate q)
  show ?thesis
    using run [unfolded PaddedIntermediate ReadPacket.simps PaddedIntermediate_ReadPacket_def Let_def] r
    by (rule header_quick [where q = "\<lambda>h. le_int h \<ge> 2 ^ 31 \<and> q" and e = "\<lambda>h. TransportError (QuickAck (le_int h mod 2 ^ 31))"])
      (auto intro!: quick_intros)
next
  case (Full nxt)
  have "no_quick (Full_ReadPacket ks n)"
    unfolding Full_ReadPacket_def Let_def by (intro quick_intros) simp_all
  with run r Full show ?thesis by (auto simp: no_quick_def) (metis fst_conv)
qed

function readLoop :: "keystream \<Rightarrow> Codec \<Rightarrow> int \<Rightarrow> (ReadWriter, bytes) io" where
  "readLoop ks c n s =
     (case ReadPacket ks c n s of (r, s') \<Rightarrow> if isQuickAck r then readLoop ks c n s' else (r, s'))"
  by pat_completeness auto
termination
  by (relation "measure (\<lambda>(ks, c, n, s). length (pending ks s))") (auto dest: ReadPacket_quickAck [OF sym])

declare readLoop.simps [simp del]

definition ReadMessage ::
  "keystream \<Rightarrow> (bytes \<Rightarrow> bytes) \<Rightarrow> (go_error + bytes) list \<Rightarrow> int \<Rightarrow> MTProtoConn \<Rightarrow>
     ((go_error + bytes) \<times> MTProtoConn) option" where
  "ReadMessage ks sha draws maxPayloadBytes c =
     (case ensureNegotiated ks sha draws c of
        None \<Rightarrow> None
      | Some (Inl e, c) \<Rightarrow> Some (Inl e, c)
      | Some (Inr x, c) \<Rightarrow>
          (case readLoop ks x maxPayloadBytes (connRW c) of (r, s) \<Rightarrow> Some (r, c\<lparr>connRW := s\<rparr>)))"

definition WriteMessage ::
  "keystream \<Rightarrow> (bytes \<Rightarrow> bytes) \<Rightarrow> (go_error + bytes) list \<Rightarrow> bytes \<Rightarrow> MTProtoConn \<Rightarrow>
     ((go_error + unit) \<times> MTProtoConn) option" where
  "WriteMessage ks sha draws payload c =
     (case ensureNegotiated ks sha draws c of
        None \<Rightarrow> None
      | Some (Inl e, c) \<Rightarrow> Some (Inl e, c)
      | Some (Inr x, c) \<Rightarrow>
          (case WritePacket ks payload x (connRW c) of
             (r, x', s) \<Rightarrow> Some (r, c\<lparr>connCodec := Some x', connRW := s\<rparr>)))"

section \<open>The two sides of an obfuscated header\<close>

lemma reverseBytes_rev: "reverseBytes bs = rev bs"
  by (rule nth_equalityI) (simp_all add: reverseBytes_def rev_nth)

lemma slices_front:
  assumes "length a = 56"
  shows "slice 8 40 (a @ b) = slice 8 40 a" "slice 40 56 (a @ b) = slice 40 56 a"
  using assms by (simp_all add: slice_def)

lemma slices_back:
  assumes "length a = 56" "length b = 8"
  shows "slice 8 40 (reverseBytes (a @ b)) = slice 0 32 (rev a)"
    "slice 40 56 (reverseBytes (a @ b)) = slice 32 48 (rev a)"
  using assms by (simp_all add: slice_def reverseBytes_rev)

lemma isDisallowedHeader_cong:
  assumes "length h = length h'" "8 \<le> length h" "take 8 h = take 8 h'"
  shows "isDisallowedHeader h = isDisallowedHeader h'"
proof -
  have n: "h ! i = h' ! i" if "i < 8" for i using assms that by (metis nth_take)
  have "take 4 (take 8 h) = take 4 (take 8 h')" using assms by simp
  then have "take 4 h = take 4 h'" by simp
  then show ?thesis using assms n by (simp add: isDisallowedHeader_def)
qed

lemma drawInit_Inr: "drawInit draws = Some (Inr init) \<Longrightarrow> Inr init \<in> set draws \<and> \<not> isDisallowedHeader init"
  by (induction draws rule: drawInit.induct) (auto split: if_splits)

lemma obfuscated_mirror:
  assumes "clientStreams ks sha tag secret drawn = Inr (header, cs)"
    and l: "length drawn = 64" and ok: "\<not> isDisallowedHeader drawn" and tag: "in_u32 tag"
  shows "length header = 64 \<and> take 8 header = take 8 drawn \<and>
    NewServerObfuscated ks sha header secret =
      Inr \<lparr>osEncrypt = osDecrypt cs, osDecrypt = osEncrypt cs, osTag = tag\<rparr>"
proof -
  define A B where "A = take 56 drawn" and "B = le_bytes 4 tag @ drop 60 drawn"
  have len: "length A = 56" "length B = 8" using l by (simp_all add: A_def B_def)
  obtain enc dec where enc: "newCTR (applySecret sha (slice 8 40 A) secret) (slice 40 56 A) = Inr enc"
    and dec: "newCTR (applySecret sha (slice 0 32 (rev A)) secret) (slice 32 48 (rev A)) = Inr dec"
    and h: "header = A @ fst (XORKeyStream ks (snd (XORKeyStream ks enc A)) B)"
    and cs: "cs = \<lparr>osEncrypt = snd (XORKeyStream ks enc (A @ B)), osDecrypt = dec, osTag = tag\<rparr>"
    using assms(1) len
    by (auto simp: clientStreams_def Let_def A_def [symmetric] B_def [symmetric] slices_front slices_back
        case_prod_unfold XORKeyStream_append slice_def [of 56 64] split: sum.splits)
  define B' where "B' = fst (XORKeyStream ks (snd (XORKeyStream ks enc A)) B)"
  have len': "length B' = 8" using len by (simp add: B'_def)
  have t8: "take 8 header = take 8 drawn" using len by (simp add: h A_def)
  then have "\<not> isDisallowedHeader header"
    using isDisallowedHeader_cong [of header drawn] ok l len len' by (simp add: h B'_def)
  moreover have "XORKeyStream ks enc header = (fst (XORKeyStream ks enc A) @ B, snd (XORKeyStream ks enc (A @ B)))"
    unfolding h B'_def [symmetric] XORKeyStream_append
    by (simp add: B'_def XORKeyStream_inverse) (simp add: XORKeyStream_def)
  moreover have "slice 56 60 (fst (XORKeyStream ks enc A) @ B) = le_bytes 4 tag"
    using len by (simp add: slice_def B_def)
  moreover have "header = A @ B'" by (simp add: h B'_def)
  ultimately show ?thesis
    using len len' enc dec t8 tag
    by (simp add: NewServerObfuscated_def Let_def slices_front slices_back cs in_u32_def)
qed

section \<open>What the server makes of a stream\<close>

lemma pending_plain: "decrypt rw = None \<Longrightarrow> pending ks rw = concat (source rw)"
  by (simp add: pending_def)

lemma stream_ReadFull_plain: "stream_ReadFull ks n rw = (r, rw') \<Longrightarrow> decrypt rw = None \<Longrightarrow> decrypt rw' = None"
proof -
  have "stream_ReadFull_loop ks need acc rw = (r, rw') \<Longrightarrow> decrypt rw = None \<Longrightarrow> decrypt rw' = None" for need acc rw
  proof (induction ks need acc rw rule: stream_ReadFull_loop.induct)
    case (1 ks need acc rw)
    obtain got e rw1 where s: "stream_Read ks need rw = (got, e, rw1)" by (cases "stream_Read ks need rw")
    then have "decrypt rw1 = None" using "1.prems"(2) by (auto simp: stream_Read_def split: prod.splits)
    then show ?case
      using "1.IH" [of got "(None, rw1)" None rw1] "1.prems" s
      by (auto simp: stream_ReadFull_loop.simps [of ks need] split: if_splits option.splits)
  qed
  then show "stream_ReadFull ks n rw = (r, rw') \<Longrightarrow> decrypt rw = None \<Longrightarrow> decrypt rw' = None"
    by (simp add: stream_ReadFull_def)
qed

lemma Discard_reads: "length bs = n \<Longrightarrow> reads ks (bufio_Discard ks n) bs ()"
  unfolding bufio_Discard_def by (rule reads_last [where x = bs]) (auto intro: reads_ReadFull reads_ret)

lemma Discard_then:
  assumes "pending ks rw = bs @ rest" "length bs = n"
  shows "\<exists>rw'. andThen (bufio_Discard ks n) (\<lambda>_. ret codec) rw = (Inr codec, rw') \<and>
    pending ks rw' = rest \<and> same_output rw rw'"
  using Discard_reads [OF assms(2), of ks] assms(1) unfolding reads_def by (metis andThen_Inr ret_apply)

fun plainHeader :: "Codec \<Rightarrow> bytes" where
  "plainHeader (Abridged q) = [0xEF]"
| "plainHeader (Intermediate q) = [0xEE, 0xEE, 0xEE, 0xEE]"
| "plainHeader (PaddedIntermediate q) = [0xDD, 0xDD, 0xDD, 0xDD]"
| "plainHeader (Full nxt) = []"

definition full_start :: "bytes \<Rightarrow> bool" where
  "full_start bs \<longleftrightarrow> bs ! 0 \<noteq> 0xEF \<and> isPlausibleFullLength (le_int (take 4 bs))"

lemma Negotiate_plain:
  assumes cfg: "\<not> RequireObfuscation scfg" and rw: "decrypt rw = None"
    and src: "concat (source rw) = plainHeader codec @ rest" "4 \<le> length (plainHeader codec @ rest)"
    and codec: "codec \<in> {Abridged False, Intermediate False, PaddedIntermediate False, Full 0}"
    and full: "codec = Full 0 \<Longrightarrow> full_start rest"
  shows "\<exists>rw'. Negotiate ks sha scfg rw = (Inr codec, rw') \<and> pending ks rw' = rest \<and> same_output rw rw'"
proof -
  let ?bs = "plainHeader codec @ rest"
  have peek: "bufio_Peek 4 rw = (Inr (take 4 ?bs), rw)" using src by (simp add: bufio_Peek_def)
  have p: "pending ks rw = ?bs" using pending_plain [OF rw] src(1) by simp
  have n0: "take 4 ?bs ! 0 = ?bs ! 0" by (rule nth_take) simp
  show ?thesis
  proof (cases "codec = Full 0")
    case True
    then have "rest ! 0 \<noteq> 0xEF" "isPlausibleFullLength (le_int (take 4 rest))"
      using full by (auto simp: full_start_def)
    then show ?thesis
      using True cfg peek p
      by (auto simp: Negotiate_def Let_def intermediateTag_def paddedIntermediateTag_def isPlausibleFullLength_def)
  next
    case False
    have "?bs ! 0 = 0xEF \<longleftrightarrow> codec = Abridged False" using codec False by auto
    moreover have "codec = Intermediate False \<Longrightarrow> le_int (take 4 ?bs) = intermediateTag"
      "codec = PaddedIntermediate False \<Longrightarrow> le_int (take 4 ?bs) = paddedIntermediateTag"
      by (simp_all add: intermediateTag_def paddedIntermediateTag_def)
    ultimately show ?thesis
      using Discard_then [OF p, of 1 codec] Discard_then [OF p, of 4 codec] codec False cfg peek n0
      by (auto simp: Negotiate_def Let_def intermediateTag_def paddedIntermediateTag_def)
  qed
qed

lemma obfuscated_accept:
  assumes srv: "NewServerObfuscated ks sha header (Secret scfg) = Inr ss" and tag: "codecFromTag (osTag ss) = Inr codec"
    and rw: "pending ks rw = header @ rest" "decrypt rw = None" and l: "length header = 64"
  shows "\<exists>rw'. acceptObfuscated ks sha scfg rw = (Inr codec, newObfuscatedStream ss rw') \<and>
    tryObfuscated ks sha scfg rw = (Inr codec, newObfuscatedStream ss rw') \<and>
    concat (source rw') = rest \<and> sink rw' = sink rw"
proof -
  obtain rw' where r: "stream_ReadFull ks 64 rw = (Inr header, rw')" "pending ks rw' = rest" "same_output rw rw'"
    using reads_ReadFull [OF l, of ks] rw(1) unfolding reads_def by blast
  have "decrypt rw' = None" using stream_ReadFull_plain [OF r(1) rw(2)] .
  then show ?thesis
    using r srv tag by (auto simp: acceptObfuscated_def tryObfuscated_def pending_plain)
qed

section \<open>Agreement\<close>

definition obfuscates :: "NegotiatorConfig \<Rightarrow> bool" where
  "obfuscates config \<longleftrightarrow> RequireObfuscation config \<or> AllowObfuscation config"

text \<open>When a server's configuration suits a client's: if the client obfuscates, both use one secret and the
  server requires or allows obfuscation; otherwise the server does not require it.\<close>

definition compatible :: "NegotiatorConfig \<Rightarrow> NegotiatorConfig \<Rightarrow> bool" where
  "compatible ccfg scfg \<longleftrightarrow>
     (if obfuscates ccfg then Secret ccfg = Secret scfg \<and> obfuscates scfg else \<not> RequireObfuscation scfg)"

text \<open>A server that does not require obfuscation tests the first four bytes for the length of a full packet
  before it tries obfuscation.\<close>

definition mistaken_for_full :: "NegotiatorConfig \<Rightarrow> NegotiatorConfig \<Rightarrow> bytes \<Rightarrow> bool" where
  "mistaken_for_full ccfg scfg wire \<longleftrightarrow>
     obfuscates ccfg \<and> \<not> RequireObfuscation scfg \<and> isPlausibleFullLength (le_int (take 4 wire))"

lemma ClientNegotiate_plain:
  assumes "\<not> obfuscates ccfg" "ClientNegotiate ks sha ccfg draws a = Some (Inr codec, a1)" "encrypt a = None"
  shows "codec \<in> {Abridged False, Intermediate False, PaddedIntermediate False, Full 0} \<and>
    (codec = Full 0 \<longleftrightarrow> ClientPreference ccfg = ProtocolFull) \<and>
    sink a1 = sink a @ plainHeader codec \<and> encrypt a1 = None \<and> decrypt a1 = decrypt a"
  using assms
  by (cases "ClientPreference ccfg")
    (auto simp: ClientNegotiate_def obfuscates_def stream_Write_def andThen_def)

lemma codecFromTag_clientTag:
  "clientTag p = Some tag \<Longrightarrow> \<exists>codec. codecFromTag tag = Inr codec \<and> in_u32 tag \<and> codec \<noteq> Full n"
  by (cases p) (auto simp: codecFromTag_def intermediateTag_def paddedIntermediateTag_def in_u32_def)

lemma ClientNegotiate_obfuscated:
  assumes "obfuscates ccfg" "ClientNegotiate ks sha ccfg draws a = Some (Inr codec, a1)" "encrypt a = None"
    and "\<forall>init. Inr init \<in> set draws \<longrightarrow> length init = 64"
  shows "\<exists>tag drawn header cs. codecFromTag tag = Inr codec \<and> in_u32 tag \<and>
    length drawn = 64 \<and> \<not> isDisallowedHeader drawn \<and>
    clientStreams ks sha tag (Secret ccfg) drawn = Inr (header, cs) \<and>
    sink a1 = sink a @ header \<and> encrypt a1 = Some (osEncrypt cs) \<and> decrypt a1 = Some (osDecrypt cs)"
proof -
  have pref: "ClientPreference ccfg \<noteq> ProtocolUnknown"
    using assms(2) by (auto simp: ClientNegotiate_def)
  then obtain tag where tag: "clientTag (ClientPreference ccfg) = Some tag"
    using assms(1,2) by (auto simp: ClientNegotiate_def obfuscates_def split: option.splits)
  then obtain d where d: "NewClientObfuscated ks sha draws tag (Secret ccfg) = Some d"
    using assms(1,2) pref by (auto simp: ClientNegotiate_def obfuscates_def split: option.splits)
  with tag obtain header cs where h: "d = Inr (header, cs)"
    using assms(1,2) pref by (cases d) (auto simp: ClientNegotiate_def obfuscates_def)
  from d h obtain drawn where dr: "drawInit draws = Some (Inr drawn)"
      "clientStreams ks sha tag (Secret ccfg) drawn = Inr (header, cs)"
    by (auto simp: NewClientObfuscated_def split: sum.splits) (metis sum.exhaust)
  have "codecFromTag tag = Inr codec" "a1 = newObfuscatedStream cs (a\<lparr>sink := sink a @ header\<rparr>)"
    using assms(1,2,3) pref tag d h by (auto simp: ClientNegotiate_def obfuscates_def stream_Write_def)
  then show ?thesis
    using dr drawInit_Inr [OF dr(1)] assms(4) codecFromTag_clientTag [OF tag]
    by (intro exI [of _ tag] exI [of _ drawn] exI [of _ header] exI [of _ cs])
      (simp add: newObfuscatedStream_def)
qed

text \<open>Messages every codec can carry.\<close>

definition frame_ok :: "int \<Rightarrow> bytes \<Rightarrow> bool" where
  "frame_ok n p \<longleftrightarrow> p \<noteq> [] \<and> length p mod 4 = 0 \<and> int (length p) \<le> packetLimit n \<and> readTransportError p = None"

lemma frame_packet_ok: "frame_ok n p \<Longrightarrow> packet_ok c n p"
  by (simp add: frame_ok_def packet_ok_def)

lemma frame_length: "frame_ok n p \<Longrightarrow> 4 \<le> length p"
  by (cases "length p < 4") (auto simp: frame_ok_def)

lemma full_start_packet:
  assumes "frame_ok n p" "length p + 12 \<le> 2 ^ 24"
  shows "full_start (packetBytes (Full 0) p @ rest)"
proof -
  let ?l = "int (length p) + 12"
  have l: "le_int (le_bytes 4 ?l) = ?l" using assms(2) by simp
  have "int (length p) mod 4 = 0" using assms(1) by (auto simp: frame_ok_def)
  then have "?l mod 256 mod 4 = 0" by (simp add: mod_mod_cancel) presburger
  then have "uint (word_of_int ?l :: byte) mod 4 = 0" by (simp only: uint_byte_of_int)
  moreover have "uint (0xEF :: byte) mod 4 \<noteq> 0" by simp
  ultimately have "(word_of_int ?l :: byte) \<noteq> 0xEF" by metis
  moreover have "(4 :: nat) = Suc 3" by simp
  then have "le_bytes 4 ?l = word_of_int ?l # le_bytes 3 (?l div 256)" by (simp only: le_bytes.simps)
  then have "(packetBytes (Full 0) p @ rest) ! 0 = word_of_int ?l"
      "take 4 (packetBytes (Full 0) p @ rest) = le_bytes 4 ?l"
    by (simp_all add: packetBytes.simps Let_def)
  ultimately show ?thesis
    using l assms(2) by (simp add: full_start_def isPlausibleFullLength_def)
qed

fun writeMessages ::
  "keystream \<Rightarrow> (bytes \<Rightarrow> bytes) \<Rightarrow> (go_error + bytes) list \<Rightarrow> bytes list \<Rightarrow> MTProtoConn \<Rightarrow>
     ((go_error + unit) \<times> MTProtoConn) option" where
  "writeMessages ks sha draws [] c = Some (Inr (), c)"
| "writeMessages ks sha draws (p # ps) c =
     (case WriteMessage ks sha draws p c of
        None \<Rightarrow> None | Some (Inl e, c) \<Rightarrow> Some (Inl e, c) | Some (Inr _, c) \<Rightarrow> writeMessages ks sha draws ps c)"

fun readMessages ::
  "keystream \<Rightarrow> (bytes \<Rightarrow> bytes) \<Rightarrow> (go_error + bytes) list \<Rightarrow> int \<Rightarrow> nat \<Rightarrow> MTProtoConn \<Rightarrow>
     ((go_error + bytes list) \<times> MTProtoConn) option" where
  "readMessages ks sha draws n 0 c = Some (Inr [], c)"
| "readMessages ks sha draws n (Suc k) c =
     (case ReadMessage ks sha draws n c of
        None \<Rightarrow> None
      | Some (Inl e, c) \<Rightarrow> Some (Inl e, c)
      | Some (Inr p, c) \<Rightarrow>
          (case readMessages ks sha draws n k c of
             None \<Rightarrow> None
           | Some (Inl e, c) \<Rightarrow> Some (Inl e, c)
           | Some (Inr ps, c) \<Rightarrow> Some (Inr (p # ps), c)))"

lemma writeMessages_negotiated:
  assumes "connCodec c = Some x" "\<forall>p \<in> set ps. frame_ok n p"
  shows "\<exists>c'. writeMessages ks sha draws ps c = Some (Inr (), c') \<and>
    connRW c' = snd (stream_Write ks (packetsBytes x ps) (connRW c))"
  using assms
proof (induction ps arbitrary: c x)
  case Nil
  then show ?case by (simp add: stream_Write_def split: option.splits)
next
  case (Cons p ps)
  let ?c = "c\<lparr>connCodec := Some (advanceCodec x), connRW := snd (stream_Write ks (packetBytes x p) (connRW c))\<rparr>"
  have "WriteMessage ks sha draws p c = Some (Inr (), ?c)"
    using Cons.prems WritePacket_bytes [OF frame_packet_ok, of n p ks x]
    by (simp add: WriteMessage_def ensureNegotiated_def)
  moreover obtain c' where "writeMessages ks sha draws ps ?c = Some (Inr (), c')"
      "connRW c' = snd (stream_Write ks (packetsBytes (advanceCodec x) ps) (connRW ?c))"
    using Cons.IH [of ?c "advanceCodec x"] Cons.prems(2) by auto
  ultimately show ?case by (simp add: stream_Write_twice)
qed

lemma readLoop_reads: "packet_ok c n p \<Longrightarrow> reads ks (readLoop ks c n) (packetBytes c p) p"
  unfolding reads_def
proof (intro allI impI)
  fix s rest assume "packet_ok c n p" "pending ks s = packetBytes c p @ rest"
  then obtain s' where "ReadPacket ks c n s = (Inr p, s')" "pending ks s' = rest" "same_output s s'"
    using ReadPacket_reads unfolding reads_def by blast
  then show "\<exists>s'. readLoop ks c n s = (Inr p, s') \<and> pending ks s' = rest \<and> same_output s s'"
    by (simp add: readLoop.simps)
qed

lemma readLoop_advance: "readLoop ks (advanceCodec c) n = readLoop ks c n"
proof
  fix s show "readLoop ks (advanceCodec c) n s = readLoop ks c n s"
  proof (induction ks c n s rule: readLoop.induct)
    case (1 ks c n s)
    obtain r s' where r: "ReadPacket ks c n s = (r, s')" by fastforce
    then show ?case using "1.IH" [of r s'] by (simp add: readLoop.simps [of _ _ _ s])
  qed
qed

lemma readMessages_negotiated:
  assumes "connCodec c = Some x" "\<forall>p \<in> set ps. frame_ok n p" "pending ks (connRW c) = packetsBytes x ps @ rest"
  shows "\<exists>c'. readMessages ks sha draws n (length ps) c = Some (Inr ps, c') \<and>
    pending ks (connRW c') = rest \<and> same_output (connRW c) (connRW c')"
proof -
  have "\<exists>c'. readMessages ks sha draws n (length ps) c = Some (Inr ps, c') \<and>
      pending ks (connRW c') = rest \<and> same_output (connRW c) (connRW c')"
    if "connCodec c = Some x" "\<forall>p \<in> set ps. frame_ok n p" "pending ks (connRW c) = packetsBytes y ps @ rest"
      "readLoop ks y = readLoop ks x" for c y
    using that
  proof (induction ps arbitrary: c y)
    case (Cons p ps)
    obtain s' where s': "readLoop ks y n (connRW c) = (Inr p, s')"
        "pending ks s' = packetsBytes (advanceCodec y) ps @ rest" "same_output (connRW c) s'"
      using readLoop_reads [OF frame_packet_ok, of n p ks y] Cons.prems unfolding reads_def by fastforce
    let ?c = "c\<lparr>connRW := s'\<rparr>"
    have "ReadMessage ks sha draws n c = Some (Inr p, ?c)"
      using Cons.prems s' by (simp add: ReadMessage_def ensureNegotiated_def)
    moreover obtain c' where "readMessages ks sha draws n (length ps) ?c = Some (Inr ps, c')"
        "pending ks (connRW c') = rest" "same_output (connRW ?c) (connRW c')"
      using Cons.IH [of ?c "advanceCodec y"] Cons.prems s'(2) readLoop_advance
      by (auto simp: fun_eq_iff)
    ultimately show ?case using s'(3) by auto
  qed simp
  from this [OF assms refl] show ?thesis .
qed

lemma writeMessages_first:
  assumes "connCodec c = None" "isClient c" "ClientNegotiate ks sha (connConfig c) draws (connRW c) = Some (Inr x, a)"
    and "ps \<noteq> []"
  shows "writeMessages ks sha draws ps c = writeMessages ks sha draws ps (c\<lparr>connRW := a, connCodec := Some x\<rparr>)"
  using assms by (cases ps) (simp_all add: WriteMessage_def ensureNegotiated_def)

lemma writeMessages_client:
  assumes "writeMessages ks sha draws ps (NewClientMTProtoConn incoming ccfg) = Some (Inr (), c)" "ps \<noteq> []"
    and ok: "\<forall>p \<in> set ps. frame_ok n p"
  shows "\<exists>x a. ClientNegotiate ks sha ccfg draws (connRW (NewClientMTProtoConn incoming ccfg)) = Some (Inr x, a) \<and>
    connRW c = snd (stream_Write ks (packetsBytes x ps) a)"
proof -
  let ?c = "NewClientMTProtoConn incoming ccfg"
  obtain p qs where ps: "ps = p # qs" using assms(2) by (cases ps) auto
  have c: "connCodec ?c = None" "isClient ?c" "connConfig ?c = ccfg"
    by (simp_all add: NewClientMTProtoConn_def NewMTProtoConn_def)
  obtain x a where x: "ClientNegotiate ks sha ccfg draws (connRW ?c) = Some (Inr x, a)"
    using assms(1) c by (auto simp: ps WriteMessage_def ensureNegotiated_def split: option.splits sum.splits prod.splits)
  have "writeMessages ks sha draws ps (?c\<lparr>connRW := a, connCodec := Some x\<rparr>) = Some (Inr (), c)"
    using writeMessages_first [OF c(1,2) _ assms(2)] x c(3) assms(1) by simp
  then show ?thesis
    using x writeMessages_negotiated [of "?c\<lparr>connRW := a, connCodec := Some x\<rparr>" x ps n ks sha draws] ok by auto
qed

lemma readMessages_server:
  assumes neg: "Negotiate ks sha scfg (connRW (NewMTProtoConn pieces scfg)) = (Inr x, b)" and "ps \<noteq> []"
    and ok: "\<forall>p \<in> set ps. frame_ok n p" and p: "pending ks b = packetsBytes x ps"
  shows "\<exists>s. readMessages ks sha [] n (length ps) (NewMTProtoConn pieces scfg) = Some (Inr ps, s) \<and>
    pending ks (connRW s) = [] \<and> encrypt (connRW s) = encrypt b"
proof -
  let ?s = "NewMTProtoConn pieces scfg"
  have c: "connCodec ?s = None" "\<not> isClient ?s" "connConfig ?s = scfg" by (simp_all add: NewMTProtoConn_def)
  obtain m where m: "length ps = Suc m" using assms(2) by (cases ps) auto
  have "readMessages ks sha [] n (length ps) ?s = readMessages ks sha [] n (length ps) (?s\<lparr>connRW := b, connCodec := Some x\<rparr>)"
    unfolding m using neg c by (simp add: ReadMessage_def ensureNegotiated_def)
  then show ?thesis
    using readMessages_negotiated [of "?s\<lparr>connRW := b, connCodec := Some x\<rparr>" x ps n ks "[]" sha "[]"] ok p by auto
qed

lemma Negotiate_obfuscated:
  assumes cl: "clientStreams ks sha tag secret drawn = Inr (header, cs)" and l: "length drawn = 64"
    and ok: "\<not> isDisallowedHeader drawn" and tag: "in_u32 tag" and codec: "codecFromTag tag = Inr x"
    and cfg: "Secret scfg = secret"
      "RequireObfuscation scfg \<or> AllowObfuscation scfg \<and> \<not> isPlausibleFullLength (le_int (take 4 (header @ rest)))"
    and s: "decrypt s = None" "concat (source s) = header @ rest"
  shows "\<exists>b. Negotiate ks sha scfg s = (Inr x, b) \<and> concat (source b) = rest \<and>
    decrypt b = Some (osEncrypt cs) \<and> encrypt b = Some (osDecrypt cs)"
proof -
  let ?ss = "\<lparr>osEncrypt = osDecrypt cs, osDecrypt = osEncrypt cs, osTag = tag\<rparr>"
  note m = obfuscated_mirror [OF cl l ok tag]
  have p: "pending ks s = header @ rest" using s by (simp add: pending_plain)
  obtain b where b: "acceptObfuscated ks sha scfg s = (Inr x, newObfuscatedStream ?ss b)"
      "tryObfuscated ks sha scfg s = (Inr x, newObfuscatedStream ?ss b)" "concat (source b) = rest"
    using obfuscated_accept [OF _ _ p s(1), of sha scfg ?ss x] m cfg(1) codec by auto
  have d: "\<not> isDisallowedHeader header"
    using isDisallowedHeader_cong [of header drawn] m ok l by simp
  have "Negotiate ks sha scfg s = (Inr x, newObfuscatedStream ?ss b)"
  proof (cases "RequireObfuscation scfg")
    case True
    then show ?thesis using b(1) by (simp add: Negotiate_def)
  next
    case False
    have peek: "bufio_Peek 4 s = (Inr (take 4 header), s)" "take 4 header ! 0 = header ! 0"
      using s(2) m by (simp_all add: bufio_Peek_def)
    have "le_int (take 4 header) \<notin> {0xEEEEEEEE, 0xDDDDDDDD}" "header ! 0 \<noteq> 0xEF"
      using d by (auto simp: isDisallowedHeader_def disallowedPrefixes_def)
    then show ?thesis
      using False cfg(2) b(2) peek m
      by (simp add: Negotiate_def Let_def intermediateTag_def paddedIntermediateTag_def)
  qed
  then show ?thesis using b(3) by (simp add: newObfuscatedStream_def)
qed

section \<open>Properties\<close>

text \<open>C11. End to end.  A client writes a non-empty sequence of packets, each of them non-empty, a multiple of
  four bytes long, within the payload limit and not a four-byte error code, over any of the four framings, in the clear or
  obfuscated with any key stream and secret.  The server's configuration is compatible: the same secret and obfuscation allowed
  or required if the client obfuscates, obfuscation not required otherwise.  If the server allows obfuscation
  without requiring it, the first four bytes the client drew are not a plausible full length; in the clear the first
  packet of the full framing is at most 2^24 - 12 bytes long.  Then the server recognises the framing and the cipher from the
  first bytes and reads exactly those packets, however the network cut the bytes up; and it will encrypt its
  replies from the very state from which the client will decrypt them.\<close>

theorem end_to_end:
  assumes ok: "ps \<noteq> []" "\<forall>p \<in> set ps. frame_ok n p"
    and draws: "\<forall>init. Inr init \<in> set draws \<longrightarrow> length init = 64"
    and client: "writeMessages ks sha draws ps (NewClientMTProtoConn incoming ccfg) = Some (Inr (), c)"
    and server: "concat pieces = sink (connRW c)" "compatible ccfg scfg" "\<not> mistaken_for_full ccfg scfg (sink (connRW c))"
    and first: "\<not> obfuscates ccfg \<Longrightarrow> ClientPreference ccfg = ProtocolFull \<Longrightarrow> length (hd ps) + 12 \<le> 2 ^ 24"
  shows "\<exists>s. readMessages ks sha [] n (length ps) (NewMTProtoConn pieces scfg) = Some (Inr ps, s) \<and>
    pending ks (connRW s) = [] \<and> encrypt (connRW s) = decrypt (connRW c)"
proof -
  let ?a = "connRW (NewClientMTProtoConn incoming ccfg)" and ?b = "connRW (NewMTProtoConn pieces scfg)"
  obtain x a where neg: "ClientNegotiate ks sha ccfg draws ?a = Some (Inr x, a)"
    and c: "connRW c = snd (stream_Write ks (packetsBytes x ps) a)"
    using writeMessages_client [OF client ok] by blast
  have a0: "encrypt ?a = None" "sink ?a = []" "decrypt ?a = None"
    by (simp_all add: NewClientMTProtoConn_def NewMTProtoConn_def)
  have b0: "decrypt ?b = None" "encrypt ?b = None" "source ?b = pieces" by (simp_all add: NewMTProtoConn_def)
  obtain p qs where ps: "ps = p # qs" using ok(1) by (cases ps) auto
  have len: "4 \<le> length (packetsBytes x ps)"
    using frame_length [of n p] ok(2) by (cases x) (simp_all add: ps packetBytes.simps Let_def)
  show ?thesis
  proof (cases "obfuscates ccfg")
    case False
    note pl = ClientNegotiate_plain [OF False neg a0(1)]
    have s: "sink (connRW c) = plainHeader x @ packetsBytes x ps" "decrypt (connRW c) = None"
      using pl a0 by (simp_all add: c stream_Write_def)
    have "full_start (packetsBytes x ps)" if "x = Full 0"
      using that full_start_packet [of n p] ok(2) first False pl by (auto simp: ps)
    then obtain b where b: "Negotiate ks sha scfg ?b = (Inr x, b)" "pending ks b = packetsBytes x ps" "same_output ?b b"
      using Negotiate_plain [of scfg ?b x "packetsBytes x ps"] False server s(1) pl b0 len
      by (auto simp: compatible_def)
    show ?thesis using readMessages_server [OF b(1) ok b(2)] b(3) b0 s(2) by auto
  next
    case True
    obtain tag drawn header cs where h: "codecFromTag tag = Inr x" "in_u32 tag" "length drawn = 64"
        "\<not> isDisallowedHeader drawn" "clientStreams ks sha tag (Secret ccfg) drawn = Inr (header, cs)"
        "sink a = header" "encrypt a = Some (osEncrypt cs)" "decrypt a = Some (osDecrypt cs)"
      using ClientNegotiate_obfuscated [OF True neg a0(1) draws] a0(2) by auto
    let ?cipher = "fst (XORKeyStream ks (osEncrypt cs) (packetsBytes x ps))"
    have s: "sink (connRW c) = header @ ?cipher" "decrypt (connRW c) = Some (osDecrypt cs)"
      using h by (simp_all add: c stream_Write_def case_prod_unfold)
    obtain b where b: "Negotiate ks sha scfg ?b = (Inr x, b)" "concat (source b) = ?cipher"
        "decrypt b = Some (osEncrypt cs)" "encrypt b = Some (osDecrypt cs)"
      using Negotiate_obfuscated [OF h(5,3,4,2,1), of scfg ?cipher ?b] True server s(1) b0
      by (auto simp: compatible_def mistaken_for_full_def obfuscates_def [of scfg])
    have "pending ks b = packetsBytes x ps" using b by (simp add: pending_def XORKeyStream_inverse)
    from readMessages_server [OF b(1) ok this] b(4) s(2) show ?thesis by auto
  qed
qed

definition exampleInit :: bytes where
  "exampleInit = [0x11, 0x11, 0x11, 0x11, 0x11, 0x11, 0x11, 0x11] @ replicate 56 0x11"

definition exampleObfuscated :: NegotiatorConfig where
  "exampleObfuscated = \<lparr>AllowObfuscation = True, RequireObfuscation = False, Secret = [],
     ClientPreference = ProtocolIntermediate\<rparr>"

lemma exampleInit_allowed: "length exampleInit = 64" "drawInit [Inr exampleInit] = Some (Inr exampleInit)"
  by (simp_all add: exampleInit_def isDisallowedHeader_def disallowedPrefixes_def)

lemma client_writes:
  assumes "length drawn = 64" "drawInit [Inr drawn] = Some (Inr drawn)" "\<forall>p \<in> set ps. frame_ok n p" "ps \<noteq> []"
  shows "\<exists>c. writeMessages ks sha [Inr drawn] ps (NewClientMTProtoConn [] exampleObfuscated) = Some (Inr (), c) \<and>
    take 4 (sink (connRW c)) = take 4 drawn"
proof -
  let ?c = "NewClientMTProtoConn [] exampleObfuscated" and ?tag = "ProtocolTag (Intermediate False)"
  have c: "connCodec ?c = None" "isClient ?c" "connConfig ?c = exampleObfuscated" "encrypt (connRW ?c) = None"
      "sink (connRW ?c) = []"
    by (simp_all add: NewClientMTProtoConn_def NewMTProtoConn_def)
  obtain header cs where h: "clientStreams ks sha ?tag [] drawn = Inr (header, cs)" "take 4 header = take 4 drawn"
    "length header = 64"
    using assms(1)
    by (simp add: clientStreams_def Let_def applySecret_def newCTR_def slice_def reverseBytes_rev case_prod_unfold)
  obtain a where a: "ClientNegotiate ks sha exampleObfuscated [Inr drawn] (connRW ?c) = Some (Inr (Intermediate False), a)"
      "sink a = header" "encrypt a = Some (osEncrypt cs)"
    using h(1) assms(2) c
    by (simp add: ClientNegotiate_def exampleObfuscated_def NewClientObfuscated_def stream_Write_def codecFromTag_def
        newObfuscatedStream_def)
  obtain c' where "writeMessages ks sha [Inr drawn] ps ?c = Some (Inr (), c')"
      "connRW c' = snd (stream_Write ks (packetsBytes (Intermediate False) ps) a)"
    using writeMessages_first [OF c(1,2) _ assms(4)] c(3) a(1)
      writeMessages_negotiated [of "?c\<lparr>connRW := a, connCodec := Some (Intermediate False)\<rparr>" "Intermediate False" ps n ks sha
        "[Inr drawn]"] assms(3)
    by auto
  then show ?thesis using a h by (simp add: stream_Write_def case_prod_unfold)
qed

lemma example_frame: "frame_ok 0 [1, 2, 3, 4]"
  by (simp add: frame_ok_def packetLimit_def MaxPacketPayloadBytes_def readTransportError_def wrap32_def)

theorem end_to_end_witness:
  "\<exists>c s. writeMessages exampleKeystream id [Inr exampleInit] [[1, 2, 3, 4]]
      (NewClientMTProtoConn [] exampleObfuscated) = Some (Inr (), c) \<and>
    readMessages exampleKeystream id [] 0 1
      (NewMTProtoConn [take 10 (sink (connRW c)), drop 10 (sink (connRW c))] exampleObfuscated) =
      Some (Inr [[1, 2, 3, 4]], s)"
proof -
  have ok: "[[1, 2, 3, 4]] \<noteq> ([] :: bytes list)" "\<forall>p \<in> set [[1, 2, 3, 4]]. frame_ok 0 p"
    using example_frame by simp_all
  obtain c where c: "writeMessages exampleKeystream id [Inr exampleInit] [[1, 2, 3, 4]]
      (NewClientMTProtoConn [] exampleObfuscated) = Some (Inr (), c)"
      "take 4 (sink (connRW c)) = take 4 exampleInit"
    using client_writes [OF exampleInit_allowed ok(2,1)] by blast
  have d: "\<forall>init. Inr init \<in> set [Inr exampleInit] \<longrightarrow> length init = 64" using exampleInit_allowed(1) by simp
  have "le_int (take 4 exampleInit) = 0x11111111" by (simp add: exampleInit_def)
  then have "compatible exampleObfuscated exampleObfuscated"
      "\<not> mistaken_for_full exampleObfuscated exampleObfuscated (sink (connRW c))"
    using c(2) by (simp_all add: compatible_def mistaken_for_full_def obfuscates_def exampleObfuscated_def
        isPlausibleFullLength_def)
  from end_to_end [OF ok d c(1) _ this, of "[take 10 (sink (connRW c)), drop 10 (sink (connRW c))]"] c(1)
  show ?thesis by auto
qed

text \<open>C36. Let a client obfuscate, with whatever configuration, key stream and secret, and let the server not
  require obfuscation.  Whenever the first four bytes on the wire lie between 12 and 2^24, the server takes them for
  the length of a full packet and consumes nothing, although the client speaks another framing, whatever
  acceptable packets it writes.  Some headers that pass the client's filter start like that.\<close>

theorem obfuscated_header_taken_for_full:
  assumes ok: "ps \<noteq> []" "\<forall>p \<in> set ps. frame_ok n p"
    and draws: "\<forall>init. Inr init \<in> set draws \<longrightarrow> length init = 64"
    and client: "writeMessages ks sha draws ps (NewClientMTProtoConn incoming ccfg) = Some (Inr (), c)"
    and server: "concat pieces = sink (connRW c)" "mistaken_for_full ccfg scfg (sink (connRW c))"
  shows "Negotiate ks sha scfg (connRW (NewMTProtoConn pieces scfg)) = (Inr (Full 0), connRW (NewMTProtoConn pieces scfg)) \<and>
    (\<exists>x a. ClientNegotiate ks sha ccfg draws (connRW (NewClientMTProtoConn incoming ccfg)) = Some (Inr x, a) \<and>
       x \<in> {Abridged False, Intermediate False, PaddedIntermediate False}) \<and>
    (\<exists>drawn. length drawn = 64 \<and> \<not> isDisallowedHeader drawn \<and> isPlausibleFullLength (le_int (take 4 drawn)))"
proof -
  let ?a = "connRW (NewClientMTProtoConn incoming ccfg)" and ?b = "connRW (NewMTProtoConn pieces scfg)"
  have obf: "obfuscates ccfg" "\<not> RequireObfuscation scfg" and sig: "isPlausibleFullLength (le_int (take 4 (sink (connRW c))))"
    using server(2) by (simp_all add: mistaken_for_full_def)
  obtain x a where neg: "ClientNegotiate ks sha ccfg draws ?a = Some (Inr x, a)"
    and c: "connRW c = snd (stream_Write ks (packetsBytes x ps) a)"
    using writeMessages_client [OF client ok] by blast
  have a0: "encrypt ?a = None" "sink ?a = []" by (simp_all add: NewClientMTProtoConn_def NewMTProtoConn_def)
  obtain tag drawn header cs where h: "codecFromTag tag = Inr x" "in_u32 tag" "length drawn = 64"
      "\<not> isDisallowedHeader drawn" "clientStreams ks sha tag (Secret ccfg) drawn = Inr (header, cs)"
      "sink a = header" "encrypt a = Some (osEncrypt cs)"
    using ClientNegotiate_obfuscated [OF obf(1) neg a0(1) draws] a0(2) by auto
  note m = obfuscated_mirror [OF h(5,3,4,2)]
  have d: "\<not> isDisallowedHeader header" using isDisallowedHeader_cong [of header drawn] m h(3,4) by simp
  have s: "concat pieces = header @ fst (XORKeyStream ks (osEncrypt cs) (packetsBytes x ps))"
    using server(1) h by (simp add: c stream_Write_def case_prod_unfold)
  have four: "take 4 (concat pieces) = take 4 header" "\<not> length (concat pieces) < 4" "take 4 header ! 0 = header ! 0"
    using s m by simp_all
  have "le_int (take 4 header) \<notin> {0xEEEEEEEE, 0xDDDDDDDD}" "header ! 0 \<noteq> 0xEF"
    using d by (auto simp: isDisallowedHeader_def disallowedPrefixes_def)
  then have "Negotiate ks sha scfg ?b = (Inr (Full 0), ?b)"
    using four sig obf(2) server(1)
    by (simp add: Negotiate_def bufio_Peek_def NewMTProtoConn_def Let_def intermediateTag_def paddedIntermediateTag_def
        andThen_def)
  moreover have "x \<in> {Abridged False, Intermediate False, PaddedIntermediate False}"
    using h(1) by (auto simp: codecFromTag_def split: if_splits)
  moreover have "length ([1, 1, 1, 0, 1, 1, 1, 1] @ replicate 56 0x11 :: bytes) = 64 \<and>
      \<not> isDisallowedHeader ([1, 1, 1, 0, 1, 1, 1, 1] @ replicate 56 0x11) \<and>
      isPlausibleFullLength (le_int (take 4 ([1, 1, 1, 0, 1, 1, 1, 1] @ replicate 56 0x11)))"
    by (simp add: isDisallowedHeader_def disallowedPrefixes_def isPlausibleFullLength_def)
  ultimately show ?thesis using neg by blast
qed

theorem obfuscated_header_taken_for_full_witness:
  "\<exists>c. writeMessages exampleKeystream id [Inr ([1, 1, 1, 0, 1, 1, 1, 1] @ replicate 56 0x11)] [[1, 2, 3, 4]]
      (NewClientMTProtoConn [] exampleObfuscated) = Some (Inr (), c) \<and>
    Negotiate exampleKeystream id exampleObfuscated (connRW (NewMTProtoConn [sink (connRW c)] exampleObfuscated)) =
      (Inr (Full 0), connRW (NewMTProtoConn [sink (connRW c)] exampleObfuscated))"
proof -
  let ?d = "[1, 1, 1, 0, 1, 1, 1, 1] @ replicate 56 0x11 :: bytes"
  have d: "length ?d = 64" "drawInit [Inr ?d] = Some (Inr ?d)"
    by (simp_all add: isDisallowedHeader_def disallowedPrefixes_def)
  have ok: "[[1, 2, 3, 4]] \<noteq> ([] :: bytes list)" "\<forall>p \<in> set [[1, 2, 3, 4]]. frame_ok 0 p"
    using example_frame by simp_all
  obtain c where c: "writeMessages exampleKeystream id [Inr ?d] [[1, 2, 3, 4]]
      (NewClientMTProtoConn [] exampleObfuscated) = Some (Inr (), c)" "take 4 (sink (connRW c)) = [1, 1, 1, 0]"
    using client_writes [OF d ok(2,1), of exampleKeystream id] by auto
  have draws: "\<forall>init. Inr init \<in> set [Inr ?d] \<longrightarrow> length init = 64" using d(1) by simp
  have "mistaken_for_full exampleObfuscated exampleObfuscated (sink (connRW c))"
    using c(2) by (simp add: mistaken_for_full_def obfuscates_def exampleObfuscated_def isPlausibleFullLength_def)
  with obfuscated_header_taken_for_full [OF ok draws c(1), of "[sink (connRW c)]" exampleObfuscated] c(1)
  show ?thesis by auto
qed

end
