(* ===== verification/Message_Ids.thy ===== *)
theory Message_Ids
  imports TLRPC_Prelude
begin

unbundle bit_operations_syntax

text \<open>
  The generators of message identifiers and sequence numbers of \<open>mtproto/msgid.go\<close> and
  \<open>mtproto/seqno.go\<close>.  Each method runs under the generator's mutex, so a history of concurrent
  calls is a sequence of them; the reading of the clock is an argument.
\<close>

section \<open>Message identifiers\<close>

datatype msgIDKind = msgIDResponse | msgIDPush

record MsgIDGenerator =
  gen_last :: int

definition NewMsgIDGenerator :: MsgIDGenerator where
  "NewMsgIDGenerator = \<lparr>gen_last = 0\<rparr>"

definition MsgIDGenerator_Next :: "gotime \<Rightarrow> MsgIDGenerator \<Rightarrow> int \<times> MsgIDGenerator" where
  "MsgIDGenerator_Next now g =
     (let intPart = Unix_of now;
          fracPart = Nanosecond_of now AND NOT 3;
          msgID = wrap64 (push_bit 32 intPart) OR fracPart;
          msgID = (if msgID \<le> gen_last g then wrap64 (gen_last g + 4) else msgID)
      in (msgID, g\<lparr>gen_last := msgID\<rparr>))"

definition nextServerMsgID :: "gotime \<Rightarrow> msgIDKind \<Rightarrow> MsgIDGenerator \<Rightarrow> int \<times> MsgIDGenerator" where
  "nextServerMsgID now kind g =
     (case MsgIDGenerator_Next now g of (next, g') \<Rightarrow>
        let base = next AND NOT 3 in
        (case kind of msgIDResponse \<Rightarrow> base OR 1 | msgIDPush \<Rightarrow> base OR 3, g'))"

section \<open>Sequence numbers\<close>

record SeqNoGenerator =
  gen_seq :: int

definition NewSeqNoGenerator :: "int \<Rightarrow> SeqNoGenerator" where
  "NewSeqNoGenerator initial = \<lparr>gen_seq = initial\<rparr>"

definition SeqNoGenerator_Next :: "bool \<Rightarrow> SeqNoGenerator \<Rightarrow> int \<times> SeqNoGenerator" where
  "SeqNoGenerator_Next contentRelated g =
     (if contentRelated
      then (let val = wrap32 (wrap32 (gen_seq g * 2) + 1) in (val, g\<lparr>gen_seq := wrap32 (gen_seq g + 1)\<rparr>))
      else (wrap32 (gen_seq g * 2), g))"

definition SeqNoGenerator_Value :: "SeqNoGenerator \<Rightarrow> int" where
  "SeqNoGenerator_Value g = gen_seq g"

section \<open>Facts about the bit operations\<close>

lemma and_not_3: "(x :: int) AND NOT 3 = x - x mod 4"
proof -
  have "x - take_bit 2 x = x AND NOT (take_bit 2 x)"
    by (rule disjunctive_diff) (simp add: bit_take_bit_iff)
  also have "\<dots> = x AND NOT (mask 2)"
    by (rule bit_eqI) (auto simp: bit_and_iff bit_not_iff bit_take_bit_iff bit_mask_iff)
  finally show ?thesis by (simp add: mask_eq_exp_minus_1 take_bit_eq_mod)
qed

lemmas and_minus_4 = and_not_3 [simplified]

lemma or_low:
  assumes "x mod 2 ^ n = 0" "0 \<le> y" "y < 2 ^ n"
  shows "(x :: int) OR y = x + y"
proof -
  have x: "x = push_bit n (drop_bit n x)"
    using assms(1) div_mult_mod_eq [of x "2 ^ n"] by (simp add: push_bit_eq_mult drop_bit_eq_div)
  have y: "y = take_bit n y" using assms(2,3) by (simp add: take_bit_eq_mod)
  have "x + y = x OR y"
    by (rule disjunctive_add, subst x, subst y) (auto simp: bit_push_bit_iff bit_take_bit_iff)
  then show ?thesis by simp
qed

lemma nanosecond_range: "0 \<le> Nanosecond_of t" "Nanosecond_of t < 1000000000"
  by (simp_all add: Nanosecond_of_def second_def)

text \<open>The identifier the clock alone gives: seconds in the high half, nanoseconds rounded down to a
  multiple of four in the low half.\<close>

definition clockID :: "gotime \<Rightarrow> int" where
  "clockID now = Unix_of now * 2 ^ 32 + (Nanosecond_of now - Nanosecond_of now mod 4)"

definition clock_ok :: "gotime \<Rightarrow> bool" where
  "clock_ok now \<longleftrightarrow> 0 \<le> Unix_of now \<and> Unix_of now < 2 ^ 31 - 1"

lemma clockID_bounds:
  assumes "clock_ok now"
  shows "0 \<le> clockID now" "clockID now < 2 ^ 63 - 2 ^ 32" "clockID now mod 4 = 0"
proof -
  let ?n = "Nanosecond_of now"
  have f: "0 \<le> ?n - ?n mod 4" "?n - ?n mod 4 < 2 ^ 32" "(?n - ?n mod 4) mod 4 = 0"
    using nanosecond_range [of now] pos_mod_sign [of 4 ?n] by (simp_all add: mod_diff_right_eq [symmetric] minus_mod_eq_mult_div)
  have u: "0 \<le> Unix_of now" "Unix_of now \<le> 2 ^ 31 - 2" using assms by (simp_all add: clock_ok_def)
  show "0 \<le> clockID now" using f u by (simp add: clockID_def)
  show "clockID now < 2 ^ 63 - 2 ^ 32" using f(2) u(2) by (simp add: clockID_def)
  have "(Unix_of now * 2 ^ 32) mod 4 = 0" by simp
  with f(3) show "clockID now mod 4 = 0" by (simp add: clockID_def mod_add_eq [symmetric])
qed

lemma Next_eq:
  assumes "clock_ok now"
  shows "MsgIDGenerator_Next now g =
    (let msgID = (if clockID now \<le> gen_last g then wrap64 (gen_last g + 4) else clockID now)
     in (msgID, g\<lparr>gen_last := msgID\<rparr>))"
proof -
  let ?n = "Nanosecond_of now"
  have "in_i64 (Unix_of now * 2 ^ 32)" using assms by (simp add: in_i64_def clock_ok_def)
  then have "wrap64 (push_bit 32 (Unix_of now)) = Unix_of now * 2 ^ 32" by (simp add: push_bit_eq_mult)
  moreover have "0 \<le> ?n - ?n mod 4" "?n - ?n mod 4 < 2 ^ 32"
    using nanosecond_range [of now] pos_mod_sign [of 4 ?n] by (simp_all add: minus_mod_eq_mult_div)
  ultimately have "wrap64 (push_bit 32 (Unix_of now)) OR (?n AND NOT 3) = clockID now"
    using or_low [of "Unix_of now * 2 ^ 32" 32 "?n - ?n mod 4"] by (simp add: and_minus_4 clockID_def)
  then show ?thesis by (simp add: MsgIDGenerator_Next_def)
qed

section \<open>Histories\<close>

fun serverIDs :: "(gotime \<times> msgIDKind) list \<Rightarrow> MsgIDGenerator \<Rightarrow> int list \<times> MsgIDGenerator" where
  "serverIDs [] g = ([], g)"
| "serverIDs ((now, kind) # calls) g =
     (case nextServerMsgID now kind g of (msgID, g1) \<Rightarrow>
        case serverIDs calls g1 of (msgIDs, g2) \<Rightarrow> (msgID # msgIDs, g2))"

definition kindBits :: "msgIDKind \<Rightarrow> int" where
  "kindBits kind = (case kind of msgIDResponse \<Rightarrow> 1 | msgIDPush \<Rightarrow> 3)"

lemma nextServerMsgID_step:
  assumes now: "clock_ok now" and g: "0 \<le> gen_last g" "gen_last g mod 4 = 0" "gen_last g + 4 < 2 ^ 63"
    and run: "nextServerMsgID now kind g = (msgID, g')"
  shows "msgID = gen_last g' + kindBits kind" "gen_last g < gen_last g'" "clockID now \<le> gen_last g'"
    "gen_last g' mod 4 = 0" "gen_last g' \<le> gen_last g + 4 \<or> gen_last g' < 2 ^ 63 - 2 ^ 32"
proof -
  note c = clockID_bounds [OF now]
  have "in_i64 (gen_last g + 4)" using g by (simp add: in_i64_def)
  then obtain l where l: "l = (if clockID now \<le> gen_last g then gen_last g + 4 else clockID now)"
    and n: "MsgIDGenerator_Next now g = (l, g\<lparr>gen_last := l\<rparr>)"
    by (simp add: Next_eq [OF now] Let_def)
  have "(gen_last g + 4) mod 4 = gen_last g mod 4" by simp
  with l c(3) g(2) have l4: "l mod 4 = 0" by simp
  have g': "gen_last g' = l" and m: "msgID = l - l mod 4 OR kindBits kind"
    using run by (auto simp: nextServerMsgID_def n Let_def and_minus_4 kindBits_def split: msgIDKind.splits)
  have k: "0 \<le> kindBits kind" "kindBits kind < 2 ^ 2" by (simp_all add: kindBits_def split: msgIDKind.splits)
  show "msgID = gen_last g' + kindBits kind"
    using m l4 k or_low [of l 2 "kindBits kind"] by (simp add: g')
  show "gen_last g < gen_last g'" "clockID now \<le> gen_last g'" "gen_last g' mod 4 = 0"
    "gen_last g' \<le> gen_last g + 4 \<or> gen_last g' < 2 ^ 63 - 2 ^ 32"
    using l l4 c(2) by (auto simp: g')
qed

lemma serverIDs_increase:
  assumes "\<forall>(now, kind) \<in> set calls. clock_ok now"
    and "0 \<le> gen_last g" "gen_last g mod 4 = 0" "gen_last g + 4 * int (length calls) < 2 ^ 63"
    and "length calls \<le> 2 ^ 30"
    and "serverIDs calls g = (ids, g')"
  shows "sorted_wrt (<) ids \<and> (\<forall>i \<in> set ids. gen_last g + 4 < i) \<and>
    list_all2 (\<lambda>(now, kind) i. i mod 4 = kindBits kind \<and> clockID now \<le> i \<and> in_i64 i) calls ids"
  using assms
proof (induction calls arbitrary: g ids)
  case (Cons call calls)
  obtain now kind where call: "call = (now, kind)" by fastforce
  obtain i g1 where i: "nextServerMsgID now kind g = (i, g1)" by fastforce
  obtain js where js: "serverIDs calls g1 = (js, g')" "ids = i # js"
    using Cons.prems(6) by (auto simp: call i split: prod.splits)
  have now: "clock_ok now" using Cons.prems(1) by (simp add: call)
  have "gen_last g + 4 < 2 ^ 63" using Cons.prems(4) by simp
  note st = nextServerMsgID_step [OF now Cons.prems(2,3) this i]
  have room: "gen_last g1 + 4 * int (length calls) < 2 ^ 63"
    using st(5) Cons.prems(4,5) by auto
  have nonneg: "0 \<le> gen_last g1" using st(2) Cons.prems(2) by simp
  have IH: "sorted_wrt (<) js \<and> (\<forall>j \<in> set js. gen_last g1 + 4 < j) \<and>
      list_all2 (\<lambda>(now, kind) i. i mod 4 = kindBits kind \<and> clockID now \<le> i \<and> in_i64 i) calls js"
    using Cons.IH [OF _ nonneg st(4) room _ js(1)] Cons.prems(1,5) by simp
  have k: "0 < kindBits kind" "kindBits kind < 4" by (simp_all add: kindBits_def split: msgIDKind.splits)
  have four: "gen_last g + 4 \<le> gen_last g1"
    using st(2,4) Cons.prems(3) by presburger
  have "i mod 4 = kindBits kind" using st(1,4) k by (simp add: mod_add_eq [symmetric])
  moreover have "gen_last g1 + 4 \<le> 9223372036854775808"
  proof -
    have "gen_last g1 < 9223372036854775808" using room by simp
    with st(4) show ?thesis by presburger
  qed
  then have "in_i64 i" using st(1) k nonneg by (simp add: in_i64_def)
  ultimately show ?case
    using IH k four st(1,3) js(2) by (auto simp: call)
qed simp

fun sequenceNos :: "bool list \<Rightarrow> SeqNoGenerator \<Rightarrow> int list \<times> SeqNoGenerator" where
  "sequenceNos [] g = ([], g)"
| "sequenceNos (contentRelated # calls) g =
     (case SeqNoGenerator_Next contentRelated g of (seqNo, g1) \<Rightarrow>
        case sequenceNos calls g1 of (seqNos, g2) \<Rightarrow> (seqNo # seqNos, g2))"

section \<open>Properties\<close>

text \<open>C31. Server message identifiers.  Whatever the clock does between calls, standing still or
  going backwards included, the identifiers a generator hands out for responses and pushes increase
  strictly, are never behind the clock, and are 1 and 3 modulo 4 respectively; none of the first
  \<open>2 ^ 30\<close> wraps around, for a clock before 19 January 2038.\<close>

theorem server_ids_increase:
  assumes "\<forall>(now, kind) \<in> set calls. clock_ok now" "length calls \<le> 2 ^ 30"
  shows "sorted_wrt (<) (fst (serverIDs calls NewMsgIDGenerator)) \<and>
    list_all2 (\<lambda>(now, kind) i. i mod 4 = (case kind of msgIDResponse \<Rightarrow> 1 | msgIDPush \<Rightarrow> 3) \<and> clockID now \<le> i \<and> in_i64 i)
      calls (fst (serverIDs calls NewMsgIDGenerator))"
proof -
  obtain ids g' where run: "serverIDs calls NewMsgIDGenerator = (ids, g')" by fastforce
  have "gen_last NewMsgIDGenerator = 0" by (simp add: NewMsgIDGenerator_def)
  then show ?thesis
    using serverIDs_increase [OF assms(1) _ _ _ assms(2) run] assms(2) by (simp add: run kindBits_def)
qed

theorem server_ids_increase_witness:
  "sorted_wrt (<) (fst (serverIDs [(unix_epoch + 9, msgIDResponse), (unix_epoch + 2, msgIDPush)] NewMsgIDGenerator))"
  using server_ids_increase [of "[(unix_epoch + 9, msgIDResponse), (unix_epoch + 2, msgIDPush)]"]
  by (simp add: clock_ok_def Unix_of_def second_def)

text \<open>Sequence numbers.  A content-related message gets the odd number \<open>2 * k + 1\<close> where \<open>k\<close>
  counts the content-related messages before it, any other message the even number \<open>2 * k\<close>, as long
  as the counter stays below \<open>2 ^ 30\<close>.\<close>

theorem sequence_numbers:
  assumes "0 \<le> initial" "initial + int (length calls) \<le> 2 ^ 30"
  shows "fst (sequenceNos calls (NewSeqNoGenerator initial)) =
    map (\<lambda>i. 2 * (initial + int (length (filter id (take i calls)))) + (if calls ! i then 1 else 0)) [0..<length calls]"
  using assms
proof (induction calls arbitrary: initial)
  case (Cons c calls)
  have r: "in_i32 (initial * 2)" "in_i32 (initial * 2 + 1)" "in_i32 (initial + 1)"
    using Cons.prems by (simp_all add: in_i32_def)
  have n: "SeqNoGenerator_Next c (NewSeqNoGenerator initial) =
      (2 * initial + (if c then 1 else 0), NewSeqNoGenerator (initial + (if c then 1 else 0)))"
    using r by (simp add: SeqNoGenerator_Next_def NewSeqNoGenerator_def)
  have "initial + (if c then 1 else 0) + int (length calls) \<le> 2 ^ 30" using Cons.prems by simp
  with Cons.IH [of "initial + (if c then 1 else 0)"] Cons.prems(1) show ?case
    by (simp add: n upt_conv_Cons map_Suc_upt [symmetric] o_def split: prod.splits del: upt_Suc)
      (auto simp: algebra_simps)
qed simp

theorem sequence_numbers_witness:
  "fst (sequenceNos [True, False, True] (NewSeqNoGenerator 0)) = [1, 2, 3]"
  using sequence_numbers [of 0 "[True, False, True]"] by (simp add: upt_rec)

end
