(* ===== verification/Runtime_Contracts.thy ===== *)
theory Runtime_Contracts
  imports Session_Store
begin

text \<open>
  The contracts between the stages of the runtime, \<open>internal/runtime/contracts.go\<close>, and the router
  of \<open>internal/runtime/router.go\<close>: inbound messages, the closed sets of outbound intents and of
  session mutations, their validation, and the precedence of protocol controls over the application.
  A Go interface value of one of the closed sets is a value of the datatype, or \<open>None\<close> for
  \<open>nil\<close>.  All messages of a frame point to one decode budget: \<open>imDecodeBudget\<close> says whether the
  pointer is set, and the budget itself is passed to the code that uses it.  The control router and the application dispatcher are functions of the request.
\<close>

section \<open>Inbound messages\<close>

record InboundMessage =
  imMessageID :: int
  imSequenceNo :: int
  imConstructorID :: int
  imBody :: bytes
  imDependencies :: "int list"
  imDecodeBudget :: bool
  imContentRelated :: bool
  imSuppressPush :: bool
  imRetransmission :: bool

definition InboundMessage_Validate :: "InboundMessage \<Rightarrow> go_error option" where
  "InboundMessage_Validate m =
     (if imMessageID m = 0 \<or> imConstructorID m = 0 \<or> length (imBody m) < 4 \<or>
         le_int (take 4 (imBody m)) \<noteq> imConstructorID m
      then Some (RuntimeError InvalidInbound)
      else if \<exists>dependency \<in> set (imDependencies m). dependency = 0 \<or> dependency \<ge> imMessageID m
      then Some (RuntimeError InvalidInbound)
      else None)"

section \<open>Intents and mutations\<close>

datatype Intent =
    RPCResult (rrRequestMessageID: int) (rrBody: bytes)
  | RPCError (reRequestMessageID: int) (reCode: int) (reMessage: bytes)
  | ProtocolReply (prBody: bytes) (prContentRelated: bool) (prUnsolicited: bool)
  | Acknowledge (akMessageIDs: "int list")
  | Push (puBody: bytes)
  | Batch (baItems: "Intent option list")
  | Resend (rsMessageIDs: "int list")
  | Close (clCause: "go_error option")

datatype SessionMutation =
    SetLayer int
  | SetClientMetadata ClientMetadata
  | BindUser int
  | UnbindUser
  | SetPushSubscription bool
  | MarkNewSessionCreated int

record Outcome =
  ocIntents :: "Intent option list"
  ocMutations :: "SessionMutation option list"
  ocDisconnectAfter :: "duration option"

definition emptyOutcome :: Outcome where
  "emptyOutcome = \<lparr>ocIntents = [], ocMutations = [], ocDisconnectAfter = None\<rparr>"

text \<open>The loop of \<open>validateMessageIDs\<close>, with the map of identifiers seen so far.\<close>

fun validateMessageIDs_loop :: "int list \<Rightarrow> int set \<Rightarrow> go_error option" where
  "validateMessageIDs_loop [] seen = None"
| "validateMessageIDs_loop (i # ids) seen =
     (if i = 0 then Some (RuntimeError InvalidIntent)
      else if i \<in> seen then Some (RuntimeError InvalidIntent)
      else validateMessageIDs_loop ids (insert i seen))"

definition validateMessageIDs :: "int list \<Rightarrow> go_error option" where
  "validateMessageIDs ids =
     (if ids = [] then Some (RuntimeError InvalidIntent) else validateMessageIDs_loop ids {})"

text \<open>\<open>for _, x := range xs { if err := f(x); err != nil { return err } }\<close>\<close>

fun firstError :: "('a \<Rightarrow> go_error option) \<Rightarrow> 'a list \<Rightarrow> go_error option" where
  "firstError f [] = None"
| "firstError f (x # xs) = (case f x of Some e \<Rightarrow> Some e | None \<Rightarrow> firstError f xs)"

lemma firstError_cong [fundef_cong]:
  "xs = ys \<Longrightarrow> (\<And>x. x \<in> set ys \<Longrightarrow> f x = g x) \<Longrightarrow> firstError f xs = firstError g ys"
  by (induction ys arbitrary: xs) (auto split: option.splits)

text \<open>The kinds a batch may contain.\<close>

fun isMessageIntent :: "Intent \<Rightarrow> bool" where
  "isMessageIntent (RPCResult i b) = True"
| "isMessageIntent (RPCError i c m) = True"
| "isMessageIntent (ProtocolReply b c u) = True"
| "isMessageIntent (Acknowledge ids) = True"
| "isMessageIntent (Push b) = True"
| "isMessageIntent _ = False"

fun ValidateIntent :: "Intent option \<Rightarrow> go_error option" where
  "ValidateIntent None = Some (RuntimeError InvalidIntent)"
| "ValidateIntent (Some (RPCResult requestMessageID body)) =
     (if requestMessageID = 0 \<or> length body < 4 then Some (RuntimeError InvalidIntent) else None)"
| "ValidateIntent (Some (RPCError requestMessageID code message)) =
     (if requestMessageID = 0 \<or> message = [] then Some (RuntimeError InvalidIntent) else None)"
| "ValidateIntent (Some (ProtocolReply body contentRelated unsolicited)) =
     (if length body < 4 then Some (RuntimeError InvalidIntent) else None)"
| "ValidateIntent (Some (Acknowledge messageIDs)) = validateMessageIDs messageIDs"
| "ValidateIntent (Some (Push body)) =
     (if length body < 4 then Some (RuntimeError InvalidIntent) else None)"
| "ValidateIntent (Some (Batch items)) =
     (if items = [] then Some (RuntimeError InvalidIntent)
      else firstError (\<lambda>child.
        if (case child of None \<Rightarrow> True | Some c \<Rightarrow> \<not> isMessageIntent c) then Some (RuntimeError InvalidIntent)
        else ValidateIntent child) items)"
| "ValidateIntent (Some (Resend messageIDs)) = validateMessageIDs messageIDs"
| "ValidateIntent (Some (Close cause)) =
     (if cause = None then Some (RuntimeError InvalidIntent) else None)"

fun validateSessionMutation :: "SessionMutation option \<Rightarrow> go_error option" where
  "validateSessionMutation None = Some (RuntimeError InvalidSessionMutation)"
| "validateSessionMutation (Some (SetLayer layer)) =
     (if layer \<le> 0 then Some (RuntimeError InvalidSessionMutation) else None)"
| "validateSessionMutation (Some (SetClientMetadata v)) =
     (if APIID v \<le> 0 \<or> DeviceModel v = [] \<or> SystemVersion v = [] \<or> AppVersion v = [] \<or> LangCode v = []
      then Some (RuntimeError InvalidSessionMutation) else None)"
| "validateSessionMutation (Some (BindUser userID)) =
     (if userID \<le> 0 then Some (RuntimeError InvalidSessionMutation) else None)"
| "validateSessionMutation (Some UnbindUser) = None"
| "validateSessionMutation (Some (SetPushSubscription enabled)) = None"
| "validateSessionMutation (Some (MarkNewSessionCreated firstMessageID)) =
     (if firstMessageID = 0 then Some (RuntimeError InvalidSessionMutation) else None)"

definition ValidateOutcome :: "Outcome \<Rightarrow> go_error option" where
  "ValidateOutcome outcome =
     (if (case ocDisconnectAfter outcome of None \<Rightarrow> False | Some d \<Rightarrow> d < 0)
      then Some (RuntimeError InvalidIntent)
      else case firstError ValidateIntent (ocIntents outcome) of
          Some e \<Rightarrow> Some e
        | None \<Rightarrow> firstError validateSessionMutation (ocMutations outcome))"

fun applyMutation :: "SessionMutation \<Rightarrow> Snapshot \<Rightarrow> Snapshot" where
  "applyMutation (SetLayer layer) s = s\<lparr>Layer := layer\<rparr>"
| "applyMutation (SetClientMetadata v) s = s\<lparr>Client := v\<rparr>"
| "applyMutation (BindUser userID) s = s\<lparr>UserID := userID\<rparr>"
| "applyMutation UnbindUser s = s\<lparr>UserID := 0\<rparr>"
| "applyMutation (SetPushSubscription enabled) s = s\<lparr>PushSubscription := enabled\<rparr>"
| "applyMutation (MarkNewSessionCreated firstMessageID) s =
     s\<lparr>NewSessionCreated := True, FirstClientMsgID := firstMessageID\<rparr>"

fun applyMutations_loop :: "SessionMutation option list \<Rightarrow> Snapshot \<Rightarrow> go_error + Snapshot" where
  "applyMutations_loop [] s = Inr s"
| "applyMutations_loop (mutation # mutations) s =
     (case validateSessionMutation mutation of
        Some e \<Rightarrow> Inl e
      | None \<Rightarrow> applyMutations_loop mutations (applyMutation (the mutation) s))"

definition ApplySessionMutations :: "Snapshot \<Rightarrow> SessionMutation option list \<Rightarrow> go_error + Snapshot" where
  "ApplySessionMutations current mutations = applyMutations_loop mutations (Snapshot_Clone current)"

section \<open>The router\<close>

record PeerInfo =
  Transport :: bytes
  LocalAddr :: bytes
  RemoteAddr :: bytes

record RequestInfo =
  riConnectionID :: int
  riAuthKeyID :: int
  riSessionID :: int
  riLeaseGeneration :: int
  riServerSalt :: int
  riUserID :: int
  riLayer :: int
  riClient :: ClientMetadata
  riPeer :: PeerInfo

record Request =
  rqMessage :: InboundMessage
  rqInfo :: RequestInfo

text \<open>\<open>RouteControl\<close> of the control router returns an error, an outcome and whether it handled the
  message; the dispatcher an error or an outcome.\<close>

record Router =
  controls :: "Request \<Rightarrow> (go_error + Outcome) \<times> bool"
  application :: "Request \<Rightarrow> go_error + Outcome"

definition NewRouter ::
  "(Request \<Rightarrow> (go_error + Outcome) \<times> bool) option \<Rightarrow> (Request \<Rightarrow> go_error + Outcome) option \<Rightarrow> go_error + Router" where
  "NewRouter cs app =
     (case cs of
        None \<Rightarrow> Inl (RuntimeError ControlRouterMissing)
      | Some c \<Rightarrow>
          (case app of
             None \<Rightarrow> Inl (RuntimeError ApplicationDispatcherMissing)
           | Some a \<Rightarrow> Inr \<lparr>controls = c, application = a\<rparr>))"

definition Router_RouteControl :: "Router \<Rightarrow> Request \<Rightarrow> (go_error + Outcome) \<times> bool" where
  "Router_RouteControl r request =
     (case InboundMessage_Validate (rqMessage request) of
        Some e \<Rightarrow> (Inl e, False)
      | None \<Rightarrow>
          (case controls r request of
             (Inl e, handled) \<Rightarrow> (Inl e, handled)
           | (Inr outcome, handled) \<Rightarrow>
               if \<not> handled then (Inr emptyOutcome, False)
               else (case ValidateOutcome outcome of Some e \<Rightarrow> (Inl e, True) | None \<Rightarrow> (Inr outcome, True))))"

definition Router_DispatchApplication :: "Router \<Rightarrow> Request \<Rightarrow> go_error + Outcome" where
  "Router_DispatchApplication r request =
     (case InboundMessage_Validate (rqMessage request) of
        Some e \<Rightarrow> Inl e
      | None \<Rightarrow>
          (case application r request of
             Inl e \<Rightarrow> Inl e
           | Inr outcome \<Rightarrow> (case ValidateOutcome outcome of Some e \<Rightarrow> Inl e | None \<Rightarrow> Inr outcome)))"

definition Route :: "Router \<Rightarrow> Request \<Rightarrow> go_error + Outcome" where
  "Route r request =
     (case Router_RouteControl r request of
        (Inl e, _) \<Rightarrow> Inl e
      | (Inr outcome, handled) \<Rightarrow> if handled then Inr outcome else Router_DispatchApplication r request)"

section \<open>What validation accepts\<close>

lemma firstError_None: "firstError f xs = None \<longleftrightarrow> (\<forall>x \<in> set xs. f x = None)"
  by (induction xs) (auto split: option.splits)

lemma validateMessageIDs_loop_None:
  "validateMessageIDs_loop ids seen = None \<longleftrightarrow> 0 \<notin> set ids \<and> distinct ids \<and> set ids \<inter> seen = {}"
  by (induction ids arbitrary: seen) auto

lemma validateMessageIDs_None:
  "validateMessageIDs ids = None \<longleftrightarrow> ids \<noteq> [] \<and> 0 \<notin> set ids \<and> distinct ids"
  by (simp add: validateMessageIDs_def validateMessageIDs_loop_None)

text \<open>The snapshot fields that a list of mutations may touch, each by the last mutation of its kind.\<close>

definition sameProtocolState :: "Snapshot \<Rightarrow> Snapshot \<Rightarrow> bool" where
  "sameProtocolState s t \<longleftrightarrow>
     t = s\<lparr>Layer := Layer t, Client := Client t, UserID := UserID t, PushSubscription := PushSubscription t,
           NewSessionCreated := NewSessionCreated t, FirstClientMsgID := FirstClientMsgID t\<rparr>"

lemma applyMutation_frame: "sameProtocolState s (applyMutation m s)"
  by (cases m; cases s) (simp_all add: sameProtocolState_def)

lemma sameProtocolState_trans: "sameProtocolState s t \<Longrightarrow> sameProtocolState t u \<Longrightarrow> sameProtocolState s u"
  by (cases s; cases t; cases u) (simp add: sameProtocolState_def)

lemma applyMutations_loop_eq:
  "applyMutations_loop ms s =
     (case firstError validateSessionMutation ms of
        Some e \<Rightarrow> Inl e
      | None \<Rightarrow> Inr (fold (\<lambda>m. applyMutation (the m)) ms s))"
  by (induction ms arbitrary: s) (auto split: option.splits)

lemma fold_mutations_frame: "sameProtocolState s (fold (\<lambda>m. applyMutation (the m)) ms s)"
proof (induction ms arbitrary: s)
  case Nil
  then show ?case by (simp add: sameProtocolState_def)
next
  case (Cons m ms)
  show ?case using Cons [of "applyMutation (the m) s"] applyMutation_frame sameProtocolState_trans by fastforce
qed

definition exampleRequest :: Request where
  "exampleRequest = \<lparr>rqMessage = \<lparr>imMessageID = 8, imSequenceNo = 1, imConstructorID = 0x04030201,
       imBody = [1, 2, 3, 4], imDependencies = [4], imDecodeBudget = False, imContentRelated = True,
       imSuppressPush = False, imRetransmission = False\<rparr>,
     rqInfo = \<lparr>riConnectionID = 1, riAuthKeyID = 2, riSessionID = 3, riLeaseGeneration = 1, riServerSalt = 0,
       riUserID = 0, riLayer = 0,
       riClient = \<lparr>APIID = 0, DeviceModel = [], SystemVersion = [], AppVersion = [], SystemLangCode = [], LangPack = [], LangCode = []\<rparr>,
       riPeer = \<lparr>Transport = [], LocalAddr = [], RemoteAddr = []\<rparr>\<rparr>\<rparr>"

definition exampleOutcome :: Outcome where
  "exampleOutcome = \<lparr>ocIntents = [Some (RPCResult 8 [1, 0, 0, 0])], ocMutations = [Some (SetLayer 5), Some (BindUser 7)],
     ocDisconnectAfter = None\<rparr>"

section \<open>Properties\<close>



text \<open>Session mutations are staged all or nothing.  \<open>ApplySessionMutations\<close> fails with the error
  of the first invalid mutation and otherwise applies all of them in order; whatever the list, the
  staged snapshot keeps the session's identity, its salt and sequence counters, its replay windows
  and its timestamps, so routing cannot disturb the protocol state.\<close>

theorem mutations_staged:
  "ApplySessionMutations current mutations =
     (case firstError validateSessionMutation mutations of
        Some e \<Rightarrow> Inl e
      | None \<Rightarrow> Inr (fold (\<lambda>m. applyMutation (the m)) mutations current)) \<and>
   (case ApplySessionMutations current mutations of
      Inl e \<Rightarrow> e = RuntimeError InvalidSessionMutation
    | Inr next \<Rightarrow> sameProtocolState current next \<and> Snapshot_Key next = Snapshot_Key current)"
proof -
  have e: "validateSessionMutation m = Some e \<Longrightarrow> e = RuntimeError InvalidSessionMutation" for m e
    by (cases m; cases "the m") (auto split: if_splits)
  have f: "firstError validateSessionMutation mutations = Some e \<Longrightarrow> e = RuntimeError InvalidSessionMutation" for e
    by (induction mutations) (auto split: option.splits dest: e)
  have "sameProtocolState s t \<Longrightarrow> Snapshot_Key t = Snapshot_Key s" for s t
    by (cases s; cases t) (simp add: sameProtocolState_def Snapshot_Key_def)
  with f fold_mutations_frame [of current mutations] show ?thesis
    by (auto simp: ApplySessionMutations_def applyMutations_loop_eq split: option.splits)
qed

end
