(* ===== verification/AES_IGE.thy ===== *)
theory AES_IGE
  imports TLRPC_Prelude
begin

unbundle bit_operations_syntax

text \<open>
  \<open>crypto/aes.go\<close>: the IGE mode of a 16-byte block cipher, as a \<open>cipher.BlockMode\<close> that keeps
  its chaining state between calls.  The block cipher and the hash functions are the fields of a
  record that every definition takes as an argument; what the code relies on of them, that
  decryption undoes encryption under the same key and that a digest has its length, is
  \<open>primitives_ok\<close>.  The main result is that the two directions of the mode started from the
  same key and vector undo each other and stay in the same chaining state, so a message may also be
  processed in pieces.
\<close>

section \<open>Cryptographic primitives\<close>

record primitives =
  aesEncrypt :: "bytes \<Rightarrow> bytes \<Rightarrow> bytes"
  aesDecrypt :: "bytes \<Rightarrow> bytes \<Rightarrow> bytes"
  sha1 :: "bytes \<Rightarrow> bytes"
  sha256 :: "bytes \<Rightarrow> bytes"

definition primitives_ok :: "primitives \<Rightarrow> bool" where
  "primitives_ok P \<longleftrightarrow>
     (\<forall>k b. length k = 32 \<and> length b = 16 \<longrightarrow>
        length (aesEncrypt P k b) = 16 \<and> length (aesDecrypt P k b) = 16 \<and>
        aesDecrypt P k (aesEncrypt P k b) = b \<and> aesEncrypt P k (aesDecrypt P k b) = b) \<and>
     (\<forall>m. length (sha1 P m) = 20) \<and> (\<forall>m. length (sha256 P m) = 32)"

section \<open>The mode\<close>

definition aesBlockSize :: nat where "aesBlockSize = 16"
definition aes256KeySize :: nat where "aes256KeySize = 32"
definition igeIVSize :: nat where "igeIVSize = 32"

record ige =
  ige_key :: bytes
  ige_iv :: bytes
  ige_decrypt :: bool

definition NewAESIGE :: "bytes \<Rightarrow> bytes \<Rightarrow> go_error + ige" where
  "NewAESIGE key iv =
     (if length key \<noteq> aes256KeySize then Inl Panic
      else if length iv \<noteq> igeIVSize then Inl Panic
      else Inr \<lparr>ige_key = key, ige_iv = iv, ige_decrypt = False\<rparr>)"

definition NewAESIGEDecrypt :: "bytes \<Rightarrow> bytes \<Rightarrow> go_error + ige" where
  "NewAESIGEDecrypt key iv =
     (if length key \<noteq> aes256KeySize then Inl Panic
      else if length iv \<noteq> igeIVSize then Inl Panic
      else Inr \<lparr>ige_key = key, ige_iv = iv, ige_decrypt = True\<rparr>)"

definition xorBlock :: "bytes \<Rightarrow> bytes \<Rightarrow> bytes" where
  "xorBlock a b = map (\<lambda>i. a ! i XOR b ! i) [0..<aesBlockSize]"

text \<open>The loop of \<open>cryptIGEState\<close>: \<open>prevCipher\<close> and \<open>prevPlain\<close> are the two halves of the
  vector, and the block written to \<open>dst\<close> is the head of the result.\<close>

function cryptIGE_loop :: "(bytes \<Rightarrow> bytes) \<Rightarrow> bool \<Rightarrow> bytes \<Rightarrow> bytes \<Rightarrow> bytes \<Rightarrow> bytes \<times> bytes \<times> bytes" where
  "cryptIGE_loop block decrypt prevCipher prevPlain src =
     (if src = [] then ([], prevCipher, prevPlain)
      else
        (let srcBlock = take aesBlockSize src; rest = drop aesBlockSize src in
         if decrypt then
           (let tmp = block (xorBlock srcBlock prevPlain);
                out = xorBlock tmp prevCipher;
                (dst, pc, pp) = cryptIGE_loop block decrypt srcBlock out rest
            in (out @ dst, pc, pp))
         else
           (let tmp = block (xorBlock srcBlock prevCipher);
                out = xorBlock tmp prevPlain;
                (dst, pc, pp) = cryptIGE_loop block decrypt out srcBlock rest
            in (out @ dst, pc, pp))))"
  by pat_completeness auto
termination
  by (relation "measure (\<lambda>(_, _, _, _, src). length src)") (auto simp: aesBlockSize_def)

declare cryptIGE_loop.simps [simp del]

text \<open>The result is what is written to the front of \<open>dst\<close> and the vector left behind.\<close>

definition cryptIGEState :: "primitives \<Rightarrow> bytes \<Rightarrow> nat \<Rightarrow> bytes \<Rightarrow> bytes \<Rightarrow> bool \<Rightarrow> go_error + bytes \<times> bytes" where
  "cryptIGEState P key dstLen src iv decrypt =
     (if length src mod aesBlockSize \<noteq> 0 then Inl Panic
      else if dstLen < length src then Inl Panic
      else
        (let block = (if decrypt then aesDecrypt P key else aesEncrypt P key);
             (dst, pc, pp) = cryptIGE_loop block decrypt (take aesBlockSize iv) (drop aesBlockSize iv) src
         in Inr (dst, pc @ pp)))"

definition CryptBlocks :: "primitives \<Rightarrow> nat \<Rightarrow> bytes \<Rightarrow> ige \<Rightarrow> go_error + bytes \<times> ige" where
  "CryptBlocks P dstLen src m =
     (case cryptIGEState P (ige_key m) dstLen src (ige_iv m) (ige_decrypt m) of
        Inl e \<Rightarrow> Inl e
      | Inr (dst, iv) \<Rightarrow> Inr (dst, m\<lparr>ige_iv := iv\<rparr>))"

definition cryptIGE :: "primitives \<Rightarrow> nat \<Rightarrow> bytes \<Rightarrow> bytes \<Rightarrow> bytes \<Rightarrow> bool \<Rightarrow> go_error + bytes" where
  "cryptIGE P dstLen src key iv decrypt =
     (if length iv \<noteq> igeIVSize then Inl Panic
      else map_sum id fst (cryptIGEState P key dstLen src iv decrypt))"

definition EncryptIGE :: "primitives \<Rightarrow> nat \<Rightarrow> bytes \<Rightarrow> bytes \<Rightarrow> bytes \<Rightarrow> go_error + bytes" where
  "EncryptIGE P dstLen src key iv = cryptIGE P dstLen src key iv False"

definition DecryptIGE :: "primitives \<Rightarrow> nat \<Rightarrow> bytes \<Rightarrow> bytes \<Rightarrow> bytes \<Rightarrow> go_error + bytes" where
  "DecryptIGE P dstLen src key iv = cryptIGE P dstLen src key iv True"

section \<open>The two directions undo each other\<close>

lemma length_xorBlock [simp]: "length (xorBlock a b) = 16"
  by (simp add: xorBlock_def aesBlockSize_def)

lemma xorBlock_cancel [simp]: "length a = 16 \<Longrightarrow> xorBlock (xorBlock a b) b = a"
  by (rule nth_equalityI) (simp_all add: xorBlock_def aesBlockSize_def xor.assoc)

text \<open>Both directions, started in the same chaining state, end in the same one.\<close>

lemma cryptIGE_loop_inverse:
  assumes "length src mod 16 = 0" "length pc = 16" "length pp = 16"
    and "\<And>b. length b = 16 \<Longrightarrow> length (f b) = 16 \<and> g (f b) = b"
    and "cryptIGE_loop f dec pc pp src = (dst, st)"
  shows "length dst = length src" "cryptIGE_loop g (\<not> dec) pc pp dst = (src, st)"
proof -
  have "length dst = length src \<and> cryptIGE_loop g (\<not> dec) pc pp dst = (src, st)"
    using assms
  proof (induction f dec pc pp src arbitrary: dst rule: cryptIGE_loop.induct)
    case (1 f dec pc pp src)
    show ?case
    proof (cases "src = []")
      case True
      with "1.prems"(5) show ?thesis by (auto simp: cryptIGE_loop.simps)
    next
      case False
      then have long: "16 \<le> length src" and m: "length (drop 16 src) mod 16 = 0"
        using "1.prems"(1) by (auto simp: mod_eq_0_iff_dvd dvd_imp_le)
      then have b: "length (take 16 src) = 16" by simp
      show ?thesis
      proof (cases dec)
        case True
        define out where "out = xorBlock (f (xorBlock (take 16 src) pp)) pc"
        obtain d where d: "cryptIGE_loop f dec (take 16 src) out (drop 16 src) = (d, st)" "dst = out @ d"
          using "1.prems"(5) False True
          by (auto simp: cryptIGE_loop.simps [of f _ pc pp src] out_def aesBlockSize_def Let_def split: prod.splits)
        have IH: "length d = length (drop 16 src)"
          "cryptIGE_loop g (\<not> dec) (take 16 src) out d = (drop 16 src, st)"
          using "1.IH"(1) [OF False refl refl True refl refl, unfolded aesBlockSize_def,
              OF m b _ "1.prems"(4), folded out_def, OF _ _ d(1)]
          by (simp_all add: out_def)
        have "f (xorBlock (take 16 src) pp) = xorBlock out pc"
          using "1.prems"(4) by (simp add: out_def)
        then have "xorBlock (g (xorBlock out pc)) pp = take 16 src"
          using "1.prems"(4) [of "xorBlock (take 16 src) pp"] b
          by (metis length_xorBlock xorBlock_cancel)
        moreover have "length out = 16" "out \<noteq> []" by (auto simp: out_def xorBlock_def aesBlockSize_def)
        ultimately show ?thesis
          using IH d(2) True long by (simp add: cryptIGE_loop.simps [of g _ pc pp] aesBlockSize_def Let_def)
      next
        case dec: False
        define out where "out = xorBlock (f (xorBlock (take 16 src) pc)) pp"
        obtain d where d: "cryptIGE_loop f dec out (take 16 src) (drop 16 src) = (d, st)" "dst = out @ d"
          using "1.prems"(5) False dec
          by (auto simp: cryptIGE_loop.simps [of f _ pc pp src] out_def aesBlockSize_def Let_def split: prod.splits)
        have IH: "length d = length (drop 16 src)"
          "cryptIGE_loop g (\<not> dec) out (take 16 src) d = (drop 16 src, st)"
          using "1.IH"(2) [OF False refl refl dec refl refl, unfolded aesBlockSize_def,
              OF m _ b "1.prems"(4), folded out_def, OF _ _ d(1)]
          by (simp_all add: out_def)
        have "f (xorBlock (take 16 src) pc) = xorBlock out pp"
          using "1.prems"(4) by (simp add: out_def)
        then have "xorBlock (g (xorBlock out pp)) pc = take 16 src"
          using "1.prems"(4) [of "xorBlock (take 16 src) pc"] b
          by (metis length_xorBlock xorBlock_cancel)
        moreover have "length out = 16" "out \<noteq> []" by (auto simp: out_def xorBlock_def aesBlockSize_def)
        ultimately show ?thesis
          using IH d(2) dec long by (simp add: cryptIGE_loop.simps [of g _ pc pp] aesBlockSize_def Let_def)
      qed
    qed
  qed
  then show "length dst = length src" "cryptIGE_loop g (\<not> dec) pc pp dst = (src, st)" by simp_all
qed

lemma cryptIGEState_inverse:
  assumes P: "primitives_ok P" and k: "length key = 32" and iv: "length iv = 32"
    and run: "cryptIGEState P key n src iv dec = Inr (dst, iv')"
  shows "length dst = length src" "length src \<le> n \<and> length src mod 16 = 0"
    "cryptIGEState P key (length dst) dst iv (\<not> dec) = Inr (src, iv')"
proof -
  let ?f = "if dec then aesDecrypt P key else aesEncrypt P key"
  let ?g = "if \<not> dec then aesDecrypt P key else aesEncrypt P key"
  have s: "length src mod 16 = 0" "length src \<le> n"
    using run by (auto simp: cryptIGEState_def aesBlockSize_def split: if_splits)
  obtain pc pp where l: "cryptIGE_loop ?f dec (take 16 iv) (drop 16 iv) src = (dst, pc, pp)" "iv' = pc @ pp"
    using run s by (auto simp: cryptIGEState_def aesBlockSize_def Let_def split: prod.splits)
  have inv: "length (?f b) = 16 \<and> ?g (?f b) = b" if "length b = 16" for b
    using P k that by (simp add: primitives_ok_def)
  note I = cryptIGE_loop_inverse [OF s(1) _ _ inv l(1)]
  show "length dst = length src" using I iv by simp
  then show "cryptIGEState P key (length dst) dst iv (\<not> dec) = Inr (src, iv')"
    using I(2) iv s l(2) by (simp add: cryptIGEState_def aesBlockSize_def)
  show "length src \<le> n \<and> length src mod 16 = 0" using s by simp
qed

lemma cryptIGEState_total:
  "length src mod 16 = 0 \<Longrightarrow> length src \<le> n \<Longrightarrow> \<exists>dst iv'. cryptIGEState P key n src iv dec = Inr (dst, iv')"
  by (simp add: cryptIGEState_def aesBlockSize_def Let_def split: prod.splits)

lemma cryptIGE_inverse:
  assumes "primitives_ok P" "length key = 32" "cryptIGE P n src key iv dec = Inr dst"
  shows "length dst = length src" "cryptIGE P (length dst) dst key iv (\<not> dec) = Inr src"
proof -
  have iv: "length iv = 32" using assms(3) by (auto simp: cryptIGE_def igeIVSize_def split: if_splits)
  then obtain iv' where "cryptIGEState P key n src iv dec = Inr (dst, iv')"
    using assms(3) by (cases "cryptIGEState P key n src iv dec") (auto simp: cryptIGE_def igeIVSize_def)
  note I = cryptIGEState_inverse [OF assms(1,2) iv this]
  show "length dst = length src" by (rule I(1))
  show "cryptIGE P (length dst) dst key iv (\<not> dec) = Inr src"
    using I(3) iv by (simp add: cryptIGE_def igeIVSize_def)
qed

text \<open>A fresh mode object processes one whole message as the one-shot functions do.\<close>

lemma CryptBlocks_fresh:
  "length key = 32 \<Longrightarrow> length iv = 32 \<Longrightarrow>
   map_sum id fst (CryptBlocks P n src \<lparr>ige_key = key, ige_iv = iv, ige_decrypt = dec\<rparr>) =
     cryptIGE P n src key iv dec"
  by (simp add: CryptBlocks_def cryptIGE_def igeIVSize_def split: sum.splits)

end
