(* ===== verification/Message_Envelope.thy ===== *)
theory Message_Envelope
  imports AES_IGE Wire_Writer
begin

text \<open>
  The MTProto 2.0 envelope: the key derivation of \<open>crypto/dh.go\<close> and the key identifier of
  \<open>crypto/authkey.go\<close>, the unencrypted and encrypted messages of \<open>mtproto/message.go\<close>, and
  the frame decoder of \<open>internal/runtime/envelope.go\<close> with the frame layout of
  \<open>internal/runtime/writer.go\<close>.  An authorization key is a list of 256 bytes; a source of keys
  is a function from key identifiers to a key or an error, and the random padding of a message is a
  function from the number of bytes wanted.
\<close>

section \<open>Key derivation\<close>

definition ComputeMsgKey :: "primitives \<Rightarrow> bytes \<Rightarrow> bytes \<Rightarrow> bool \<Rightarrow> bytes" where
  "ComputeMsgKey P authKey data fromClient =
     (let x = (if \<not> fromClient then 8 else 0);
          start = 88 + x;
          h = sha256 P (slice start (start + 32) authKey @ data)
      in slice 8 24 h)"

definition ComputeKDF :: "primitives \<Rightarrow> bytes \<Rightarrow> bytes \<Rightarrow> bool \<Rightarrow> bytes \<times> bytes" where
  "ComputeKDF P authKey msgKey fromClient =
     (let x = (if \<not> fromClient then 8 else 0);
          h1 = sha256 P (msgKey @ slice x (x + 36) authKey);
          h2 = sha256 P (slice (40 + x) (40 + x + 36) authKey @ msgKey);
          key = slice 0 8 h1 @ slice 8 24 h2 @ slice 24 32 h1;
          iv = slice 0 8 h2 @ slice 8 24 h1 @ slice 24 32 h2
      in (key, iv))"

definition ComputeAuthKeyID :: "primitives \<Rightarrow> bytes \<Rightarrow> int" where
  "ComputeAuthKeyID P authKey = (let sum = sha1 P authKey in wrap64 (le_int (drop (length sum - 8) sum)))"

definition AuthKey_ID :: "primitives \<Rightarrow> bytes \<Rightarrow> int" where
  "AuthKey_ID P k = u64 (ComputeAuthKeyID P k)"

definition AuthKey_Equal :: "bytes \<Rightarrow> bytes \<Rightarrow> bool" where
  "AuthKey_Equal k other \<longleftrightarrow> k = other"

section \<open>Messages\<close>

record UnencryptedMessage =
  umAuthKeyID :: bytes
  umMsgID :: int
  umData :: bytes

record EncryptedMessage =
  emAuthKeyID :: int
  emMsgKey :: bytes
  emEncryptedData :: bytes

record InnerData =
  idSalt :: int
  idSessionID :: int
  idMsgID :: int
  idSeqNo :: int
  idData :: bytes

definition UnencryptedMessage_Serialize :: "UnencryptedMessage \<Rightarrow> go_error + bytes" where
  "UnencryptedMessage_Serialize m =
     buffered (andThen (boundedRuntimeWriter_Write (umAuthKeyID m)) (\<lambda>_.
               andThen (WriteInt64 (umMsgID m)) (\<lambda>_.
               andThen (WriteInt32 (wrap32 (int (length (umData m))))) (\<lambda>_.
               boundedRuntimeWriter_Write (umData m)))))"

definition readUnencrypted :: "(reader, UnencryptedMessage) io" where
  "readUnencrypted =
     andThen (ReadFull 8) (\<lambda>authKeyID.
     andThen ReadInt64 (\<lambda>msgID.
     andThen ReadInt32 (\<lambda>len.
       if len < 0 then raise (MessageError InvalidMessageLength)
       else andThen (ReadSizedBytes len) (\<lambda>msgData.
         ret \<lparr>umAuthKeyID = authKeyID, umMsgID = msgID, umData = msgData\<rparr>))))"

definition UnencryptedMessage_Deserialize :: "bytes \<Rightarrow> go_error + UnencryptedMessage" where
  "UnencryptedMessage_Deserialize data = fst (readUnencrypted \<lparr>rdata = data, rbudget = None\<rparr>)"

definition calcMsgKey :: "primitives \<Rightarrow> bytes \<Rightarrow> bytes \<Rightarrow> bool \<Rightarrow> bytes" where
  "calcMsgKey P key data fromClient = ComputeMsgKey P key data fromClient"

definition readInner :: "(reader, InnerData) io" where
  "readInner =
     andThen ReadInt64 (\<lambda>salt.
     andThen ReadInt64 (\<lambda>sessionID.
     andThen ReadInt64 (\<lambda>msgID.
     andThen ReadInt32 (\<lambda>seqNo.
     andThen ReadInt32 (\<lambda>dataLen.
       if dataLen < 0 then raise (MessageError InvalidMessageLength)
       else andThen (ReadSizedBytes dataLen) (\<lambda>data.
         ret \<lparr>idSalt = salt, idSessionID = sessionID, idMsgID = msgID, idSeqNo = seqNo, idData = data\<rparr>))))))"

definition decryptWithDirection :: "primitives \<Rightarrow> EncryptedMessage \<Rightarrow> bytes \<Rightarrow> bool \<Rightarrow> go_error + InnerData" where
  "decryptWithDirection P m key fromClient =
     (let data = emEncryptedData m in
      if length data = 0 \<or> length data mod 16 \<noteq> 0 then Inl (MessageError InvalidMessageLength)
      else
        (case ComputeKDF P key (emMsgKey m) fromClient of (aesKey, aesIV) \<Rightarrow>
         case NewAESIGEDecrypt aesKey aesIV of
           Inl e \<Rightarrow> Inl e
         | Inr block \<Rightarrow>
             (case CryptBlocks P (length data) data block of
                Inl e \<Rightarrow> Inl e
              | Inr (plaintext, _) \<Rightarrow>
                  if calcMsgKey P key plaintext fromClient \<noteq> emMsgKey m then Inl (MessageError MsgKeyMismatch)
                  else fst (readInner \<lparr>rdata = plaintext, rbudget = None\<rparr>))))"

definition EncryptedMessage_Decrypt :: "primitives \<Rightarrow> EncryptedMessage \<Rightarrow> bytes \<Rightarrow> go_error + InnerData" where
  "EncryptedMessage_Decrypt P m key = decryptWithDirection P m key False"

definition DecryptFromClient :: "primitives \<Rightarrow> EncryptedMessage \<Rightarrow> bytes \<Rightarrow> go_error + InnerData" where
  "DecryptFromClient P m key = decryptWithDirection P m key True"

text \<open>The number of random bytes \<open>serialize\<close> appends to a message of \<open>currentLen\<close> bytes.\<close>

definition totalPadding :: "int \<Rightarrow> int" where
  "totalPadding currentLen =
     (let alignmentPadding = (16 - (currentLen mod 16)) mod 16;
          minPadding = 12;
          maxPadding = 1024;
          total = (if alignmentPadding < minPadding
                   then alignmentPadding + ((minPadding - alignmentPadding + 15) div 16) * 16
                   else alignmentPadding)
      in if total > maxPadding then (maxPadding div 16) * 16 else total)"

definition InnerData_serialize :: "(nat \<Rightarrow> go_error + bytes) \<Rightarrow> InnerData \<Rightarrow> go_error + bytes" where
  "InnerData_serialize rnd m =
     (case buffered (andThen (WriteInt64 (idSalt m)) (\<lambda>_.
                     andThen (WriteInt64 (idSessionID m)) (\<lambda>_.
                     andThen (WriteInt64 (idMsgID m)) (\<lambda>_.
                     andThen (WriteInt32 (idSeqNo m)) (\<lambda>_.
                     andThen (WriteInt32 (wrap32 (int (length (idData m))))) (\<lambda>_.
                     boundedRuntimeWriter_Write (idData m))))))) of
        Inl e \<Rightarrow> Inl e
      | Inr buf \<Rightarrow>
          (let total = totalPadding (int (length buf)) in
           if total > 0 then
             (case rnd (nat total) of Inl e \<Rightarrow> Inl e | Inr pad \<Rightarrow> Inr (buf @ pad))
           else Inr buf))"

definition encryptWithDirection ::
  "primitives \<Rightarrow> (nat \<Rightarrow> go_error + bytes) \<Rightarrow> InnerData \<Rightarrow> bytes \<Rightarrow> int \<Rightarrow> bool \<Rightarrow> go_error + EncryptedMessage" where
  "encryptWithDirection P rnd m key authKeyID fromClient =
     (case InnerData_serialize rnd m of
        Inl e \<Rightarrow> Inl e
      | Inr plaintext \<Rightarrow>
          (let msgKey = calcMsgKey P key plaintext fromClient in
           case ComputeKDF P key msgKey fromClient of (aesKey, aesIV) \<Rightarrow>
           case NewAESIGE aesKey aesIV of
             Inl e \<Rightarrow> Inl e
           | Inr block \<Rightarrow>
               (case CryptBlocks P (length plaintext) plaintext block of
                  Inl e \<Rightarrow> Inl e
                | Inr (ciphertext, _) \<Rightarrow>
                    Inr \<lparr>emAuthKeyID = authKeyID, emMsgKey = msgKey, emEncryptedData = ciphertext\<rparr>)))"

definition InnerData_Encrypt ::
  "primitives \<Rightarrow> (nat \<Rightarrow> go_error + bytes) \<Rightarrow> InnerData \<Rightarrow> bytes \<Rightarrow> int \<Rightarrow> go_error + EncryptedMessage" where
  "InnerData_Encrypt P rnd m key authKeyID = encryptWithDirection P rnd m key authKeyID False"

definition EncryptFromClient ::
  "primitives \<Rightarrow> (nat \<Rightarrow> go_error + bytes) \<Rightarrow> InnerData \<Rightarrow> bytes \<Rightarrow> int \<Rightarrow> go_error + EncryptedMessage" where
  "EncryptFromClient P rnd m key authKeyID = encryptWithDirection P rnd m key authKeyID True"

section \<open>Frames\<close>

record DecodedFrame =
  dfUnencrypted :: "UnencryptedMessage option"
  dfEncrypted :: "InnerData option"
  dfAuthKeyID :: int
  dfAuthKey :: bytes

definition DecodeFrame :: "primitives \<Rightarrow> bytes \<Rightarrow> (int \<Rightarrow> go_error + bytes) option \<Rightarrow> go_error + DecodedFrame" where
  "DecodeFrame P frame authKeys =
     (if length frame < 8 then Inl (FrameError FrameTooShort)
      else
        (let keyID = le_int (take 8 frame) in
         if keyID = 0 then
           (case UnencryptedMessage_Deserialize frame of
              Inl e \<Rightarrow> Inl e
            | Inr message \<Rightarrow>
                Inr \<lparr>dfUnencrypted = Some message, dfEncrypted = None, dfAuthKeyID = 0, dfAuthKey = replicate 256 0\<rparr>)
         else if length frame < 24 then Inl (FrameError FrameTooShort)
         else
           (case authKeys of
              None \<Rightarrow> Inl (FrameError AuthKeySourceMissing)
            | Some get \<Rightarrow>
                (case get keyID of
                   Inl e \<Rightarrow> Inl e
                 | Inr authKey \<Rightarrow>
                     if AuthKey_ID P authKey \<noteq> keyID then Inl (FrameError AuthKeyMismatch)
                     else
                       (case DecryptFromClient P \<lparr>emAuthKeyID = keyID, emMsgKey = slice 8 24 frame,
                               emEncryptedData = drop 24 frame\<rparr> authKey of
                          Inl e \<Rightarrow> Inl e
                        | Inr inner \<Rightarrow>
                            Inr \<lparr>dfUnencrypted = None, dfEncrypted = Some inner,
                                 dfAuthKeyID = keyID, dfAuthKey = authKey\<rparr>)))))"

definition EncodeUnencryptedFrame :: "UnencryptedMessage option \<Rightarrow> go_error + bytes" where
  "EncodeUnencryptedFrame message =
     (case message of None \<Rightarrow> Inl (IOError UnexpectedEOF) | Some m \<Rightarrow> UnencryptedMessage_Serialize m)"

definition serializeEncryptedFrame :: "EncryptedMessage \<Rightarrow> bytes" where
  "serializeEncryptedFrame message =
     le_bytes 8 (emAuthKeyID message) @ emMsgKey message @ emEncryptedData message"

section \<open>What is written is what is read\<close>

definition inner_ok :: "InnerData \<Rightarrow> bool" where
  "inner_ok m \<longleftrightarrow> in_i64 (idSalt m) \<and> in_i64 (idSessionID m) \<and> in_i64 (idMsgID m) \<and>
     in_i32 (idSeqNo m) \<and> length (idData m) < 2 ^ 31"

definition inner_enc :: "InnerData \<Rightarrow> bytes" where
  "inner_enc m = le_bytes 8 (idSalt m) @ le_bytes 8 (idSessionID m) @ le_bytes 8 (idMsgID m) @
     le_bytes 4 (idSeqNo m) @ le_bytes 4 (int (length (idData m))) @ idData m"

definition random_ok :: "(nat \<Rightarrow> go_error + bytes) \<Rightarrow> bool" where
  "random_ok rnd \<longleftrightarrow> (\<forall>n. \<exists>bs. rnd n = Inr bs \<and> length bs = n)"

lemma wrap32_length: "n < 2 ^ 31 \<Longrightarrow> wrap32 (int n) = int n"
  by (simp add: in_i32_def)

lemma length_inner_enc: "length (inner_enc m) = 32 + length (idData m)"
  by (simp add: inner_enc_def)

lemma buffered_inner:
  "inner_ok m \<Longrightarrow>
   buffered (andThen (WriteInt64 (idSalt m)) (\<lambda>_.
             andThen (WriteInt64 (idSessionID m)) (\<lambda>_.
             andThen (WriteInt64 (idMsgID m)) (\<lambda>_.
             andThen (WriteInt32 (idSeqNo m)) (\<lambda>_.
             andThen (WriteInt32 (wrap32 (int (length (idData m))))) (\<lambda>_.
             boundedRuntimeWriter_Write (idData m))))))) = Inr (inner_enc m)"
  unfolding inner_enc_def
  by (rule buffered_emits) (simp add: inner_ok_def wrap32_length emit_intros)

lemma totalPadding_bounds:
  "12 \<le> totalPadding n" "totalPadding n \<le> 27" "(n + totalPadding n) mod 16 = 0"
proof -
  define a where "a = (16 - n mod 16) mod 16"
  have a: "0 \<le> a" "a < 16" by (simp_all add: a_def)
  have na: "(n + a) mod 16 = 0" by (simp add: a_def mod_simps)
  have "(27 - a) div 16 = 1" if "a < 12" using a that by presburger
  then have t: "totalPadding n = (if a < 12 then a + 16 else a)"
    using a unfolding totalPadding_def Let_def a_def [symmetric] by simp
  show "12 \<le> totalPadding n" "totalPadding n \<le> 27" using a by (simp_all add: t)
  have "(n + (a + 16)) mod 16 = (n + a) mod 16"
    using mod_add_self2 [of "n + a" 16] by (simp only: add.assoc)
  with na show "(n + totalPadding n) mod 16 = 0" by (simp add: t)
qed

lemma serialize_eq:
  assumes "inner_ok m" "random_ok rnd"
  obtains pad where "InnerData_serialize rnd m = Inr (inner_enc m @ pad)"
    "12 \<le> length pad" "length pad \<le> 27" "length (inner_enc m @ pad) mod 16 = 0"
proof -
  let ?n = "int (length (inner_enc m))"
  obtain pad where pad: "rnd (nat (totalPadding ?n)) = Inr pad" "length pad = nat (totalPadding ?n)"
    using assms(2) by (auto simp: random_ok_def)
  have e: "InnerData_serialize rnd m = Inr (inner_enc m @ pad)"
    using pad totalPadding_bounds [of ?n] by (simp add: InnerData_serialize_def buffered_inner [OF assms(1)])
  have "int (length (inner_enc m @ pad)) = ?n + totalPadding ?n"
    using pad(2) totalPadding_bounds [of ?n] by simp
  then have "int (length (inner_enc m @ pad)) mod int 16 = 0"
    using totalPadding_bounds(3) [of ?n] by simp
  then have "length (inner_enc m @ pad) mod 16 = 0"
    using zmod_int [of "length (inner_enc m @ pad)" 16] by simp
  with that [OF e] pad(2) totalPadding_bounds [of ?n] show thesis by simp
qed

lemma parses_inner: "inner_ok m \<Longrightarrow> parses readInner (inner_enc m) 0 0 0 m"
  unfolding readInner_def inner_enc_def inner_ok_def
  by (elim conjE)
    (intro parses_seq [OF parses_ReadInt64] parses_seq [OF parses_ReadInt32]; simp add: in_i32_def;
     rule parses_map [OF parses_ReadSizedBytes]; simp)

lemma ComputeKDF_length:
  "primitives_ok P \<Longrightarrow> ComputeKDF P authKey msgKey fc = (key, iv) \<Longrightarrow> length key = 32 \<and> length iv = 32"
  by (auto simp: ComputeKDF_def Let_def length_slice primitives_ok_def)

lemma calcMsgKey_length: "primitives_ok P \<Longrightarrow> length (calcMsgKey P key data fc) = 16"
  by (simp add: calcMsgKey_def ComputeMsgKey_def Let_def length_slice primitives_ok_def)

lemma decrypt_eq:
  assumes P: "primitives_ok P" and kdf: "ComputeKDF P key (emMsgKey m) fc = (k, iv)"
  shows "decryptWithDirection P m key fc =
    (let data = emEncryptedData m in
     if length data = 0 \<or> length data mod 16 \<noteq> 0 then Inl (MessageError InvalidMessageLength)
     else case DecryptIGE P (length data) data k iv of
         Inl e \<Rightarrow> Inl e
       | Inr plaintext \<Rightarrow>
           if calcMsgKey P key plaintext fc \<noteq> emMsgKey m then Inl (MessageError MsgKeyMismatch)
           else fst (readInner \<lparr>rdata = plaintext, rbudget = None\<rparr>))"
proof -
  have l: "length k = 32" "length iv = 32" using ComputeKDF_length [OF P kdf] by simp_all
  show ?thesis
    using CryptBlocks_fresh [OF l, of P "length (emEncryptedData m)" "emEncryptedData m" True] l
    by (auto simp: decryptWithDirection_def kdf NewAESIGEDecrypt_def DecryptIGE_def aes256KeySize_def
        igeIVSize_def Let_def split: sum.splits prod.splits)
qed

lemma encrypt_eq:
  assumes P: "primitives_ok P" and s: "InnerData_serialize rnd m = Inr plaintext"
    and kdf: "ComputeKDF P key (calcMsgKey P key plaintext fc) fc = (k, iv)"
  shows "encryptWithDirection P rnd m key keyID fc =
    (case EncryptIGE P (length plaintext) plaintext k iv of
       Inl e \<Rightarrow> Inl e
     | Inr c \<Rightarrow> Inr \<lparr>emAuthKeyID = keyID, emMsgKey = calcMsgKey P key plaintext fc, emEncryptedData = c\<rparr>)"
proof -
  have l: "length k = 32" "length iv = 32" using ComputeKDF_length [OF P kdf] by simp_all
  show ?thesis
    using CryptBlocks_fresh [OF l, of P "length plaintext" plaintext False] l
    by (auto simp: encryptWithDirection_def s kdf NewAESIGE_def EncryptIGE_def aes256KeySize_def
        igeIVSize_def Let_def split: sum.splits prod.splits)
qed

lemma encrypt_decrypt:
  assumes P: "primitives_ok P" and m: "inner_ok m" and rnd: "random_ok rnd"
  obtains c where "encryptWithDirection P rnd m key keyID fc = Inr c"
    "emAuthKeyID c = keyID" "length (emMsgKey c) = 16" "decryptWithDirection P c key fc = Inr m"
proof -
  obtain pad where pad: "InnerData_serialize rnd m = Inr (inner_enc m @ pad)"
    "length (inner_enc m @ pad) mod 16 = 0"
    using serialize_eq [OF m rnd] by metis
  let ?p = "inner_enc m @ pad"
  obtain k iv where kdf: "ComputeKDF P key (calcMsgKey P key ?p fc) fc = (k, iv)" by fastforce
  have l: "length k = 32" "length iv = 32" using ComputeKDF_length [OF P kdf] by simp_all
  obtain c where c: "EncryptIGE P (length ?p) ?p k iv = Inr c"
    using cryptIGEState_total [OF pad(2) order_refl, of P k iv False] l
    by (auto simp: EncryptIGE_def cryptIGE_def igeIVSize_def)
  have inv: "length c = length ?p" "DecryptIGE P (length c) c k iv = Inr ?p"
    using cryptIGE_inverse [OF P l(1) c [unfolded EncryptIGE_def]] by (simp_all add: DecryptIGE_def)
  have nonempty: "c \<noteq> []" using inv(1) length_inner_enc [of m] by auto
  have "readInner \<lparr>rdata = ?p, rbudget = None\<rparr> =
      (Inr m, spend (length (inner_enc m)) 0 0 \<lparr>rdata = ?p, rbudget = None\<rparr>)"
    by (rule parsesD [OF parses_inner [OF m], where rest = pad]) (simp_all add: affords_def)
  moreover define e where "e = \<lparr>emAuthKeyID = keyID, emMsgKey = calcMsgKey P key ?p fc, emEncryptedData = c\<rparr>"
  moreover from kdf have "ComputeKDF P key (emMsgKey e) fc = (k, iv)" by (simp add: e_def)
  ultimately have "decryptWithDirection P e key fc = Inr m"
    using inv pad(2) nonempty by (simp add: decrypt_eq [OF P] Let_def)
  then show thesis
    by (rule that [rotated 3]) (simp_all add: encrypt_eq [OF P pad(1) kdf] c [simplified] calcMsgKey_length [OF P] e_def)
qed

lemma AuthKey_ID_range: "in_u64 (AuthKey_ID P k)"
  by (simp add: AuthKey_ID_def)

text \<open>The decoder accepts an encrypted frame exactly when it is the encryption of a plaintext it can
  parse under the key the source has for its identifier.\<close>

lemma frame_split: "take 8 frame @ slice 8 24 frame @ drop 24 frame = frame"
  using append_take_drop_id [of 8 frame] append_take_drop_id [of 16 "drop 8 frame"] by (simp add: slice_def)

lemma frame_parts:
  assumes "in_u64 v" "length k = 16"
  shows "le_int (take 8 (le_bytes 8 v @ k @ c)) = v" "slice 8 24 (le_bytes 8 v @ k @ c) = k"
    "drop 24 (le_bytes 8 v @ k @ c) = c"
  using assms by (simp_all add: in_u64_def slice_def)

definition sealed :: "primitives \<Rightarrow> bytes \<Rightarrow> bytes \<Rightarrow> bytes \<Rightarrow> bool" where
  "sealed P key frame plaintext \<longleftrightarrow>
     (let msgKey = ComputeMsgKey P key plaintext True; (k, iv) = ComputeKDF P key msgKey True in
      \<exists>c. c \<noteq> [] \<and> EncryptIGE P (length plaintext) plaintext k iv = Inr c \<and>
          frame = le_bytes 8 (AuthKey_ID P key) @ msgKey @ c)"

text \<open>A concrete choice of the primitives for evaluation: a block cipher that adds the key to the
  block and hashes that truncate.\<close>

definition examplePrimitives :: primitives where
  "examplePrimitives = \<lparr>aesEncrypt = (\<lambda>k b. xorBlock b k), aesDecrypt = (\<lambda>k b. xorBlock b k),
     sha1 = (\<lambda>m. take 20 (m @ replicate 20 0)), sha256 = (\<lambda>m. take 32 (m @ replicate 32 0))\<rparr>"

definition exampleAuthKey :: bytes where "exampleAuthKey = replicate 256 1"

definition exampleKeyID :: int where "exampleKeyID = 0x0101010101010101"

definition exampleInnerData :: InnerData where
  "exampleInnerData = \<lparr>idSalt = 5, idSessionID = 6, idMsgID = 7, idSeqNo = 1, idData = [1, 2, 3, 4]\<rparr>"

lemma examplePrimitives_ok: "primitives_ok examplePrimitives"
  by (auto simp: primitives_ok_def examplePrimitives_def min_def)

lemma exampleKeyID_eq: "AuthKey_ID examplePrimitives exampleAuthKey = exampleKeyID"
proof -
  have "sha1 examplePrimitives exampleAuthKey = replicate 20 1"
    by (simp add: examplePrimitives_def exampleAuthKey_def)
  moreover have "le_int (replicate 8 1) = exampleKeyID" by code_simp
  moreover have "u64 exampleKeyID = exampleKeyID" by (simp add: exampleKeyID_def u64_def)
  ultimately show ?thesis by (simp add: AuthKey_ID_def ComputeAuthKeyID_def Let_def)
qed

lemma example_random: "random_ok (\<lambda>n. Inr (replicate n 9))"
  by (simp add: random_ok_def)

lemma exampleInner_ok: "inner_ok exampleInnerData"
  by (simp add: inner_ok_def exampleInnerData_def range_defs)

section \<open>Properties\<close>

text \<open>C2. Encrypted envelope round trip.  Whatever inner message a client encrypts under an
  authorization key the server's source knows by the key's identifier, the server's
  \<open>DecodeFrame\<close> recovers from the serialized frame unchanged, together with the key; the
  encryption itself cannot fail once its random padding can be drawn.  The same holds for the
  direction from the server to the client.\<close>

theorem envelope_roundtrip:
  assumes P: "primitives_ok P" and rnd: "random_ok rnd" and m: "inner_ok m"
    and key: "AuthKey_ID P key \<noteq> 0" "keys (AuthKey_ID P key) = Inr key"
  shows "(\<exists>e. EncryptFromClient P rnd m key (AuthKey_ID P key) = Inr e \<and>
           DecodeFrame P (serializeEncryptedFrame e) (Some keys) =
             Inr \<lparr>dfUnencrypted = None, dfEncrypted = Some m, dfAuthKeyID = AuthKey_ID P key, dfAuthKey = key\<rparr>) \<and>
         (\<exists>e. InnerData_Encrypt P rnd m key (AuthKey_ID P key) = Inr e \<and> EncryptedMessage_Decrypt P e key = Inr m)"
proof
  let ?id = "AuthKey_ID P key"
  obtain e where e: "encryptWithDirection P rnd m key ?id True = Inr e" "emAuthKeyID e = ?id"
    "length (emMsgKey e) = 16" "decryptWithDirection P e key True = Inr m"
    by (rule encrypt_decrypt [OF P m rnd])
  let ?f = "serializeEncryptedFrame e"
  have f: "?f = le_bytes 8 ?id @ emMsgKey e @ emEncryptedData e" by (simp add: serializeEncryptedFrame_def e(2))
  have parts: "le_int (take 8 ?f) = ?id" "slice 8 24 ?f = emMsgKey e" "drop 24 ?f = emEncryptedData e"
    unfolding f using frame_parts [OF AuthKey_ID_range e(3)] by simp_all
  have "\<lparr>emAuthKeyID = ?id, emMsgKey = emMsgKey e, emEncryptedData = emEncryptedData e\<rparr> = e"
    using e(2) by simp
  then have "DecodeFrame P ?f (Some keys) =
      Inr \<lparr>dfUnencrypted = None, dfEncrypted = Some m, dfAuthKeyID = ?id, dfAuthKey = key\<rparr>"
    using key e(3,4) by (simp add: DecodeFrame_def Let_def parts DecryptFromClient_def) (simp add: f)
  with e(1) show "\<exists>e. EncryptFromClient P rnd m key ?id = Inr e \<and> DecodeFrame P (serializeEncryptedFrame e) (Some keys) =
      Inr \<lparr>dfUnencrypted = None, dfEncrypted = Some m, dfAuthKeyID = ?id, dfAuthKey = key\<rparr>"
    by (auto simp: EncryptFromClient_def)
  show "\<exists>e. InnerData_Encrypt P rnd m key ?id = Inr e \<and> EncryptedMessage_Decrypt P e key = Inr m"
    using encrypt_decrypt [OF P m rnd, of key ?id False]
    by (auto simp: InnerData_Encrypt_def EncryptedMessage_Decrypt_def)
qed

theorem envelope_roundtrip_witness:
  "(\<exists>e. EncryptFromClient examplePrimitives (\<lambda>n. Inr (replicate n 9)) exampleInnerData exampleAuthKey exampleKeyID = Inr e \<and>
      DecodeFrame examplePrimitives (serializeEncryptedFrame e)
        (Some (\<lambda>id. if id = exampleKeyID then Inr exampleAuthKey else Inl (CryptoError AuthKeyNotFound))) =
      Inr \<lparr>dfUnencrypted = None, dfEncrypted = Some exampleInnerData, dfAuthKeyID = exampleKeyID, dfAuthKey = exampleAuthKey\<rparr>)"
  using envelope_roundtrip [OF examplePrimitives_ok example_random exampleInner_ok, of exampleAuthKey
      "\<lambda>id. if id = exampleKeyID then Inr exampleAuthKey else Inl (CryptoError AuthKeyNotFound)"]
  by (simp add: exampleKeyID_eq exampleKeyID_def [THEN arg_cong, of "\<lambda>x. x \<noteq> 0"])

text \<open>C28. Authenticity of encrypted frames.  \<open>DecodeFrame\<close> delivers an encrypted message exactly when
  the frame is sealed: it consists of the identifier of the key that the source holds under it, the
  message key computed over the plaintext with that authorization key, and the encryption of the
  plaintext under the keys derived from both; what it delivers is then the header and data that the
  plaintext carries.  So no frame whose message key does not authenticate its plaintext, and none
  under a key filed under another identifier, gets past the decoder.\<close>

theorem frame_authentic:
  assumes P: "primitives_ok P"
  shows "DecodeFrame P frame (Some keys) =
      Inr \<lparr>dfUnencrypted = None, dfEncrypted = Some m, dfAuthKeyID = keyID, dfAuthKey = key\<rparr> \<longleftrightarrow>
    keyID \<noteq> 0 \<and> keys keyID = Inr key \<and> AuthKey_ID P key = keyID \<and>
    (\<exists>plaintext. sealed P key frame plaintext \<and> fst (readInner \<lparr>rdata = plaintext, rbudget = None\<rparr>) = Inr m)"
  (is "?D \<longleftrightarrow> ?S")
proof
  assume D: ?D
  let ?e = "\<lparr>emAuthKeyID = keyID, emMsgKey = slice 8 24 frame, emEncryptedData = drop 24 frame\<rparr>"
  have h: "24 \<le> length frame" "keyID = le_int (take 8 frame)" "keyID \<noteq> 0" "keys keyID = Inr key"
    "AuthKey_ID P key = keyID" "decryptWithDirection P ?e key True = Inr m"
    using D by (auto simp: DecodeFrame_def Let_def DecryptFromClient_def split: if_splits sum.splits)
  obtain k iv where kdf: "ComputeKDF P key (emMsgKey ?e) True = (k, iv)" by fastforce
  obtain p where p: "drop 24 frame \<noteq> []" "DecryptIGE P (length (drop 24 frame)) (drop 24 frame) k iv = Inr p"
    "calcMsgKey P key p True = slice 8 24 frame" "fst (readInner \<lparr>rdata = p, rbudget = None\<rparr>) = Inr m"
    using h(6) unfolding decrypt_eq [OF P kdf] by (auto simp: Let_def split: if_splits sum.splits)
  have "EncryptIGE P (length p) p k iv = Inr (drop 24 frame)"
    using cryptIGE_inverse(2) [OF P _ p(2) [unfolded DecryptIGE_def]] ComputeKDF_length [OF P kdf]
    by (simp add: EncryptIGE_def)
  moreover have "le_bytes 8 (AuthKey_ID P key) = take 8 frame"
    using le_bytes_le_int [of "take 8 frame"] h(1,2,5) by simp
  ultimately have "sealed P key frame p"
    using p kdf frame_split [of frame] by (auto simp: sealed_def Let_def calcMsgKey_def)
  with h p(4) show ?S by blast
next
  assume S: ?S
  then obtain p where h: "keyID \<noteq> 0" "keys keyID = Inr key" "AuthKey_ID P key = keyID"
    and p: "sealed P key frame p" and r: "fst (readInner \<lparr>rdata = p, rbudget = None\<rparr>) = Inr m"
    by blast
  obtain k iv where kdf: "ComputeKDF P key (ComputeMsgKey P key p True) True = (k, iv)" by fastforce
  obtain c where c: "c \<noteq> []" "EncryptIGE P (length p) p k iv = Inr c"
      "frame = le_bytes 8 keyID @ ComputeMsgKey P key p True @ c"
    using p kdf h(3) by (auto simp: sealed_def Let_def)
  let ?e = "\<lparr>emAuthKeyID = keyID, emMsgKey = ComputeMsgKey P key p True, emEncryptedData = c\<rparr>"
  have l: "length (ComputeMsgKey P key p True) = 16"
    using calcMsgKey_length [OF P, of key p True] by (simp add: calcMsgKey_def)
  note inv = cryptIGE_inverse [OF P _ c(2) [unfolded EncryptIGE_def]]
  have d: "DecryptIGE P (length c) c k iv = Inr p" "length c mod 16 = 0"
    using inv ComputeKDF_length [OF P kdf] c(2)
    by (auto simp: DecryptIGE_def EncryptIGE_def cryptIGE_def cryptIGEState_def aesBlockSize_def split: if_splits)
  have "decryptWithDirection P ?e key True = Inr m"
    using d c(1) r kdf by (simp add: decrypt_eq [OF P, of key ?e True k iv] Let_def calcMsgKey_def)
  moreover have "in_u64 keyID" using h(3) AuthKey_ID_range by metis
  ultimately show ?D
    using h l frame_parts [OF _ l, of keyID c]
    by (simp add: DecodeFrame_def Let_def c(3) DecryptFromClient_def)
qed

theorem frame_authentic_witness:
  "DecodeFrame examplePrimitives (replicate 24 1 @ replicate 16 2) (Some (\<lambda>_. Inr exampleAuthKey)) \<noteq>
     Inr \<lparr>dfUnencrypted = None, dfEncrypted = Some exampleInnerData, dfAuthKeyID = 3, dfAuthKey = exampleAuthKey\<rparr>"
  using frame_authentic [OF examplePrimitives_ok, of "replicate 24 1 @ replicate 16 2" "\<lambda>_. Inr exampleAuthKey"
      exampleInnerData 3 exampleAuthKey]
  by (simp add: exampleKeyID_eq exampleKeyID_def)

text \<open>Padding of encrypted messages.  The plaintext that is encrypted is the header and data of the
  message followed by between 12 and 1024 random bytes (at most 27, in fact) that make its length a
  multiple of the cipher's block, for every length of the data.\<close>

theorem message_padding:
  assumes "inner_ok m" "random_ok rnd"
  shows "\<exists>pad. InnerData_serialize rnd m = Inr (inner_enc m @ pad) \<and>
    12 \<le> length pad \<and> length pad \<le> 27 \<and> (32 + length (idData m) + length pad) mod 16 = 0"
  using serialize_eq [OF assms] by (metis length_append length_inner_enc)

theorem message_padding_witness:
  "\<exists>pad. InnerData_serialize (\<lambda>n. Inr (replicate n 9)) exampleInnerData = Inr (inner_enc exampleInnerData @ pad) \<and>
    12 \<le> length pad \<and> length pad \<le> 27 \<and> (32 + 4 + length pad) mod 16 = 0"
  using message_padding [OF exampleInner_ok example_random] by (simp add: exampleInnerData_def)

end
