(* ===== verification/Inbound_Pipeline.thy ===== *)
theory Inbound_Pipeline
  imports Runtime_Contracts Protocol_Validator TL_Messages Message_Envelope
begin

text \<open>
  \<open>internal/runtime/inbound.go\<close>: a decrypted message is classified, a container is taken apart, the
  envelope is checked by a protocol validator restored from the session's snapshot, and the next
  snapshot is staged.  A child of a container that the snapshot remembers is set aside as a
  retransmission and the rest of the container is validated again.  The clock argument gives the
  reading of each clock access of each validation.
\<close>

section \<open>Classification\<close>

definition classifyMessageKind :: "int \<Rightarrow> int \<Rightarrow> MessageKind" where
  "classifyMessageKind constructorID sequenceNumber =
     (if constructorID = MsgContainerID then Container
      else if constructorID = PingID \<or> constructorID = PingDelayDisconnectID
      then (if odd sequenceNumber then ContentRelated else NonContentRelated)
      else if constructorID \<in> {MsgsAckID, NewSessionCreatedID, GetFutureSaltsID, MsgsStateReqID,
                               MsgResendReqID, MsgsStateInfoID}
      then NonContentRelated
      else ContentRelated)"

definition requiresAcknowledgement :: "int \<Rightarrow> MessageKind \<Rightarrow> bool" where
  "requiresAcknowledgement constructorID kind \<longleftrightarrow>
     (if constructorID = PingID \<or> constructorID = PingDelayDisconnectID then False
      else kind = ContentRelated)"

text \<open>The loop over the children of a container.\<close>

fun classifyChildren :: "Message list \<Rightarrow> go_error + ContainerMessage list \<times> InboundMessage list" where
  "classifyChildren [] = Inr ([], [])"
| "classifyChildren (child # rest) =
     (if length (Message_BodyRaw child) < 4 then Inl (RuntimeError InboundBodyTooShort)
      else
        (let childConstructor = le_int (take 4 (Message_BodyRaw child));
             kind = classifyMessageKind childConstructor (Message_SeqNo child)
         in case classifyChildren rest of
              Inl e \<Rightarrow> Inl e
            | Inr (children, decoded) \<Rightarrow>
                Inr (\<lparr>cMessageID = Message_MsgID child, cSequenceNo = Message_SeqNo child, cKind = kind\<rparr> # children,
                     \<lparr>imMessageID = Message_MsgID child, imSequenceNo = Message_SeqNo child,
                      imConstructorID = childConstructor, imBody = Message_BodyRaw child, imDependencies = [],
                      imDecodeBudget = True, imContentRelated = requiresAcknowledgement childConstructor kind,
                      imSuppressPush = False, imRetransmission = False\<rparr> # decoded)))"

definition classifyProtocolMessage ::
  "InnerData \<Rightarrow> DecodeBudget \<Rightarrow> (go_error + ProtocolMessage \<times> InboundMessage list) \<times> DecodeBudget option" where
  "classifyProtocolMessage inner budget =
     (let constructorID = le_int (take 4 (idData inner));
          kind = classifyMessageKind constructorID (idSeqNo inner);
          message = \<lparr>pServerSalt = idSalt inner, pSessionID = idSessionID inner, pMessageID = idMsgID inner,
            pSequenceNo = idSeqNo inner, pKind = kind, pChildren = []\<rparr>
      in if constructorID \<noteq> MsgContainerID then
           (Inr (message,
              [\<lparr>imMessageID = idMsgID inner, imSequenceNo = idSeqNo inner, imConstructorID = constructorID,
                imBody = idData inner, imDependencies = [], imDecodeBudget = True,
                imContentRelated = requiresAcknowledgement constructorID kind,
                imSuppressPush = False, imRetransmission = False\<rparr>]), Some budget)
         else
           (case andThen ConsumeContainer (\<lambda>_. MsgContainer_DeserializeTL)
                   \<lparr>rdata = idData inner, rbudget = Some budget\<rparr> of
              (Inl e, r) \<Rightarrow> (Inl e, rbudget r)
            | (Inr container, r) \<Rightarrow>
                (if BudgetReader_Len r \<noteq> 0 then Inl (RuntimeError TrailingContainerData)
                 else (case classifyChildren (MsgContainer_Messages container) of
                         Inl e \<Rightarrow> Inl e
                       | Inr (children, decoded) \<Rightarrow> Inr (message\<lparr>pChildren := children\<rparr>, decoded)),
                 rbudget r)))"

section \<open>Validation\<close>

record ValidatedInbound =
  viOuterMessageID :: int
  viEnvelope :: InboundMessage
  viMessages :: "InboundMessage list"
  viSnapshot :: Snapshot

record SessionValidator =
  svLimits :: DecodeLimits
  svValidator :: Validator

definition newProtocolValidator :: "Snapshot \<Rightarrow> go_error + Validator" where
  "newProtocolValidator snapshot =
     NewValidator \<lparr>cfgSessionID = SessionID snapshot, cfgServerSalt = ServerSalt snapshot,
       cfgSequenceNo = SeqNo snapshot, cfgHighestMessageID = LastClientMsgID snapshot,
       cfgMessageIDFloor = ClientMsgIDFloor snapshot, cfgRecentMessageIDs = RecentClientMsgIDs snapshot,
       cfgRecentMessageIDLimit = 0, cfgRecentSequenceNos = RecentClientSeqNos snapshot,
       cfgContentSequenceLimit = 0\<rparr>"

definition NewSessionValidatorWithLimits :: "Snapshot \<Rightarrow> DecodeLimits \<Rightarrow> go_error + SessionValidator" where
  "NewSessionValidatorWithLimits snapshot lims =
     (case NewDecodeBudget lims of
        Inl e \<Rightarrow> Inl e
      | Inr _ \<Rightarrow>
          (case newProtocolValidator snapshot of
             Inl e \<Rightarrow> Inl e
           | Inr v \<Rightarrow> Inr \<lparr>svLimits = lims, svValidator = v\<rparr>))"

definition NewSessionValidator :: "Snapshot \<Rightarrow> go_error + SessionValidator" where
  "NewSessionValidator snapshot = NewSessionValidatorWithLimits snapshot zeroLimits"

text \<open>\<open>for i, child := range message.Children { if child.MessageID == id { index = i; break } }\<close>\<close>

fun childIndex :: "int \<Rightarrow> ContainerMessage list \<Rightarrow> nat option" where
  "childIndex i [] = None"
| "childIndex i (child # rest) =
     (if cMessageID child = i then Some 0 else map_option Suc (childIndex i rest))"

lemma childIndex_Some:
  "childIndex i cs = Some k \<Longrightarrow> k < length cs \<and> cMessageID (cs ! k) = i"
  by (induction cs arbitrary: k) (auto split: if_splits)

text \<open>The validation loop.  It returns the message that was accepted, the identifiers that were set
  aside, and the validator.\<close>

function validateRetry ::
  "(nat \<Rightarrow> nat \<Rightarrow> gotime) \<Rightarrow> nat \<Rightarrow> int set \<Rightarrow> ProtocolMessage \<Rightarrow> int set \<Rightarrow> Validator \<Rightarrow>
     (go_error + ProtocolMessage \<times> int set) \<times> Validator" where
  "validateRetry clock i recent message replayed v =
     (case Validate (clock i) message v of
        (None, v') \<Rightarrow> (Inr (message, replayed), v')
      | (Some err, v') \<Rightarrow>
          (case err of
             BadMessageError bad seqNo code salt cause \<Rightarrow>
               if pKind message \<noteq> Container \<or> cause \<noteq> ReplayMessageID \<or> bad = pMessageID message \<or> bad \<notin> recent
               then (Inl err, v')
               else (case childIndex bad (pChildren message) of
                       None \<Rightarrow> (Inl err, v')
                     | Some index \<Rightarrow>
                         validateRetry clock (Suc i) recent
                           (message\<lparr>pChildren := take index (pChildren message) @ drop (Suc index) (pChildren message)\<rparr>)
                           (insert bad replayed) v')
           | _ \<Rightarrow> (Inl err, v')))"
  by pat_completeness auto
termination
  by (relation "measure (\<lambda>(_, _, _, message, _, _). length (pChildren message))")
    (auto dest!: childIndex_Some)

declare validateRetry.simps [simp del]

definition SessionValidator_Validate ::
  "(nat \<Rightarrow> nat \<Rightarrow> gotime) \<Rightarrow> Snapshot \<Rightarrow> InnerData option \<Rightarrow> SessionValidator \<Rightarrow>
     (go_error + ValidatedInbound) \<times> DecodeBudget option \<times> SessionValidator" where
  "SessionValidator_Validate clock snapshot inner v =
     (case inner of
        None \<Rightarrow> (Inl (RuntimeError InboundBodyTooShort), None, v)
      | Some inner \<Rightarrow>
          if length (idData inner) < 4 then (Inl (RuntimeError InboundBodyTooShort), None, v)
          else
            (case NewDecodeBudget (svLimits v) of
               Inl e \<Rightarrow> (Inl e, None, v)
             | Inr budget \<Rightarrow>
                 (case classifyProtocolMessage inner budget of
                    (Inl e, b) \<Rightarrow> (Inl e, b, v)
                  | (Inr (message, decoded), b) \<Rightarrow>
                      (case newProtocolValidator snapshot of
                         Inl e \<Rightarrow> (Inl e, b, v)
                       | Inr validator \<Rightarrow>
                           (case validateRetry clock 0 (set (RecentClientMsgIDs snapshot)) message {} validator of
                              (Inl e, validator') \<Rightarrow> (Inl e, b, v\<lparr>svValidator := validator'\<rparr>)
                            | (Inr (accepted, replayed), validator') \<Rightarrow>
                                (let original = map (\<lambda>m. m\<lparr>imRetransmission := imMessageID m \<in> replayed\<rparr>) decoded;
                                     state = Validator_Snapshot validator';
                                     next = (Snapshot_Clone snapshot)\<lparr>SessionID := snSessionID state,
                                       ServerSalt := snServerSalt state, SeqNo := snSequenceNo state,
                                       LastClientMsgID := snHighestMessageID state,
                                       ClientMsgIDFloor := snMessageIDFloor state,
                                       RecentClientMsgIDs := snRecentMessageIDs state,
                                       RecentClientSeqNos := snRecentSequenceNos state\<rparr>;
                                     constructorID = le_int (take 4 (idData inner))
                                 in (Inr \<lparr>viOuterMessageID = idMsgID inner,
                                       viEnvelope = \<lparr>imMessageID = idMsgID inner, imSequenceNo = idSeqNo inner,
                                         imConstructorID = constructorID, imBody = idData inner, imDependencies = [],
                                         imDecodeBudget = True,
                                         imContentRelated = requiresAcknowledgement constructorID (pKind accepted),
                                         imSuppressPush = False, imRetransmission = False\<rparr>,
                                       viMessages = original, viSnapshot = next\<rparr>,
                                     b, v\<lparr>svValidator := validator'\<rparr>)))))))"

section \<open>Facts about classification\<close>

lemma classifyMessageKind_Container: "classifyMessageKind c n = Container \<longleftrightarrow> c = MsgContainerID"
  by (simp add: classifyMessageKind_def)

lemma classifyChildren_ids:
  assumes "classifyChildren ms = Inr (children, decoded)"
  shows "map imMessageID decoded = childIDs children" "childIDs children = map Message_MsgID ms"
    "map cSequenceNo children = map Message_SeqNo ms"
proof -
  have "map imMessageID decoded = childIDs children \<and> childIDs children = map Message_MsgID ms \<and>
      map cSequenceNo children = map Message_SeqNo ms"
    using assms
    by (induction ms arbitrary: children decoded) (auto simp: Let_def split: if_splits sum.splits)
  then show "map imMessageID decoded = childIDs children" "childIDs children = map Message_MsgID ms"
    "map cSequenceNo children = map Message_SeqNo ms" by simp_all
qed

lemma ReadInt32_range: "ReadInt32 r = (Inr x, r') \<Longrightarrow> in_i32 x"
  by (auto simp: ReadInt32_def andThen_Inr_iff)

lemma repeatM_all:
  assumes "\<And>r x r'. m r = (Inr x, r') \<Longrightarrow> P x"
  shows "repeatM n m r = (Inr xs, r') \<Longrightarrow> \<forall>x \<in> set xs. P x"
  by (induction n arbitrary: r xs) (auto simp: andThen_Inr_iff dest: assms)

lemma container_seq_range:
  assumes "MsgContainer_DeserializeTL r = (Inr c, r')"
  shows "\<forall>m \<in> set (MsgContainer_Messages c). in_i32 (Message_SeqNo m)"
proof -
  have one: "in_i32 (Message_SeqNo m)" if "Message_DeserializeTL r = (Inr m, r')" for r m r'
    using that by (auto simp: Message_DeserializeTL_def andThen_Inr_iff split: if_splits dest: ReadInt32_range)
  obtain n r1 where "repeatM n Message_DeserializeTL r1 = (Inr (MsgContainer_Messages c), r')"
    using assms by (auto simp: MsgContainer_DeserializeTL_def ReadBareVectorBounded_def vectorBody_def
        andThen_Inr_iff split: if_splits)
  then show ?thesis using repeatM_all [of Message_DeserializeTL "\<lambda>m. in_i32 (Message_SeqNo m)"] one by blast
qed

lemma classify_ok:
  assumes "classifyProtocolMessage inner budget = (Inr (message, decoded), b)" "in_i32 (idSeqNo inner)"
  shows "message_ok message" "pMessageID message = idMsgID inner"
    "map imMessageID decoded = (if pKind message = Container then childIDs (pChildren message) else [pMessageID message])"
proof -
  have "message_ok message \<and> pMessageID message = idMsgID inner \<and>
    map imMessageID decoded = (if pKind message = Container then childIDs (pChildren message) else [pMessageID message])"
  proof (cases "le_int (take 4 (idData inner)) = MsgContainerID")
    case False
    then show ?thesis
      using assms by (auto simp: classifyProtocolMessage_def Let_def classifyMessageKind_Container message_ok_def)
  next
    case True
    then obtain c r children where c: "MsgContainer_DeserializeTL r = (Inr c, snd (MsgContainer_DeserializeTL r))"
      and cl: "classifyChildren (MsgContainer_Messages c) = Inr (children, decoded)"
      and m: "message = \<lparr>pServerSalt = idSalt inner, pSessionID = idSessionID inner, pMessageID = idMsgID inner,
        pSequenceNo = idSeqNo inner, pKind = Container, pChildren = children\<rparr>"
      using assms(1)
      by (auto simp: classifyProtocolMessage_def Let_def classifyMessageKind_Container andThen_Inr_iff
          split: prod.splits sum.splits if_splits)
        (metis classifyMessageKind_Container snd_conv)
    have "set (map cSequenceNo children) = set (map Message_SeqNo (MsgContainer_Messages c))"
      using classifyChildren_ids(3) [OF cl] by simp
    with container_seq_range [OF c] have "\<forall>x \<in> set (map cSequenceNo children). in_i32 x" by auto
    then show ?thesis using assms(2) classifyChildren_ids(1) [OF cl] by (simp add: m message_ok_def)
  qed
  then show "message_ok message" "pMessageID message = idMsgID inner"
    "map imMessageID decoded = (if pKind message = Container then childIDs (pChildren message) else [pMessageID message])"
    by simp_all
qed

section \<open>Facts about the retry loop\<close>

lemma Validate_error: "Validate clock m v = (Some e, v') \<Longrightarrow> v' = v"
  by (auto simp: Validate_def split: sum.splits)

lemma validateRetry_accepted:
  assumes "validateRetry clock i recent message replayed v = (Inr (acc, rep), v')"
  shows "\<exists>j. Validate (clock j) acc v = (None, v')" "acc = message\<lparr>pChildren := pChildren acc\<rparr>"
    "set (pChildren acc) \<subseteq> set (pChildren message)" "replayed \<subseteq> rep" "rep \<subseteq> replayed \<union> recent"
    "filter (\<lambda>c. cMessageID c \<notin> rep) (pChildren acc) = filter (\<lambda>c. cMessageID c \<notin> rep) (pChildren message)"
    "pKind message = Container \<or> rep = replayed"
proof -
  have "(\<exists>j. Validate (clock j) acc v = (None, v')) \<and> acc = message\<lparr>pChildren := pChildren acc\<rparr> \<and>
    set (pChildren acc) \<subseteq> set (pChildren message) \<and> replayed \<subseteq> rep \<and> rep \<subseteq> replayed \<union> recent \<and>
    filter (\<lambda>c. cMessageID c \<notin> rep) (pChildren acc) = filter (\<lambda>c. cMessageID c \<notin> rep) (pChildren message) \<and>
    (pKind message = Container \<or> rep = replayed)"
    using assms
  proof (induction clock i recent message replayed v rule: validateRetry.induct)
    case (1 clock i recent message replayed v)
    obtain e v1 where val: "Validate (clock i) message v = (e, v1)" by fastforce
    show ?case
    proof (cases e)
      case None
      then show ?thesis using "1.prems" val by (auto simp: validateRetry.simps [of clock i])
    next
      case (Some err)
      note v1 = Validate_error [OF val [unfolded Some]]
      obtain bad a b c cause index where err: "err = BadMessageError bad a b c cause"
        and g: "\<not> (pKind message \<noteq> Container \<or> cause \<noteq> ReplayMessageID \<or> bad = pMessageID message \<or> bad \<notin> recent)"
        and index: "childIndex bad (pChildren message) = Some index"
        using "1.prems" val Some
        by (auto simp: validateRetry.simps [of clock i] split: go_error.splits if_splits option.splits)
      let ?m = "message\<lparr>pChildren := take index (pChildren message) @ drop (Suc index) (pChildren message)\<rparr>"
      have rest: "validateRetry clock (Suc i) recent ?m (insert bad replayed) v1 = (Inr (acc, rep), v')"
        using "1.prems" val Some err g index by (simp add: validateRetry.simps [of clock i])
      note IH = "1.IH" [OF val [symmetric] Some err g index rest]
      have ix: "index < length (pChildren message)" "cMessageID (pChildren message ! index) = bad"
        using childIndex_Some [OF index] by simp_all
      have "bad \<in> rep" using IH by auto
      moreover have "pChildren message = take index (pChildren message) @ pChildren message ! index # drop (Suc index) (pChildren message)"
        using ix(1) by (rule id_take_nth_drop)
      ultimately have "filter (\<lambda>c. cMessageID c \<notin> rep) (pChildren ?m) = filter (\<lambda>c. cMessageID c \<notin> rep) (pChildren message)"
        using ix(2) by (metis (no_types, lifting) ProtocolMessage.select_convs(6) ProtocolMessage.surjective ProtocolMessage.update_convs(6) filter.simps(2) filter_append)
      moreover have "set (pChildren ?m) \<subseteq> set (pChildren message)"
        by (auto dest: in_set_takeD in_set_dropD)
      ultimately show ?thesis using IH g v1 by auto
    qed
  qed
  then show "\<exists>j. Validate (clock j) acc v = (None, v')" "acc = message\<lparr>pChildren := pChildren acc\<rparr>"
    "set (pChildren acc) \<subseteq> set (pChildren message)" "replayed \<subseteq> rep" "rep \<subseteq> replayed \<union> recent"
    "filter (\<lambda>c. cMessageID c \<notin> rep) (pChildren acc) = filter (\<lambda>c. cMessageID c \<notin> rep) (pChildren message)"
    "pKind message = Container \<or> rep = replayed"
    by simp_all
qed

section \<open>Restoring the validator from the snapshot\<close>

lemma newProtocolValidator_inv:
  assumes "newProtocolValidator s = Inr v" "in_i32 (SeqNo s)"
  shows "validator_inv v" "messageIDLimit v = 64" "sequenceLimit v = 64"
    "i \<le> ClientMsgIDFloor s \<or> i \<in> set (RecentClientMsgIDs s) \<Longrightarrow> knownID i (vstate v)"
proof -
  note new = assms(1) [unfolded newProtocolValidator_def]
  show "validator_inv v" by (rule NewValidator_inv(1) [OF new]) (simp add: assms(2))
  show "messageIDLimit v = 64" "sequenceLimit v = 64"
    using new by (auto simp: NewValidator_def Let_def DefaultRecentMessageIDLimit_def
        DefaultContentSequenceLimit_def split: if_splits)
  show "i \<le> ClientMsgIDFloor s \<or> i \<in> set (RecentClientMsgIDs s) \<Longrightarrow> knownID i (vstate v)"
    by (rule NewValidator_inv(2) [OF new]) (simp_all add: assms(2))
qed

lemma NewValidator_default:
  "NewValidator (config\<lparr>cfgRecentMessageIDLimit := 64, cfgContentSequenceLimit := 64\<rparr>) =
     NewValidator (config\<lparr>cfgRecentMessageIDLimit := 0, cfgContentSequenceLimit := 0\<rparr>)"
  by (simp add: NewValidator_def Let_def DefaultRecentMessageIDLimit_def DefaultContentSequenceLimit_def)

lemma newProtocolValidator_restore:
  assumes "validator_inv v" "messageIDLimit v = 64" "sequenceLimit v = 64"
    and "SessionID s = sessionID (vstate v)" "ServerSalt s = serverSalt (vstate v)"
      "SeqNo s = sequenceNo (vstate v)" "LastClientMsgID s = highestMessageID (vstate v)"
      "ClientMsgIDFloor s = messageIDFloor (vstate v)" "RecentClientMsgIDs s = recentIDs (vstate v)"
      "RecentClientSeqNos s = recentSeqNos (vstate v)"
  shows "newProtocolValidator s = Inr v"
  using restore_lossless [OF assms(1)] assms(2-) NewValidator_default [of "restoreConfig v"]
  by (simp add: newProtocolValidator_def restoreConfig_def Validator_Snapshot_def Let_def)

text \<open>The salt plays no part in what is restored.\<close>

lemma restore_salt:
  "restoreMessageID L i (state\<lparr>serverSalt := x\<rparr>) = (restoreMessageID L i state)\<lparr>serverSalt := x\<rparr>"
  "restoreSequenceNo S n (state\<lparr>serverSalt := x\<rparr>) = (restoreSequenceNo S n state)\<lparr>serverSalt := x\<rparr>"
  "pruneSequenceNos S (state\<lparr>serverSalt := x\<rparr>) = (pruneSequenceNos S state)\<lparr>serverSalt := x\<rparr>"
  by (simp_all add: restoreMessageID_def rememberMessageID_def restoreSequenceNo_def rememberSequenceNo_def
      pruneSequenceNos_def Let_def)

lemma fold_restore_salt:
  "fold (restoreMessageID L) ids (state\<lparr>serverSalt := x\<rparr>) = (fold (restoreMessageID L) ids state)\<lparr>serverSalt := x\<rparr>"
  "fold (restoreSequenceNo S) ns (state\<lparr>serverSalt := x\<rparr>) = (fold (restoreSequenceNo S) ns state)\<lparr>serverSalt := x\<rparr>"
  by (induction ids arbitrary: state) (simp_all add: restore_salt,
      induction ns arbitrary: state, simp_all add: restore_salt)

lemma NewValidator_salt:
  "NewValidator (config\<lparr>cfgServerSalt := x\<rparr>) = map_sum id (SetServerSalt x) (NewValidator config)"
proof -
  let ?e = "\<lparr>sessionID = cfgSessionID config, serverSalt = cfgServerSalt config,
     sequenceNo = cfgSequenceNo config, highestMessageID = cfgHighestMessageID config,
     messageIDFloor = cfgMessageIDFloor config, recentIDs = [], recentSet = {}, recentSeqNos = [],
     recentSeqSet = {}\<rparr>"
  have e: "\<lparr>sessionID = cfgSessionID config, serverSalt = x,
     sequenceNo = cfgSequenceNo config, highestMessageID = cfgHighestMessageID config,
     messageIDFloor = cfgMessageIDFloor config, recentIDs = [], recentSet = {}, recentSeqNos = [],
     recentSeqSet = {}\<rparr> = ?e\<lparr>serverSalt := x\<rparr>" by simp
  have "pruneSequenceNos S (fold (restoreSequenceNo S) ns (fold (restoreMessageID L) ids
      \<lparr>sessionID = cfgSessionID config, serverSalt = x,
     sequenceNo = cfgSequenceNo config, highestMessageID = cfgHighestMessageID config,
     messageIDFloor = cfgMessageIDFloor config, recentIDs = [], recentSet = {}, recentSeqNos = [],
     recentSeqSet = {}\<rparr>)) =
    (pruneSequenceNos S (fold (restoreSequenceNo S) ns (fold (restoreMessageID L) ids ?e)))\<lparr>serverSalt := x\<rparr>" for L S ids ns
    unfolding e fold_restore_salt restore_salt ..
  then show ?thesis by (simp add: NewValidator_def Let_def SetServerSalt_def)
qed

text \<open>A snapshot saved by another part of the runtime keeps the inbound state: it may differ in
  the salt and in every field the validator does not own.\<close>

definition keepInbound :: "Snapshot \<Rightarrow> Snapshot \<Rightarrow> Snapshot" where
  "keepInbound s s' = s'\<lparr>SessionID := SessionID s, SeqNo := SeqNo s, LastClientMsgID := LastClientMsgID s,
     ClientMsgIDFloor := ClientMsgIDFloor s, RecentClientMsgIDs := RecentClientMsgIDs s,
     RecentClientSeqNos := RecentClientSeqNos s\<rparr>"

lemma newProtocolValidator_keep:
  assumes "newProtocolValidator s = Inr v"
  shows "newProtocolValidator (keepInbound s s') = Inr (SetServerSalt (ServerSalt s') v)"
  using NewValidator_salt [where config = "\<lparr>cfgSessionID = SessionID s, cfgServerSalt = ServerSalt s,
       cfgSequenceNo = SeqNo s, cfgHighestMessageID = LastClientMsgID s,
       cfgMessageIDFloor = ClientMsgIDFloor s, cfgRecentMessageIDs = RecentClientMsgIDs s,
       cfgRecentMessageIDLimit = 0, cfgRecentSequenceNos = RecentClientSeqNos s,
       cfgContentSequenceLimit = 0\<rparr>" and x = "ServerSalt s'"] assms
  by (simp add: newProtocolValidator_def keepInbound_def)

section \<open>One frame\<close>

definition dispatched :: "ValidatedInbound \<Rightarrow> InboundMessage list" where
  "dispatched vi = filter (\<lambda>m. \<not> imRetransmission m) (viMessages vi)"

lemma frame_accepted:
  assumes s: "newProtocolValidator s = Inr v" "in_i32 (SeqNo s)"
    and inner: "in_i32 (idSeqNo inner)"
    and run: "SessionValidator_Validate clock s (Some inner) sv = (Inr vi, b, sv')"
  obtains v' where "newProtocolValidator (viSnapshot vi) = Inr v'" "in_i32 (SeqNo (viSnapshot vi))"
    "distinct (map imMessageID (dispatched vi))"
    "\<forall>m \<in> set (dispatched vi). \<not> knownID (imMessageID m) (vstate v) \<and> knownID (imMessageID m) (vstate v')"
    "\<forall>i. knownID i (vstate v) \<longrightarrow> knownID i (vstate v')"
    "\<forall>m \<in> set (viMessages vi). imRetransmission m \<longrightarrow> imMessageID m \<in> set (RecentClientMsgIDs s)"
    "svLimits sv' = svLimits sv" "svValidator sv' = v'"
    "keepInbound s (viSnapshot vi) = s\<lparr>ServerSalt := ServerSalt (viSnapshot vi)\<rparr>"
proof -
  obtain budget message decoded acc rep v' where
    cl: "classifyProtocolMessage inner budget = (Inr (message, decoded), b)"
    and rt: "validateRetry clock 0 (set (RecentClientMsgIDs s)) message {} v = (Inr (acc, rep), v')"
    and vi: "viMessages vi = map (\<lambda>m. m\<lparr>imRetransmission := imMessageID m \<in> rep\<rparr>) decoded"
    and sn: "viSnapshot vi = s\<lparr>SessionID := sessionID (vstate v'), ServerSalt := serverSalt (vstate v'),
        SeqNo := sequenceNo (vstate v'), LastClientMsgID := highestMessageID (vstate v'),
        ClientMsgIDFloor := messageIDFloor (vstate v'), RecentClientMsgIDs := recentIDs (vstate v'),
        RecentClientSeqNos := recentSeqNos (vstate v')\<rparr>"
    and lim: "svLimits sv' = svLimits sv" "svValidator sv' = v'"
    using run s(1)
    by (auto simp: SessionValidator_Validate_def Let_def Validator_Snapshot_def Snapshot_Clone_id
        split: if_splits sum.splits prod.splits)
  note v = newProtocolValidator_inv [OF s]
  note c = classify_ok [OF cl inner]
  note r = validateRetry_accepted [OF rt]
  obtain j where ok: "Validate (clock j) acc v = (None, v')" using r(1) by blast
  have known: "knownID i (vstate v)" if "i \<in> rep" for i
    using r(5) that v(4) by auto
  have "clone (vstate v) = vstate v" "state_inv v (vstate v)" "limits_ok v"
    using v(1) clone_id by (auto simp: validator_inv_def state_inv_def)
  moreover have "message_ok acc"
    using c(1) r(2,3) by (cases acc; cases message) (auto simp: message_ok_def)
  ultimately have a: "accepts v (messageIDs acc) (messageSeqs acc) (vstate v) (vstate v')"
    and l': "messageIDLimit v' = messageIDLimit v" "sequenceLimit v' = sequenceLimit v"
    using ok validateEnvelope_accepts [of v "vstate v" acc "clock j"]
    by (auto simp: Validate_def split: sum.splits)
  have inv': "validator_inv v'" using a v(1) l' by (simp add: accepts_def validator_inv_def state_inv_def limits_ok_def)
  have kind: "pKind acc = pKind message" "pMessageID acc = pMessageID message"
    using r(2) by (cases acc; cases message; simp)+
  have fresh: "cMessageID x \<notin> rep" if "pKind message = Container" "x \<in> set (pChildren acc)" for x
    using a known that kind by (auto simp: accepts_def messageIDs_def)
  have ids: "map imMessageID (dispatched vi) = filter (\<lambda>i. i \<notin> rep) (map imMessageID decoded)"
    by (simp add: dispatched_def vi filter_map o_def)
  have sub: "set (map imMessageID (dispatched vi)) \<subseteq> set (messageIDs acc) \<and> distinct (map imMessageID (dispatched vi))"
  proof (cases "pKind message = Container")
    case True
    have "filter (\<lambda>i. i \<notin> rep) (childIDs (pChildren message)) =
        map cMessageID (filter (\<lambda>x. cMessageID x \<notin> rep) (pChildren acc))"
      using r(6) by (simp add: filter_map o_def)
    also have "\<dots> = childIDs (pChildren acc)"
      using fresh [OF True] by (simp add: filter_id_conv [THEN iffD2])
    finally have "map imMessageID (dispatched vi) = childIDs (pChildren acc)"
      using c(3) True by (simp add: ids)
    then show ?thesis using a True kind by (auto simp: accepts_def messageIDs_def)
  next
    case False
    then have "rep = {}" using r(7) by simp
    then have "map imMessageID (dispatched vi) = [pMessageID acc]"
      using False c(3) kind by (simp add: ids)
    then show ?thesis using kind by (auto simp: messageIDs_def)
  qed
  show thesis
  proof (rule that [of v'])
    show "newProtocolValidator (viSnapshot vi) = Inr v'"
      using newProtocolValidator_restore [OF inv'] l' v(2,3) by (simp add: sn)
    show "in_i32 (SeqNo (viSnapshot vi))" using inv' by (simp add: sn validator_inv_def seq_inv_def in_i32_def)
    show "distinct (map imMessageID (dispatched vi))" using sub by simp
    show "\<forall>m \<in> set (dispatched vi). \<not> knownID (imMessageID m) (vstate v) \<and> knownID (imMessageID m) (vstate v')"
      using sub a by (auto simp: accepts_def)
    show "\<forall>i. knownID i (vstate v) \<longrightarrow> knownID i (vstate v')" using a by (simp add: accepts_def)
    show "\<forall>m \<in> set (viMessages vi). imRetransmission m \<longrightarrow> imMessageID m \<in> set (RecentClientMsgIDs s)"
      using r(5) by (auto simp: vi)
    show "svLimits sv' = svLimits sv" "svValidator sv' = v'" by (rule lim)+
    show "keepInbound s (viSnapshot vi) = s\<lparr>ServerSalt := ServerSalt (viSnapshot vi)\<rparr>" by (simp add: keepInbound_def sn)
  qed
qed

section \<open>Histories\<close>

text \<open>The reader of the connection takes the session's snapshot and validates a frame against it (\<open>Arrive\<close>); if it
  goes on, it saves the snapshot staged by the validation and dispatches the messages (\<open>Commit\<close>).  The writer and the handlers
  share the session: each of them takes a snapshot (\<open>TakeSnapshot\<close>), changes fields of its own, and saves the whole
  snapshot back (\<open>PutSnapshot\<close>).  No lock spans the two calls of either, so these events interleave freely.  What a goroutine
  saves is what it took, inbound state included, except for the fields the validator does not own.\<close>

datatype inbound_event = Arrive "nat \<Rightarrow> nat \<Rightarrow> gotime" InnerData | Commit | TakeSnapshot nat | PutSnapshot nat Snapshot

record inbound_state =
  isnSnapshot :: Snapshot
  isnValidator :: SessionValidator
  isnStaged :: "ValidatedInbound option"
  isnTaken :: "nat \<rightharpoonup> Snapshot"

definition inboundStart :: "Snapshot \<Rightarrow> SessionValidator \<Rightarrow> inbound_state" where
  "inboundStart s v = \<lparr>isnSnapshot = s, isnValidator = v, isnStaged = None, isnTaken = (\<lambda>_. None)\<rparr>"

text \<open>One event, with the messages it dispatches.\<close>

fun inboundStep :: "inbound_event \<Rightarrow> inbound_state \<Rightarrow> InboundMessage list \<times> inbound_state" where
  "inboundStep (Arrive clock inner) x =
     (case SessionValidator_Validate clock (isnSnapshot x) (Some inner) (isnValidator x) of
        (Inl e, _, v) \<Rightarrow> ([], x\<lparr>isnValidator := v, isnStaged := None\<rparr>)
      | (Inr vi, _, v) \<Rightarrow> ([], x\<lparr>isnValidator := v, isnStaged := Some vi\<rparr>))"
| "inboundStep Commit x =
     (case isnStaged x of
        None \<Rightarrow> ([], x)
      | Some vi \<Rightarrow> (dispatched vi, x\<lparr>isnSnapshot := viSnapshot vi, isnStaged := None\<rparr>))"
| "inboundStep (TakeSnapshot g) x = ([], x\<lparr>isnTaken := (isnTaken x)(g \<mapsto> isnSnapshot x)\<rparr>)"
| "inboundStep (PutSnapshot g s') x =
     (case isnTaken x g of
        None \<Rightarrow> ([], x)
      | Some s \<Rightarrow> ([], x\<lparr>isnSnapshot := keepInbound s s', isnTaken := (isnTaken x)(g := None)\<rparr>))"

fun inboundRun :: "inbound_event list \<Rightarrow> inbound_state \<Rightarrow> InboundMessage list" where
  "inboundRun [] x = []"
| "inboundRun (ev # evs) x = fst (inboundStep ev x) @ inboundRun evs (snd (inboundStep ev x))"

fun frame_in_range :: "inbound_event \<Rightarrow> bool" where
  "frame_in_range (Arrive clock inner) = in_i32 (idSeqNo inner)"
| "frame_in_range _ = True"

text \<open>Nobody saves a snapshot taken before the reader's last save: \<open>G\<close> are the goroutines whose snapshot is not older.\<close>

fun no_stale_save :: "nat set \<Rightarrow> inbound_event list \<Rightarrow> bool" where
  "no_stale_save G [] = True"
| "no_stale_save G (Arrive clock inner # evs) = no_stale_save G evs"
| "no_stale_save G (Commit # evs) = no_stale_save {} evs"
| "no_stale_save G (TakeSnapshot g # evs) = no_stale_save (insert g G) evs"
| "no_stale_save G (PutSnapshot g s' # evs) = (g \<in> G \<and> no_stale_save G evs)"

text \<open>Two snapshots with the same inbound state.\<close>

definition same_inbound :: "Snapshot \<Rightarrow> Snapshot \<Rightarrow> bool" where
  "same_inbound s t \<longleftrightarrow> keepInbound s t = t"

lemma same_inbound_iff:
  "same_inbound s t \<longleftrightarrow> SessionID s = SessionID t \<and> SeqNo s = SeqNo t \<and> LastClientMsgID s = LastClientMsgID t \<and>
     ClientMsgIDFloor s = ClientMsgIDFloor t \<and> RecentClientMsgIDs s = RecentClientMsgIDs t \<and>
     RecentClientSeqNos s = RecentClientSeqNos t"
  by (cases t) (auto simp: same_inbound_def keepInbound_def)

lemma same_inbound_keep [simp]: "same_inbound s (keepInbound s t)"
  by (simp add: same_inbound_iff keepInbound_def)

lemma SetServerSalt_known: "knownID i (vstate (SetServerSalt x v)) = knownID i (vstate v)"
  by (simp add: SetServerSalt_def knownID_def)

lemma same_inbound_validator:
  assumes "same_inbound s t" "newProtocolValidator s = Inr v"
  shows "\<exists>v'. newProtocolValidator t = Inr v' \<and> (\<forall>i. knownID i (vstate v') = knownID i (vstate v))"
  using newProtocolValidator_keep [OF assms(2), of t] assms(1) SetServerSalt_known by (simp add: same_inbound_def)

text \<open>The invariant: \<open>K\<close> is what the session's snapshot knows, the snapshots still in use have its inbound
  state, and a staged frame was validated against it.\<close>

definition stages :: "(int \<Rightarrow> bool) \<Rightarrow> ValidatedInbound \<Rightarrow> bool" where
  "stages K vi \<longleftrightarrow> (\<exists>v'. newProtocolValidator (viSnapshot vi) = Inr v' \<and> in_i32 (SeqNo (viSnapshot vi)) \<and>
     distinct (map imMessageID (dispatched vi)) \<and>
     (\<forall>m \<in> set (dispatched vi). \<not> K (imMessageID m) \<and> knownID (imMessageID m) (vstate v')) \<and>
     (\<forall>i. K i \<longrightarrow> knownID i (vstate v')))"

definition history_inv :: "nat set \<Rightarrow> (int \<Rightarrow> bool) \<Rightarrow> inbound_state \<Rightarrow> bool" where
  "history_inv G K x \<longleftrightarrow> in_i32 (SeqNo (isnSnapshot x)) \<and>
     (\<exists>v. newProtocolValidator (isnSnapshot x) = Inr v \<and> K = (\<lambda>i. knownID i (vstate v))) \<and>
     (\<forall>g \<in> G. \<forall>s. isnTaken x g = Some s \<longrightarrow> same_inbound (isnSnapshot x) s) \<and>
     (\<forall>vi. isnStaged x = Some vi \<longrightarrow> stages K vi)"

lemma history_Arrive:
  assumes inv: "history_inv G K x" and inner: "in_i32 (idSeqNo inner)"
  shows "history_inv G K (snd (inboundStep (Arrive clock inner) x)) \<and> fst (inboundStep (Arrive clock inner) x) = []"
proof -
  obtain v where v: "newProtocolValidator (isnSnapshot x) = Inr v" "K = (\<lambda>i. knownID i (vstate v))" "in_i32 (SeqNo (isnSnapshot x))"
    using inv by (auto simp: history_inv_def)
  obtain r b sv where run: "SessionValidator_Validate clock (isnSnapshot x) (Some inner) (isnValidator x) = (r, b, sv)"
    by (cases "SessionValidator_Validate clock (isnSnapshot x) (Some inner) (isnValidator x)") auto
  show ?thesis
  proof (cases r)
    case (Inl e)
    then show ?thesis using inv run by (simp add: history_inv_def)
  next
    case (Inr vi)
    have "stages K vi" unfolding stages_def v(2) by (rule frame_accepted [OF v(1,3) inner run [unfolded Inr]]) blast
    then show ?thesis using inv run Inr by (simp add: history_inv_def)
  qed
qed

lemma history_Put:
  assumes inv: "history_inv G K x" and g: "g \<in> G"
  shows "history_inv G K (snd (inboundStep (PutSnapshot g s') x)) \<and> fst (inboundStep (PutSnapshot g s') x) = []"
proof (cases "isnTaken x g")
  case None
  then show ?thesis using inv by simp
next
  case (Some s)
  then have same: "same_inbound (isnSnapshot x) (keepInbound s s')" and seq: "in_i32 (SeqNo (keepInbound s s'))"
    using inv g by (auto simp: history_inv_def same_inbound_iff keepInbound_def)
  obtain v where v: "newProtocolValidator (isnSnapshot x) = Inr v" "K = (\<lambda>i. knownID i (vstate v))"
    using inv by (auto simp: history_inv_def)
  obtain v' where v': "newProtocolValidator (keepInbound s s') = Inr v'" "\<forall>i. knownID i (vstate v') = knownID i (vstate v)"
    using same_inbound_validator [OF same v(1)] by blast
  have "same_inbound (keepInbound s s') t" if "same_inbound (isnSnapshot x) t" for t
    using that same by (simp add: same_inbound_iff)
  then show ?thesis
    using inv Some seq v v' by (auto simp: history_inv_def)
qed

lemma inboundRun_once:
  assumes "history_inv G K x" "no_stale_save G evs" "\<forall>ev \<in> set evs. frame_in_range ev"
  shows "distinct (map imMessageID (inboundRun evs x)) \<and> (\<forall>m \<in> set (inboundRun evs x). \<not> K (imMessageID m))"
  using assms
proof (induction evs arbitrary: G K x)
  case (Cons ev evs)
  show ?case
  proof (cases ev)
    case (Arrive clock inner)
    from history_Arrive [OF Cons.prems(1), of inner clock] Cons.prems(3)
    show ?thesis using Cons.IH [of G K "snd (inboundStep ev x)"] Cons.prems(2,3) by (simp add: Arrive)
  next
    case (PutSnapshot g s')
    from history_Put [OF Cons.prems(1), of g s'] Cons.prems(2)
    show ?thesis using Cons.IH [of G K "snd (inboundStep ev x)"] Cons.prems(2,3) by (simp add: PutSnapshot)
  next
    case (TakeSnapshot g)
    have "history_inv (insert g G) K (snd (inboundStep ev x))"
      using Cons.prems(1) by (auto simp: TakeSnapshot history_inv_def same_inbound_iff)
    then show ?thesis using Cons.IH [of "insert g G" K "snd (inboundStep ev x)"] Cons.prems(2,3) by (simp add: TakeSnapshot)
  next
    case Commit
    show ?thesis
    proof (cases "isnStaged x")
      case None
      have "history_inv {} K x" using Cons.prems(1) by (simp add: history_inv_def)
      then show ?thesis using Cons.IH [of "{}" K x] Cons.prems(2,3) None by (simp add: Commit)
    next
      case (Some vi)
      let ?x = "x\<lparr>isnSnapshot := viSnapshot vi, isnStaged := None\<rparr>"
      obtain v' where v': "newProtocolValidator (viSnapshot vi) = Inr v'" "in_i32 (SeqNo (viSnapshot vi))"
        "distinct (map imMessageID (dispatched vi))"
        "\<forall>m \<in> set (dispatched vi). \<not> K (imMessageID m) \<and> knownID (imMessageID m) (vstate v')"
        "\<forall>i. K i \<longrightarrow> knownID i (vstate v')"
        using Cons.prems(1) Some by (auto simp: history_inv_def stages_def)
      have "history_inv {} (\<lambda>i. knownID i (vstate v')) ?x" using v'(1,2) by (simp add: history_inv_def)
      from Cons.IH [OF this] Cons.prems(2,3)
      have "distinct (map imMessageID (inboundRun evs ?x)) \<and> (\<forall>m \<in> set (inboundRun evs ?x). \<not> knownID (imMessageID m) (vstate v'))"
        by (simp add: Commit)
      moreover have "inboundRun (ev # evs) x = dispatched vi @ inboundRun evs ?x" using Some by (simp add: Commit)
      ultimately show ?thesis using v'(3-5) by fastforce
    qed
  qed
qed simp

section \<open>Properties\<close>

text \<open>C1. At most one dispatch per message, as long as no stale snapshot is saved.  Over the whole life of a session, whatever encrypted
  messages and containers arrive in whatever order, with whatever clock, whether the reader commits them or gives them up, and
  whatever fields of their own (the salt included) the writer and the handlers save in between: if none of them
  saves a snapshot it took before the reader's latest save, then no two messages that are dispatched have the same
  message identifier, and none has one that the initial snapshot already accounted for.\<close>

theorem dispatch_at_most_once:
  assumes "newProtocolValidator s = Inr v" "in_i32 (SeqNo s)" "\<forall>ev \<in> set evs. frame_in_range ev" "no_stale_save {} evs"
  shows "distinct (map imMessageID (inboundRun evs (inboundStart s sv))) \<and>
    (\<forall>m \<in> set (inboundRun evs (inboundStart s sv)).
       ClientMsgIDFloor s < imMessageID m \<and> imMessageID m \<notin> set (RecentClientMsgIDs s))"
proof -
  have "history_inv {} (\<lambda>i. knownID i (vstate v)) (inboundStart s sv)"
    using assms(1,2) by (simp add: history_inv_def inboundStart_def)
  from inboundRun_once [OF this assms(4,3)] newProtocolValidator_inv(4) [OF assms(1,2)] show ?thesis by (meson not_le)
qed

definition exampleFrame :: InnerData where
  "exampleFrame = \<lparr>idSalt = 7, idSessionID = 22, idMsgID = 4294967296 * 1000 + 4, idSeqNo = 1, idData = [1, 2, 3, 4]\<rparr>"

definition exampleFrameClock :: "nat \<Rightarrow> nat \<Rightarrow> gotime" where "exampleFrameClock i j = time_Unix 1000"

definition exampleSessionValidator :: SessionValidator where
  "exampleSessionValidator = \<lparr>svLimits = zeroLimits, svValidator = exampleValidator\<rparr>"

lemma exampleSnapshot_validator: "\<exists>v. newProtocolValidator exampleSnapshot = Inr v"
  by (simp add: newProtocolValidator_def NewValidator_def exampleSnapshot_def Let_def
      DefaultRecentMessageIDLimit_def DefaultContentSequenceLimit_def)

lemma distinct_singleton: "distinct xs \<Longrightarrow> set xs = {x} \<Longrightarrow> xs = [x]"
  by (cases xs; cases "tl xs") auto

lemma exampleFrame_accepted:
  "case SessionValidator_Validate exampleFrameClock exampleSnapshot (Some exampleFrame) exampleSessionValidator of
     (Inl e, b, sv) \<Rightarrow> False
   | (Inr vi, b, sv) \<Rightarrow> map imMessageID (viMessages vi) = [idMsgID exampleFrame] \<and> \<not> imRetransmission (hd (viMessages vi))"
  by code_simp

text \<open>A frame arrives twice, and in between the writer saves a snapshot it took in time.\<close>

definition exampleHistory :: "inbound_event list" where
  "exampleHistory = [Arrive exampleFrameClock exampleFrame, Commit, TakeSnapshot 1, PutSnapshot 1 (exampleSnapshot\<lparr>ServerSeqNo := 1\<rparr>),
     Arrive exampleFrameClock exampleFrame, Commit]"

theorem dispatch_at_most_once_witness:
  "map imMessageID (inboundRun exampleHistory (inboundStart exampleSnapshot exampleSessionValidator)) = [idMsgID exampleFrame]"
proof -
  obtain v where v: "newProtocolValidator exampleSnapshot = Inr v" using exampleSnapshot_validator by blast
  have "in_i32 (SeqNo exampleSnapshot)" "\<forall>ev \<in> set exampleHistory. frame_in_range ev" "no_stale_save {} exampleHistory"
    by (simp_all add: exampleSnapshot_def exampleFrame_def exampleHistory_def in_i32_def)
  note once = dispatch_at_most_once [OF v this, of exampleSessionValidator]
  have "set (map imMessageID (inboundRun exampleHistory (inboundStart exampleSnapshot exampleSessionValidator))) = {idMsgID exampleFrame}"
    by code_simp
  with once show ?thesis by (intro distinct_singleton) simp_all
qed



text \<open>C37. Retransmissions.  A frame that is accepted stages a snapshot from which exactly the validator is
  restored that the session now has, and which differs from the snapshot the frame was validated against only in the inbound
  state and the salt.  A message is set aside as a retransmission only if that snapshot remembers its identifier, a message
  that is dispatched was not known, and afterwards all of them and everything the session knew are known.\<close>

theorem retransmissions_known:
  assumes "newProtocolValidator s = Inr v" "in_i32 (SeqNo s)" "in_i32 (idSeqNo inner)"
    and "SessionValidator_Validate clock s (Some inner) sv = (Inr vi, b, sv')"
  shows "newProtocolValidator (viSnapshot vi) = Inr (svValidator sv') \<and>
    keepInbound s (viSnapshot vi) = s\<lparr>ServerSalt := ServerSalt (viSnapshot vi)\<rparr> \<and>
    (\<forall>m \<in> set (viMessages vi). if imRetransmission m then imMessageID m \<in> set (RecentClientMsgIDs s)
       else \<not> knownID (imMessageID m) (vstate v)) \<and>
    (\<forall>i. knownID i (vstate v) \<or> i \<in> imMessageID ` set (viMessages vi) \<longrightarrow> knownID i (vstate (svValidator sv')))"
proof -
  have v': "newProtocolValidator (viSnapshot vi) = Inr (svValidator sv')"
    "\<forall>m \<in> set (dispatched vi). \<not> knownID (imMessageID m) (vstate v) \<and> knownID (imMessageID m) (vstate (svValidator sv'))"
    "\<forall>i. knownID i (vstate v) \<longrightarrow> knownID i (vstate (svValidator sv'))"
    "\<forall>m \<in> set (viMessages vi). imRetransmission m \<longrightarrow> imMessageID m \<in> set (RecentClientMsgIDs s)"
    "keepInbound s (viSnapshot vi) = s\<lparr>ServerSalt := ServerSalt (viSnapshot vi)\<rparr>"
    by (rule frame_accepted [OF assms], simp)+
  have "knownID (imMessageID m) (vstate (svValidator sv'))" if "m \<in> set (viMessages vi)" for m
    using that v'(2-4) newProtocolValidator_inv(4) [OF assms(1,2), of "imMessageID m"]
    by (cases "imRetransmission m") (auto simp: dispatched_def)
  with v' show ?thesis by (auto simp: dispatched_def)
qed

theorem retransmissions_known_witness:
  "\<exists>vi b sv'. SessionValidator_Validate exampleFrameClock exampleSnapshot (Some exampleFrame) exampleSessionValidator =
      (Inr vi, b, sv') \<and> newProtocolValidator (viSnapshot vi) = Inr (svValidator sv') \<and>
      knownID (idMsgID exampleFrame) (vstate (svValidator sv'))"
proof -
  obtain v where v: "newProtocolValidator exampleSnapshot = Inr v" using exampleSnapshot_validator by blast
  have r: "in_i32 (SeqNo exampleSnapshot)" "in_i32 (idSeqNo exampleFrame)"
    by (simp_all add: exampleSnapshot_def exampleFrame_def in_i32_def)
  obtain vi b sv' where a: "SessionValidator_Validate exampleFrameClock exampleSnapshot (Some exampleFrame) exampleSessionValidator =
      (Inr vi, b, sv')" "map imMessageID (viMessages vi) = [idMsgID exampleFrame]"
    using exampleFrame_accepted by (auto split: prod.splits sum.splits)
  have "idMsgID exampleFrame \<in> imMessageID ` set (viMessages vi)"
    using a(2) by (metis list.set_intros(1) list.set_map)
  with retransmissions_known [OF v r a(1)] a(1) show ?thesis by blast
qed

end
