(* ===== verification/Go_Map.thy ===== *)
theory Go_Map
  imports TLRPC_Prelude "HOL-Library.AList"
begin

text \<open>
  Go maps whose iteration the code relies on, as association lists without repeated keys: the list
  order stands for the order of one iteration.  What an operation does to the map is always stated
  through \<^const>\<open>map_of\<close>, so nothing shown of a component depends on that order.
\<close>

type_synonym ('k, 'v) gomap = "('k \<times> 'v) list"

definition gomap_ok :: "('k, 'v) gomap \<Rightarrow> bool" where
  "gomap_ok m \<longleftrightarrow> distinct (map fst m)"

lemma gomap_ok_update [simp]: "gomap_ok m \<Longrightarrow> gomap_ok (AList.update k v m)"
  by (simp add: gomap_ok_def distinct_update)

lemma gomap_ok_delete [simp]: "gomap_ok m \<Longrightarrow> gomap_ok (AList.delete k m)"
  by (simp add: gomap_ok_def distinct_delete)

lemma gomap_ok_filter [simp]: "gomap_ok m \<Longrightarrow> gomap_ok (filter P m)"
  by (induction m) (auto simp: gomap_ok_def)

lemma gomap_ok_Nil [simp]: "gomap_ok []"
  by (simp add: gomap_ok_def)

lemma map_of_update: "map_of (AList.update k v m) = (map_of m)(k \<mapsto> v)"
  by (rule update_conv')

lemma map_of_delete: "map_of (AList.delete k m) = (map_of m)(k := None)"
  by (rule delete_conv')

lemma map_of_filter_gomap:
  "gomap_ok m \<Longrightarrow> map_of (filter P m) k = (case map_of m k of Some v \<Rightarrow> if P (k, v) then Some v else None | None \<Rightarrow> None)"
proof (induction m)
  case (Cons p m)
  have "gomap_ok m" "k = fst p \<Longrightarrow> map_of m k = None"
    using Cons.prems by (auto simp: gomap_ok_def map_of_eq_None_iff)
  with Cons.IH show ?case by (cases p) (auto split: option.splits)
qed simp

lemma gomap_in_set: "gomap_ok m \<Longrightarrow> (k, v) \<in> set m \<longleftrightarrow> map_of m k = Some v"
  by (auto simp: gomap_ok_def)

lemma dom_gomap: "dom (map_of m) = fst ` set m"
  by (rule dom_map_of_conv_image_fst)

lemma length_gomap: "gomap_ok m \<Longrightarrow> length m = card (dom (map_of m))"
  unfolding gomap_ok_def dom_gomap by (metis distinct_card length_map set_map)

lemma length_delete: "gomap_ok m \<Longrightarrow> k \<in> dom (map_of m) \<Longrightarrow> length (AList.delete k m) = length m - 1"
  by (simp add: length_gomap map_of_delete)

lemma length_delete_less: "(k, v) \<in> set m \<Longrightarrow> length (AList.delete k m) < length m"
  unfolding AList.delete_eq by (rule length_filter_less [of "(k, v)"]) simp_all

lemma length_update_le: "length (AList.update k v m) \<le> length m + 1"
  by (induction m) auto

lemma length_update:
  "length (AList.update k v m) = (if k \<in> dom (map_of m) then length m else length m + 1)"
  by (induction m) auto

lemma update_new: "map_of m k = None \<Longrightarrow> AList.update k v m = m @ [(k, v)]"
  by (induction m) auto

text \<open>The loop that keeps the first entry that is smaller than every earlier one, over the entries
  that satisfy a condition; the candidate starts as \<open>nil\<close>.\<close>

fun selectLeast :: "('v \<Rightarrow> bool) \<Rightarrow> ('v \<Rightarrow> 'v \<Rightarrow> bool) \<Rightarrow> ('k, 'v) gomap \<Rightarrow> ('k \<times> 'v) option \<Rightarrow> ('k \<times> 'v) option" where
  "selectLeast P before [] best = best"
| "selectLeast P before ((k, v) # m) best =
     selectLeast P before m
       (if \<not> P v then best
        else case best of
            None \<Rightarrow> Some (k, v)
          | Some (k', v') \<Rightarrow> if before v v' then Some (k, v) else best)"

lemma selectLeast_Some:
  assumes "\<And>u v. before u v \<longleftrightarrow> key u < (key v :: 'a :: linorder)"
  shows "selectLeast P before m (Some (k, v)) = Some (k', v') \<Longrightarrow>
    (P v \<longrightarrow> P v') \<and> ((k', v') = (k, v) \<or> (k', v') \<in> set m) \<and> key v' \<le> key v \<and>
    (\<forall>(j, w) \<in> set m. P w \<longrightarrow> key v' \<le> key w)"
proof (induction m arbitrary: k v)
  case (Cons p m)
  obtain j w where p: "p = (j, w)" by fastforce
  show ?case
  proof (cases "P w \<and> key w < key v")
    case True
    then show ?thesis using Cons.IH [of j w] Cons.prems by (auto simp: p assms)
  next
    case False
    then have "selectLeast P before m (Some (k, v)) = Some (k', v')"
      using Cons.prems assms [of w v] by (simp add: p split: if_splits)
    from Cons.IH [OF this] False show ?thesis by (auto simp: p)
  qed
qed simp

lemma selectLeast_not_None: "selectLeast P before m (Some b) \<noteq> None"
  by (induction m arbitrary: b) (auto split: if_splits)

lemma selectLeast_spec:
  assumes "\<And>u v. before u v \<longleftrightarrow> key u < (key v :: 'a :: linorder)"
  shows "case selectLeast P before m None of
      None \<Rightarrow> \<forall>(k, v) \<in> set m. \<not> P v
    | Some (k, v) \<Rightarrow> P v \<and> (k, v) \<in> set m \<and> (\<forall>(j, w) \<in> set m. P w \<longrightarrow> key v \<le> key w)"
proof (induction m)
  case (Cons p m)
  obtain j w where p: "p = (j, w)" by fastforce
  show ?case
  proof (cases "P w")
    case True
    obtain k v where "selectLeast P before m (Some (j, w)) = Some (k, v)"
      using selectLeast_not_None [of P before m "(j, w)"] by (cases "selectLeast P before m (Some (j, w))") auto
    with selectLeast_Some [OF assms this] True show ?thesis by (auto simp: p)
  next
    case False
    then show ?thesis using Cons by (auto simp: p split: option.splits)
  qed
qed simp

end
