(* ===== verification/Active_Requests.thy ===== *)
theory Active_Requests
  imports Go_Map
begin

text \<open>
  The registry of running requests (\<open>internal/runtime/active_requests.go\<close>).  Requests are allocated
  in a heap and named by their address, so that a completion function keeps hold of the very
  registration it was made for.  Every method is one critical section; the cancellation that follows
  it outside the lock touches only the context of the request concerned.  A channel that is closed to
  wake the waiting goroutines is named by a number: all numbers below the current one are closed.
\<close>

section \<open>State\<close>

datatype DropStatus = DropStatusUnknown | DropStatusDroppedRunning

record activeRequest =
  arCancel :: "go_error option"
  arEnded :: bool
  arOnce :: bool

record activeRequestRegistration =
  regID :: int
  regRequest :: nat

record ActiveRequestRegistry =
  arCapacity :: int
  arActive :: "(int, nat) gomap"
  arCompleted :: "int \<rightharpoonup> bool"
  arCompletedOrder :: "int list"
  arChanged :: nat
  arHeap :: "activeRequest list"

definition NewActiveRequestRegistry :: "int \<Rightarrow> go_error + ActiveRequestRegistry" where
  "NewActiveRequestRegistry capacity =
     (if capacity \<le> 0 then Inl (RequestError (InvalidActiveCapacity capacity))
      else Inr \<lparr>arCapacity = capacity, arActive = [], arCompleted = Map.empty, arCompletedOrder = [],
        arChanged = 0, arHeap = []\<rparr>)"

section \<open>Operations\<close>

definition notifyLocked :: "ActiveRequestRegistry \<Rightarrow> ActiveRequestRegistry" where
  "notifyLocked r = r\<lparr>arChanged := Suc (arChanged r)\<rparr>"

definition finishLocked :: "int \<Rightarrow> nat \<Rightarrow> bool \<Rightarrow> ActiveRequestRegistry \<Rightarrow> ActiveRequestRegistry" where
  "finishLocked i request success r =
     (if arEnded (arHeap r ! request) then r
      else
        (let r = r\<lparr>arHeap := (arHeap r)[request := (arHeap r ! request)\<lparr>arEnded := True\<rparr>]\<rparr>;
             r = (if map_of (arActive r) i = Some request then r\<lparr>arActive := AList.delete i (arActive r)\<rparr> else r);
             r = (if arCompleted r i \<noteq> None then r\<lparr>arCompletedOrder := remove1 i (arCompletedOrder r)\<rparr> else r);
             r = r\<lparr>arCompleted := (arCompleted r)(i \<mapsto> success), arCompletedOrder := arCompletedOrder r @ [i]\<rparr>;
             r = (if int (length (arCompletedOrder r)) > arCapacity r
                  then r\<lparr>arCompleted := (arCompleted r)(hd (arCompletedOrder r) := None),
                         arCompletedOrder := tl (arCompletedOrder r)\<rparr>
                  else r)
         in notifyLocked r))"

text \<open>The cancel function of \<open>context.WithCancelCause\<close>: the first cause stays.\<close>

definition cancelRequest :: "nat \<Rightarrow> go_error \<Rightarrow> ActiveRequestRegistry \<Rightarrow> ActiveRequestRegistry" where
  "cancelRequest request cause r =
     (if arCancel (arHeap r ! request) \<noteq> None then r
      else r\<lparr>arHeap := (arHeap r)[request := (arHeap r ! request)\<lparr>arCancel := Some cause\<rparr>]\<rparr>)"

definition completeRequest :: "activeRequestRegistration \<Rightarrow> bool \<Rightarrow> ActiveRequestRegistry \<Rightarrow> ActiveRequestRegistry" where
  "completeRequest registration success r =
     (let request = regRequest registration in
      if arOnce (arHeap r ! request) then r
      else
        (let r = r\<lparr>arHeap := (arHeap r)[request := (arHeap r ! request)\<lparr>arOnce := True\<rparr>]\<rparr>
         in cancelRequest request (ContextError Canceled) (finishLocked (regID registration) request success r)))"

fun checkBatch :: "int set \<Rightarrow> int list \<Rightarrow> go_error option" where
  "checkBatch seen [] = None"
| "checkBatch seen (i # ids) =
     (if i = 0 then Some (RequestError (InvalidActiveID i))
      else if i \<in> seen then Some (RequestError (DuplicateActiveRequest i))
      else checkBatch (insert i seen) ids)"

definition registerRequest :: "int \<Rightarrow> ActiveRequestRegistry \<Rightarrow> activeRequestRegistration \<times> ActiveRequestRegistry" where
  "registerRequest i r =
     (let request = length (arHeap r)
      in (\<lparr>regID = i, regRequest = request\<rparr>,
          r\<lparr>arHeap := arHeap r @ [\<lparr>arCancel = None, arEnded = False, arOnce = False\<rparr>],
            arActive := AList.update i request (arActive r)\<rparr>))"

fun registerRequests :: "int list \<Rightarrow> ActiveRequestRegistry \<Rightarrow> activeRequestRegistration list \<times> ActiveRequestRegistry" where
  "registerRequests [] r = ([], r)"
| "registerRequests (i # ids) r =
     (let (registration, r) = registerRequest i r; (registrations, r) = registerRequests ids r
      in (registration # registrations, r))"

definition beginBatch ::
  "int list \<Rightarrow> ActiveRequestRegistry \<Rightarrow> (go_error + activeRequestRegistration list) \<times> ActiveRequestRegistry" where
  "beginBatch ids r =
     (case checkBatch {} ids of
        Some e \<Rightarrow> (Inl e, r)
      | None \<Rightarrow>
          if int (length (arActive r)) + int (length ids) > arCapacity r
          then (Inl (RequestError (ActiveCapacity (arCapacity r))), r)
          else
            (case find (\<lambda>i. map_of (arActive r) i \<noteq> None) ids of
               Some i \<Rightarrow> (Inl (RequestError (DuplicateActiveRequest i)), r)
             | None \<Rightarrow> (let (registrations, r) = registerRequests ids r in (Inr registrations, notifyLocked r))))"

definition Begin ::
  "int \<Rightarrow> ActiveRequestRegistry \<Rightarrow> (go_error + activeRequestRegistration) \<times> ActiveRequestRegistry" where
  "Begin i r =
     (case beginBatch [i] r of
        (Inl e, r) \<Rightarrow> (Inl e, r)
      | (Inr registrations, r) \<Rightarrow> (Inr (registrations ! 0), r))"

definition Drop :: "int \<Rightarrow> ActiveRequestRegistry \<Rightarrow> DropStatus \<times> ActiveRequestRegistry" where
  "Drop i r =
     (case map_of (arActive r) i of
        None \<Rightarrow> (DropStatusUnknown, r)
      | Some request \<Rightarrow>
          (DropStatusDroppedRunning, cancelRequest request (ContextError Canceled) (finishLocked i request False r)))"

definition IsActive :: "int \<Rightarrow> ActiveRequestRegistry \<Rightarrow> bool" where
  "IsActive i r \<longleftrightarrow> i \<noteq> 0 \<and> map_of (arActive r) i \<noteq> None"

definition CancelAll :: "go_error option \<Rightarrow> ActiveRequestRegistry \<Rightarrow> ActiveRequestRegistry" where
  "CancelAll cause r =
     (let cause = (case cause of None \<Rightarrow> ContextError Canceled | Some e \<Rightarrow> e);
          requests = map snd (arActive r)
      in fold (\<lambda>request. cancelRequest request cause) requests
           (fold (\<lambda>(i, request). finishLocked i request False) (arActive r) r))"

section \<open>Waiting for dependencies\<close>

text \<open>One pass over the identifiers under the lock: \<open>None\<close> if one of them failed, otherwise whether all of
  them are complete.\<close>

fun scanDependencies :: "(int \<rightharpoonup> bool) \<Rightarrow> bool \<Rightarrow> int list \<Rightarrow> bool option" where
  "scanDependencies completed allComplete [] = Some allComplete"
| "scanDependencies completed allComplete (i # ids) =
     (case completed i of
        Some success \<Rightarrow> if \<not> success then None else scanDependencies completed allComplete ids
      | None \<Rightarrow> scanDependencies completed False ids)"

text \<open>What the \<open>select\<close> that follows a pass receives from.\<close>

datatype wakeup = ContextDone go_error | TimerFired | Changed

text \<open>The loop over a schedule: the registry each pass sees and the wake-up that follows it.  \<open>None\<close> is a
  call that is still waiting when the schedule ends.\<close>

fun waitLoop :: "int list \<Rightarrow> (ActiveRequestRegistry \<times> wakeup) list \<Rightarrow> go_error option option" where
  "waitLoop ids [] = None"
| "waitLoop ids ((r, w) # schedule) =
     (case scanDependencies (arCompleted r) True ids of
        None \<Rightarrow> Some (Some (RequestError InvokeAfterFailed))
      | Some True \<Rightarrow> Some None
      | Some False \<Rightarrow>
          (case w of
             ContextDone e \<Rightarrow> Some (Some e)
           | TimerFired \<Rightarrow> Some (Some (RequestError InvokeAfterTimeout))
           | Changed \<Rightarrow> waitLoop ids schedule))"

definition WaitDependencies ::
  "int list \<Rightarrow> duration \<Rightarrow> (ActiveRequestRegistry \<times> wakeup) list \<Rightarrow> go_error option option" where
  "WaitDependencies ids timeout schedule =
     (if ids = [] then Some None
      else if timeout \<le> 0 then Some (Some (RequestError InvokeAfterTimeout))
      else waitLoop ids schedule)"

section \<open>Invariant\<close>

text \<open>Registrations are handed out in the order of their addresses, so a history is summarised by the
  identifiers they were made for.\<close>

definition requests_inv :: "int list \<Rightarrow> ActiveRequestRegistry \<Rightarrow> bool" where
  "requests_inv ids r \<longleftrightarrow>
     gomap_ok (arActive r) \<and> 0 < arCapacity r \<and> int (length (arActive r)) \<le> arCapacity r \<and>
     length ids = length (arHeap r) \<and> 0 \<notin> set ids \<and>
     (\<forall>i a. map_of (arActive r) i = Some a \<longleftrightarrow> a < length ids \<and> ids ! a = i \<and> \<not> arEnded (arHeap r ! a)) \<and>
     (\<forall>a < length ids. arOnce (arHeap r ! a) \<longrightarrow> arEnded (arHeap r ! a)) \<and>
     distinct (arCompletedOrder r) \<and> set (arCompletedOrder r) = dom (arCompleted r) \<and>
     int (length (arCompletedOrder r)) \<le> arCapacity r \<and> set (arCompletedOrder r) \<subseteq> set ids"

text \<open>Between the critical section and the cancellation that follows it a request may be ended and not yet
  cancelled; the requests concerned are named here.\<close>

definition cancelled_inv :: "nat set \<Rightarrow> ActiveRequestRegistry \<Rightarrow> bool" where
  "cancelled_inv pending r \<longleftrightarrow>
     (\<forall>a < length (arHeap r). a \<notin> pending \<longrightarrow> (arCancel (arHeap r ! a) = None \<longleftrightarrow> \<not> arEnded (arHeap r ! a)))"


lemma notifyLocked_inv [simp]:
  "requests_inv ids (notifyLocked r) \<longleftrightarrow> requests_inv ids r" "cancelled_inv pending (notifyLocked r) \<longleftrightarrow> cancelled_inv pending r"
  by (simp_all add: requests_inv_def cancelled_inv_def notifyLocked_def)

lemma registered_unique:
  assumes "requests_inv ids r" "a < length ids" "\<not> arEnded (arHeap r ! a)"
  shows "map_of (arActive r) (ids ! a) = Some a"
  using assms by (simp add: requests_inv_def)

text \<open>The completion history: the newest result of each identifier, at most \<open>capacity\<close> of them.\<close>

definition remember :: "int \<Rightarrow> int \<Rightarrow> bool \<Rightarrow> (int \<rightharpoonup> bool) \<times> int list \<Rightarrow> (int \<rightharpoonup> bool) \<times> int list" where
  "remember capacity i success h =
     (let c = (fst h)(i \<mapsto> success); order = remove1 i (snd h) @ [i]
      in if int (length order) > capacity then (c(hd order := None), tl order) else (c, order))"

definition history_ok :: "int \<Rightarrow> (int \<rightharpoonup> bool) \<times> int list \<Rightarrow> bool" where
  "history_ok capacity h \<longleftrightarrow> distinct (snd h) \<and> set (snd h) = dom (fst h) \<and> int (length (snd h)) \<le> capacity"

lemma remember_ok:
  assumes "history_ok capacity h" "0 < capacity"
  shows "history_ok capacity (remember capacity i success h)" "fst (remember capacity i success h) i = Some success"
    "dom (fst (remember capacity i success h)) \<subseteq> insert i (dom (fst h))"
proof -
  obtain c order where h: "h = (c, order)" by fastforce
  have o: "distinct order" "set order = dom c" "int (length order) \<le> capacity"
    using assms(1) by (simp_all add: history_ok_def h)
  define rest where "rest = remove1 i order"
  have rest: "distinct rest" "set rest = dom c - {i}" "length rest \<le> length order"
    using o by (simp_all add: rest_def length_remove1)
  have "history_ok capacity (remember capacity i success h) \<and> fst (remember capacity i success h) i = Some success \<and>
    dom (fst (remember capacity i success h)) \<subseteq> insert i (dom (fst h))"
  proof (cases rest)
    case Nil
    then show ?thesis
      using rest(2) assms(2) unfolding remember_def history_ok_def Let_def h by (auto simp: rest_def)
  next
    case (Cons k ks)
    have "int (length rest + 1) \<le> capacity + 1" using rest(3) o(3) by simp
    then show ?thesis
      using rest Cons unfolding remember_def history_ok_def Let_def h fst_conv snd_conv rest_def [symmetric] by auto
  qed
  then show "history_ok capacity (remember capacity i success h)" "fst (remember capacity i success h) i = Some success"
    "dom (fst (remember capacity i success h)) \<subseteq> insert i (dom (fst h))" by simp_all
qed

lemma finishLocked_ended: "arEnded (arHeap r ! a) \<Longrightarrow> finishLocked i a success r = r"
  by (simp add: finishLocked_def)

lemma finishLocked_live:
  assumes "map_of (arActive r) i = Some a" "\<not> arEnded (arHeap r ! a)" "set (arCompletedOrder r) = dom (arCompleted r)"
  shows "finishLocked i a success r =
    (let h = remember (arCapacity r) i success (arCompleted r, arCompletedOrder r)
     in r\<lparr>arHeap := (arHeap r)[a := (arHeap r ! a)\<lparr>arEnded := True\<rparr>], arActive := AList.delete i (arActive r),
          arCompleted := fst h, arCompletedOrder := snd h, arChanged := Suc (arChanged r)\<rparr>)"
proof -
  have "arCompleted r i = None \<Longrightarrow> remove1 i (arCompletedOrder r) = arCompletedOrder r"
    using assms(3) by (intro remove1_idem) auto
  then show ?thesis
    using assms(1,2) by (auto simp: finishLocked_def remember_def notifyLocked_def Let_def)
qed

lemma finishLocked_inv:
  assumes inv: "requests_inv ids r" and a: "map_of (arActive r) i = Some a"
  shows "requests_inv ids (finishLocked i a success r)"
    "map_of (arActive (finishLocked i a success r)) = (map_of (arActive r))(i := None)"
    "arHeap (finishLocked i a success r) = (arHeap r)[a := (arHeap r ! a)\<lparr>arEnded := True\<rparr>]"
    "arCapacity (finishLocked i a success r) = arCapacity r"
    "arChanged (finishLocked i a success r) = Suc (arChanged r)"
    "arCompleted (finishLocked i a success r) i = Some success"
proof -
  let ?h = "remember (arCapacity r) i success (arCompleted r, arCompletedOrder r)"
  have "\<not> arEnded (arHeap r ! a)" "set (arCompletedOrder r) = dom (arCompleted r)"
    using inv a by (simp_all add: requests_inv_def)
  note f = finishLocked_live [OF a this, of success, unfolded Let_def]
  have h: "history_ok (arCapacity r) (arCompleted r, arCompletedOrder r)" "0 < arCapacity r"
    using inv by (simp_all add: requests_inv_def history_ok_def)
  note m = remember_ok [OF h, of i success]
  have i: "a < length ids" "ids ! a = i" "length ids = length (arHeap r)"
    using inv a by (simp_all add: requests_inv_def)
  then have "i \<in> set ids" by auto
  moreover have "dom (arCompleted r) \<subseteq> set ids" using inv unfolding requests_inv_def by metis
  moreover have "set (snd ?h) = dom (fst ?h)" using m(1) by (simp add: history_ok_def)
  ultimately have "set (snd ?h) \<subseteq> set ids"
    using subset_trans [OF m(3), of "set ids"] by simp
  moreover have "length (AList.delete i (arActive r)) \<le> length (arActive r)"
    by (rule length_delete_le)
  moreover have "(map_of (AList.delete i (arActive r)) k = Some b) =
      (b < length ids \<and> ids ! b = k \<and> \<not> arEnded ((arHeap r)[a := (arHeap r ! a)\<lparr>arEnded := True\<rparr>] ! b))" for k b
  proof -
    have key: "(map_of (arActive r) j = Some c) = (c < length ids \<and> ids ! c = j \<and> \<not> arEnded (arHeap r ! c))" for j c
      using inv by (simp add: requests_inv_def)
    show ?thesis
    proof (cases "b = a")
      case True
      with i show ?thesis by (auto simp: map_of_delete key)
    next
      case False
      with a have "map_of (arActive r) i \<noteq> Some b" by simp
      with False show ?thesis by (auto simp: map_of_delete key)
    qed
  qed
  moreover have "arOnce ((arHeap r)[a := (arHeap r ! a)\<lparr>arEnded := True\<rparr>] ! b) \<Longrightarrow> b < length ids \<Longrightarrow>
      arEnded ((arHeap r)[a := (arHeap r ! a)\<lparr>arEnded := True\<rparr>] ! b)" for b
    using inv i by (auto simp: requests_inv_def nth_list_update split: if_splits)
  ultimately show "requests_inv ids (finishLocked i a success r)"
    using inv m(1) unfolding f by (auto simp: requests_inv_def history_ok_def)
  show "map_of (arActive (finishLocked i a success r)) = (map_of (arActive r))(i := None)"
    "arHeap (finishLocked i a success r) = (arHeap r)[a := (arHeap r ! a)\<lparr>arEnded := True\<rparr>]"
    "arCapacity (finishLocked i a success r) = arCapacity r"
    "arChanged (finishLocked i a success r) = Suc (arChanged r)"
    "arCompleted (finishLocked i a success r) i = Some success"
    using m(2) by (simp_all add: f map_of_delete)
qed


lemma requests_inv_heap:
  assumes "requests_inv ids r" "length h = length (arHeap r)"
    and "\<And>b. b < length h \<Longrightarrow> arEnded (h ! b) = arEnded (arHeap r ! b) \<and> (arOnce (h ! b) \<longrightarrow> arEnded (h ! b))"
  shows "requests_inv ids (r\<lparr>arHeap := h\<rparr>)"
proof -
  have "length ids = length h" using assms(1,2) by (simp add: requests_inv_def)
  with assms(3) have "\<forall>b < length ids. arEnded (h ! b) = arEnded (arHeap r ! b) \<and> (arOnce (h ! b) \<longrightarrow> arEnded (h ! b))" by metis
  with assms(1,2) show ?thesis by (auto simp: requests_inv_def)
qed

lemma cancelRequest_inv:
  assumes "requests_inv ids r" "a < length ids"
  shows "requests_inv ids (cancelRequest a cause r)" "arActive (cancelRequest a cause r) = arActive r"
    "arCapacity (cancelRequest a cause r) = arCapacity r" "arChanged (cancelRequest a cause r) = arChanged r"
    "arCompleted (cancelRequest a cause r) = arCompleted r"
proof -
  let ?h = "(arHeap r)[a := (arHeap r ! a)\<lparr>arCancel := Some cause\<rparr>]"
  have "length ids = length (arHeap r)" "\<And>b. b < length ids \<Longrightarrow> arOnce (arHeap r ! b) \<longrightarrow> arEnded (arHeap r ! b)"
    using assms(1) by (simp_all add: requests_inv_def)
  then have "requests_inv ids (r\<lparr>arHeap := ?h\<rparr>)"
    using assms by (intro requests_inv_heap) (auto simp: nth_list_update)
  then show "requests_inv ids (cancelRequest a cause r)" using assms(1) by (simp add: cancelRequest_def)
qed (simp_all add: cancelRequest_def)

lemma cancelRequest_heap:
  "arHeap (cancelRequest a cause r) = (if arCancel (arHeap r ! a) \<noteq> None then arHeap r
     else (arHeap r)[a := (arHeap r ! a)\<lparr>arCancel := Some cause\<rparr>])"
  by (simp add: cancelRequest_def)

text \<open>Ending one live request: the two halves of \<open>Drop\<close> and of a completion.\<close>

definition endRequest :: "int \<Rightarrow> nat \<Rightarrow> bool \<Rightarrow> ActiveRequestRegistry \<Rightarrow> ActiveRequestRegistry" where
  "endRequest i a success r = cancelRequest a (ContextError Canceled) (finishLocked i a success r)"

lemma endRequest_step:
  assumes inv: "requests_inv ids r" "cancelled_inv {} r" and a: "map_of (arActive r) i = Some a"
  shows "requests_inv ids (endRequest i a success r)" "cancelled_inv {} (endRequest i a success r)"
    "map_of (arActive (endRequest i a success r)) = (map_of (arActive r))(i := None)"
    "arCapacity (endRequest i a success r) = arCapacity r" "arChanged (endRequest i a success r) = Suc (arChanged r)"
    "arCompleted (endRequest i a success r) i = Some success"
    "arHeap (endRequest i a success r) =
      (arHeap r)[a := (arHeap r ! a)\<lparr>arEnded := True, arCancel := Some (ContextError Canceled)\<rparr>]"
proof -
  note f = finishLocked_inv [OF inv(1) a, of success]
  have "a < length ids" using inv(1) a by (simp add: requests_inv_def)
  note c = cancelRequest_inv [OF f(1) this, of "ContextError Canceled"]
  show "requests_inv ids (endRequest i a success r)"
    "map_of (arActive (endRequest i a success r)) = (map_of (arActive r))(i := None)"
    "arCapacity (endRequest i a success r) = arCapacity r" "arChanged (endRequest i a success r) = Suc (arChanged r)"
    "arCompleted (endRequest i a success r) i = Some success"
    using c f(2,4,5,6) by (simp_all add: endRequest_def)
  have l: "a < length (arHeap r)" "\<not> arEnded (arHeap r ! a)" using inv(1) a by (auto simp: requests_inv_def)
  then have "arCancel (arHeap r ! a) = None" using inv(2) by (simp add: cancelled_inv_def)
  with l show h: "arHeap (endRequest i a success r) =
      (arHeap r)[a := (arHeap r ! a)\<lparr>arEnded := True, arCancel := Some (ContextError Canceled)\<rparr>]"
    by (simp add: endRequest_def cancelRequest_heap f(3))
  show "cancelled_inv {} (endRequest i a success r)"
    using inv(2) l by (auto simp: cancelled_inv_def h nth_list_update)
qed

definition markOnce :: "nat \<Rightarrow> ActiveRequestRegistry \<Rightarrow> ActiveRequestRegistry" where
  "markOnce a r = r\<lparr>arHeap := (arHeap r)[a := (arHeap r ! a)\<lparr>arOnce := True\<rparr>]\<rparr>"

lemma markOnce_frame [simp]:
  "arActive (markOnce a r) = arActive r" "arCapacity (markOnce a r) = arCapacity r"
  "arChanged (markOnce a r) = arChanged r" "arCompleted (markOnce a r) = arCompleted r"
  "length (arHeap (markOnce a r)) = length (arHeap r)"
  "arCancel (arHeap (markOnce a r) ! b) = arCancel (arHeap r ! b)"
  "arEnded (arHeap (markOnce a r) ! b) = arEnded (arHeap r ! b)"
  by (simp_all add: markOnce_def) (cases "a < length (arHeap r)"; cases "a = b"; simp add: list_update_beyond)+

lemma markOnce_inv:
  assumes "requests_inv ids r" "cancelled_inv {} r" "a < length ids" "arEnded (arHeap r ! a)"
  shows "requests_inv ids (markOnce a r)" "cancelled_inv {} (markOnce a r)"
proof -
  have "length ids = length (arHeap r)" "\<And>b. b < length ids \<Longrightarrow> arOnce (arHeap r ! b) \<longrightarrow> arEnded (arHeap r ! b)"
    using assms(1) by (simp_all add: requests_inv_def)
  then show "requests_inv ids (markOnce a r)"
    unfolding markOnce_def using assms by (intro requests_inv_heap) (auto simp: nth_list_update)
  show "cancelled_inv {} (markOnce a r)" using assms(2) by (simp add: cancelled_inv_def)
qed

text \<open>A completion ends its request if that is still live; otherwise it changes nothing but its own flag.\<close>

lemma completeRequest_cases:
  assumes inv: "requests_inv ids r" "cancelled_inv {} r" and a: "a < length ids"
  shows "completeRequest \<lparr>regID = ids ! a, regRequest = a\<rparr> success r =
    (if arOnce (arHeap r ! a) then r
     else if arEnded (arHeap r ! a) then markOnce a r
     else markOnce a (endRequest (ids ! a) a success r))"
proof -
  have l: "a < length (arHeap r)" using inv(1) a by (simp add: requests_inv_def)
  let ?m = "markOnce a r"
  have c: "completeRequest \<lparr>regID = ids ! a, regRequest = a\<rparr> success r =
      (if arOnce (arHeap r ! a) then r else endRequest (ids ! a) a success ?m)"
    by (simp add: completeRequest_def endRequest_def markOnce_def Let_def)
  show ?thesis
  proof (cases "arEnded (arHeap r ! a)")
    case True
    then have "endRequest (ids ! a) a success ?m = ?m"
      using inv(2) l by (simp add: endRequest_def finishLocked_ended cancelRequest_def cancelled_inv_def)
    with True show ?thesis by (simp add: c)
  next
    case False
    then have "arCancel (arHeap r ! a) = None" using inv(2) l by (simp add: cancelled_inv_def)
    moreover have "map_of (arActive r) (ids ! a) = Some a" "set (arCompletedOrder r) = dom (arCompleted r)"
      using inv(1) a False by (simp_all add: requests_inv_def)
    moreover have "arCompletedOrder ?m = arCompletedOrder r" by (simp add: markOnce_def)
    ultimately have f: "map_of (arActive r) (ids ! a) = Some a" "set (arCompletedOrder r) = dom (arCompleted r)"
      "arCompletedOrder ?m = arCompletedOrder r" "arCancel (arHeap r ! a) = None" by simp_all
    have comm: "q\<lparr>arOnce := True, arEnded := True, arCancel := c\<rparr> = q\<lparr>arEnded := True, arCancel := c, arOnce := True\<rparr>" for q :: activeRequest and c
      by (cases q) simp
    have "endRequest (ids ! a) a success ?m = markOnce a (endRequest (ids ! a) a success r)"
      using False l f finishLocked_live [of ?m "ids ! a" a success] finishLocked_live [of r "ids ! a" a success]
      by (simp add: endRequest_def cancelRequest_def markOnce_def Let_def) (simp only: comm)
    with False show ?thesis by (simp add: c)
  qed
qed


section \<open>Batches\<close>

lemma checkBatch_None: "checkBatch seen ids = None \<longleftrightarrow> 0 \<notin> set ids \<and> distinct ids \<and> set ids \<inter> seen = {}"
  by (induction ids arbitrary: seen) auto

lemma registerRequest_inv:
  assumes inv: "requests_inv ids r" "cancelled_inv {} r" and i: "i \<noteq> 0" "map_of (arActive r) i = None"
    and room: "int (length (arActive r)) < arCapacity r"
    and r': "registerRequest i r = (reg, r')"
  shows "requests_inv (ids @ [i]) r'" "cancelled_inv {} r'" "reg = \<lparr>regID = i, regRequest = length ids\<rparr>"
    "map_of (arActive r') = (map_of (arActive r))(i \<mapsto> length ids)" "length (arActive r') = Suc (length (arActive r))"
    "arCapacity r' = arCapacity r" "arChanged r' = arChanged r" "arCompleted r' = arCompleted r"
proof -
  have l: "length (arHeap r) = length ids" using inv(1) by (simp add: requests_inv_def)
  have e: "reg = \<lparr>regID = i, regRequest = length ids\<rparr>"
    "r' = r\<lparr>arHeap := arHeap r @ [\<lparr>arCancel = None, arEnded = False, arOnce = False\<rparr>],
      arActive := AList.update i (length ids) (arActive r)\<rparr>"
    using r' by (simp_all add: registerRequest_def Let_def l)
  show "reg = \<lparr>regID = i, regRequest = length ids\<rparr>" by (fact e(1))
  show m: "map_of (arActive r') = (map_of (arActive r))(i \<mapsto> length ids)"
    "length (arActive r') = Suc (length (arActive r))"
    "arCapacity r' = arCapacity r" "arChanged r' = arChanged r" "arCompleted r' = arCompleted r"
    using i(2) by (simp_all add: e map_of_update length_update domIff)
  show "cancelled_inv {} r'" using inv(2) by (auto simp: cancelled_inv_def e(2) nth_append less_Suc_eq l)
  have key: "(map_of (arActive r) j = Some c) = (c < length ids \<and> ids ! c = j \<and> \<not> arEnded (arHeap r ! c))" for j c
    using inv(1) by (simp add: requests_inv_def)
  have h: "arHeap r' = arHeap r @ [\<lparr>arCancel = None, arEnded = False, arOnce = False\<rparr>]" by (simp add: e(2))
  have "(map_of (arActive r') j = Some c) =
      (c < length (ids @ [i]) \<and> (ids @ [i]) ! c = j \<and> \<not> arEnded (arHeap r' ! c))" for j c
    using i(2) key [of j c] by (auto simp: m(1) h nth_append l less_Suc_eq)
  moreover have "\<forall>a < length (ids @ [i]). arOnce (arHeap r' ! a) \<longrightarrow> arEnded (arHeap r' ! a)"
    using inv(1) by (auto simp: e(2) nth_append l less_Suc_eq requests_inv_def)
  moreover have "gomap_ok (arActive r')" "arCompletedOrder r' = arCompletedOrder r"
    using inv(1) by (simp_all add: e(2) requests_inv_def)
  ultimately show "requests_inv (ids @ [i]) r'"
    using inv(1) room i(1) m l by (auto simp: requests_inv_def e(2))
qed

lemma registerRequests_inv:
  assumes "requests_inv ids r" "cancelled_inv {} r" "0 \<notin> set new" "distinct new"
    and "\<forall>i \<in> set new. map_of (arActive r) i = None"
    and "int (length (arActive r)) + int (length new) \<le> arCapacity r"
    and "registerRequests new r = (regs, r')"
  shows "requests_inv (ids @ new) r' \<and> cancelled_inv {} r' \<and> map regID regs = new \<and>
    map regRequest regs = [length ids ..< length ids + length new] \<and>
    map_of (arActive r') = map_of (arActive r) ++ map_of (zip new [length ids ..< length ids + length new]) \<and>
    arCapacity r' = arCapacity r \<and> arChanged r' = arChanged r \<and> arCompleted r' = arCompleted r"
  using assms
proof (induction new arbitrary: ids r regs r')
  case (Cons i new)
  obtain reg r1 where r1: "registerRequest i r = (reg, r1)" by fastforce
  obtain regs2 r2 where r2: "registerRequests new r1 = (regs2, r2)" by fastforce
  have e: "regs = reg # regs2" "r' = r2" using Cons.prems(7) by (simp_all add: r1 r2)
  note st = registerRequest_inv [OF Cons.prems(1,2) _ _ _ r1]
  have st: "requests_inv (ids @ [i]) r1" "cancelled_inv {} r1" "reg = \<lparr>regID = i, regRequest = length ids\<rparr>"
    "map_of (arActive r1) = (map_of (arActive r))(i \<mapsto> length ids)" "length (arActive r1) = Suc (length (arActive r))"
    "arCapacity r1 = arCapacity r" "arChanged r1 = arChanged r" "arCompleted r1 = arCompleted r"
    using st Cons.prems(3,5,6) by simp_all
  have add: "f(i \<mapsto> a) ++ map_of (zip new L) = f ++ (map_of (zip new L))(i \<mapsto> a)"
    if "length L = length new" for f :: "int \<rightharpoonup> nat" and a and L :: "nat list"
  proof -
    have "map_of (zip new L) i = None" using Cons.prems(4) that by (simp add: map_of_zip_is_None)
    then show ?thesis by (auto simp: map_add_def fun_eq_iff split: option.splits)
  qed
  have "\<forall>j \<in> set new. map_of (arActive r1) j = None" using Cons.prems(4,5) by (auto simp: st(4))
  with Cons.prems(3,4,6) have IH: "requests_inv ((ids @ [i]) @ new) r2 \<and> cancelled_inv {} r2 \<and> map regID regs2 = new \<and>
    map regRequest regs2 = [length (ids @ [i]) ..< length (ids @ [i]) + length new] \<and>
    map_of (arActive r2) = map_of (arActive r1) ++ map_of (zip new [length (ids @ [i]) ..< length (ids @ [i]) + length new]) \<and>
    arCapacity r2 = arCapacity r1 \<and> arChanged r2 = arChanged r1 \<and> arCompleted r2 = arCompleted r1"
    by (intro Cons.IH [OF st(1,2) _ _ _ _ r2]) (auto simp: st(5,6))
  have "map_of (arActive r2) = map_of (arActive r) ++ map_of (zip (i # new) [length ids ..< length ids + length (i # new)])"
    using IH add [of "[Suc (length ids) ..< Suc (length ids + length new)]" "map_of (arActive r)" "length ids"]
    by (simp add: st(4) upt_conv_Cons del: upt_Suc fun_upd_apply)
  moreover have "requests_inv (ids @ i # new) r2" "cancelled_inv {} r2" "map regID regs = i # new"
    "map regRequest regs = [length ids ..< length ids + length (i # new)]"
    "arCapacity r2 = arCapacity r" "arChanged r2 = arChanged r" "arCompleted r2 = arCompleted r"
    using IH by (simp_all add: e(1) st(3,6-8) upt_conv_Cons del: upt_Suc)
  ultimately show ?case unfolding e(2) by blast
qed simp

text \<open>A batch is registered completely or not at all.\<close>

lemma beginBatch_cases:
  assumes inv: "requests_inv ids r" "cancelled_inv {} r"
  shows "case beginBatch new r of
      (Inl e, r') \<Rightarrow> r' = r \<and>
        (0 \<in> set new \<or> \<not> distinct new \<or> int (length (arActive r)) + int (length new) > arCapacity r \<or>
         (\<exists>i \<in> set new. IsActive i r))
    | (Inr regs, r') \<Rightarrow> 0 \<notin> set new \<and> distinct new \<and> (\<forall>i \<in> set new. \<not> IsActive i r) \<and>
        map regID regs = new \<and> map regRequest regs = [length ids ..< length ids + length new] \<and>
        requests_inv (ids @ new) r' \<and> cancelled_inv {} r' \<and>
        map_of (arActive r') = map_of (arActive r) ++ map_of (zip new [length ids ..< length ids + length new]) \<and>
        arCapacity r' = arCapacity r \<and> arChanged r' = Suc (arChanged r) \<and> arCompleted r' = arCompleted r"
proof (cases "checkBatch {} new")
  case (Some e)
  then have "0 \<in> set new \<or> \<not> distinct new" using checkBatch_None [of "{}" new] by auto
  then show ?thesis by (auto simp: beginBatch_def Some)
next
  case None
  then have new: "0 \<notin> set new" "distinct new" by (simp_all add: checkBatch_None)
  show ?thesis
  proof (cases "int (length (arActive r)) + int (length new) > arCapacity r")
    case True
    with None show ?thesis by (simp add: beginBatch_def)
  next
    case False
    show ?thesis
    proof (cases "find (\<lambda>i. map_of (arActive r) i \<noteq> None) new")
      case (Some i)
      then have "i \<in> set new" "map_of (arActive r) i \<noteq> None" by (auto simp: find_Some_iff)
      with new(1) have "\<exists>i \<in> set new. IsActive i r" unfolding IsActive_def by metis
      with Some None False show ?thesis by (simp add: beginBatch_def)
    next
      case n: None
      then have free: "\<forall>i \<in> set new. map_of (arActive r) i = None" by (simp add: find_None_iff)
      obtain regs r' where r': "registerRequests new r = (regs, r')" by fastforce
      have room: "int (length (arActive r)) + int (length new) \<le> arCapacity r" using False by simp
      note st = registerRequests_inv [OF inv new free room r']
      have "requests_inv (ids @ new) (notifyLocked r')" "cancelled_inv {} (notifyLocked r')"
        using st by simp_all
      then show ?thesis
        using st n None False new free by (simp add: beginBatch_def IsActive_def r') (simp add: notifyLocked_def)
    qed
  qed
qed


section \<open>Cancelling every request\<close>

lemma fold_finish:
  assumes "requests_inv ids r" "cancelled_inv pending r" "gomap_ok L"
    and "\<forall>(i, a) \<in> set L. map_of (arActive r) i = Some a"
  shows "requests_inv ids (fold (\<lambda>(i, a). finishLocked i a False) L r) \<and>
    cancelled_inv (pending \<union> snd ` set L) (fold (\<lambda>(i, a). finishLocked i a False) L r) \<and>
    (\<forall>i. map_of (arActive (fold (\<lambda>(i, a). finishLocked i a False) L r)) i =
       (if i \<in> fst ` set L then None else map_of (arActive r) i)) \<and>
    (\<forall>a \<in> snd ` set L. arEnded (arHeap (fold (\<lambda>(i, a). finishLocked i a False) L r) ! a)) \<and>
    (\<forall>a. arEnded (arHeap r ! a) \<longrightarrow> arEnded (arHeap (fold (\<lambda>(i, a). finishLocked i a False) L r) ! a)) \<and>
    arCapacity (fold (\<lambda>(i, a). finishLocked i a False) L r) = arCapacity r \<and>
    arChanged (fold (\<lambda>(i, a). finishLocked i a False) L r) = arChanged r + length L"
  using assms
proof (induction L arbitrary: r pending)
  case (Cons p L)
  obtain i a where p: "p = (i, a)" by fastforce
  have a: "map_of (arActive r) i = Some a" using Cons.prems(4) by (simp add: p)
  note f = finishLocked_inv [OF Cons.prems(1) a, of False]
  have l: "a < length (arHeap r)" using Cons.prems(1) a by (auto simp: requests_inv_def)
  have c: "cancelled_inv (insert a pending) (finishLocked i a False r)"
    using Cons.prems(2) by (auto simp: cancelled_inv_def f(3) nth_list_update)
  have g: "gomap_ok L" "i \<notin> fst ` set L" using Cons.prems(3) by (auto simp: gomap_ok_def p)
  have L: "\<forall>(j, b) \<in> set L. map_of (arActive (finishLocked i a False r)) j = Some b"
    using Cons.prems(4) g(2) by (force simp: f(2))
  have e: "arEnded (arHeap (finishLocked i a False r) ! a)"
    "\<And>b. arEnded (arHeap r ! b) \<Longrightarrow> arEnded (arHeap (finishLocked i a False r) ! b)"
    using l by (auto simp: f(3) nth_list_update_neq) (metis nth_list_update_eq nth_list_update_neq activeRequest.select_convs(2) activeRequest.surjective activeRequest.update_convs(2))
  show ?case using Cons.IH [OF f(1) c g(1) L] e g(2) by (auto simp: p f(2,4,5))
qed simp

lemma fold_cancel:
  assumes "requests_inv ids r" "cancelled_inv (set requests) r" "\<forall>a \<in> set requests. a < length ids \<and> arEnded (arHeap r ! a)"
  shows "requests_inv ids (fold (\<lambda>a. cancelRequest a cause) requests r) \<and>
    cancelled_inv {} (fold (\<lambda>a. cancelRequest a cause) requests r) \<and>
    arActive (fold (\<lambda>a. cancelRequest a cause) requests r) = arActive r \<and>
    arCapacity (fold (\<lambda>a. cancelRequest a cause) requests r) = arCapacity r \<and>
    arChanged (fold (\<lambda>a. cancelRequest a cause) requests r) = arChanged r \<and>
    arCompleted (fold (\<lambda>a. cancelRequest a cause) requests r) = arCompleted r"
  using assms
proof (induction requests arbitrary: r)
  case (Cons a requests)
  have a: "a < length ids" "arEnded (arHeap r ! a)" using Cons.prems(3) by simp_all
  have l: "length ids = length (arHeap r)" using Cons.prems(1) by (simp add: requests_inv_def)
  note c = cancelRequest_inv [OF Cons.prems(1) a(1), of cause]
  have h: "arEnded (arHeap (cancelRequest a cause r) ! b) = arEnded (arHeap r ! b)"
    "arCancel (arHeap (cancelRequest a cause r) ! b) =
      (if b = a \<and> arCancel (arHeap r ! a) = None then Some cause else arCancel (arHeap r ! b))" for b
    using a l by (cases "a = b"; simp add: cancelRequest_heap)+
  have "length (arHeap (cancelRequest a cause r)) = length (arHeap r)" by (simp add: cancelRequest_heap)
  then have "cancelled_inv (set requests) (cancelRequest a cause r)"
    using Cons.prems(2) a by (auto simp: cancelled_inv_def h split: if_splits)
  moreover have "\<forall>b \<in> set requests. b < length ids \<and> arEnded (arHeap (cancelRequest a cause r) ! b)"
    using Cons.prems(3) by (simp add: h)
  ultimately show ?case using Cons.IH [OF c(1)] c by simp
qed simp

lemma CancelAll_step:
  assumes inv: "requests_inv ids r" "cancelled_inv {} r"
  shows "requests_inv ids (CancelAll cause r)" "cancelled_inv {} (CancelAll cause r)"
    "map_of (arActive (CancelAll cause r)) = Map.empty" "arCapacity (CancelAll cause r) = arCapacity r"
    "arChanged (CancelAll cause r) = arChanged r + length (arActive r)"
proof -
  have ok: "gomap_ok (arActive r)" using inv(1) by (simp add: requests_inv_def)
  then have L: "\<forall>(i, a) \<in> set (arActive r). map_of (arActive r) i = Some a" by (auto simp: gomap_in_set)
  note f = fold_finish [OF inv ok L]
  have b: "\<forall>a \<in> set (map snd (arActive r)). a < length ids" using L inv(1) by (auto simp: requests_inv_def)
  let ?r = "fold (\<lambda>(i, a). finishLocked i a False) (arActive r) r"
  have "map_of (arActive r) i = None" if "i \<notin> fst ` set (arActive r)" for i using that by (simp add: map_of_eq_None_iff)
  then have "map_of (arActive ?r) i = None" for i using f by simp
  then have e: "map_of (arActive ?r) = Map.empty" by (simp add: fun_eq_iff)
  have c: "cancelled_inv (set (map snd (arActive r))) ?r"
    "\<forall>a \<in> set (map snd (arActive r)). a < length ids \<and> arEnded (arHeap ?r ! a)"
    using f b by auto
  note g = fold_cancel [OF conjunct1 [OF f] c, of "case cause of None \<Rightarrow> ContextError Canceled | Some e \<Rightarrow> e"]
  show "requests_inv ids (CancelAll cause r)" "cancelled_inv {} (CancelAll cause r)"
    "map_of (arActive (CancelAll cause r)) = Map.empty" "arCapacity (CancelAll cause r) = arCapacity r"
    "arChanged (CancelAll cause r) = arChanged r + length (arActive r)"
    using f g e by (simp_all add: CancelAll_def Let_def)
qed


section \<open>Histories\<close>

text \<open>The operations any goroutine may perform next; a completion names the registration by its number.\<close>

datatype request_op = OpBegin "int list" | OpFinish nat bool | OpDrop int | OpCancelAll "go_error option"

fun requestStep :: "request_op \<Rightarrow> int list \<times> ActiveRequestRegistry \<Rightarrow> int list \<times> ActiveRequestRegistry" where
  "requestStep (OpBegin new) (ids, r) =
     (case beginBatch new r of (Inl _, r') \<Rightarrow> (ids, r') | (Inr regs, r') \<Rightarrow> (ids @ map regID regs, r'))"
| "requestStep (OpFinish a success) (ids, r) =
     (ids, if a < length ids then completeRequest \<lparr>regID = ids ! a, regRequest = a\<rparr> success r else r)"
| "requestStep (OpDrop i) (ids, r) = (ids, snd (Drop i r))"
| "requestStep (OpCancelAll cause) (ids, r) = (ids, CancelAll cause r)"

definition registry_ok :: "int \<Rightarrow> int list \<times> ActiveRequestRegistry \<Rightarrow> bool" where
  "registry_ok capacity st \<longleftrightarrow>
     requests_inv (fst st) (snd st) \<and> cancelled_inv {} (snd st) \<and> arCapacity (snd st) = capacity"

lemma Drop_cases:
  "Drop i r = (case map_of (arActive r) i of
     None \<Rightarrow> (DropStatusUnknown, r) | Some a \<Rightarrow> (DropStatusDroppedRunning, endRequest i a False r))"
  by (simp add: Drop_def endRequest_def split: option.splits)

text \<open>Every operation keeps the invariant, and one that changes the completion history closes the channel.\<close>

lemma requestStep_ok:
  assumes "registry_ok capacity st"
  shows "registry_ok capacity (requestStep op st) \<and> arChanged (snd st) \<le> arChanged (snd (requestStep op st)) \<and>
    (arCompleted (snd (requestStep op st)) \<noteq> arCompleted (snd st) \<longrightarrow> arChanged (snd st) < arChanged (snd (requestStep op st)))"
proof -
  obtain ids r where st: "st = (ids, r)" by fastforce
  have inv: "requests_inv ids r" "cancelled_inv {} r" "arCapacity r = capacity"
    using assms by (simp_all add: registry_ok_def st)
  show ?thesis
  proof (cases op)
    case (OpBegin new)
    show ?thesis
      using beginBatch_cases [OF inv(1,2), of new] inv
      by (auto simp: st OpBegin registry_ok_def split: prod.splits sum.splits)
  next
    case (OpFinish a success)
    show ?thesis
    proof (cases "a < length ids \<and> \<not> arOnce (arHeap r ! a)")
      case True
      show ?thesis
      proof (cases "arEnded (arHeap r ! a)")
        case e: True
        then show ?thesis
          using markOnce_inv [OF inv(1,2) _ e] True inv completeRequest_cases [OF inv(1,2), of a success]
          by (auto simp: st OpFinish registry_ok_def)
      next
        case False
        have a: "map_of (arActive r) (ids ! a) = Some a" using registered_unique [OF inv(1) _ False] True by simp
        note e = endRequest_step [OF inv(1,2) a, of success]
        have "arEnded (arHeap (endRequest (ids ! a) a success r) ! a)"
          using inv(1) True by (simp add: e(7) requests_inv_def)
        then show ?thesis
          using markOnce_inv [OF e(1,2), of a] True False e inv completeRequest_cases [OF inv(1,2), of a success]
          by (auto simp: st OpFinish registry_ok_def)
      qed
    next
      case False
      then show ?thesis
        using inv completeRequest_cases [OF inv(1,2), of a success] by (auto simp: st OpFinish registry_ok_def)
    qed
  next
    case (OpDrop i)
    show ?thesis
    proof (cases "map_of (arActive r) i")
      case None
      then show ?thesis using inv by (simp add: st OpDrop registry_ok_def Drop_cases)
    next
      case (Some a)
      then show ?thesis using endRequest_step [OF inv(1,2) Some, of False] inv by (simp add: st OpDrop registry_ok_def Drop_cases)
    qed
  next
    case (OpCancelAll cause)
    have "CancelAll cause r = r" if "arActive r = []" using that by (simp add: CancelAll_def)
    then show ?thesis
      using CancelAll_step [OF inv(1,2), of cause] inv by (cases "arActive r = []") (auto simp: st OpCancelAll registry_ok_def)
  qed
qed

lemma requestSteps_ok:
  assumes "registry_ok capacity st"
  shows "registry_ok capacity (fold requestStep ops st) \<and> arChanged (snd st) \<le> arChanged (snd (fold requestStep ops st)) \<and>
    (arCompleted (snd (fold requestStep ops st)) \<noteq> arCompleted (snd st) \<longrightarrow>
       arChanged (snd st) < arChanged (snd (fold requestStep ops st)))"
  using assms
proof (induction ops arbitrary: st)
  case (Cons op ops)
  note st = requestStep_ok [OF Cons.prems, of op]
  from Cons.IH [OF conjunct1 [OF st]] st show ?case by (auto intro: le_less_trans less_le_trans)
qed simp

lemma NewActiveRequestRegistry_ok:
  "NewActiveRequestRegistry capacity = Inr r \<Longrightarrow> registry_ok capacity ([], r)"
  by (auto simp: NewActiveRequestRegistry_def registry_ok_def requests_inv_def cancelled_inv_def split: if_splits)

section \<open>Waiting\<close>

lemma scanDependencies_spec:
  "scanDependencies completed b ids =
     (if \<exists>i \<in> set ids. completed i = Some False then None
      else Some (b \<and> (\<forall>i \<in> set ids. completed i = Some True)))"
  by (induction ids arbitrary: b) (auto split: option.splits)

lemma waitLoop_success:
  "waitLoop ids schedule = Some None \<Longrightarrow> \<exists>(r, w) \<in> set schedule. \<forall>i \<in> set ids. arCompleted r i = Some True"
proof (induction ids schedule rule: waitLoop.induct)
  case (2 ids r w schedule)
  then show ?case by (auto simp: scanDependencies_spec split: if_splits bool.splits wakeup.splits)
qed simp

lemma waitLoop_returns: "(r, w) \<in> set schedule \<Longrightarrow> w \<noteq> Changed \<Longrightarrow> waitLoop ids schedule \<noteq> None"
  by (induction ids schedule rule: waitLoop.induct) (auto split: option.splits bool.splits wakeup.splits)

lemma waitLoop_failure:
  "waitLoop ids schedule = Some (Some (RequestError InvokeAfterFailed)) \<Longrightarrow>
     (\<exists>(r, w) \<in> set schedule. (\<exists>i \<in> set ids. arCompleted r i = Some False) \<or> w = ContextDone (RequestError InvokeAfterFailed))"
proof (induction ids schedule rule: waitLoop.induct)
  case (2 ids r w schedule)
  then show ?case by (auto simp: scanDependencies_spec split: if_splits bool.splits wakeup.splits)
qed simp

section \<open>Properties\<close>



definition exampleRegistry :: ActiveRequestRegistry where
  "exampleRegistry = \<lparr>arCapacity = 2, arActive = [], arCompleted = Map.empty, arCompletedOrder = [], arChanged = 0, arHeap = []\<rparr>"

definition exampleReused :: "int list \<times> ActiveRequestRegistry" where
  "exampleReused = fold requestStep [OpBegin [5], OpDrop 5, OpBegin [5, 9]] ([], exampleRegistry)"

lemma exampleRegistry_new: "NewActiveRequestRegistry 2 = Inr exampleRegistry"
  by (simp add: NewActiveRequestRegistry_def exampleRegistry_def)


text \<open>Batches are atomic.  In every reachable registry a container's requests are registered all
  together, each under its own fresh registration and beside the ones already running, or the registry is
  left as it was; it is left so exactly when an identifier is zero, repeated or running, or when the
  capacity does not suffice.\<close>

theorem batch_atomic:
  assumes "NewActiveRequestRegistry capacity = Inr r0" "fold requestStep ops ([], r0) = (ids, r)"
  shows "let fits = (0 \<notin> set new \<and> distinct new \<and> (\<forall>i \<in> set new. \<not> IsActive i r) \<and>
      int (length (arActive r)) + int (length new) \<le> capacity) in
    (case beginBatch new r of
       (Inl e, r') \<Rightarrow> \<not> fits \<and> r' = r
     | (Inr regs, r') \<Rightarrow> fits \<and> map regID regs = new \<and> map regRequest regs = [length ids ..< length ids + length new] \<and>
         map_of (arActive r') = map_of (arActive r) ++ map_of (zip new (map regRequest regs)) \<and>
         arCompleted r' = arCompleted r)"
proof -
  have "registry_ok capacity (ids, r)"
    using requestSteps_ok [OF NewActiveRequestRegistry_ok [OF assms(1)], of ops] assms(2) by simp
  then have inv: "requests_inv ids r" "cancelled_inv {} r" "arCapacity r = capacity" by (simp_all add: registry_ok_def)
  have "int (length (arActive r)) + int (length new) \<le> arCapacity r" if "beginBatch new r = (Inr regs, r')" for regs r'
    using that by (auto simp: beginBatch_def split: option.splits if_splits)
  then show ?thesis
    using beginBatch_cases [OF inv(1,2), of new] inv(3) by (fastforce simp: Let_def split: prod.splits sum.splits)
qed

theorem batch_atomic_witness:
  "\<exists>e. beginBatch [4, 9] (snd exampleReused) = (Inl e, snd exampleReused)"
proof -
  have e: "fst exampleReused = [5, 5, 9]" "isl (fst (beginBatch [4, 9] (snd exampleReused)))" by code_simp+
  have "fold requestStep [OpBegin [5], OpDrop 5, OpBegin [5, 9]] ([], exampleRegistry) = ([5, 5, 9], snd exampleReused)"
    using e(1) unfolding exampleReused_def by (metis prod.collapse)
  from batch_atomic [OF exampleRegistry_new this, of "[4, 9]"] e(2) show ?thesis
    by (auto simp: Let_def split: prod.splits sum.splits)
qed

text \<open>C26. Waiting for dependencies.  \<open>WaitDependencies\<close> succeeds only if one of its passes found all the
  requests it depends on completed successfully.  It never misses a wake-up: if a pass over a reachable
  registry decides to wait and later operations, in whatever order, make a pass come out differently, then
  the channel it waits on has been closed.  And it returns as soon as its context or its timer fires.\<close>

theorem invoke_after_waits:
  assumes "NewActiveRequestRegistry capacity = Inr r0"
    and "fold requestStep before ([], r0) = (ids, r)" "fold requestStep later (ids, r) = (ids', r')"
  shows "(WaitDependencies deps timeout schedule = Some None \<longrightarrow>
      deps = [] \<or> (\<exists>(s, w) \<in> set schedule. \<forall>i \<in> set deps. arCompleted s i = Some True)) \<and>
    (scanDependencies (arCompleted r) True deps = Some False \<and> scanDependencies (arCompleted r') True deps \<noteq> Some False \<longrightarrow>
      arChanged r < arChanged r') \<and>
    ((\<exists>(s, w) \<in> set schedule. w \<noteq> Changed) \<longrightarrow> WaitDependencies deps timeout schedule \<noteq> None)"
proof -
  have "registry_ok capacity (ids, r)"
    using requestSteps_ok [OF NewActiveRequestRegistry_ok [OF assms(1)], of before] assms(2) by simp
  from requestSteps_ok [OF this, of later] assms(3)
  have "arCompleted r' \<noteq> arCompleted r \<longrightarrow> arChanged r < arChanged r'" by simp
  then show ?thesis
    using waitLoop_success [of deps schedule] waitLoop_returns [of _ _ schedule deps]
    by (auto simp: WaitDependencies_def split: if_splits)
qed

definition exampleWaiting :: "int list \<times> ActiveRequestRegistry" where
  "exampleWaiting = fold requestStep [OpBegin [5]] ([], exampleRegistry)"

theorem invoke_after_waits_witness:
  "arChanged (snd exampleWaiting) < arChanged (snd (requestStep (OpFinish 0 True) exampleWaiting)) \<and>
   WaitDependencies [5] 30 [(snd exampleWaiting, TimerFired)] \<noteq> None"
proof -
  have s: "scanDependencies (arCompleted (snd exampleWaiting)) True [5] = Some False"
    "scanDependencies (arCompleted (snd (requestStep (OpFinish 0 True) exampleWaiting))) True [5] \<noteq> Some False"
    by code_simp+
  have "fold requestStep [OpBegin [5]] ([], exampleRegistry) = (fst exampleWaiting, snd exampleWaiting)"
    "fold requestStep [OpFinish 0 True] (fst exampleWaiting, snd exampleWaiting) =
      (fst (requestStep (OpFinish 0 True) exampleWaiting), snd (requestStep (OpFinish 0 True) exampleWaiting))"
    by (simp_all add: exampleWaiting_def)
  from invoke_after_waits [OF exampleRegistry_new this, of "[5]" 30 "[(snd exampleWaiting, TimerFired)]"] s
  show ?thesis by simp
qed

end
