(* ===== verification/Push_Barrier.thy ===== *)
theory Push_Barrier
  imports TLRPC_Prelude
begin

text \<open>
  The recovery push barrier (\<open>internal/runtime/recovery_push_barrier.go\<close>): while replies to recovered
  requests are outstanding, server pushes are queued, and they are sent once the last reply is.

  The fields under \<open>mu\<close> are a record and every critical section is a function on it.  The goroutines are
  the steps of a relation that interleaves them; a step that takes \<open>orderMu\<close> for writing needs that
  nobody holds it, one that takes it for reading that no writer does.  What is submitted, and what is
  accepted into the queue, is kept in a log.
\<close>

section \<open>The barrier\<close>

record recoveryPushBarrier =
  bMaxCount :: int
  bMaxBytes :: int
  bActive :: int
  bDraining :: bool
  bQueuedBytes :: int
  bQueue :: "bytes list"
  bClosed :: bool
  bCause :: "go_error option"

definition newRecoveryPushBarrier :: "int \<Rightarrow> int \<Rightarrow> recoveryPushBarrier" where
  "newRecoveryPushBarrier maxCount maxBytes = \<lparr>bMaxCount = maxCount, bMaxBytes = maxBytes, bActive = 0,
     bDraining = False, bQueuedBytes = 0, bQueue = [], bClosed = False, bCause = None\<rparr>"

definition closeLocked :: "go_error option \<Rightarrow> recoveryPushBarrier \<Rightarrow> recoveryPushBarrier" where
  "closeLocked cause b =
     (if bClosed b then b
      else b\<lparr>bClosed := True, bCause := Some (case cause of None \<Rightarrow> ContextError Canceled | Some e \<Rightarrow> e),
             bQueue := [], bQueuedBytes := 0\<rparr>)"

definition closeCauseLocked :: "recoveryPushBarrier \<Rightarrow> go_error" where
  "closeCauseLocked b = (case bCause b of Some e \<Rightarrow> e | None \<Rightarrow> ContextError Canceled)"

definition barrier_begin :: "recoveryPushBarrier \<Rightarrow> recoveryPushBarrier" where
  "barrier_begin b = (if \<not> bClosed b then b\<lparr>bActive := bActive b + 1\<rparr> else b)"

definition enqueueLocked :: "bytes \<Rightarrow> recoveryPushBarrier \<Rightarrow> go_error option \<times> recoveryPushBarrier" where
  "enqueueLocked body b =
     (if bClosed b then (Some (closeCauseLocked b), b)
      else if int (length (bQueue b)) \<ge> bMaxCount b \<or> int (length body) > bMaxBytes b - bQueuedBytes b
      then (Some (RequestError BarrierFull), closeLocked (Some (RequestError BarrierFull)) b)
      else (None, b\<lparr>bQueue := bQueue b @ [body], bQueuedBytes := bQueuedBytes b + int (length body)\<rparr>))"

definition retireOverflow :: "go_error option \<Rightarrow> bool" where
  "retireOverflow err \<longleftrightarrow> err = Some (RequestError BarrierFull)"

text \<open>What a push learns in its critical section: the error or the acceptance to return, or that it may
  submit its body itself.\<close>

datatype pushVerdict = Refused go_error | Overflowed go_error | Queued | Admitted

definition push_check :: "bytes \<Rightarrow> recoveryPushBarrier \<Rightarrow> pushVerdict \<times> recoveryPushBarrier" where
  "push_check body b =
     (if bClosed b then (Refused (closeCauseLocked b), b)
      else if bActive b \<noteq> 0 \<or> bDraining b then
        (case enqueueLocked body b of
           (None, b') \<Rightarrow> (Queued, b')
         | (Some e, b') \<Rightarrow> (if retireOverflow (Some e) then Overflowed e else Refused e, b'))
      else (Admitted, b))"

definition releaseLocked :: "recoveryPushBarrier \<Rightarrow> recoveryPushBarrier" where
  "releaseLocked b = (if bActive b > 0 then b\<lparr>bActive := bActive b - 1\<rparr> else b)"

text \<open>The section of \<open>finish\<close> after the reply was submitted: its result, if it returns at once, and whether
  the queue is to be drained.\<close>

definition finish_release :: "go_error option \<Rightarrow> recoveryPushBarrier \<Rightarrow> (go_error option) \<times> bool \<times> recoveryPushBarrier" where
  "finish_release replyErr b =
     (case replyErr of
        Some e \<Rightarrow> (Some e, False, closeLocked (Some e) b)
      | None \<Rightarrow>
          if bClosed b then (Some (closeCauseLocked b), False, b)
          else
            (let b = releaseLocked b; startDrain = (bActive b = 0 \<and> bQueue b \<noteq> [])
             in (None, startDrain, if startDrain then b\<lparr>bDraining := True\<rparr> else b)))"

text \<open>One pass of the drain loop up to its \<open>submit\<close>: the result if the loop ends, otherwise the body.\<close>

definition drain_next :: "recoveryPushBarrier \<Rightarrow> (go_error option + bytes) \<times> recoveryPushBarrier" where
  "drain_next b =
     (if bClosed b then (Inl (Some (closeCauseLocked b)), b\<lparr>bDraining := False\<rparr>)
      else if bActive b \<noteq> 0 \<or> bQueue b = [] then (Inl None, b\<lparr>bDraining := False\<rparr>)
      else
        (let body = hd (bQueue b)
         in (Inr body, b\<lparr>bQueue := tl (bQueue b), bQueuedBytes := bQueuedBytes b - int (length body)\<rparr>)))"

section \<open>The goroutines\<close>

datatype barrier_event = Began | Replied | PushQueued bytes | PushDrained bytes | PushDirect bytes | Retired go_error

text \<open>Where the holder of \<open>orderMu\<close> for writing is; tokens that were issued and not yet used; the pushes that
  were admitted and hold \<open>orderMu\<close> for reading.\<close>

datatype barrier_writer = Replying | Releasing "go_error option" | Draining | DrainSubmit bytes

record barrier_system =
  bsBarrier :: recoveryPushBarrier
  bsTokens :: nat
  bsWriter :: "barrier_writer option"
  bsReaders :: "bytes list"
  bsLog :: "barrier_event list"

definition barrier_init :: "int \<Rightarrow> int \<Rightarrow> barrier_system" where
  "barrier_init maxCount maxBytes =
     \<lparr>bsBarrier = newRecoveryPushBarrier maxCount maxBytes, bsTokens = 0, bsWriter = None, bsReaders = [], bsLog = []\<rparr>"

abbreviation orderFree :: "barrier_system \<Rightarrow> bool" where
  "orderFree s \<equiv> bsWriter s = None \<and> bsReaders s = []"

definition verdictLog :: "bytes \<Rightarrow> pushVerdict \<Rightarrow> barrier_event list" where
  "verdictLog body v = (case v of Queued \<Rightarrow> [PushQueued body] | Overflowed e \<Rightarrow> [Retired e] | _ \<Rightarrow> [])"

inductive barrierStep :: "barrier_system \<Rightarrow> barrier_system \<Rightarrow> bool" where
  Begin: "orderFree s \<Longrightarrow>
    barrierStep s (s\<lparr>bsBarrier := barrier_begin (bsBarrier s), bsTokens := Suc (bsTokens s),
      bsLog := bsLog s @ (if bClosed (bsBarrier s) then [] else [Began])\<rparr>)"
| PushFirst: "push_check body (bsBarrier s) = (v, b) \<Longrightarrow> v \<noteq> Admitted \<Longrightarrow>
    barrierStep s (s\<lparr>bsBarrier := b, bsLog := bsLog s @ verdictLog body v\<rparr>)"
| PushOrdered: "bsWriter s = None \<Longrightarrow> push_check body (bsBarrier s) = (Admitted, b) \<Longrightarrow>
    barrierStep s (s\<lparr>bsBarrier := b, bsReaders := body # bsReaders s\<rparr>)"
| PushSubmitted: "body \<in> set (bsReaders s) \<Longrightarrow>
    barrierStep s (s\<lparr>bsReaders := remove1 body (bsReaders s), bsLog := bsLog s @ [PushDirect body]\<rparr>)"
| PushFailed: "body \<in> set (bsReaders s) \<Longrightarrow> barrierStep s (s\<lparr>bsReaders := remove1 body (bsReaders s)\<rparr>)"
| Finish: "orderFree s \<Longrightarrow> bsTokens s = Suc n \<Longrightarrow>
    barrierStep s (s\<lparr>bsTokens := n, bsWriter := (if bClosed (bsBarrier s) then None else Some Replying)\<rparr>)"
| ReplySubmitted: "bsWriter s = Some Replying \<Longrightarrow>
    barrierStep s (s\<lparr>bsWriter := Some (Releasing None), bsLog := bsLog s @ [Replied]\<rparr>)"
| ReplyFailed: "bsWriter s = Some Replying \<Longrightarrow> barrierStep s (s\<lparr>bsWriter := Some (Releasing (Some e))\<rparr>)"
| Release: "bsWriter s = Some (Releasing err) \<Longrightarrow> finish_release err (bsBarrier s) = (res, startDrain, b) \<Longrightarrow>
    barrierStep s (s\<lparr>bsBarrier := b, bsWriter := (if startDrain then Some Draining else None),
      bsLog := bsLog s @ (case err of None \<Rightarrow> [] | Some e \<Rightarrow> [Retired e])\<rparr>)"
| DrainNext: "bsWriter s = Some Draining \<Longrightarrow> drain_next (bsBarrier s) = (Inr body, b) \<Longrightarrow>
    barrierStep s (s\<lparr>bsBarrier := b, bsWriter := Some (DrainSubmit body)\<rparr>)"
| DrainEnd: "bsWriter s = Some Draining \<Longrightarrow> drain_next (bsBarrier s) = (Inl res, b) \<Longrightarrow>
    barrierStep s (s\<lparr>bsBarrier := b, bsWriter := None, bsLog := bsLog s @ (case res of None \<Rightarrow> [] | Some e \<Rightarrow> [Retired e])\<rparr>)"
| DrainSubmitted: "bsWriter s = Some (DrainSubmit body) \<Longrightarrow>
    barrierStep s (s\<lparr>bsWriter := Some Draining, bsLog := bsLog s @ [PushDrained body]\<rparr>)"
| DrainFailed: "bsWriter s = Some (DrainSubmit body) \<Longrightarrow>
    barrierStep s (s\<lparr>bsBarrier := closeLocked (Some e) (bsBarrier s), bsWriter := None, bsLog := bsLog s @ [Retired e]\<rparr>)"
| Cancel: "orderFree s \<Longrightarrow> bsTokens s = Suc n \<Longrightarrow>
    barrierStep s (s\<lparr>bsTokens := n, bsBarrier := closeLocked (Some (RequestError BarrierAborted)) (bsBarrier s),
      bsLog := bsLog s @ (if bClosed (bsBarrier s) then [] else [Retired (RequestError BarrierAborted)])\<rparr>)"
| Close: "orderFree s \<Longrightarrow> barrierStep s (s\<lparr>bsBarrier := closeLocked cause (bsBarrier s)\<rparr>)"

definition barrierReachable :: "int \<Rightarrow> int \<Rightarrow> barrier_system \<Rightarrow> bool" where
  "barrierReachable maxCount maxBytes s \<longleftrightarrow> barrierStep\<^sup>*\<^sup>* (barrier_init maxCount maxBytes) s"

section \<open>Invariant\<close>

definition began :: "barrier_event list \<Rightarrow> nat" where
  "began es = length (filter (\<lambda>e. e = Began) es)"

definition replied :: "barrier_event list \<Rightarrow> nat" where
  "replied es = length (filter (\<lambda>e. e = Replied) es)"

definition queuedBodies :: "barrier_event list \<Rightarrow> bytes list" where
  "queuedBodies es = concat (map (\<lambda>e. case e of PushQueued body \<Rightarrow> [body] | _ \<Rightarrow> []) es)"

definition drainedBodies :: "barrier_event list \<Rightarrow> bytes list" where
  "drainedBodies es = concat (map (\<lambda>e. case e of PushDrained body \<Rightarrow> [body] | _ \<Rightarrow> []) es)"

text \<open>A log is ordered if a push is only submitted when every reply due before it has been, and if a push
  that was not queued is only submitted when nothing is left of the queue.\<close>

definition ordered :: "barrier_event list \<Rightarrow> bool" where
  "ordered es \<longleftrightarrow> (\<forall>i < length es. let pre = take i es in
     case es ! i of
       PushDrained body \<Rightarrow> began pre = replied pre
     | PushDirect body \<Rightarrow> began pre = replied pre \<and> queuedBodies pre = drainedBodies pre
     | _ \<Rightarrow> True)"

lemma ordered_Nil [simp]: "ordered []"
  by (simp add: ordered_def)

lemma ordered_snoc [simp]:
  "ordered (es @ [e]) \<longleftrightarrow> ordered es \<and>
     (case e of
        PushDrained body \<Rightarrow> began es = replied es
      | PushDirect body \<Rightarrow> began es = replied es \<and> queuedBodies es = drainedBodies es
      | _ \<Rightarrow> True)"
  unfolding ordered_def by (cases e) (auto simp: All_less_Suc nth_append Let_def)

lemma log_append [simp]:
  "began (es @ fs) = began es + began fs" "replied (es @ fs) = replied es + replied fs"
  "queuedBodies (es @ fs) = queuedBodies es @ queuedBodies fs" "drainedBodies (es @ fs) = drainedBodies es @ drainedBodies fs"
  by (simp_all add: began_def replied_def queuedBodies_def drainedBodies_def)

lemma log_single [simp]:
  "began [] = 0" "replied [] = 0" "queuedBodies [] = []" "drainedBodies [] = []"
  "began [e] = (if e = Began then 1 else 0)" "replied [e] = (if e = Replied then 1 else 0)"
  "queuedBodies [e] = (case e of PushQueued body \<Rightarrow> [body] | _ \<Rightarrow> [])"
  "drainedBodies [e] = (case e of PushDrained body \<Rightarrow> [body] | _ \<Rightarrow> [])"
  by (simp_all add: began_def replied_def queuedBodies_def drainedBodies_def)

text \<open>What the writer holds: a token whose reply is not counted yet, the body it is about to submit, the
  drain of the queue.\<close>

fun busy :: "barrier_writer option \<Rightarrow> int" where
  "busy (Some Replying) = 1" | "busy (Some (Releasing _)) = 1" | "busy _ = 0"

fun counted :: "barrier_writer option \<Rightarrow> int" where
  "counted (Some (Releasing None)) = 1" | "counted _ = 0"

fun inFlight :: "barrier_writer option \<Rightarrow> bytes list" where
  "inFlight (Some (DrainSubmit body)) = [body]" | "inFlight _ = []"

fun drains :: "barrier_writer option \<Rightarrow> bool" where
  "drains (Some Draining) = True" | "drains (Some (DrainSubmit _)) = True" | "drains _ = False"

definition queue_inv :: "recoveryPushBarrier \<Rightarrow> bool" where
  "queue_inv b \<longleftrightarrow> bQueuedBytes b = int (length (concat (bQueue b))) \<and> 0 \<le> bActive b \<and>
     (bQueue b \<noteq> [] \<longrightarrow> int (length (bQueue b)) \<le> bMaxCount b \<and> bQueuedBytes b \<le> bMaxBytes b)"

definition open_inv :: "barrier_system \<Rightarrow> bool" where
  "open_inv s \<longleftrightarrow> (let b = bsBarrier s; w = bsWriter s in
     int (began (bsLog s)) = int (replied (bsLog s)) + bActive b - counted w \<and>
     bActive b = int (bsTokens s) + busy w \<and> (bDraining b \<longleftrightarrow> drains w) \<and>
     (bActive b = 0 \<and> \<not> drains w \<longrightarrow> bQueue b = []) \<and>
     queuedBodies (bsLog s) = drainedBodies (bsLog s) @ inFlight w @ bQueue b)"

definition barrier_inv :: "barrier_system \<Rightarrow> bool" where
  "barrier_inv s \<longleftrightarrow> (let b = bsBarrier s; w = bsWriter s in
     ordered (bsLog s) \<and> queue_inv b \<and>
     (bClosed b \<longrightarrow> bQueue b = [] \<and> bsReaders s = [] \<and>
        (\<exists>rest. queuedBodies (bsLog s) = drainedBodies (bsLog s) @ inFlight w @ rest)) \<and>
     (\<not> bClosed b \<longrightarrow> open_inv s) \<and>
     (bsReaders s \<noteq> [] \<longrightarrow> w = None \<and> bActive b = 0) \<and>
     (drains w \<longrightarrow> bActive b = 0 \<and> began (bsLog s) = replied (bsLog s)))"

lemmas inv_defs = barrier_inv_def open_inv_def Let_def

lemma closeLocked_frame [simp]:
  "bClosed (closeLocked cause b)" "bActive (closeLocked cause b) = bActive b" "bDraining (closeLocked cause b) = bDraining b"
  "bMaxCount (closeLocked cause b) = bMaxCount b" "bMaxBytes (closeLocked cause b) = bMaxBytes b"
  "bQueue (closeLocked cause b) = (if bClosed b then bQueue b else [])"
  "bQueuedBytes (closeLocked cause b) = (if bClosed b then bQueuedBytes b else 0)"
  by (simp_all add: closeLocked_def)

lemma push_check_cases:
  assumes "push_check body b = (v, b')"
  obtains
    (Refused) e where "bClosed b" "v = Refused e" "b' = b"
  | (Overflowed) e where "\<not> bClosed b" "bActive b \<noteq> 0 \<or> bDraining b" "v = Overflowed e" "b' = closeLocked (Some e) b"
  | (Queued) "\<not> bClosed b" "bActive b \<noteq> 0 \<or> bDraining b" "v = Queued"
      "b' = b\<lparr>bQueue := bQueue b @ [body], bQueuedBytes := bQueuedBytes b + int (length body)\<rparr>"
      "int (length (bQueue b)) < bMaxCount b" "bQueuedBytes b + int (length body) \<le> bMaxBytes b"
  | (Admitted) "\<not> bClosed b" "bActive b = 0" "\<not> bDraining b" "v = Admitted" "b' = b"
proof (cases "bClosed b")
  case True
  with assms show ?thesis by (intro Refused [of "closeCauseLocked b"]) (auto simp: push_check_def)
next
  case open_: False
  show ?thesis
  proof (cases "bActive b \<noteq> 0 \<or> bDraining b")
    case gated: True
    show ?thesis
    proof (cases "int (length (bQueue b)) \<ge> bMaxCount b \<or> int (length body) > bMaxBytes b - bQueuedBytes b")
      case True
      with assms gated open_ show ?thesis
        by (intro Overflowed [of "RequestError BarrierFull"]) (simp_all add: push_check_def enqueueLocked_def retireOverflow_def)
    next
      case False
      with assms gated open_ show ?thesis by (intro Queued) (simp_all add: push_check_def enqueueLocked_def)
    qed
  next
    case False
    with assms open_ show ?thesis by (intro Admitted) (simp_all add: push_check_def)
  qed
qed

lemma queue_inv_close [simp]: "queue_inv b \<Longrightarrow> queue_inv (closeLocked cause b)"
  by (auto simp: queue_inv_def)

lemma queue_inv_frame [simp]:
  "queue_inv (b\<lparr>bDraining := d\<rparr>) \<longleftrightarrow> queue_inv b" "0 \<le> n \<Longrightarrow> queue_inv b \<Longrightarrow> queue_inv (b\<lparr>bActive := n\<rparr>)"
  by (auto simp: queue_inv_def)

text \<open>Closing keeps the invariant wherever no push was admitted.\<close>

lemma close_inv:
  assumes "barrier_inv s" "bsReaders s = []" "n = bsTokens s \<or> bClosed (bsBarrier (s\<lparr>bsBarrier := closeLocked cause (bsBarrier s)\<rparr>))"
    and "es = [] \<or> es = [Retired e]"
  shows "barrier_inv (s\<lparr>bsBarrier := closeLocked cause (bsBarrier s), bsTokens := n, bsLog := bsLog s @ es\<rparr>)"
  using assms by (cases "bClosed (bsBarrier s)") (auto simp: inv_defs)

lemma barrierStep_inv:
  assumes "barrierStep s s'" "barrier_inv s"
  shows "barrier_inv s'"
  using assms
proof (induction rule: barrierStep.induct)
  case (Begin s)
  then show ?case by (auto simp: inv_defs barrier_begin_def queue_inv_def)
next
  case (PushFirst body s v b)
  from PushFirst(1) show ?case
  proof (cases rule: push_check_cases)
    case (Refused e)
    then show ?thesis using PushFirst(3) by (simp add: verdictLog_def)
  next
    case (Overflowed e)
    then have "bsReaders s = []" using PushFirst(3) by (auto simp: inv_defs)
    with close_inv [OF PushFirst(3), of "bsTokens s" "Some e" "[Retired e]" e] Overflowed show ?thesis
      by (simp add: verdictLog_def)
  next
    case Queued
    then show ?thesis using PushFirst(3) by (auto simp: inv_defs verdictLog_def queue_inv_def)
  next
    case Admitted
    then show ?thesis using PushFirst(2) by simp
  qed
next
  case (PushOrdered s body b)
  from PushOrdered(2) show ?case
  proof (cases rule: push_check_cases)
    case Admitted
    then show ?thesis using PushOrdered(1,3) by (auto simp: inv_defs)
  qed simp_all
next
  case (PushSubmitted body s)
  then have "bsReaders s \<noteq> []" by auto
  then show ?case using PushSubmitted by (auto simp: inv_defs)
next
  case (PushFailed body s)
  then show ?case by (auto simp: inv_defs)
next
  case (Finish s n)
  then show ?case by (auto simp: inv_defs)
next
  case (ReplySubmitted s)
  then show ?case by (auto simp: inv_defs)
next
  case (ReplyFailed s e)
  then show ?case by (auto simp: inv_defs)
next
  case (Release s err res startDrain b)
  then show ?case
    by (cases err; cases "bClosed (bsBarrier s)") (auto simp: inv_defs finish_release_def releaseLocked_def split: if_splits)
next
  case (DrainNext s body b)
  then show ?case by (cases "bQueue (bsBarrier s)") (auto simp: inv_defs drain_next_def queue_inv_def split: if_splits)
next
  case (DrainEnd s res b)
  then show ?case by (auto simp: inv_defs drain_next_def split: if_splits option.splits)
next
  case (DrainSubmitted s body)
  then show ?case by (auto simp: inv_defs)
next
  case (DrainFailed s body e)
  then show ?case by (cases "bClosed (bsBarrier s)") (auto simp: inv_defs)
next
  case (Cancel s n)
  then show ?case by (cases "bClosed (bsBarrier s)") (auto simp: inv_defs)
next
  case (Close s cause)
  then show ?case by (cases "bClosed (bsBarrier s)") (auto simp: inv_defs)
qed


lemma barrierStep_limits:
  "barrierStep s s' \<Longrightarrow> bMaxCount (bsBarrier s') = bMaxCount (bsBarrier s) \<and> bMaxBytes (bsBarrier s') = bMaxBytes (bsBarrier s)"
  by (induction rule: barrierStep.induct)
    (auto simp: barrier_begin_def finish_release_def releaseLocked_def drain_next_def Let_def
      elim!: push_check_cases split: option.splits if_splits)

lemma barrierReachable_inv:
  assumes "barrierReachable maxCount maxBytes s"
  shows "barrier_inv s \<and> bMaxCount (bsBarrier s) = maxCount \<and> bMaxBytes (bsBarrier s) = maxBytes"
  using assms unfolding barrierReachable_def
proof (induction rule: rtranclp_induct)
  case base
  show ?case by (simp add: barrier_init_def newRecoveryPushBarrier_def inv_defs queue_inv_def)
next
  case (step s s')
  then show ?case using barrierStep_inv [OF step.hyps(2)] barrierStep_limits [OF step.hyps(2)] by simp
qed

section \<open>Properties\<close>

text \<open>C22. Pushes wait for replies.  However pushes, protected requests, their replies, failures and closing
  interleave, no push is submitted while a reply is outstanding, and a push that is submitted directly
  overtakes no queued one.  Queued pushes are submitted in the order in which they were accepted, each at
  most once; unless the barrier was closed, all of them have been by the time it is idle.  The queue stays
  within its two limits.\<close>

theorem pushes_wait_for_replies:
  assumes "barrierReachable maxCount maxBytes s"
  shows "ordered (bsLog s) \<and>
    (\<exists>rest. queuedBodies (bsLog s) = drainedBodies (bsLog s) @ rest) \<and>
    (\<not> bClosed (bsBarrier s) \<and> bsTokens s = 0 \<and> bsWriter s = None \<longrightarrow> queuedBodies (bsLog s) = drainedBodies (bsLog s)) \<and>
    (bQueue (bsBarrier s) \<noteq> [] \<longrightarrow> int (length (bQueue (bsBarrier s))) \<le> maxCount \<and>
       int (length (concat (bQueue (bsBarrier s)))) \<le> maxBytes)"
proof -
  note inv = barrierReachable_inv [OF assms]
  have "\<exists>rest. queuedBodies (bsLog s) = drainedBodies (bsLog s) @ rest"
    using inv by (cases "bClosed (bsBarrier s)") (auto simp: inv_defs)
  then show ?thesis using inv by (auto simp: inv_defs queue_inv_def)
qed

definition exampleIdle :: barrier_system where
  "exampleIdle = \<lparr>bsBarrier = newRecoveryPushBarrier 4 100, bsTokens = 0, bsWriter = None, bsReaders = [],
     bsLog = [Began, PushQueued [1, 2], Replied, PushDrained [1, 2]]\<rparr>"

lemma exampleIdle_reachable: "barrierReachable 4 100 exampleIdle"
proof -
  let ?b = "newRecoveryPushBarrier 4 100"
  let ?q = "?b\<lparr>bActive := 1, bQueue := [[1, 2]], bQueuedBytes := 2\<rparr>"
  let ?s = "\<lambda>b t w l. \<lparr>bsBarrier = b, bsTokens = t, bsWriter = w, bsReaders = [], bsLog = l\<rparr>"
  note defs = newRecoveryPushBarrier_def barrier_begin_def push_check_def enqueueLocked_def verdictLog_def
    finish_release_def releaseLocked_def drain_next_def Let_def
  have "barrierStep (barrier_init 4 100) (?s (?b\<lparr>bActive := 1\<rparr>) 1 None [Began])"
    using barrierStep.Begin [of "barrier_init 4 100"] by (simp add: barrier_init_def defs)
  moreover have "barrierStep (?s (?b\<lparr>bActive := 1\<rparr>) 1 None [Began]) (?s ?q 1 None [Began, PushQueued [1, 2]])"
    using barrierStep.PushFirst [of "[1, 2]" "?s (?b\<lparr>bActive := 1\<rparr>) 1 None [Began]" Queued ?q] by (simp add: defs)
  moreover have "barrierStep (?s ?q 1 None [Began, PushQueued [1, 2]]) (?s ?q 0 (Some Replying) [Began, PushQueued [1, 2]])"
    using barrierStep.Finish [of "?s ?q 1 None [Began, PushQueued [1, 2]]" 0] by (simp add: defs)
  moreover have "barrierStep (?s ?q 0 (Some Replying) [Began, PushQueued [1, 2]])
      (?s ?q 0 (Some (Releasing None)) [Began, PushQueued [1, 2], Replied])"
    using barrierStep.ReplySubmitted [of "?s ?q 0 (Some Replying) [Began, PushQueued [1, 2]]"] by simp
  moreover have "barrierStep (?s ?q 0 (Some (Releasing None)) [Began, PushQueued [1, 2], Replied])
      (?s (?q\<lparr>bActive := 0, bDraining := True\<rparr>) 0 (Some Draining) [Began, PushQueued [1, 2], Replied])"
    using barrierStep.Release [of "?s ?q 0 (Some (Releasing None)) [Began, PushQueued [1, 2], Replied]" None]
    by (simp add: defs)
  moreover have "barrierStep (?s (?q\<lparr>bActive := 0, bDraining := True\<rparr>) 0 (Some Draining) [Began, PushQueued [1, 2], Replied])
      (?s (?b\<lparr>bDraining := True\<rparr>) 0 (Some (DrainSubmit [1, 2])) [Began, PushQueued [1, 2], Replied])"
    using barrierStep.DrainNext [of "?s (?q\<lparr>bActive := 0, bDraining := True\<rparr>) 0 (Some Draining) [Began, PushQueued [1, 2], Replied]" "[1, 2]"]
    by (simp add: defs)
  moreover have "barrierStep (?s (?b\<lparr>bDraining := True\<rparr>) 0 (Some (DrainSubmit [1, 2])) [Began, PushQueued [1, 2], Replied])
      (?s (?b\<lparr>bDraining := True\<rparr>) 0 (Some Draining) [Began, PushQueued [1, 2], Replied, PushDrained [1, 2]])"
    using barrierStep.DrainSubmitted [of "?s (?b\<lparr>bDraining := True\<rparr>) 0 (Some (DrainSubmit [1, 2])) [Began, PushQueued [1, 2], Replied]"]
    by simp
  moreover have "barrierStep (?s (?b\<lparr>bDraining := True\<rparr>) 0 (Some Draining) [Began, PushQueued [1, 2], Replied, PushDrained [1, 2]])
      (?s ?b 0 None [Began, PushQueued [1, 2], Replied, PushDrained [1, 2]])"
    using barrierStep.DrainEnd [of "?s (?b\<lparr>bDraining := True\<rparr>) 0 (Some Draining) [Began, PushQueued [1, 2], Replied, PushDrained [1, 2]]" None]
    by (simp add: defs)
  ultimately show ?thesis unfolding barrierReachable_def exampleIdle_def
    by (meson converse_rtranclp_into_rtranclp r_into_rtranclp)
qed

theorem pushes_wait_for_replies_witness:
  "ordered (bsLog exampleIdle) \<and> queuedBodies (bsLog exampleIdle) = drainedBodies (bsLog exampleIdle)"
  using pushes_wait_for_replies [OF exampleIdle_reachable] by (simp add: exampleIdle_def newRecoveryPushBarrier_def)

end
