(* ===== verification/Inbound_Ledger.thy ===== *)
theory Inbound_Ledger
  imports Runtime_Contracts Go_Map "HOL-Library.Product_Lexorder"
begin

unbundle bit_operations_syntax

text \<open>
  \<open>internal/runtime/inbound_state.go\<close>: the bounded ledger of the states of inbound messages that
  answers \<open>msgs_state_req\<close>.  Every method runs under the ledger's mutex; the reading of the clock
  is an argument.
\<close>

section \<open>State bytes\<close>

definition MessageStateUnknownTooOld :: byte where "MessageStateUnknownTooOld = 1"
definition MessageStateNotReceived :: byte where "MessageStateNotReceived = 2"
definition MessageStateUnknownTooHigh :: byte where "MessageStateUnknownTooHigh = 3"
definition MessageStateReceived :: byte where "MessageStateReceived = 4"
definition MessageStateAcknowledged :: byte where "MessageStateAcknowledged = 8"
definition MessageStateNoAcknowledgement :: byte where "MessageStateNoAcknowledgement = 16"
definition MessageStateProcessing :: byte where "MessageStateProcessing = 32"
definition MessageStateResponseGenerated :: byte where "MessageStateResponseGenerated = 64"
definition MessageStateKnown :: byte where "MessageStateKnown = 128"

lemmas state_bytes = MessageStateUnknownTooOld_def MessageStateNotReceived_def MessageStateUnknownTooHigh_def
  MessageStateReceived_def MessageStateAcknowledged_def MessageStateNoAcknowledgement_def
  MessageStateProcessing_def MessageStateResponseGenerated_def MessageStateKnown_def

section \<open>The ledger\<close>

record InboundStateConfig =
  iscCapacity :: int
  iscTTL :: duration

record inboundStateEntry =
  isStatus :: byte
  isExpiresAt :: gotime
  isOrder :: int

record InboundStateLedger =
  ilCapacity :: int
  ilTTL :: duration
  ilOrder :: int
  ilEntries :: "(int, inboundStateEntry) gomap"

definition NewInboundStateLedger :: "InboundStateConfig \<Rightarrow> go_error + InboundStateLedger" where
  "NewInboundStateLedger config =
     (if iscCapacity config \<le> 0 then Inl (RetentionError InvalidCapacity)
      else if iscTTL config \<le> 0 then Inl (RetentionError InvalidTTL)
      else Inr \<lparr>ilCapacity = iscCapacity config, ilTTL = iscTTL config, ilOrder = 0, ilEntries = []\<rparr>)"

definition Ledger_expireLocked :: "gotime \<Rightarrow> InboundStateLedger \<Rightarrow> int \<times> InboundStateLedger" where
  "Ledger_expireLocked now l =
     (let kept = filter (\<lambda>(_, entry). isExpiresAt entry > now) (ilEntries l)
      in (int (length (ilEntries l)) - int (length kept), l\<lparr>ilEntries := kept\<rparr>))"

definition olderEntry :: "inboundStateEntry \<Rightarrow> inboundStateEntry \<Rightarrow> bool" where
  "olderEntry entry oldestEntry \<longleftrightarrow>
     isExpiresAt entry < isExpiresAt oldestEntry \<or>
     (isExpiresAt entry = isExpiresAt oldestEntry \<and> isOrder entry < isOrder oldestEntry)"

definition entryKey :: "inboundStateEntry \<Rightarrow> gotime \<times> int" where
  "entryKey e = (isExpiresAt e, isOrder e)"

lemma olderEntry_key: "olderEntry u v \<longleftrightarrow> entryKey u < entryKey v"
  by (auto simp: olderEntry_def entryKey_def less_prod_def')

lemmas oldest_spec = selectLeast_spec [where before = olderEntry and key = entryKey and P = "\<lambda>_. True", OF olderEntry_key]

text \<open>The eviction loop; it is only entered with a positive capacity, so there is an oldest entry.\<close>

function evictEntries :: "int \<Rightarrow> (int, inboundStateEntry) gomap \<Rightarrow> (int, inboundStateEntry) gomap" where
  "evictEntries capacity entries =
     (if int (length entries) > capacity then
        (case selectLeast (\<lambda>_. True) olderEntry entries None of
           None \<Rightarrow> entries
         | Some (oldestID, oldestEntry) \<Rightarrow> evictEntries capacity (AList.delete oldestID entries))
      else entries)"
  by pat_completeness auto
termination
proof (relation "measure (\<lambda>(_, entries). length entries)")
  fix capacity entries p k v
  assume "selectLeast (\<lambda>_. True) olderEntry entries None = Some p" "(k, v) = p"
  then have "(k, v) \<in> set entries" using oldest_spec [of entries] by (auto split: option.splits)
  then show "((capacity, AList.delete k entries), capacity, entries) \<in> measure (\<lambda>(_, entries). length entries)"
    by (simp add: length_delete_less)
qed simp

declare evictEntries.simps [simp del]

definition evictLocked :: "InboundStateLedger \<Rightarrow> InboundStateLedger" where
  "evictLocked l = l\<lparr>ilEntries := evictEntries (ilCapacity l) (ilEntries l)\<rparr>"

definition Record :: "gotime \<Rightarrow> InboundMessage \<Rightarrow> InboundStateLedger \<Rightarrow> go_error option \<times> InboundStateLedger" where
  "Record now message l =
     (case InboundMessage_Validate message of
        Some e \<Rightarrow> (Some e, l)
      | None \<Rightarrow>
          (let l = snd (Ledger_expireLocked now l);
               status = MessageStateReceived OR MessageStateKnown;
               status = (if \<not> imContentRelated message then status OR MessageStateNoAcknowledgement else status);
               l = l\<lparr>ilOrder := u64 (ilOrder l + 1)\<rparr>;
               l = l\<lparr>ilEntries := AList.update (imMessageID message)
                 \<lparr>isStatus = status, isExpiresAt = now + ilTTL l, isOrder = ilOrder l\<rparr> (ilEntries l)\<rparr>
           in (None, evictLocked l)))"

definition completeEntry :: "bool \<Rightarrow> bool \<Rightarrow> inboundStateEntry \<Rightarrow> inboundStateEntry" where
  "completeEntry acknowledged responded entry =
     (let status = isStatus entry OR MessageStateProcessing;
          status = (if acknowledged then status OR MessageStateAcknowledged else status);
          status = (if responded then status OR MessageStateResponseGenerated else status)
      in entry\<lparr>isStatus := status\<rparr>)"

definition Complete :: "gotime \<Rightarrow> int list \<Rightarrow> bool \<Rightarrow> bool \<Rightarrow> InboundStateLedger \<Rightarrow> InboundStateLedger" where
  "Complete now messageIDs acknowledged responded l =
     fold (\<lambda>messageID l.
       case map_of (ilEntries l) messageID of
         None \<Rightarrow> l
       | Some entry \<Rightarrow>
           l\<lparr>ilEntries := AList.update messageID (completeEntry acknowledged responded entry) (ilEntries l)\<rparr>)
       messageIDs (snd (Ledger_expireLocked now l))"

text \<open>The loop over the map that finds the smallest and the largest identifier.\<close>

fun idRange :: "(int, inboundStateEntry) gomap \<Rightarrow> (int \<times> int) option \<Rightarrow> (int \<times> int) option" where
  "idRange [] bounds = bounds"
| "idRange ((messageID, _) # rest) bounds =
     idRange rest
       (case bounds of
          None \<Rightarrow> Some (messageID, messageID)
        | Some (minID, maxID) \<Rightarrow>
            Some (if messageID < minID then messageID else minID, if messageID > maxID then messageID else maxID))"

definition StateInfo :: "gotime \<Rightarrow> int list \<Rightarrow> InboundStateLedger \<Rightarrow> bytes \<times> InboundStateLedger" where
  "StateInfo now messageIDs l =
     (let l = snd (Ledger_expireLocked now l);
          bounds = idRange (ilEntries l) None
      in (map (\<lambda>messageID.
            case map_of (ilEntries l) messageID of
              Some entry \<Rightarrow> isStatus entry
            | None \<Rightarrow>
                (case bounds of
                   None \<Rightarrow> MessageStateUnknownTooOld
                 | Some (minID, maxID) \<Rightarrow>
                     if messageID < minID then MessageStateUnknownTooOld
                     else if messageID > maxID then MessageStateUnknownTooHigh
                     else MessageStateNotReceived)) messageIDs, l))"

definition HasResponse :: "gotime \<Rightarrow> int \<Rightarrow> InboundStateLedger \<Rightarrow> bool \<times> InboundStateLedger" where
  "HasResponse now messageID l =
     (if messageID = 0 then (False, l)
      else
        (let l = snd (Ledger_expireLocked now l) in
         (case map_of (ilEntries l) messageID of
            None \<Rightarrow> False
          | Some entry \<Rightarrow> isStatus entry AND MessageStateResponseGenerated \<noteq> 0, l)))"

definition Ledger_Expire :: "gotime \<Rightarrow> InboundStateLedger \<Rightarrow> int \<times> InboundStateLedger" where
  "Ledger_Expire now l = Ledger_expireLocked now l"

definition Ledger_Len :: "gotime \<Rightarrow> InboundStateLedger \<Rightarrow> int \<times> InboundStateLedger" where
  "Ledger_Len now l = (let l = snd (Ledger_expireLocked now l) in (int (length (ilEntries l)), l))"

section \<open>Eviction keeps the newest\<close>

lemma evictEntries_spec:
  assumes "gomap_ok m" "0 < capacity"
  shows "gomap_ok (evictEntries capacity m)" "set (evictEntries capacity m) \<subseteq> set m"
    "int (length (evictEntries capacity m)) = min (int (length m)) capacity"
    "\<forall>(k, v) \<in> set m - set (evictEntries capacity m). \<forall>(j, w) \<in> set (evictEntries capacity m). entryKey v \<le> entryKey w"
proof -
  have "gomap_ok (evictEntries capacity m) \<and> set (evictEntries capacity m) \<subseteq> set m \<and>
    int (length (evictEntries capacity m)) = min (int (length m)) capacity \<and>
    (\<forall>(k, v) \<in> set m - set (evictEntries capacity m). \<forall>(j, w) \<in> set (evictEntries capacity m). entryKey v \<le> entryKey w)"
    using assms
  proof (induction capacity m rule: evictEntries.induct)
    case (1 capacity m)
    show ?case
    proof (cases "int (length m) > capacity")
      case False
      then show ?thesis using "1.prems" by (simp add: evictEntries.simps [of capacity m])
    next
      case True
      then have "m \<noteq> []" using "1.prems"(2) by auto
      then obtain a b where "(a, b) \<in> set m" by (metis list.set_intros(1) neq_Nil_conv surj_pair)
      then obtain k v where sel: "selectLeast (\<lambda>_. True) olderEntry m None = Some (k, v)"
        using oldest_spec [of m] by (cases "selectLeast (\<lambda>_. True) olderEntry m None") auto
      then have kv: "(k, v) \<in> set m" "\<And>j w. (j, w) \<in> set m \<Longrightarrow> entryKey v \<le> entryKey w"
        using oldest_spec [of m] by auto
      have d: "set (AList.delete k m) = set m - {(k, v)}"
        using kv(1) "1.prems"(1) by (auto simp: AList.delete_eq gomap_in_set)
      have l: "length (AList.delete k m) = length m - 1"
        using kv(1) "1.prems"(1) length_delete [of m k] by (auto simp: gomap_in_set)
      let ?e = "evictEntries capacity (AList.delete k m)"
      have e: "evictEntries capacity m = ?e" using True sel by (simp add: evictEntries.simps [of capacity m])
      have IH: "gomap_ok ?e" "set ?e \<subseteq> set (AList.delete k m)"
        "int (length ?e) = min (int (length (AList.delete k m))) capacity"
        "\<forall>(k', v') \<in> set (AList.delete k m) - set ?e. \<forall>(j, w) \<in> set ?e. entryKey v' \<le> entryKey w"
        using "1.IH" [OF True sel refl] "1.prems" by simp_all
      have "int (length m - 1) = int (length m) - 1" using True "1.prems"(2) by linarith
      then have "int (length ?e) = min (int (length m)) capacity" using IH(3) True by (simp add: l)
      moreover have "\<forall>(k', v') \<in> set m - set ?e. \<forall>(j, w) \<in> set ?e. entryKey v' \<le> entryKey w"
        using IH(2,4) kv(2) d by blast
      ultimately show ?thesis using IH(1,2) d e by auto
    qed
  qed
  then show "gomap_ok (evictEntries capacity m)" "set (evictEntries capacity m) \<subseteq> set m"
    "int (length (evictEntries capacity m)) = min (int (length m)) capacity"
    "\<forall>(k, v) \<in> set m - set (evictEntries capacity m). \<forall>(j, w) \<in> set (evictEntries capacity m). entryKey v \<le> entryKey w"
    by simp_all
qed

lemma evictEntries_newest:
  assumes "gomap_ok m" "0 < capacity" "(k, v) \<in> set m"
    and "\<And>j w. (j, w) \<in> set m \<Longrightarrow> j \<noteq> k \<Longrightarrow> entryKey w < entryKey v"
  shows "(k, v) \<in> set (evictEntries capacity m)"
proof (rule ccontr)
  assume out: "(k, v) \<notin> set (evictEntries capacity m)"
  note e = evictEntries_spec [OF assms(1,2)]
  have "evictEntries capacity m \<noteq> []" using e(3) assms(2,3) by (cases m) auto
  then obtain j w where jw: "(j, w) \<in> set (evictEntries capacity m)"
    by (metis list.set_intros(1) neq_Nil_conv surj_pair)
  then have "entryKey v \<le> entryKey w" using e(4) out assms(3) by blast
  moreover have "(j, w) \<in> set m" using jw e(2) by blast
  moreover have "j \<noteq> k" using jw out \<open>(j, w) \<in> set m\<close> assms(1,3) by (auto simp: gomap_in_set)
  ultimately show False using assms(4) by fastforce
qed

section \<open>Invariant\<close>

text \<open>At time \<open>T\<close>, for a clock that does not run backwards.\<close>

definition ledger_inv :: "gotime \<Rightarrow> InboundStateLedger \<Rightarrow> bool" where
  "ledger_inv T l \<longleftrightarrow> gomap_ok (ilEntries l) \<and> 0 < ilCapacity l \<and> 0 < ilTTL l \<and> 0 \<le> ilOrder l \<and>
     int (length (ilEntries l)) \<le> ilCapacity l \<and>
     (\<forall>(k, e) \<in> set (ilEntries l). isExpiresAt e \<le> T + ilTTL l \<and> isOrder e \<le> ilOrder l)"

abbreviation unexpired :: "gotime \<Rightarrow> InboundStateLedger \<Rightarrow> InboundStateLedger" where
  "unexpired now l \<equiv> snd (Ledger_expireLocked now l)"

lemma ledger_expire_frame [simp]:
  "ilCapacity (unexpired now l) = ilCapacity l" "ilTTL (unexpired now l) = ilTTL l" "ilOrder (unexpired now l) = ilOrder l"
  by (simp_all add: Ledger_expireLocked_def Let_def)

lemma ledger_expire_lookup:
  "gomap_ok (ilEntries l) \<Longrightarrow> map_of (ilEntries (unexpired now l)) k =
     (case map_of (ilEntries l) k of Some e \<Rightarrow> if isExpiresAt e > now then Some e else None | None \<Rightarrow> None)"
  by (simp add: Ledger_expireLocked_def Let_def map_of_filter_gomap split: option.splits)

lemma ledger_expire_inv: "ledger_inv T l \<Longrightarrow> ledger_inv T (unexpired now l)"
  by (auto simp: ledger_inv_def Ledger_expireLocked_def Let_def intro: order_trans [OF of_nat_mono [OF length_filter_le]])

lemma ledger_inv_mono: "ledger_inv T l \<Longrightarrow> T \<le> now \<Longrightarrow> ledger_inv now l"
  by (fastforce simp: ledger_inv_def)

lemma Record_step:
  assumes inv: "ledger_inv T l" and now: "T \<le> now" and order: "ilOrder l + 1 < 2 ^ 64"
    and run: "Record now message l = (None, l')"
  shows "ledger_inv now l'" "ilOrder l' = ilOrder l + 1" "ilTTL l' = ilTTL l" "ilCapacity l' = ilCapacity l"
    "map_of (ilEntries l') (imMessageID message) =
       Some \<lparr>isStatus = (if imContentRelated message then 132 else 148), isExpiresAt = now + ilTTL l, isOrder = ilOrder l + 1\<rparr>"
proof -
  let ?e = "\<lparr>isStatus = (if imContentRelated message then 132 else 148), isExpiresAt = now + ilTTL l, isOrder = ilOrder l + 1\<rparr>"
  let ?u = "unexpired now l"
  let ?m = "AList.update (imMessageID message) ?e (ilEntries ?u)"
  have u: "ledger_inv now ?u" by (rule ledger_expire_inv [OF ledger_inv_mono [OF inv now]])
  have o: "u64 (ilOrder l + 1) = ilOrder l + 1" using order inv by (simp add: ledger_inv_def in_u64_def)
  have l': "l' = ?u\<lparr>ilOrder := ilOrder l + 1, ilEntries := evictEntries (ilCapacity l) ?m\<rparr>"
    using run by (auto simp: Record_def Let_def evictLocked_def o state_bytes split: option.splits)
  have m: "gomap_ok ?m" using u by (simp add: ledger_inv_def)
  have c: "0 < ilCapacity l" using inv by (simp add: ledger_inv_def)
  note e = evictEntries_spec [OF m c]
  have old: "isExpiresAt w \<le> now + ilTTL l \<and> isOrder w \<le> ilOrder l" if "(j, w) \<in> set ?m" "j \<noteq> imMessageID message" for j w
  proof -
    have "map_of ?m j = Some w" using that(1) m by (simp add: gomap_in_set)
    then have "(j, w) \<in> set (ilEntries ?u)"
      using that(2) by (auto simp: map_of_update dest: map_of_SomeD)
    then show ?thesis using u by (auto simp: ledger_inv_def)
  qed
  have self: "w = ?e" if "(imMessageID message, w) \<in> set ?m" for w
    using that m by (simp add: gomap_in_set map_of_update)
  have in_m: "(imMessageID message, ?e) \<in> set ?m" using m by (simp add: gomap_in_set map_of_update)
  have "(imMessageID message, ?e) \<in> set (evictEntries (ilCapacity l) ?m)"
    by (rule evictEntries_newest [OF m c in_m]) (use old in \<open>fastforce simp: entryKey_def less_prod_def'\<close>)
  then show "map_of (ilEntries l') (imMessageID message) = Some ?e" using e(1) by (simp add: l' gomap_in_set)
  show "ilOrder l' = ilOrder l + 1" "ilTTL l' = ilTTL l" "ilCapacity l' = ilCapacity l" by (simp_all add: l')
  have "isExpiresAt w \<le> now + ilTTL l \<and> isOrder w \<le> ilOrder l + 1" if "(j, w) \<in> set ?m" for j w
    using old [OF that] self that by (cases "j = imMessageID message") fastforce+
  then show "ledger_inv now l'"
    using e(1-3) u c by (auto simp: ledger_inv_def l')
qed

lemma completeEntry_frame [simp]:
  "isExpiresAt (completeEntry a r e) = isExpiresAt e" "isOrder (completeEntry a r e) = isOrder e"
  by (simp_all add: completeEntry_def Let_def)

definition completeStep :: "bool \<Rightarrow> bool \<Rightarrow> int \<Rightarrow> InboundStateLedger \<Rightarrow> InboundStateLedger" where
  "completeStep a r messageID l = (case map_of (ilEntries l) messageID of
         None \<Rightarrow> l
       | Some entry \<Rightarrow> l\<lparr>ilEntries := AList.update messageID (completeEntry a r entry) (ilEntries l)\<rparr>)"

lemma completeStep_inv:
  assumes "ledger_inv T l"
  shows "ledger_inv T (completeStep a r i l)"
    "map_of (ilEntries (completeStep a r i l)) k =
       (if k = i then map_option (completeEntry a r) (map_of (ilEntries l) k) else map_of (ilEntries l) k)"
    "ilOrder (completeStep a r i l) = ilOrder l" "ilTTL (completeStep a r i l) = ilTTL l"
    "ilCapacity (completeStep a r i l) = ilCapacity l"
proof -
  show "map_of (ilEntries (completeStep a r i l)) k =
       (if k = i then map_option (completeEntry a r) (map_of (ilEntries l) k) else map_of (ilEntries l) k)"
    "ilOrder (completeStep a r i l) = ilOrder l" "ilTTL (completeStep a r i l) = ilTTL l"
    "ilCapacity (completeStep a r i l) = ilCapacity l"
    by (auto simp: completeStep_def map_of_update split: option.splits)
  show "ledger_inv T (completeStep a r i l)"
  proof (cases "map_of (ilEntries l) i")
    case None
    then show ?thesis using assms by (simp add: completeStep_def)
  next
    case (Some e)
    let ?m = "AList.update i (completeEntry a r e) (ilEntries l)"
    have m: "gomap_ok ?m" using assms by (simp add: ledger_inv_def)
    have "isExpiresAt w \<le> T + ilTTL l \<and> isOrder w \<le> ilOrder l" if "(j, w) \<in> set ?m" for j w
    proof -
      have "map_of ?m j = Some w" using that m by (simp add: gomap_in_set)
      then have "\<exists>x. (j, x) \<in> set (ilEntries l) \<and> isExpiresAt x = isExpiresAt w \<and> isOrder x = isOrder w"
        using Some by (auto simp: map_of_update split: if_splits dest: map_of_SomeD)
      then show ?thesis using assms by (auto simp: ledger_inv_def)
    qed
    moreover have "length ?m = length (ilEntries l)" using Some by (auto simp: length_update)
    ultimately show ?thesis using assms m Some by (auto simp: completeStep_def ledger_inv_def)
  qed
qed

lemma Complete_fold: "Complete now ids a r l = fold (completeStep a r) ids (unexpired now l)"
  unfolding Complete_def completeStep_def ..

lemma fold_completeStep:
  assumes "ledger_inv T l"
  shows "ledger_inv T (fold (completeStep a r) ids l) \<and> ilOrder (fold (completeStep a r) ids l) = ilOrder l \<and>
    ilTTL (fold (completeStep a r) ids l) = ilTTL l \<and> ilCapacity (fold (completeStep a r) ids l) = ilCapacity l \<and>
    (k \<notin> set ids \<longrightarrow> map_of (ilEntries (fold (completeStep a r) ids l)) k = map_of (ilEntries l) k) \<and>
    (k \<in> set ids \<longrightarrow> map_of (ilEntries (fold (completeStep a r) ids l)) k = map_option (completeEntry a r) (map_of (ilEntries l) k))"
  using assms
proof (induction ids arbitrary: l)
  case (Cons i ids)
  have idem: "completeEntry a r (completeEntry a r e) = completeEntry a r e" for e
    by (cases e) (auto simp: completeEntry_def Let_def or.assoc or.commute or.left_commute or.left_idem)
  have idem': "map_option (completeEntry a r \<circ> completeEntry a r) x = map_option (completeEntry a r) x" for x
    by (cases x) (simp_all add: idem)
  note c = completeStep_inv [OF Cons.prems, of a r i]
  show ?case using Cons.IH [OF c(1)] c by (auto simp: option.map_comp idem')
qed simp

lemma Complete_step:
  assumes "ledger_inv T l" "T \<le> now"
  shows "ledger_inv now (Complete now ids a r l)" "ilOrder (Complete now ids a r l) = ilOrder l"
    "ilTTL (Complete now ids a r l) = ilTTL l" "ilCapacity (Complete now ids a r l) = ilCapacity l"
    "map_of (ilEntries (Complete now ids a r l)) k =
      (if k \<in> set ids then map_option (completeEntry a r) (map_of (ilEntries (unexpired now l)) k)
       else map_of (ilEntries (unexpired now l)) k)"
  using fold_completeStep [OF ledger_expire_inv [OF ledger_inv_mono [OF assms]], of a r ids now k]
  by (auto simp: Complete_fold)

section \<open>Histories\<close>

datatype ledger_op =
  OpRecord InboundMessage | OpComplete "int list" bool bool | OpStateInfo "int list" | OpHasResponse int | OpExpire

fun ledgerStep :: "gotime \<times> ledger_op \<Rightarrow> InboundStateLedger \<Rightarrow> InboundStateLedger" where
  "ledgerStep (now, OpRecord m) l = snd (Record now m l)"
| "ledgerStep (now, OpComplete ids a r) l = Complete now ids a r l"
| "ledgerStep (now, OpStateInfo ids) l = snd (StateInfo now ids l)"
| "ledgerStep (now, OpHasResponse i) l = snd (HasResponse now i l)"
| "ledgerStep (now, OpExpire) l = snd (Ledger_Expire now l)"

lemma ledgerStep_inv:
  assumes "ledger_inv T l" "T \<le> now" "ilOrder l + 1 < 2 ^ 64"
  shows "ledger_inv now (ledgerStep (now, op) l) \<and> ilOrder (ledgerStep (now, op) l) \<le> ilOrder l + 1 \<and>
    ilTTL (ledgerStep (now, op) l) = ilTTL l \<and> ilCapacity (ledgerStep (now, op) l) = ilCapacity l"
proof -
  have e: "ledger_inv now (unexpired now l)" by (rule ledger_expire_inv [OF ledger_inv_mono [OF assms(1,2)]])
  have l: "ledger_inv now l" by (rule ledger_inv_mono [OF assms(1,2)])
  show ?thesis
  proof (cases op)
    case (OpRecord m)
    obtain x l' where r: "Record now m l = (x, l')" by fastforce
    show ?thesis
    proof (cases x)
      case None
      then show ?thesis using Record_step(1-4) [OF assms r [unfolded None]] by (simp add: OpRecord r)
    next
      case (Some y)
      then have "l' = l" using r by (auto simp: Record_def Let_def split: option.splits)
      then show ?thesis using l by (simp add: OpRecord r)
    qed
  next
    case (OpComplete ids a r)
    then show ?thesis using Complete_step(1-4) [OF assms(1,2)] by simp
  next
    case (OpStateInfo ids)
    then show ?thesis using e by (simp add: StateInfo_def Let_def)
  next
    case (OpHasResponse i)
    then show ?thesis using e l by (simp add: HasResponse_def Let_def)
  next
    case OpExpire
    then show ?thesis using e by (simp add: Ledger_Expire_def)
  qed
qed

lemma ledger_history:
  assumes "ledger_inv T l" "sorted (T # map fst ops)" "ilOrder l + int (length ops) < 2 ^ 64"
  shows "ledger_inv (last (T # map fst ops)) (fold ledgerStep ops l) \<and>
    ilOrder (fold ledgerStep ops l) \<le> ilOrder l + int (length ops) \<and>
    ilTTL (fold ledgerStep ops l) = ilTTL l \<and> ilCapacity (fold ledgerStep ops l) = ilCapacity l"
  using assms
proof (induction ops arbitrary: T l)
  case (Cons op ops)
  obtain now x where op: "op = (now, x)" by fastforce
  have st: "ledger_inv now (ledgerStep op l)" "ilOrder (ledgerStep op l) \<le> ilOrder l + 1"
    "ilTTL (ledgerStep op l) = ilTTL l" "ilCapacity (ledgerStep op l) = ilCapacity l"
    using ledgerStep_inv [OF Cons.prems(1), of now x] Cons.prems(2,3) by (auto simp: op)
  have "sorted (now # map fst ops)" using Cons.prems(2) by (simp add: op)
  moreover have "ilOrder (ledgerStep op l) + int (length ops) < 2 ^ 64" using st(2) Cons.prems(3) by simp
  ultimately show ?case using Cons.IH [OF st(1)] st(2-) by (auto simp: op)
qed simp

lemma NewLedger_inv:
  "NewInboundStateLedger config = Inr l \<Longrightarrow>
     ledger_inv T l \<and> ilOrder l = 0 \<and> ilTTL l = iscTTL config \<and> ilCapacity l = iscCapacity config"
  by (auto simp: NewInboundStateLedger_def ledger_inv_def split: if_splits)

lemma ledger_reached:
  assumes "NewInboundStateLedger config = Inr l0" "sorted (map fst ops @ [now])" "length ops < 2 ^ 63"
  shows "ledger_inv now (fold ledgerStep ops l0)" "ilOrder (fold ledgerStep ops l0) + 1 < 2 ^ 64"
    "ilTTL (fold ledgerStep ops l0) = iscTTL config" "ilCapacity (fold ledgerStep ops l0) = iscCapacity config"
proof -
  let ?T = "if ops = [] then now else fst (hd ops)"
  note n = NewLedger_inv [OF assms(1)]
  have s: "sorted (?T # map fst ops)" "last (?T # map fst ops) \<le> now"
    using assms(2) by (cases ops; force simp: sorted_append last_map)+
  note h = ledger_history [OF conjunct1 [OF n] s(1)]
  show "ledger_inv now (fold ledgerStep ops l0)"
    using h n assms(3) s(2) by (auto intro: ledger_inv_mono)
  show "ilOrder (fold ledgerStep ops l0) + 1 < 2 ^ 64"
    "ilTTL (fold ledgerStep ops l0) = iscTTL config" "ilCapacity (fold ledgerStep ops l0) = iscCapacity config"
    using h n assms(3) by auto
qed

definition exampleLedgerConfig :: InboundStateConfig where
  "exampleLedgerConfig = \<lparr>iscCapacity = 1, iscTTL = 10\<rparr>"

definition exampleLedger :: InboundStateLedger where
  "exampleLedger = \<lparr>ilCapacity = 1, ilTTL = 10, ilOrder = 0, ilEntries = []\<rparr>"

lemma exampleLedger_new: "NewInboundStateLedger exampleLedgerConfig = Inr exampleLedger"
  by (simp add: NewInboundStateLedger_def exampleLedgerConfig_def exampleLedger_def)

section \<open>Properties\<close>

text \<open>Ledger bound.  Under any sequence of operations the ledger never holds more than its
  capacity, and a message that was just recorded is always among those held: with a clock that does
  not run backwards, eviction only ever removes older ones.\<close>

theorem ledger_bounded:
  assumes "NewInboundStateLedger config = Inr l0" "sorted (map fst ops @ [now])" "length ops < 2 ^ 63"
  shows "int (length (ilEntries (fold ledgerStep ops l0))) \<le> iscCapacity config \<and>
    (case Record now message (fold ledgerStep ops l0) of
       (Some e, l') \<Rightarrow> e = RuntimeError InvalidInbound \<and> l' = fold ledgerStep ops l0
     | (None, l') \<Rightarrow> imMessageID message \<in> dom (map_of (ilEntries l')) \<and> int (length (ilEntries l')) \<le> iscCapacity config)"
proof -
  let ?l = "fold ledgerStep ops l0"
  note r = ledger_reached [OF assms]
  obtain x l' where run: "Record now message ?l = (x, l')" by fastforce
  show ?thesis
  proof (cases x)
    case None
    note st = Record_step [OF r(1) order_refl r(2) run [unfolded None]]
    show ?thesis using r st run None by (auto simp: ledger_inv_def)
  next
    case (Some e)
    then have "InboundMessage_Validate message = Some e" "l' = ?l"
      using run by (auto simp: Record_def Let_def split: option.splits)
    then show ?thesis using r run Some by (auto simp: ledger_inv_def InboundMessage_Validate_def split: if_splits)
  qed
qed

theorem ledger_bounded_witness:
  "imMessageID (rqMessage exampleRequest) \<in> dom (map_of (ilEntries (snd (Record 5 (rqMessage exampleRequest) exampleLedger))))"
proof -
  have "fst (Record 5 (rqMessage exampleRequest) exampleLedger) = None" by code_simp
  with ledger_bounded [OF exampleLedger_new, of "[]" 5 "rqMessage exampleRequest"] show ?thesis
    by (auto split: prod.splits)
qed

text \<open>C30. State reports.  After any history, a message recorded at \<open>t0\<close> and then completed at \<open>t1\<close> (or
  not) is reported at every time \<open>t2\<close> before its retention ends by exactly the state byte MTProto
  prescribes: received and known, marked if it needs no acknowledgement, and with the processing,
  acknowledgement and response flags that its completion set; from then on \<open>HasResponse\<close> answers
  whether a response was generated.  Once the retention has ended no response is reported.\<close>

theorem ledger_reports:
  assumes "NewInboundStateLedger config = Inr l0" "sorted (map fst ops @ [t0])" "length ops < 2 ^ 63"
    and "Record t0 message (fold ledgerStep ops l0) = (None, l1)"
    and "t0 \<le> t1" "t1 < t0 + iscTTL config" "t1 \<le> t2" "imMessageID message \<in> set ids"
  shows "(t2 < t0 + iscTTL config \<longrightarrow>
      fst (StateInfo t2 [imMessageID message] l1) = [if imContentRelated message then 132 else 148] \<and>
      fst (StateInfo t2 [imMessageID message] (Complete t1 ids a r l1)) =
        [(if imContentRelated message then 164 else 180) + (if a then 8 else 0) + (if r then 64 else 0)]) \<and>
    (fst (HasResponse t2 (imMessageID message) (Complete t1 ids a r l1)) \<longleftrightarrow> r \<and> t2 < t0 + iscTTL config)"
proof -
  let ?id = "imMessageID message" and ?c = "Complete t1 ids a r l1"
  let ?e = "\<lparr>isStatus = (if imContentRelated message then 132 else 148), isExpiresAt = t0 + iscTTL config,
    isOrder = ilOrder (fold ledgerStep ops l0) + 1\<rparr>"
  note h = ledger_reached [OF assms(1-3)]
  note st = Record_step [OF h(1) order_refl h(2) assms(4), unfolded h(3)]
  note c = Complete_step [OF st(1) assms(5), where ids = ids and a = a and r = r]
  have ok: "gomap_ok (ilEntries l1)" "gomap_ok (ilEntries ?c)" using st(1) c(1) by (simp_all add: ledger_inv_def)
  have e1: "map_of (ilEntries l1) ?id = Some ?e" by (fact st(5))
  have e2: "map_of (ilEntries ?c) ?id = Some (completeEntry a r ?e)"
    using assms(6,8) by (simp add: c(5) ledger_expire_lookup [OF ok(1)] e1)
  have nz: "?id \<noteq> 0"
    using assms(4) by (auto simp: Record_def Let_def InboundMessage_Validate_def split: if_splits option.splits)
  have "completeEntry a r ?e = ?e\<lparr>isStatus := (if imContentRelated message then 164 else 180) + (if a then 8 else 0) + (if r then 64 else 0)\<rparr>"
    by (simp add: completeEntry_def Let_def state_bytes)
  then show ?thesis
    using nz by (auto simp: StateInfo_def HasResponse_def Let_def ledger_expire_lookup ok e1 e2 MessageStateResponseGenerated_def)
qed

definition exampleRecorded :: InboundStateLedger where
  "exampleRecorded = snd (Record 5 (rqMessage exampleRequest) exampleLedger)"

theorem ledger_reports_witness:
  "fst (StateInfo 9 [imMessageID (rqMessage exampleRequest)]
      (Complete 6 [imMessageID (rqMessage exampleRequest)] True True exampleRecorded)) = [236] \<and>
   \<not> fst (HasResponse 15 (imMessageID (rqMessage exampleRequest))
      (Complete 6 [imMessageID (rqMessage exampleRequest)] True True exampleRecorded))"
proof -
  have r: "Record 5 (rqMessage exampleRequest) (fold ledgerStep [] exampleLedger) = (None, exampleRecorded)" by code_simp
  have c: "imContentRelated (rqMessage exampleRequest)" by code_simp
  show ?thesis
    using ledger_reports [OF exampleLedger_new _ _ r, of 6 9 "[imMessageID (rqMessage exampleRequest)]" True True]
      ledger_reports [OF exampleLedger_new _ _ r, of 6 15 "[imMessageID (rqMessage exampleRequest)]" True True] c
    by (simp add: exampleLedgerConfig_def)
qed

end
