(* ===== verification/Reliability_Registry.thy ===== *)
theory Reliability_Registry
  imports Reliability_Store Inbound_Ledger
begin

text \<open>
  The registry of per-session reliability state (\<open>internal/runtime/reliability_registry.go\<close>): one retention
  store and one inbound ledger per session, reference-counted by the connections that use them, expired and
  evicted only when idle.  Entries live in a heap and are named by their address; the order of a map
  iteration is the order of the association list.
\<close>

section \<open>State\<close>

record ReliabilityRegistryConfig =
  rcMaxSessions :: int
  rcMessageCapacity :: int
  rcTTL :: duration

record reliabilityRegistryEntry =
  reOutbound :: Store
  reInbound :: InboundStateLedger
  reRefs :: int
  reIdleAt :: gotime
  reIdleOrder :: int

record ReliabilityRegistry =
  rrMaxSessions :: int
  rrMessageCapacity :: int
  rrTTL :: duration
  rrOrder :: int
  rrEntries :: "(SessionKey, nat) gomap"
  rrHeap :: "reliabilityRegistryEntry list"

record ReliabilityHandle =
  rhKey :: SessionKey
  rhEntry :: nat
  rhReleased :: bool

definition NewReliabilityRegistry :: "ReliabilityRegistryConfig \<Rightarrow> go_error + ReliabilityRegistry" where
  "NewReliabilityRegistry config =
     (if rcMaxSessions config \<le> 0 then Inl (RetentionError InvalidSessionCapacity)
      else if rcMessageCapacity config \<le> 0 then Inl (RetentionError InvalidMessageCapacity)
      else if rcTTL config \<le> 0 then Inl (RetentionError InvalidTTL)
      else Inr \<lparr>rrMaxSessions = rcMaxSessions config, rrMessageCapacity = rcMessageCapacity config,
        rrTTL = rcTTL config, rrOrder = 0, rrEntries = [], rrHeap = []\<rparr>)"

section \<open>Operations\<close>

definition expireIdleLocked :: "gotime \<Rightarrow> ReliabilityRegistry \<Rightarrow> ReliabilityRegistry" where
  "expireIdleLocked now r =
     r\<lparr>rrEntries := filter (\<lambda>(key, a). let e = rrHeap r ! a in
         \<not> (reRefs e = 0 \<and> \<not> reIdleAt e + rrTTL r > now)) (rrEntries r)\<rparr>"

definition olderIdle :: "reliabilityRegistryEntry \<Rightarrow> reliabilityRegistryEntry \<Rightarrow> bool" where
  "olderIdle e candidateEntry \<longleftrightarrow>
     reIdleAt e < reIdleAt candidateEntry \<or>
     (reIdleAt e = reIdleAt candidateEntry \<and> reIdleOrder e < reIdleOrder candidateEntry)"

definition evictOldestIdleLocked :: "ReliabilityRegistry \<Rightarrow> bool \<times> ReliabilityRegistry" where
  "evictOldestIdleLocked r =
     (case selectLeast (\<lambda>a. reRefs (rrHeap r ! a) = 0) (\<lambda>a b. olderIdle (rrHeap r ! a) (rrHeap r ! b)) (rrEntries r) None of
        None \<Rightarrow> (False, r)
      | Some (candidateKey, _) \<Rightarrow> (True, r\<lparr>rrEntries := AList.delete candidateKey (rrEntries r)\<rparr>))"

definition newHandle :: "SessionKey \<Rightarrow> nat \<Rightarrow> ReliabilityHandle" where
  "newHandle key a = \<lparr>rhKey = key, rhEntry = a, rhReleased = False\<rparr>"

definition createEntry :: "SessionKey \<Rightarrow> ReliabilityRegistry \<Rightarrow> (go_error + ReliabilityHandle) \<times> ReliabilityRegistry" where
  "createEntry key r =
     (case New \<lparr>cfgCapacity = rrMessageCapacity r, cfgTTL = rrTTL r\<rparr> of
        Inl e \<Rightarrow> (Inl e, r)
      | Inr outbound \<Rightarrow>
          (case NewInboundStateLedger \<lparr>iscCapacity = rrMessageCapacity r, iscTTL = rrTTL r\<rparr> of
             Inl e \<Rightarrow> (Inl e, r)
           | Inr inbound \<Rightarrow>
               (let a = length (rrHeap r);
                    e = \<lparr>reOutbound = outbound, reInbound = inbound, reRefs = 1, reIdleAt = 0, reIdleOrder = 0\<rparr>
                in (Inr (newHandle key a),
                    r\<lparr>rrHeap := rrHeap r @ [e], rrEntries := AList.update key a (rrEntries r)\<rparr>))))"

definition Registry_Acquire ::
  "gotime \<Rightarrow> SessionKey \<Rightarrow> ReliabilityRegistry \<Rightarrow> (go_error + ReliabilityHandle) \<times> ReliabilityRegistry" where
  "Registry_Acquire now key r =
     (let r = expireIdleLocked now r in
      case map_of (rrEntries r) key of
        Some a \<Rightarrow>
          (Inr (newHandle key a), r\<lparr>rrHeap := (rrHeap r)[a := (rrHeap r ! a)\<lparr>reRefs := reRefs (rrHeap r ! a) + 1\<rparr>]\<rparr>)
      | None \<Rightarrow>
          if int (length (rrEntries r)) = rrMaxSessions r then
            (case evictOldestIdleLocked r of
               (False, r) \<Rightarrow> (Inl (RetentionError (ReliabilityCapacity (rrMaxSessions r))), r)
             | (True, r) \<Rightarrow> createEntry key r)
          else createEntry key r)"

definition Registry_release :: "gotime \<Rightarrow> SessionKey \<Rightarrow> nat \<Rightarrow> ReliabilityRegistry \<Rightarrow> ReliabilityRegistry" where
  "Registry_release now key acquired r =
     (case map_of (rrEntries r) key of
        None \<Rightarrow> r
      | Some a \<Rightarrow>
          if a \<noteq> acquired \<or> reRefs (rrHeap r ! a) = 0 then r
          else
            (let e = (rrHeap r ! a)\<lparr>reRefs := reRefs (rrHeap r ! a) - 1\<rparr> in
             if reRefs e \<noteq> 0 then r\<lparr>rrHeap := (rrHeap r)[a := e]\<rparr>
             else
               (let n = u64 (rrOrder r + 1)
                in r\<lparr>rrOrder := n, rrHeap := (rrHeap r)[a := e\<lparr>reIdleAt := now, reIdleOrder := n\<rparr>]\<rparr>)))"

definition Handle_Release :: "gotime \<Rightarrow> ReliabilityHandle \<Rightarrow> ReliabilityRegistry \<Rightarrow> ReliabilityHandle \<times> ReliabilityRegistry" where
  "Handle_Release now h r =
     (if rhReleased h then (h, r) else (h\<lparr>rhReleased := True\<rparr>, Registry_release now (rhKey h) (rhEntry h) r))"

definition outboundStore :: "ReliabilityHandle \<Rightarrow> ReliabilityRegistry \<Rightarrow> Store" where
  "outboundStore h r = reOutbound (rrHeap r ! rhEntry h)"

definition inboundLedger :: "ReliabilityHandle \<Rightarrow> ReliabilityRegistry \<Rightarrow> InboundStateLedger" where
  "inboundLedger h r = reInbound (rrHeap r ! rhEntry h)"

section \<open>Invariant\<close>

text \<open>The handles given out and not yet released.\<close>

abbreviation live :: "ReliabilityHandle list \<Rightarrow> ReliabilityHandle list" where
  "live hs \<equiv> filter (\<lambda>h. \<not> rhReleased h) hs"

definition refCount :: "ReliabilityHandle list \<Rightarrow> nat \<Rightarrow> int" where
  "refCount hs a = int (length (filter (\<lambda>h. rhEntry h = a) (live hs)))"

definition registry_inv :: "ReliabilityHandle list \<Rightarrow> ReliabilityRegistry \<Rightarrow> bool" where
  "registry_inv hs r \<longleftrightarrow>
     gomap_ok (rrEntries r) \<and> 0 < rrMaxSessions r \<and> 0 < rrMessageCapacity r \<and> 0 < rrTTL r \<and>
     int (length (rrEntries r)) \<le> rrMaxSessions r \<and> distinct (map snd (rrEntries r)) \<and>
     (\<forall>(key, a) \<in> set (rrEntries r). a < length (rrHeap r) \<and> reRefs (rrHeap r ! a) = refCount hs a) \<and>
     (\<forall>h \<in> set (live hs). map_of (rrEntries r) (rhKey h) = Some (rhEntry h))"

lemma refCount_pos: "h \<in> set (live hs) \<Longrightarrow> 0 < refCount hs (rhEntry h)"
  by (auto simp: refCount_def filter_empty_conv)

lemma refCount_zero: "refCount hs a = 0 \<longleftrightarrow> (\<forall>h \<in> set (live hs). rhEntry h \<noteq> a)"
  by (auto simp: refCount_def filter_empty_conv)

text \<open>Removing idle entries keeps the invariant.\<close>

lemma registry_inv_filter:
  assumes inv: "registry_inv hs r"
    and keep: "\<And>key a. (key, a) \<in> set (rrEntries r) \<Longrightarrow> \<not> P (key, a) \<Longrightarrow> reRefs (rrHeap r ! a) = 0"
  shows "registry_inv hs (r\<lparr>rrEntries := filter P (rrEntries r)\<rparr>)"
proof -
  have ok: "gomap_ok (rrEntries r)" using inv by (simp add: registry_inv_def)
  have "map_of (filter P (rrEntries r)) (rhKey h) = Some (rhEntry h)" if "h \<in> set (live hs)" for h
  proof -
    have m: "map_of (rrEntries r) (rhKey h) = Some (rhEntry h)" using inv that by (auto simp: registry_inv_def)
    then have i: "(rhKey h, rhEntry h) \<in> set (rrEntries r)" by (rule map_of_SomeD)
    then have "reRefs (rrHeap r ! rhEntry h) = refCount hs (rhEntry h)" using inv by (auto simp: registry_inv_def)
    then have "P (rhKey h, rhEntry h)" using keep [OF i] refCount_pos [OF that] by auto
    with m show ?thesis by (simp add: map_of_filter_gomap ok)
  qed
  moreover have "int (length (filter P (rrEntries r))) \<le> rrMaxSessions r"
    using inv length_filter_le [of P "rrEntries r"] unfolding registry_inv_def by linarith
  moreover have "distinct (map snd (filter P (rrEntries r)))" using inv by (simp add: registry_inv_def distinct_map_filter)
  ultimately show ?thesis using inv by (auto simp: registry_inv_def)
qed

lemma expireIdleLocked_inv:
  assumes "registry_inv hs r"
  shows "registry_inv hs (expireIdleLocked now r)"
  unfolding expireIdleLocked_def by (rule registry_inv_filter [OF assms]) (simp add: Let_def)

definition idleKey :: "reliabilityRegistryEntry \<Rightarrow> gotime \<times> int" where
  "idleKey e = (reIdleAt e, reIdleOrder e)"

lemma olderIdle_key: "olderIdle u v \<longleftrightarrow> idleKey u < idleKey v"
  by (auto simp: olderIdle_def idleKey_def less_prod_def')

text \<open>Eviction takes the entry that has been idle longest, if there is an idle one.\<close>

lemma evictOldestIdleLocked_cases:
  assumes inv: "registry_inv hs r"
  shows "case evictOldestIdleLocked r of
      (False, r') \<Rightarrow> r' = r \<and> (\<forall>(key, a) \<in> set (rrEntries r). refCount hs a \<noteq> 0)
    | (True, r') \<Rightarrow> registry_inv hs r' \<and> (\<exists>(key, a) \<in> set (rrEntries r). refCount hs a = 0 \<and>
        r' = r\<lparr>rrEntries := AList.delete key (rrEntries r)\<rparr> \<and>
        (\<forall>(k, b) \<in> set (rrEntries r). refCount hs b = 0 \<longrightarrow> idleKey (rrHeap r ! a) \<le> idleKey (rrHeap r ! b)))"
proof -
  have refs: "reRefs (rrHeap r ! a) = refCount hs a" if "(key, a) \<in> set (rrEntries r)" for key a
    using inv that by (auto simp: registry_inv_def)
  let ?sel = "selectLeast (\<lambda>a. reRefs (rrHeap r ! a) = 0) (\<lambda>a b. olderIdle (rrHeap r ! a) (rrHeap r ! b)) (rrEntries r) None"
  note sel = selectLeast_spec [where before = "\<lambda>a b. olderIdle (rrHeap r ! a) (rrHeap r ! b)"
      and key = "\<lambda>a. idleKey (rrHeap r ! a)" and P = "\<lambda>a. reRefs (rrHeap r ! a) = 0" and m = "rrEntries r", OF olderIdle_key]
  show ?thesis
  proof (cases ?sel)
    case None
    then show ?thesis using sel refs by (auto simp: evictOldestIdleLocked_def)
  next
    case (Some p)
    obtain key a where p: "p = (key, a)" by fastforce
    have s: "reRefs (rrHeap r ! a) = 0" "(key, a) \<in> set (rrEntries r)"
      "\<forall>(k, b) \<in> set (rrEntries r). reRefs (rrHeap r ! b) = 0 \<longrightarrow> idleKey (rrHeap r ! a) \<le> idleKey (rrHeap r ! b)"
      using sel by (simp_all add: Some p)
    have "gomap_ok (rrEntries r)" using inv by (simp add: registry_inv_def)
    then have u: "b = a" if "(key, b) \<in> set (rrEntries r)" for b using that s(2) by (simp add: gomap_in_set)
    have "registry_inv hs (r\<lparr>rrEntries := filter (\<lambda>q. fst q \<noteq> key) (rrEntries r)\<rparr>)"
      by (rule registry_inv_filter [OF inv]) (use s(1) u in auto)
    moreover have "filter (\<lambda>q. fst q \<noteq> key) (rrEntries r) = AList.delete key (rrEntries r)"
      unfolding AList.delete_eq by (rule filter_cong) (auto split: prod.splits)
    ultimately have "registry_inv hs (r\<lparr>rrEntries := AList.delete key (rrEntries r)\<rparr>)" by simp
    moreover have "\<forall>(k, b) \<in> set (rrEntries r). refCount hs b = 0 \<longrightarrow> idleKey (rrHeap r ! a) \<le> idleKey (rrHeap r ! b)"
      using s(3) refs by fastforce
    ultimately show ?thesis
      using s(1,2) refs by (auto simp: evictOldestIdleLocked_def Some p intro!: bexI [of _ "(key, a)"])
  qed
qed


section \<open>Acquiring and releasing\<close>

lemma live_entry:
  assumes "registry_inv hs r" "h \<in> set (live hs)"
  shows "rhEntry h < length (rrHeap r)" "map_of (rrEntries r) (rhKey h) = Some (rhEntry h)"
    "(rhKey h, rhEntry h) \<in> set (rrEntries r)"
proof -
  show m: "map_of (rrEntries r) (rhKey h) = Some (rhEntry h)" using assms by (auto simp: registry_inv_def)
  then show "(rhKey h, rhEntry h) \<in> set (rrEntries r)" by (rule map_of_SomeD)
  then show "rhEntry h < length (rrHeap r)" using assms(1) by (auto simp: registry_inv_def)
qed

lemma refCount_append: "refCount (hs @ [newHandle key a]) b = refCount hs b + (if b = a then 1 else 0)"
  by (simp add: refCount_def newHandle_def)

lemma createEntry_inv:
  assumes inv: "registry_inv hs r" and new: "map_of (rrEntries r) key = None" and room: "int (length (rrEntries r)) < rrMaxSessions r"
  shows "\<exists>r'. createEntry key r = (Inr (newHandle key (length (rrHeap r))), r') \<and>
    registry_inv (hs @ [newHandle key (length (rrHeap r))]) r' \<and> rrMaxSessions r' = rrMaxSessions r"
proof -
  let ?a = "length (rrHeap r)"
  have pos: "0 < rrMessageCapacity r" "0 < rrTTL r" using inv by (simp_all add: registry_inv_def)
  obtain outbound inbound where s: "New \<lparr>cfgCapacity = rrMessageCapacity r, cfgTTL = rrTTL r\<rparr> = Inr outbound"
    "NewInboundStateLedger \<lparr>iscCapacity = rrMessageCapacity r, iscTTL = rrTTL r\<rparr> = Inr inbound"
    using pos by (simp add: New_def NewInboundStateLedger_def)
  define e where "e = \<lparr>reOutbound = outbound, reInbound = inbound, reRefs = 1, reIdleAt = 0, reIdleOrder = 0\<rparr>"
  define r' where "r' = r\<lparr>rrHeap := rrHeap r @ [e], rrEntries := AList.update key ?a (rrEntries r)\<rparr>"
  have r': "createEntry key r = (Inr (newHandle key ?a), r')" by (simp add: createEntry_def s e_def r'_def Let_def)
  have ents: "rrEntries r' = rrEntries r @ [(key, ?a)]" using new by (simp add: r'_def update_new)
  have hp: "rrHeap r' = rrHeap r @ [e]" by (simp add: r'_def)
  have old: "b < ?a" "b \<noteq> ?a" if "(k, b) \<in> set (rrEntries r)" for k b using inv that by (auto simp: registry_inv_def)
  have "refCount hs ?a = 0" using live_entry(1) [OF inv] by (fastforce simp: refCount_zero)
  then have "\<forall>(k, b) \<in> set (rrEntries r'). b < length (rrHeap r') \<and> reRefs (rrHeap r' ! b) = refCount (hs @ [newHandle key ?a]) b"
    using inv old by (fastforce simp: ents hp e_def refCount_append nth_append registry_inv_def)
  moreover have "map_of (rrEntries r') (rhKey h) = Some (rhEntry h)" if "h \<in> set (live (hs @ [newHandle key ?a]))" for h
    using that live_entry(2) [OF inv] new by (auto simp: ents newHandle_def map_add_def split: option.splits)
  moreover have "gomap_ok (rrEntries r')" using inv by (simp add: r'_def registry_inv_def)
  moreover have "distinct (map snd (rrEntries r'))" using inv old by (auto simp: ents registry_inv_def)
  ultimately have "registry_inv (hs @ [newHandle key ?a]) r'"
    using inv room by (auto simp: registry_inv_def ents) (simp_all add: r'_def)
  then show ?thesis using r' by (auto simp: r'_def)
qed

lemma shareEntry_inv:
  assumes inv: "registry_inv hs r" and a: "map_of (rrEntries r) key = Some a"
  shows "registry_inv (hs @ [newHandle key a]) (r\<lparr>rrHeap := (rrHeap r)[a := (rrHeap r ! a)\<lparr>reRefs := reRefs (rrHeap r ! a) + 1\<rparr>]\<rparr>)"
proof -
  have "a < length (rrHeap r)" using inv map_of_SomeD [OF a] by (auto simp: registry_inv_def)
  moreover have "b < length (rrHeap r) \<and> reRefs (rrHeap r ! b) = refCount hs b" if "(k, b) \<in> set (rrEntries r)" for k b
    using inv that by (auto simp: registry_inv_def)
  ultimately have "\<forall>(k, b) \<in> set (rrEntries r). b < length (rrHeap r) \<and>
      reRefs ((rrHeap r)[a := (rrHeap r ! a)\<lparr>reRefs := reRefs (rrHeap r ! a) + 1\<rparr>] ! b) = refCount (hs @ [newHandle key a]) b"
    by (fastforce simp: refCount_append nth_list_update)
  then show ?thesis using inv a by (auto simp: registry_inv_def newHandle_def)
qed

lemma Registry_Acquire_cases:
  assumes inv: "registry_inv hs r"
  shows "case Registry_Acquire now key r of
      (Inl e, r') \<Rightarrow> registry_inv hs r' \<and> rrMaxSessions r' = rrMaxSessions r \<and> e = RetentionError (ReliabilityCapacity (rrMaxSessions r)) \<and>
        int (length (rrEntries r')) = rrMaxSessions r \<and> (\<forall>(k, a) \<in> set (rrEntries r'). \<exists>h \<in> set (live hs). rhEntry h = a)
    | (Inr h, r') \<Rightarrow> registry_inv (hs @ [h]) r' \<and> rrMaxSessions r' = rrMaxSessions r \<and> rhKey h = key \<and> \<not> rhReleased h"
proof -
  let ?u = "expireIdleLocked now r"
  have u: "registry_inv hs ?u" by (rule expireIdleLocked_inv [OF inv])
  have ms: "rrMaxSessions ?u = rrMaxSessions r" by (simp add: expireIdleLocked_def)
  show ?thesis
  proof (cases "map_of (rrEntries ?u) key")
    case (Some a)
    then show ?thesis
      using shareEntry_inv [OF u Some] by (simp add: Registry_Acquire_def Let_def ms) (simp add: newHandle_def)
  next
    case None
    show ?thesis
    proof (cases "int (length (rrEntries ?u)) = rrMaxSessions ?u")
      case False
      then have "int (length (rrEntries ?u)) < rrMaxSessions ?u" using u by (simp add: registry_inv_def)
      from createEntry_inv [OF u None this] None False show ?thesis
        by (auto simp: Registry_Acquire_def Let_def ms) (simp_all add: newHandle_def)
    next
      case full: True
      obtain b w where ev: "evictOldestIdleLocked ?u = (b, w)" by fastforce
      show ?thesis
      proof (cases b)
        case False
        then have "w = ?u" "\<forall>(k, a) \<in> set (rrEntries ?u). refCount hs a \<noteq> 0"
          using evictOldestIdleLocked_cases [OF u] by (simp_all add: ev)
        then have "\<forall>(k, a) \<in> set (rrEntries ?u). \<exists>h \<in> set (live hs). rhEntry h = a" by (auto simp: refCount_zero)
        with \<open>w = ?u\<close> False full None u show ?thesis by (simp add: Registry_Acquire_def Let_def ev ms)
      next
        case True
        then obtain k a where w: "registry_inv hs w" "(k, a) \<in> set (rrEntries ?u)"
          "w = ?u\<lparr>rrEntries := AList.delete k (rrEntries ?u)\<rparr>"
          using evictOldestIdleLocked_cases [OF u] by (auto simp: ev)
        have "map_of (rrEntries w) key = None" using None by (simp add: w(3) map_of_delete)
        moreover have "int (length (rrEntries w)) < rrMaxSessions w"
          using length_delete_less [OF w(2)] full by (simp add: w(3))
        ultimately show ?thesis
          using createEntry_inv [OF w(1), of key] True None full ev w(3)
          by (auto simp: Registry_Acquire_def Let_def ms) (simp_all add: newHandle_def)
      qed
    qed
  qed
qed


lemma refCount_release:
  assumes "i < length hs" "\<not> rhReleased (hs ! i)"
  shows "refCount (hs[i := (hs ! i)\<lparr>rhReleased := True\<rparr>]) b = refCount hs b - (if b = rhEntry (hs ! i) then 1 else 0)"
proof -
  let ?t = "take i hs" and ?d = "drop (Suc i) hs"
  have "refCount (?t @ (hs ! i) # ?d) b = refCount hs b" using assms(1) by (simp add: id_take_nth_drop [symmetric])
  then show ?thesis
    using assms by (auto simp: upd_conv_take_nth_drop refCount_def split: if_splits)
qed

lemma live_release:
  assumes "i < length hs" "h \<in> set (live (hs[i := (hs ! i)\<lparr>rhReleased := True\<rparr>]))"
  shows "h \<in> set (live hs)"
  using assms by (auto dest: set_update_subset_insert [THEN subsetD])

lemma Registry_release_inv:
  assumes inv: "registry_inv hs r" and i: "i < length hs" "\<not> rhReleased (hs ! i)"
  shows "registry_inv (hs[i := (hs ! i)\<lparr>rhReleased := True\<rparr>]) (Registry_release now (rhKey (hs ! i)) (rhEntry (hs ! i)) r)"
    "rrMaxSessions (Registry_release now (rhKey (hs ! i)) (rhEntry (hs ! i)) r) = rrMaxSessions r"
proof -
  let ?a = "rhEntry (hs ! i)" and ?hs = "hs[i := (hs ! i)\<lparr>rhReleased := True\<rparr>]"
  have l: "hs ! i \<in> set (live hs)" using i by simp
  note e = live_entry [OF inv l]
  have refs: "b < length (rrHeap r)" "reRefs (rrHeap r ! b) = refCount hs b" if "(k, b) \<in> set (rrEntries r)" for k b
    using inv that by (auto simp: registry_inv_def)
  define r' where "r' = Registry_release now (rhKey (hs ! i)) ?a r"
  have r': "rrEntries r' = rrEntries r" "rrMaxSessions r' = rrMaxSessions r" "rrMessageCapacity r' = rrMessageCapacity r"
    "rrTTL r' = rrTTL r" "length (rrHeap r') = length (rrHeap r)"
    "\<And>b. b < length (rrHeap r) \<Longrightarrow> reRefs (rrHeap r' ! b) = reRefs (rrHeap r ! b) - (if b = ?a then 1 else 0)"
    using e(2) refs(2) [OF e(3)] refCount_pos [OF l]
    by (auto simp: r'_def Registry_release_def Let_def nth_list_update)
  then have "\<forall>(k, b) \<in> set (rrEntries r). b < length (rrHeap r) \<and> reRefs (rrHeap r' ! b) = refCount ?hs b"
    using refs e(1) by (fastforce simp: refCount_release [OF i])
  then show "registry_inv ?hs (Registry_release now (rhKey (hs ! i)) ?a r)"
    using inv live_release [OF i(1)] unfolding r'_def [symmetric] by (auto simp: r'(1-5) registry_inv_def)
  show "rrMaxSessions (Registry_release now (rhKey (hs ! i)) ?a r) = rrMaxSessions r" using r'(2) by (simp add: r'_def)
qed

section \<open>Histories\<close>

datatype registry_op = OpAcquire gotime SessionKey | OpRelease gotime nat

fun registryStep :: "registry_op \<Rightarrow> ReliabilityHandle list \<times> ReliabilityRegistry \<Rightarrow> ReliabilityHandle list \<times> ReliabilityRegistry" where
  "registryStep (OpAcquire now key) (hs, r) =
     (case Registry_Acquire now key r of (Inl _, r') \<Rightarrow> (hs, r') | (Inr h, r') \<Rightarrow> (hs @ [h], r'))"
| "registryStep (OpRelease now i) (hs, r) =
     (if i < length hs then (case Handle_Release now (hs ! i) r of (h, r') \<Rightarrow> (hs[i := h], r')) else (hs, r))"

lemma registryStep_inv:
  assumes "registry_inv (fst st) (snd st)"
  shows "registry_inv (fst (registryStep op st)) (snd (registryStep op st)) \<and>
    rrMaxSessions (snd (registryStep op st)) = rrMaxSessions (snd st)"
proof -
  obtain hs r where st: "st = (hs, r)" by fastforce
  have inv: "registry_inv hs r" using assms by (simp add: st)
  show ?thesis
  proof (cases op)
    case (OpAcquire now key)
    then show ?thesis using Registry_Acquire_cases [OF inv, where now = now and key = key] by (auto simp: st split: prod.splits sum.splits)
  next
    case (OpRelease now i)
    show ?thesis
    proof (cases "i < length hs \<and> \<not> rhReleased (hs ! i)")
      case True
      then show ?thesis using Registry_release_inv [OF inv, of i now] by (simp add: st OpRelease Handle_Release_def)
    next
      case False
      then show ?thesis using inv by (auto simp: st OpRelease Handle_Release_def)
    qed
  qed
qed

lemma registrySteps_inv:
  assumes "registry_inv (fst st) (snd st)"
  shows "registry_inv (fst (fold registryStep ops st)) (snd (fold registryStep ops st)) \<and>
    rrMaxSessions (snd (fold registryStep ops st)) = rrMaxSessions (snd st)"
  using assms
proof (induction ops arbitrary: st)
  case (Cons op ops)
  then show ?case using registryStep_inv [OF Cons.prems, of op] by simp
qed simp

section \<open>Properties\<close>

text \<open>C27. Sessions keep their reliability state.  In every history of acquisitions and releases the registry
  holds at most its maximum of sessions, and the state of a session that is in use is neither expired nor
  evicted: all handles of a session that are not released refer to one and the same state, which is the one
  the registry holds.  An acquisition therefore joins the connections already using the session, and it fails
  only if the registry is full of sessions in use.\<close>

theorem sessions_share_state:
  assumes "NewReliabilityRegistry config = Inr r0" "fold registryStep ops ([], r0) = (hs, r)"
  shows "int (length (rrEntries r)) \<le> rcMaxSessions config \<and>
    (\<forall>h \<in> set hs. \<not> rhReleased h \<longrightarrow> map_of (rrEntries r) (rhKey h) = Some (rhEntry h)) \<and>
    (case Registry_Acquire now key r of
       (Inl e, r') \<Rightarrow> int (length (rrEntries r')) = rcMaxSessions config \<and>
         (\<forall>(k, a) \<in> set (rrEntries r'). \<exists>h \<in> set hs. \<not> rhReleased h \<and> rhEntry h = a)
     | (Inr g, r') \<Rightarrow> rhKey g = key \<and> map_of (rrEntries r') key = Some (rhEntry g) \<and>
         (\<forall>h \<in> set hs. \<not> rhReleased h \<and> rhKey h = key \<longrightarrow> rhEntry h = rhEntry g))"
proof -
  have "registry_inv [] r0" "rrMaxSessions r0 = rcMaxSessions config"
    using assms(1) by (auto simp: NewReliabilityRegistry_def registry_inv_def split: if_splits)
  with registrySteps_inv [of "([], r0)" ops] assms(2)
  have inv: "registry_inv hs r" and m: "rrMaxSessions r = rcMaxSessions config" by simp_all
  obtain x r' where x: "Registry_Acquire now key r = (x, r')" by fastforce
  have acq: "case x of
       Inl e \<Rightarrow> int (length (rrEntries r')) = rcMaxSessions config \<and>
         (\<forall>(k, a) \<in> set (rrEntries r'). \<exists>h \<in> set hs. \<not> rhReleased h \<and> rhEntry h = a)
     | Inr g \<Rightarrow> rhKey g = key \<and> map_of (rrEntries r') key = Some (rhEntry g) \<and>
         (\<forall>h \<in> set hs. \<not> rhReleased h \<and> rhKey h = key \<longrightarrow> rhEntry h = rhEntry g)"
  proof (cases x)
    case (Inl e)
    then show ?thesis using Registry_Acquire_cases [OF inv, where now = now and key = key] by (fastforce simp: x m)
  next
    case (Inr g)
    then have g: "registry_inv (hs @ [g]) r'" "rhKey g = key" "\<not> rhReleased g"
      using Registry_Acquire_cases [OF inv, where now = now and key = key] by (simp_all add: x)
    have m: "map_of (rrEntries r') (rhKey h) = Some (rhEntry h)" if "h \<in> set hs \<or> h = g" "\<not> rhReleased h" for h
      using live_entry(2) [OF g(1), of h] that by auto
    have "map_of (rrEntries r') key = Some (rhEntry g)" using m [of g] g(2,3) by simp
    moreover from this have "rhEntry h = rhEntry g" if "h \<in> set hs" "\<not> rhReleased h" "rhKey h = key" for h
      using m [of h] that by simp
    ultimately show ?thesis using g(2) by (simp add: Inr)
  qed
  show ?thesis using inv live_entry(2) [OF inv] acq by (auto simp: x registry_inv_def m split: sum.splits)
qed


definition exampleRegistryConfig :: ReliabilityRegistryConfig where
  "exampleRegistryConfig = \<lparr>rcMaxSessions = 1, rcMessageCapacity = 4, rcTTL = 10\<rparr>"

definition exampleSessions :: ReliabilityRegistry where
  "exampleSessions = \<lparr>rrMaxSessions = 1, rrMessageCapacity = 4, rrTTL = 10, rrOrder = 0, rrEntries = [], rrHeap = []\<rparr>"

lemma exampleSessions_new: "NewReliabilityRegistry exampleRegistryConfig = Inr exampleSessions"
  by (simp add: NewReliabilityRegistry_def exampleRegistryConfig_def exampleSessions_def)

definition exampleInUse :: "ReliabilityHandle list \<times> ReliabilityRegistry" where
  "exampleInUse = fold registryStep [OpAcquire 5 exampleKey, OpAcquire 6 exampleKey, OpRelease 7 0] ([], exampleSessions)"

theorem sessions_share_state_witness:
  "\<exists>g r'. Registry_Acquire 100 exampleKey (snd exampleInUse) = (Inr g, r') \<and> rhEntry g = 0"
proof -
  have e: "map rhKey (fst exampleInUse) = [exampleKey, exampleKey]" "map rhReleased (fst exampleInUse) = [True, False]"
    "map rhEntry (fst exampleInUse) = [0, 0]" "isl (fst (Registry_Acquire 100 exampleKey (snd exampleInUse))) = False"
    by code_simp+
  have "fold registryStep [OpAcquire 5 exampleKey, OpAcquire 6 exampleKey, OpRelease 7 0] ([], exampleSessions) =
      (fst exampleInUse, snd exampleInUse)"
    by (simp add: exampleInUse_def)
  note t = sessions_share_state [OF exampleSessions_new this, where now = 100 and key = exampleKey]
  obtain g r' where g: "Registry_Acquire 100 exampleKey (snd exampleInUse) = (Inr g, r')"
    using e(4) by (cases "Registry_Acquire 100 exampleKey (snd exampleInUse)"; cases "fst (Registry_Acquire 100 exampleKey (snd exampleInUse))") auto
  obtain h1 h2 where h: "fst exampleInUse = [h1, h2]" using e(1) by (auto simp: map_eq_Cons_conv)
  with e t g show ?thesis by auto
qed

end
