(* ===== verification/Auth_Keys.thy ===== *)
theory Auth_Keys
  imports Message_Envelope Go_Map
begin

text \<open>
  The in-memory store of authorization keys (\<open>crypto/authkey_memory.go\<close>), the validation of a temporary
  key's binding (\<open>crypto/temporary_authkey.go\<close>) and the capability that binds one
  (\<open>temporary_authkey.go\<close>).  A clock reading is an argument; where a call reads the clock several times it
  is given the sequence of its readings.  The callback of \<open>time.AfterFunc\<close> is an operation of its own.
\<close>

section \<open>The key store\<close>

record TemporaryAuthKeyInfo =
  tkExpiresAt :: gotime
  tkPermanentKeyID :: int

record MemoryAuthKeyManager =
  akKeys :: "int \<rightharpoonup> bytes"
  akTemporary :: "(int, TemporaryAuthKeyInfo) gomap"

definition MaxTemporaryAuthKeyLifetime :: duration where
  "MaxTemporaryAuthKeyLifetime = 24 * 3600 * second"

definition NewMemoryAuthKeyManager :: MemoryAuthKeyManager where
  "NewMemoryAuthKeyManager = \<lparr>akKeys = Map.empty, akTemporary = []\<rparr>"

definition AuthKeys_Get :: "gotime \<Rightarrow> int \<Rightarrow> MemoryAuthKeyManager \<Rightarrow> go_error + bytes" where
  "AuthKeys_Get now keyID m =
     (let ok = (akKeys m keyID \<noteq> None);
          ok = (case map_of (akTemporary m) keyID of
                  None \<Rightarrow> ok
                | Some info \<Rightarrow>
                    ok \<and> now < tkExpiresAt info \<and>
                    (tkPermanentKeyID info \<noteq> 0 \<longrightarrow> akKeys m (tkPermanentKeyID info) \<noteq> None))
      in if \<not> ok then Inl (CryptoError AuthKeyNotFound) else Inr (the (akKeys m keyID)))"

definition AuthKeys_Put :: "int \<Rightarrow> bytes \<Rightarrow> MemoryAuthKeyManager \<Rightarrow> MemoryAuthKeyManager" where
  "AuthKeys_Put keyID key m = m\<lparr>akKeys := (akKeys m)(keyID \<mapsto> key)\<rparr>"

text \<open>\<open>delete(m.temporary, id); delete(m.keys, id)\<close>\<close>

definition dropTemporary :: "int \<Rightarrow> MemoryAuthKeyManager \<Rightarrow> MemoryAuthKeyManager" where
  "dropTemporary i m = m\<lparr>akTemporary := AList.delete i (akTemporary m), akKeys := (akKeys m)(i := None)\<rparr>"

definition AuthKeys_Delete :: "int \<Rightarrow> MemoryAuthKeyManager \<Rightarrow> MemoryAuthKeyManager" where
  "AuthKeys_Delete keyID m =
     (let m = dropTemporary keyID m
      in fold (\<lambda>(child, info) m. if tkPermanentKeyID info = keyID then dropTemporary child m else m) (akTemporary m) m)"

text \<open>The sweep of expired keys reads the clock once per entry.\<close>

fun sweepTemporary :: "(nat \<Rightarrow> gotime) \<Rightarrow> nat \<Rightarrow> (int, TemporaryAuthKeyInfo) gomap \<Rightarrow> MemoryAuthKeyManager \<Rightarrow> MemoryAuthKeyManager" where
  "sweepTemporary clock n [] m = m"
| "sweepTemporary clock n ((i, info) # rest) m =
     sweepTemporary clock (Suc n) rest (if \<not> clock n < tkExpiresAt info then dropTemporary i m else m)"

definition PutTemporary ::
  "primitives \<Rightarrow> (nat \<Rightarrow> gotime) \<Rightarrow> int \<Rightarrow> bytes \<Rightarrow> gotime \<Rightarrow> MemoryAuthKeyManager \<Rightarrow> go_error option \<times> MemoryAuthKeyManager" where
  "PutTemporary P clock i key expires m =
     (if \<not> expires > clock 0 \<or> expires > clock 1 + MaxTemporaryAuthKeyLifetime \<or> AuthKey_ID P key \<noteq> i
      then (Some (CryptoError TemporaryKeyExpiry), m)
      else
        (let m = sweepTemporary clock 2 (akTemporary m) m in
         if length (akTemporary m) \<ge> 4096 then (Some (CryptoError TemporaryKeyExpiry), m)
         else if akKeys m i \<noteq> None then (Some (CryptoError InvalidKeyBinding), m)
         else (None, m\<lparr>akKeys := (akKeys m)(i \<mapsto> key),
                       akTemporary := AList.update i \<lparr>tkExpiresAt = expires, tkPermanentKeyID = 0\<rparr> (akTemporary m)\<rparr>)))"

definition expireTemporary :: "gotime \<Rightarrow> int \<Rightarrow> MemoryAuthKeyManager \<Rightarrow> MemoryAuthKeyManager" where
  "expireTemporary now i m =
     (case map_of (akTemporary m) i of
        Some info \<Rightarrow> if \<not> now < tkExpiresAt info then dropTemporary i m else m
      | None \<Rightarrow> m)"

definition TemporaryInfo :: "gotime \<Rightarrow> int \<Rightarrow> MemoryAuthKeyManager \<Rightarrow> TemporaryAuthKeyInfo option \<times> go_error option" where
  "TemporaryInfo now i m =
     (case map_of (akTemporary m) i of
        Some info \<Rightarrow> if \<not> now < tkExpiresAt info then (Some info, Some (CryptoError AuthKeyNotFound)) else (Some info, None)
      | None \<Rightarrow> (None, None))"

definition BindTemporary ::
  "gotime \<Rightarrow> int \<Rightarrow> int \<Rightarrow> gotime \<Rightarrow> MemoryAuthKeyManager \<Rightarrow> go_error option \<times> MemoryAuthKeyManager" where
  "BindTemporary now i parent expires m =
     (case map_of (akTemporary m) i of
        None \<Rightarrow> (Some (CryptoError AuthKeyNotFound), m)
      | Some info \<Rightarrow>
          if akKeys m parent = None then (Some (CryptoError AuthKeyNotFound), m)
          else if map_of (akTemporary m) parent \<noteq> None \<or> parent = i then (Some (CryptoError InvalidKeyBinding), m)
          else if tkPermanentKeyID info \<noteq> 0 \<and> tkPermanentKeyID info \<noteq> parent
          then (Some (CryptoError TemporaryKeyAlreadyBound), m)
          else if \<not> now < expires \<or> expires > tkExpiresAt info then (Some (CryptoError TemporaryKeyExpiry), m)
          else (None, m\<lparr>akTemporary :=
                 AList.update i (info\<lparr>tkPermanentKeyID := parent, tkExpiresAt := expires\<rparr>) (akTemporary m)\<rparr>))"

section \<open>Validating a binding\<close>

definition temporaryBindingKDF :: "primitives \<Rightarrow> bytes \<Rightarrow> bytes \<Rightarrow> bytes \<times> bytes" where
  "temporaryBindingKDF P authKey msgKey =
     (let a = sha1 P (msgKey @ slice 0 32 authKey);
          b = sha1 P (slice 32 48 authKey @ msgKey @ slice 48 64 authKey);
          c = sha1 P (slice 64 96 authKey @ msgKey);
          d = sha1 P (msgKey @ slice 96 128 authKey);
          key = slice 0 8 a @ slice 8 20 b @ slice 4 16 c;
          iv = slice 8 20 a @ slice 0 8 b @ slice 16 20 c @ slice 0 8 d
      in (key, iv))"

definition ValidateTemporaryKeyBinding ::
  "primitives \<Rightarrow> bytes \<Rightarrow> int \<Rightarrow> int \<Rightarrow> int \<Rightarrow> int \<Rightarrow> int \<Rightarrow> bytes \<Rightarrow> go_error option" where
  "ValidateTemporaryKeyBinding P permanent temp sessionID messageID nonce expiresAt encrypted =
     (if length encrypted \<noteq> 24 + 80 \<or> le_int (slice 0 8 encrypted) \<noteq> AuthKey_ID P permanent
      then Some (CryptoError InvalidKeyBinding)
      else
        (let msgKey = slice 8 24 encrypted in
         case temporaryBindingKDF P permanent msgKey of (key, iv) \<Rightarrow>
         case NewAESIGEDecrypt key iv of
           Inl e \<Rightarrow> Some e
         | Inr block \<Rightarrow>
             (case CryptBlocks P 80 (drop 24 encrypted) block of
                Inl e \<Rightarrow> Some e
              | Inr (plain, _) \<Rightarrow>
                  if slice 4 20 (sha1 P (take 72 plain)) \<noteq> msgKey then Some (CryptoError InvalidKeyBinding)
                  else if wrap64 (le_int (slice 16 24 plain)) \<noteq> messageID \<or> le_int (slice 24 28 plain) \<noteq> 0 \<or>
                    le_int (slice 28 32 plain) \<noteq> 40 \<or> le_int (slice 32 36 plain) \<noteq> 0x75a3f765
                  then Some (CryptoError InvalidKeyBinding)
                  else if wrap64 (le_int (slice 36 44 plain)) \<noteq> nonce \<or> le_int (slice 44 52 plain) \<noteq> temp \<or>
                    le_int (slice 52 60 plain) \<noteq> AuthKey_ID P permanent \<or> wrap64 (le_int (slice 60 68 plain)) \<noteq> sessionID \<or>
                    wrap32 (le_int (slice 68 72 plain)) \<noteq> expiresAt
                  then Some (CryptoError InvalidKeyBinding)
                  else None)))"

section \<open>The capability\<close>

datatype rpc_failure = BadRequestError string | InternalError string

record Binding =
  bdConnectionID :: int
  bdAuthKeyID :: int
  bdSessionID :: int
  bdLeaseGeneration :: int
  bdServerSalt :: int
  bdUserID :: int
  bdLayer :: int

definition BindingFromContext :: "Binding option \<Rightarrow> Binding option" where
  "BindingFromContext ctx =
     (case ctx of
        None \<Rightarrow> None
      | Some b \<Rightarrow>
          if bdConnectionID b = 0 \<and> bdAuthKeyID b = 0 \<and> bdSessionID b = 0 \<and> bdUserID b = 0 \<and> bdLayer b = 0
          then None else Some b)"

text \<open>The request's message identifier and the binding come from the context, if it has them; the clock is
  read by the two calls of \<open>TemporaryInfo\<close>, by \<open>Get\<close>, for the lifetime and by \<open>BindTemporary\<close>.\<close>

definition BindTemporaryAuthKey ::
  "primitives \<Rightarrow> (nat \<Rightarrow> gotime) \<Rightarrow> int option \<Rightarrow> Binding option \<Rightarrow> int \<Rightarrow> int \<Rightarrow> int \<Rightarrow> bytes \<Rightarrow>
     MemoryAuthKeyManager \<Rightarrow> rpc_failure option \<times> MemoryAuthKeyManager" where
  "BindTemporaryAuthKey P clock request binding permanentID nonce expiresAt encrypted m =
     (case (request, BindingFromContext binding) of
        (Some messageID, Some b) \<Rightarrow>
          (case TemporaryInfo (clock 0) (u64 (bdAuthKeyID b)) m of
             (Some info, None) \<Rightarrow>
               if TemporaryInfo (clock 1) (u64 permanentID) m \<noteq> (None, None)
               then (Some (BadRequestError ''ENCRYPTED_MESSAGE_INVALID''), m)
               else
                 (case AuthKeys_Get (clock 2) (u64 permanentID) m of
                    Inl _ \<Rightarrow> (Some (BadRequestError ''ENCRYPTED_MESSAGE_INVALID''), m)
                  | Inr permanent \<Rightarrow>
                      if ValidateTemporaryKeyBinding P permanent (u64 (bdAuthKeyID b)) (bdSessionID b) messageID nonce
                           expiresAt encrypted \<noteq> None
                      then (Some (BadRequestError ''ENCRYPTED_MESSAGE_INVALID''), m)
                      else
                        (let expires = time_Unix expiresAt;
                             expires = (if expires > tkExpiresAt info then tkExpiresAt info else expires);
                             now = clock 3
                         in if \<not> expires > now \<or> expires > now + MaxTemporaryAuthKeyLifetime
                            then (Some (BadRequestError ''EXPIRES_AT_INVALID''), m)
                            else
                              (case BindTemporary (clock 4) (u64 (bdAuthKeyID b)) (u64 permanentID) expires m of
                                 (None, m) \<Rightarrow> (None, m)
                               | (Some (CryptoError TemporaryKeyAlreadyBound), m) \<Rightarrow>
                                   (Some (BadRequestError ''TEMP_AUTH_KEY_ALREADY_BOUND''), m)
                               | (Some (CryptoError TemporaryKeyExpiry), m) \<Rightarrow> (Some (BadRequestError ''EXPIRES_AT_INVALID''), m)
                               | (Some (CryptoError AuthKeyNotFound), m) \<Rightarrow> (Some (BadRequestError ''TEMP_AUTH_KEY_EMPTY''), m)
                               | (Some _, m) \<Rightarrow> (Some (InternalError ''INTERNAL_SERVER_ERROR''), m))))
           | _ \<Rightarrow> (Some (BadRequestError ''TEMP_AUTH_KEY_EMPTY''), m))
      | _ \<Rightarrow> (Some (BadRequestError ''TEMP_AUTH_KEY_EMPTY''), m))"


section \<open>Invariant\<close>

definition keys_inv :: "MemoryAuthKeyManager \<Rightarrow> bool" where
  "keys_inv m \<longleftrightarrow> gomap_ok (akTemporary m) \<and> length (akTemporary m) \<le> 4096 \<and>
     (\<forall>i info. map_of (akTemporary m) i = Some info \<longrightarrow> akKeys m i \<noteq> None \<and>
        (tkPermanentKeyID info \<noteq> 0 \<longrightarrow>
           akKeys m (tkPermanentKeyID info) \<noteq> None \<and> map_of (akTemporary m) (tkPermanentKeyID info) = None))"

lemma dropAll:
  "akKeys (fold dropTemporary ids m) k = (if k \<in> set ids then None else akKeys m k)"
  "map_of (akTemporary (fold dropTemporary ids m)) k = (if k \<in> set ids then None else map_of (akTemporary m) k)"
  "gomap_ok (akTemporary m) \<Longrightarrow> gomap_ok (akTemporary (fold dropTemporary ids m))"
  "length (akTemporary (fold dropTemporary ids m)) \<le> length (akTemporary m)"
proof (induction ids arbitrary: m)
  case (Cons i ids)
  { case 1 show ?case by (simp add: Cons.IH(1)) (simp add: dropTemporary_def) }
  { case 2 show ?case by (simp add: Cons.IH(2)) (simp add: dropTemporary_def map_of_delete) }
  { case 3 then have "gomap_ok (akTemporary (dropTemporary i m))" by (simp add: dropTemporary_def)
    then show ?case using Cons.IH(3) by simp }
  { case 4 show ?case
      using Cons.IH(4) [of "dropTemporary i m"] length_delete_le [of i "akTemporary m"] by (simp add: dropTemporary_def) }
qed simp_all

definition childrenOf :: "int \<Rightarrow> MemoryAuthKeyManager \<Rightarrow> int list" where
  "childrenOf i m = map fst (filter (\<lambda>(_, info). tkPermanentKeyID info = i) (akTemporary m))"

lemma AuthKeys_Delete_drops:
  "AuthKeys_Delete i m = fold dropTemporary (i # childrenOf i (dropTemporary i m)) m"
proof -
  have "fold (\<lambda>(c, info) m. if tkPermanentKeyID info = i then dropTemporary c m else m) L m' =
      fold dropTemporary (map fst (filter (\<lambda>(_, info). tkPermanentKeyID info = i) L)) m'" for L m'
    by (induction L arbitrary: m') (auto split: prod.splits)
  then show ?thesis by (simp add: AuthKeys_Delete_def childrenOf_def Let_def)
qed

lemma sweepTemporary_drops:
  "\<exists>ids. sweepTemporary clock n L m = fold dropTemporary ids m \<and> set ids \<subseteq> fst ` set L"
proof (induction clock n L m rule: sweepTemporary.induct)
  case (2 clock n i info rest m)
  then obtain ids where ids: "sweepTemporary clock (Suc n) rest (if \<not> clock n < tkExpiresAt info then dropTemporary i m else m) =
      fold dropTemporary ids (if \<not> clock n < tkExpiresAt info then dropTemporary i m else m)" "set ids \<subseteq> fst ` set rest" by blast
  show ?case
  proof (cases "clock n < tkExpiresAt info")
    case True
    with ids show ?thesis by (auto intro: exI [of _ ids])
  next
    case False
    with ids show ?thesis by (intro exI [of _ "i # ids"]) auto
  qed
qed (auto intro: exI [of _ "[]"])

text \<open>Dropping keys keeps the invariant as long as none of them is the parent of a key that stays.\<close>

lemma dropAll_inv:
  assumes "keys_inv m"
    and "\<And>i info. map_of (akTemporary m) i = Some info \<Longrightarrow> tkPermanentKeyID info \<in> set ids \<Longrightarrow> tkPermanentKeyID info \<noteq> 0 \<Longrightarrow> i \<in> set ids"
  shows "keys_inv (fold dropTemporary ids m)"
  using assms dropAll(4) [of ids m] by (auto simp: keys_inv_def dropAll(1-3))

lemma dropTemporaries_inv:
  assumes "keys_inv m" "set ids \<subseteq> dom (map_of (akTemporary m))"
  shows "keys_inv (fold dropTemporary ids m)"
proof (rule dropAll_inv [OF assms(1)])
  fix i info
  assume "map_of (akTemporary m) i = Some info" "tkPermanentKeyID info \<in> set ids" "tkPermanentKeyID info \<noteq> 0"
  then show "i \<in> set ids" using assms by (auto simp: keys_inv_def)
qed

lemma AuthKeys_Delete_inv:
  assumes "keys_inv m"
  shows "keys_inv (AuthKeys_Delete i m)"
proof -
  have ok: "gomap_ok (akTemporary (dropTemporary i m))" using assms by (simp add: keys_inv_def dropTemporary_def)
  show ?thesis unfolding AuthKeys_Delete_drops
  proof (rule dropAll_inv [OF assms])
    fix j info
    assume j: "map_of (akTemporary m) j = Some info" "tkPermanentKeyID info \<in> set (i # childrenOf i (dropTemporary i m))"
      "tkPermanentKeyID info \<noteq> 0"
    have "tkPermanentKeyID info \<notin> set (childrenOf i (dropTemporary i m))"
    proof
      assume "tkPermanentKeyID info \<in> set (childrenOf i (dropTemporary i m))"
      then have "map_of (akTemporary (dropTemporary i m)) (tkPermanentKeyID info) \<noteq> None"
        by (auto simp: childrenOf_def map_of_eq_None_iff)
      then show False using assms j(1,3) by (auto simp: keys_inv_def dropTemporary_def map_of_delete split: if_splits)
    qed
    then have p: "tkPermanentKeyID info = i" using j(2) by simp
    show "j \<in> set (i # childrenOf i (dropTemporary i m))"
    proof (cases "j = i")
      case False
      with j(1) have "map_of (akTemporary (dropTemporary i m)) j = Some info" by (simp add: dropTemporary_def map_of_delete)
      then have "(j, info) \<in> set (akTemporary (dropTemporary i m))" by (simp add: gomap_in_set [OF ok])
      with p show ?thesis by (force simp: childrenOf_def)
    qed simp
  qed
qed

lemma PutTemporary_cases:
  assumes inv: "keys_inv m" and run: "PutTemporary P clock i key expires m = (err, m')"
  obtains ids where "set ids \<subseteq> dom (map_of (akTemporary m))" "keys_inv (fold dropTemporary ids m)" "keys_inv m'"
    "m' = (if err = None then (fold dropTemporary ids m)\<lparr>akKeys := (akKeys (fold dropTemporary ids m))(i \<mapsto> key),
       akTemporary := AList.update i \<lparr>tkExpiresAt = expires, tkPermanentKeyID = 0\<rparr> (akTemporary (fold dropTemporary ids m))\<rparr>
     else fold dropTemporary ids m)"
    "err = None \<Longrightarrow> akKeys (fold dropTemporary ids m) i = None"
proof -
  obtain ids where ids: "sweepTemporary clock 2 (akTemporary m) m = fold dropTemporary ids m" "set ids \<subseteq> fst ` set (akTemporary m)"
    using sweepTemporary_drops [of clock 2 "akTemporary m" m] by blast
  have d: "set ids \<subseteq> dom (map_of (akTemporary m))" using ids(2) by (simp add: dom_gomap)
  let ?m = "fold dropTemporary ids m"
  have k: "keys_inv ?m" by (rule dropTemporaries_inv [OF inv d])
  show thesis
  proof (cases "\<not> expires > clock 0 \<or> expires > clock 1 + MaxTemporaryAuthKeyLifetime \<or> AuthKey_ID P key \<noteq> i")
    case True
    then have "err = Some (CryptoError TemporaryKeyExpiry)" "m' = fold dropTemporary [] m"
      using run by (auto simp: PutTemporary_def)
    with inv show thesis using that [of "[]"] by simp
  next
    case ok: False
    show thesis
    proof (cases "length (akTemporary ?m) \<ge> 4096 \<or> akKeys ?m i \<noteq> None")
      case True
      then obtain e where "err = Some e" "m' = ?m" using run ok by (auto simp: PutTemporary_def ids(1) Let_def split: if_splits)
      with d k show thesis using that [of ids] by simp
    next
      case False
      then have m': "err = None" "m' = ?m\<lparr>akKeys := (akKeys ?m)(i \<mapsto> key),
          akTemporary := AList.update i \<lparr>tkExpiresAt = expires, tkPermanentKeyID = 0\<rparr> (akTemporary ?m)\<rparr>"
        using run ok by (auto simp: PutTemporary_def ids(1) Let_def)
      have "tkPermanentKeyID info \<noteq> i" if "map_of (akTemporary ?m) j = Some info" "tkPermanentKeyID info \<noteq> 0" for j info
        using k that False unfolding keys_inv_def by metis
      then have "keys_inv m'"
        using k False length_update_le [of i "\<lparr>tkExpiresAt = expires, tkPermanentKeyID = 0\<rparr>" "akTemporary ?m"]
        by (auto simp: keys_inv_def m'(2) map_of_update split: if_splits)
      with m' d k False show thesis using that [of ids] by simp
    qed
  qed
qed

lemma BindTemporary_inv:
  assumes inv: "keys_inv m" and run: "BindTemporary now i parent expires m = (err, m')"
  shows "keys_inv m'"
proof (cases err)
  case (Some e)
  then have "m' = m" using run by (auto simp: BindTemporary_def split: option.splits if_splits)
  then show ?thesis using inv by simp
next
  case None
  then obtain info where i: "map_of (akTemporary m) i = Some info" "akKeys m parent \<noteq> None" "map_of (akTemporary m) parent = None"
    "parent \<noteq> i" "m' = m\<lparr>akTemporary := AList.update i (info\<lparr>tkPermanentKeyID := parent, tkExpiresAt := expires\<rparr>) (akTemporary m)\<rparr>"
    using run by (auto simp: BindTemporary_def split: option.splits if_splits)
  then have "length (akTemporary m') = length (akTemporary m)" by (auto simp: length_update)
  moreover have "tkPermanentKeyID jinfo \<noteq> i" if "map_of (akTemporary m) j = Some jinfo" "tkPermanentKeyID jinfo \<noteq> 0" for j jinfo
    using inv that i(1) by (auto simp: keys_inv_def)
  ultimately show ?thesis using inv i by (auto simp: keys_inv_def map_of_update split: if_splits)
qed


section \<open>Histories\<close>

datatype key_op =
    OpPut int bytes
  | OpDelete int
  | OpPutTemporary "nat \<Rightarrow> gotime" int bytes gotime
  | OpExpireTimer gotime int
  | OpBind gotime int int gotime

fun keyStep :: "primitives \<Rightarrow> key_op \<Rightarrow> MemoryAuthKeyManager \<Rightarrow> MemoryAuthKeyManager" where
  "keyStep P (OpPut i key) m = AuthKeys_Put i key m"
| "keyStep P (OpDelete i) m = AuthKeys_Delete i m"
| "keyStep P (OpPutTemporary clock i key expires) m = snd (PutTemporary P clock i key expires m)"
| "keyStep P (OpExpireTimer now i) m = expireTemporary now i m"
| "keyStep P (OpBind now i parent expires) m = snd (BindTemporary now i parent expires m)"

lemma expireTemporary_drops: "\<exists>ids. expireTemporary now i m = fold dropTemporary ids m \<and> set ids \<subseteq> dom (map_of (akTemporary m))"
proof (cases "map_of (akTemporary m) i")
  case None
  then show ?thesis by (intro exI [of _ "[]"]) (simp add: expireTemporary_def)
next
  case (Some info)
  then show ?thesis
    by (cases "now < tkExpiresAt info") (auto simp: expireTemporary_def intro: exI [of _ "[]"] exI [of _ "[i]"])
qed

lemma keyStep_inv:
  assumes "keys_inv m"
  shows "keys_inv (keyStep P op m)"
proof (cases op)
  case (OpPut i key)
  then show ?thesis using assms by (auto simp: AuthKeys_Put_def keys_inv_def)
next
  case (OpDelete i)
  then show ?thesis using AuthKeys_Delete_inv [OF assms] by simp
next
  case (OpPutTemporary clock i key expires)
  obtain err m' where r: "PutTemporary P clock i key expires m = (err, m')" by fastforce
  show ?thesis by (rule PutTemporary_cases [OF assms r]) (simp add: OpPutTemporary r)
next
  case (OpExpireTimer now i)
  then show ?thesis using expireTemporary_drops [of now i m] dropTemporaries_inv [OF assms] by auto
next
  case (OpBind now i parent expires)
  obtain err m' where r: "BindTemporary now i parent expires m = (err, m')" by fastforce
  then show ?thesis using BindTemporary_inv [OF assms r] by (simp add: OpBind)
qed

text \<open>What remains of a temporary key whose secret is not stored again: it is gone, or it is the same secret
  with at most its lifetime and with its binding.\<close>

definition same_temporary :: "int \<Rightarrow> bytes \<Rightarrow> TemporaryAuthKeyInfo \<Rightarrow> MemoryAuthKeyManager \<Rightarrow> bool" where
  "same_temporary i key info m \<longleftrightarrow> akKeys m i = Some key \<and>
     (\<exists>info'. map_of (akTemporary m) i = Some info' \<and> tkExpiresAt info' \<le> tkExpiresAt info \<and>
        (tkPermanentKeyID info \<noteq> 0 \<longrightarrow> tkPermanentKeyID info' = tkPermanentKeyID info))"

fun stores :: "int \<Rightarrow> key_op \<Rightarrow> bool" where
  "stores i (OpPut j _) \<longleftrightarrow> i = j" | "stores i (OpPutTemporary _ j _ _) \<longleftrightarrow> i = j" | "stores i _ \<longleftrightarrow> False"

lemma drops_tracks:
  "same_temporary i key info m \<Longrightarrow>
     akKeys (fold dropTemporary ids m) i = None \<or> same_temporary i key info (fold dropTemporary ids m)"
  by (simp add: same_temporary_def dropAll)

lemma keyStep_gone:
  assumes "keys_inv m" "\<not> stores i op" "akKeys m i = None"
  shows "akKeys (keyStep P op m) i = None"
proof (cases op)
  case (OpPut j key)
  then show ?thesis using assms by (simp add: AuthKeys_Put_def)
next
  case (OpDelete j)
  then show ?thesis
    using assms(3) dropAll(1) [of "j # childrenOf j (dropTemporary j m)" m i] by (simp only: keyStep.simps AuthKeys_Delete_drops) simp
next
  case (OpPutTemporary clock j key expires)
  obtain err m' where r: "PutTemporary P clock j key expires m = (err, m')" by fastforce
  show ?thesis by (rule PutTemporary_cases [OF assms(1) r]) (use assms(2,3) in \<open>auto simp: OpPutTemporary r dropAll(1)\<close>)
next
  case (OpExpireTimer now j)
  then show ?thesis using expireTemporary_drops [of now j m] assms(3) by (auto simp: dropAll(1))
next
  case (OpBind now j parent expires)
  then show ?thesis using assms(3) by (auto simp: BindTemporary_def split: option.splits)
qed

lemma keyStep_tracks:
  assumes inv: "keys_inv m" and op: "\<not> stores i op" and same: "same_temporary i key info m"
  shows "akKeys (keyStep P op m) i = None \<or>
    (same_temporary i key info (keyStep P op m) \<and> (tkPermanentKeyID info \<noteq> 0 \<longrightarrow> op \<noteq> OpDelete (tkPermanentKeyID info)))"
proof (cases op)
  case (OpPut j key')
  then show ?thesis using op same by (auto simp: AuthKeys_Put_def same_temporary_def)
next
  case (OpDelete j)
  note d = AuthKeys_Delete_drops [of j m]
  show ?thesis
  proof (cases "tkPermanentKeyID info \<noteq> 0 \<and> j = tkPermanentKeyID info")
    case True
    obtain info' where i: "map_of (akTemporary m) i = Some info'" "tkPermanentKeyID info' = j"
      using same True by (auto simp: same_temporary_def)
    then have "i \<noteq> j" using inv True unfolding keys_inv_def by (metis option.distinct(1))
    then have "map_of (akTemporary (dropTemporary j m)) i = Some info'" using i(1) by (simp add: dropTemporary_def map_of_delete)
    then have "i \<in> set (childrenOf j (dropTemporary j m))" using i(2) by (force simp: childrenOf_def dest: map_of_SomeD)
    then show ?thesis
      using dropAll(1) [of "j # childrenOf j (dropTemporary j m)" m i] by (simp only: OpDelete keyStep.simps d) simp
  next
    case False
    then show ?thesis
      using drops_tracks [OF same, of "j # childrenOf j (dropTemporary j m)"] by (simp only: OpDelete keyStep.simps d) auto
  qed
next
  case (OpPutTemporary clock j key' expires)
  obtain err m' where r: "PutTemporary P clock j key' expires m = (err, m')" by fastforce
  show ?thesis
  proof (rule PutTemporary_cases [OF inv r])
    fix ids
    assume m': "m' = (if err = None then (fold dropTemporary ids m)\<lparr>akKeys := (akKeys (fold dropTemporary ids m))(j \<mapsto> key'),
       akTemporary := AList.update j \<lparr>tkExpiresAt = expires, tkPermanentKeyID = 0\<rparr> (akTemporary (fold dropTemporary ids m))\<rparr>
     else fold dropTemporary ids m)"
    have "i \<noteq> j" using op by (simp add: OpPutTemporary)
    then show ?thesis
      using drops_tracks [OF same, of ids] by (cases "err = None") (auto simp: OpPutTemporary r m' same_temporary_def map_of_update)
  qed
next
  case (OpExpireTimer now j)
  obtain ids where "expireTemporary now j m = fold dropTemporary ids m" using expireTemporary_drops [of now j m] by blast
  then show ?thesis using drops_tracks [OF same, of ids] by (auto simp: OpExpireTimer)
next
  case (OpBind now j parent expires)
  obtain err m' where r: "BindTemporary now j parent expires m = (err, m')" by fastforce
  show ?thesis
  proof (cases err)
    case (Some e)
    then have "m' = m" using r by (auto simp: BindTemporary_def split: option.splits if_splits)
    then show ?thesis using same by (simp add: OpBind r)
  next
    case None
    then obtain jinfo where j: "map_of (akTemporary m) j = Some jinfo"
      "tkPermanentKeyID jinfo = 0 \<or> tkPermanentKeyID jinfo = parent" "expires \<le> tkExpiresAt jinfo"
      "m' = m\<lparr>akTemporary := AList.update j (jinfo\<lparr>tkPermanentKeyID := parent, tkExpiresAt := expires\<rparr>) (akTemporary m)\<rparr>"
      using r by (auto simp: BindTemporary_def split: option.splits if_splits)
    then show ?thesis using same by (auto simp: OpBind r same_temporary_def map_of_update)
  qed
qed

lemma keySteps_gone:
  assumes "keys_inv m" "\<forall>op \<in> set ops. \<not> stores i op" "akKeys m i = None"
  shows "akKeys (fold (keyStep P) ops m) i = None"
  using assms
proof (induction ops arbitrary: m)
  case (Cons op ops)
  then show ?case using keyStep_inv keyStep_gone by simp
qed simp

lemma keySteps_track:
  assumes "keys_inv m" "\<forall>op \<in> set ops. \<not> stores i op" "same_temporary i key info m"
  shows "akKeys (fold (keyStep P) ops m) i = None \<or>
    (same_temporary i key info (fold (keyStep P) ops m) \<and> (tkPermanentKeyID info \<noteq> 0 \<longrightarrow> OpDelete (tkPermanentKeyID info) \<notin> set ops))"
  using assms
proof (induction ops arbitrary: m)
  case (Cons op ops)
  have inv: "keys_inv (keyStep P op m)" by (rule keyStep_inv [OF Cons.prems(1)])
  consider (gone) "akKeys (keyStep P op m) i = None"
    | (same) "same_temporary i key info (keyStep P op m)" "tkPermanentKeyID info \<noteq> 0 \<longrightarrow> op \<noteq> OpDelete (tkPermanentKeyID info)"
    using keyStep_tracks [OF Cons.prems(1) _ Cons.prems(3), of op P] Cons.prems(2) by auto
  then show ?case
  proof cases
    case gone
    then show ?thesis using keySteps_gone [OF inv _ gone, of ops P] Cons.prems(2) by simp
  next
    case same
    then show ?thesis using Cons.IH [OF inv _ same(1)] Cons.prems(2) by auto
  qed
qed simp

lemma keySteps_inv: "keys_inv m \<Longrightarrow> keys_inv (fold (keyStep P) ops m)"
  by (induction ops arbitrary: m) (auto intro: keyStep_inv)

lemma NewMemoryAuthKeyManager_inv: "keys_inv NewMemoryAuthKeyManager"
  by (simp add: NewMemoryAuthKeyManager_def keys_inv_def)


section \<open>Binding envelopes\<close>

text \<open>The envelope a client makes: the binding encrypted under the permanent key, with its random prefix and
  its padding.\<close>

definition bindingPlaintext :: "int \<Rightarrow> int \<Rightarrow> int \<Rightarrow> int \<Rightarrow> int \<Rightarrow> int \<Rightarrow> bytes \<Rightarrow> bytes \<Rightarrow> bytes" where
  "bindingPlaintext permanentID temp sessionID messageID nonce expiresAt random padding =
     random @ le_bytes 8 messageID @ le_bytes 4 0 @ le_bytes 4 40 @ le_bytes 4 0x75a3f765 @ le_bytes 8 nonce @
     le_bytes 8 temp @ le_bytes 8 permanentID @ le_bytes 8 sessionID @ le_bytes 4 expiresAt @ padding"

definition sealBinding :: "primitives \<Rightarrow> bytes \<Rightarrow> bytes \<Rightarrow> go_error + bytes" where
  "sealBinding P permanent plain =
     (let msgKey = slice 4 20 (sha1 P (take 72 plain)) in
      case temporaryBindingKDF P permanent msgKey of (key, iv) \<Rightarrow>
      map_sum id (\<lambda>c. le_bytes 8 (AuthKey_ID P permanent) @ msgKey @ c) (EncryptIGE P (length plain) plain key iv))"

lemma slice_append:
  assumes "i \<le> j" "j \<le> k"
  shows "slice i j bs @ slice j k bs = slice i k bs"
proof -
  have "slice i k bs = take (j - i + (k - j)) (drop i bs)" using assms by (simp add: slice_def)
  also have "\<dots> = slice i j bs @ slice j k bs" using assms by (simp only: take_add drop_drop slice_def) simp
  finally show ?thesis by simp
qed

lemma slice_all: "slice 0 (length bs) bs = bs"
  by (simp add: slice_def)

lemma slice_le: "length (slice i j bs) = n \<Longrightarrow> le_int (slice i j bs) = v mod 256 ^ n \<Longrightarrow> slice i j bs = le_bytes n v"
  by (metis le_bytes_le_int le_bytes_mod)

lemma temporaryBindingKDF_lengths:
  assumes "primitives_ok P" "temporaryBindingKDF P permanent msgKey = (key, iv)"
  shows "length key = 32" "length iv = 32"
  using assms by (auto simp: temporaryBindingKDF_def Let_def primitives_ok_def slice_def)

lemma wrap64_eq: "in_u64 x \<Longrightarrow> in_i64 v \<Longrightarrow> wrap64 x = v \<longleftrightarrow> x = v mod 2 ^ 64"
  by (metis u64_def u64_id u64_wrap64 wrap64_id wrap64_mod)

lemma wrap32_eq: "in_u32 x \<Longrightarrow> in_i32 v \<Longrightarrow> wrap32 x = v \<longleftrightarrow> x = v mod 2 ^ 32"
  by (metis u32_def u32_id u32_wrap32 wrap32_id wrap32_mod)

text \<open>The fields of a plaintext of the right length are compared one by one; together they determine it up to
  its prefix and its padding.\<close>

lemma bindingPlaintext_fields:
  assumes "length plain = 80" "in_u64 permanentID" "in_u64 temp" "in_i64 sessionID" "in_i64 messageID" "in_i64 nonce" "in_i32 expiresAt"
  shows "(wrap64 (le_int (slice 16 24 plain)) = messageID \<and> le_int (slice 24 28 plain) = 0 \<and> le_int (slice 28 32 plain) = 40 \<and>
      le_int (slice 32 36 plain) = 0x75a3f765 \<and> wrap64 (le_int (slice 36 44 plain)) = nonce \<and> le_int (slice 44 52 plain) = temp \<and>
      le_int (slice 52 60 plain) = permanentID \<and> wrap64 (le_int (slice 60 68 plain)) = sessionID \<and>
      wrap32 (le_int (slice 68 72 plain)) = expiresAt) \<longleftrightarrow>
    (\<exists>random padding. length random = 16 \<and> length padding = 8 \<and>
       plain = bindingPlaintext permanentID temp sessionID messageID nonce expiresAt random padding)"
    (is "?fields \<longleftrightarrow> ?form")
proof
  assume f: ?fields
  have len: "length (slice i j plain) = j - i" if "i \<le> j" "j \<le> 80" for i j using that assms(1) by (simp add: length_slice)
  have u: "in_u64 (le_int (slice 16 24 plain))" "in_u64 (le_int (slice 36 44 plain))" "in_u64 (le_int (slice 60 68 plain))"
    "in_u32 (le_int (slice 68 72 plain))"
    using len by (auto intro!: le_int_u64 le_int_u32)
  have "slice 16 24 plain = le_bytes 8 messageID" "slice 24 28 plain = le_bytes 4 0" "slice 28 32 plain = le_bytes 4 40"
    "slice 32 36 plain = le_bytes 4 0x75a3f765" "slice 36 44 plain = le_bytes 8 nonce" "slice 44 52 plain = le_bytes 8 temp"
    "slice 52 60 plain = le_bytes 8 permanentID" "slice 60 68 plain = le_bytes 8 sessionID" "slice 68 72 plain = le_bytes 4 expiresAt"
    using f u assms len by (auto intro!: slice_le simp: wrap64_eq wrap32_eq in_u64_def)
  moreover have "plain = slice 0 16 plain @ slice 16 24 plain @ slice 24 28 plain @ slice 28 32 plain @ slice 32 36 plain @
      slice 36 44 plain @ slice 44 52 plain @ slice 52 60 plain @ slice 60 68 plain @ slice 68 72 plain @ slice 72 80 plain"
    using slice_all [of plain] assms(1) by (simp add: slice_append)
  ultimately have "plain = bindingPlaintext permanentID temp sessionID messageID nonce expiresAt (slice 0 16 plain) (slice 72 80 plain)"
    by (simp add: bindingPlaintext_def)
  moreover have "length (slice 0 16 plain) = 16" "length (slice 72 80 plain) = 8" by (simp_all add: len)
  ultimately show ?form by blast
next
  assume ?form
  then obtain random padding where p: "length random = 16" "length padding = 8"
    "plain = bindingPlaintext permanentID temp sessionID messageID nonce expiresAt random padding" by blast
  have "slice 16 24 plain = le_bytes 8 messageID" "slice 24 28 plain = le_bytes 4 0" "slice 28 32 plain = le_bytes 4 40"
    "slice 32 36 plain = le_bytes 4 0x75a3f765" "slice 36 44 plain = le_bytes 8 nonce" "slice 44 52 plain = le_bytes 8 temp"
    "slice 52 60 plain = le_bytes 8 permanentID" "slice 60 68 plain = le_bytes 8 sessionID" "slice 68 72 plain = le_bytes 4 expiresAt"
    using p(1,2) by (simp_all add: p(3) bindingPlaintext_def slice_def)
  moreover have "wrap64 (v mod 18446744073709551616) = wrap64 v" "wrap32 (v mod 4294967296) = wrap32 v" for v
    using wrap64_mod [of v] wrap32_mod [of v] by simp_all
  ultimately show ?fields using assms by (simp add: in_u64_def)
qed


lemma ValidateTemporaryKeyBinding_iff:
  assumes P: "primitives_ok P" and r: "in_u64 temp" "in_i64 sessionID" "in_i64 messageID" "in_i64 nonce" "in_i32 expiresAt"
  shows "ValidateTemporaryKeyBinding P permanent temp sessionID messageID nonce expiresAt encrypted = None \<longleftrightarrow>
    (\<exists>random padding. length random = 16 \<and> length padding = 8 \<and>
       sealBinding P permanent (bindingPlaintext (AuthKey_ID P permanent) temp sessionID messageID nonce expiresAt random padding) =
         Inr encrypted)"
    (is "?valid \<longleftrightarrow> ?sealed")
proof
  assume v: ?valid
  let ?msgKey = "slice 8 24 encrypted"
  obtain key iv where kdf: "temporaryBindingKDF P permanent ?msgKey = (key, iv)" by fastforce
  note kl = temporaryBindingKDF_lengths [OF P kdf]
  have len: "length encrypted = 104" "le_int (slice 0 8 encrypted) = AuthKey_ID P permanent"
    using v by (auto simp: ValidateTemporaryKeyBinding_def split: if_splits)
  have ige: "NewAESIGEDecrypt key iv = Inr \<lparr>ige_key = key, ige_iv = iv, ige_decrypt = True\<rparr>"
    using kl by (simp add: NewAESIGEDecrypt_def aes256KeySize_def igeIVSize_def)
  obtain plain m where plain: "CryptBlocks P 80 (drop 24 encrypted) \<lparr>ige_key = key, ige_iv = iv, ige_decrypt = True\<rparr> = Inr (plain, m)"
    using v len by (auto simp: ValidateTemporaryKeyBinding_def Let_def kdf ige split: if_splits sum.splits)
  have dec: "cryptIGE P 80 (drop 24 encrypted) key iv True = Inr plain"
    using CryptBlocks_fresh [OF kl, of P 80 "drop 24 encrypted" True] plain by simp
  note inv = cryptIGE_inverse [OF P kl(1) dec]
  have pl: "length plain = 80" using inv(1) len(1) by simp
  have enc: "EncryptIGE P (length plain) plain key iv = Inr (drop 24 encrypted)" using inv(2) by (simp add: EncryptIGE_def)
  have mk: "slice 4 20 (sha1 P (take 72 plain)) = ?msgKey"
    using v len by (auto simp: ValidateTemporaryKeyBinding_def Let_def kdf ige plain split: if_splits)
  have "\<exists>random padding. length random = 16 \<and> length padding = 8 \<and>
      plain = bindingPlaintext (AuthKey_ID P permanent) temp sessionID messageID nonce expiresAt random padding"
    unfolding bindingPlaintext_fields [OF pl AuthKey_ID_range r, symmetric]
    using v len by (simp add: ValidateTemporaryKeyBinding_def Let_def kdf ige plain mk split: if_splits)
  then obtain random padding where p: "length random = 16" "length padding = 8"
      "plain = bindingPlaintext (AuthKey_ID P permanent) temp sessionID messageID nonce expiresAt random padding" by blast
  have "slice 0 8 encrypted = le_bytes 8 (AuthKey_ID P permanent)"
    using len le_bytes_le_int [of "slice 0 8 encrypted"] by (simp add: length_slice)
  moreover have "slice 0 8 encrypted @ ?msgKey = take 24 encrypted"
    using slice_append [of 0 8 24 encrypted] by (simp add: slice_def)
  then have "slice 0 8 encrypted @ ?msgKey @ drop 24 encrypted = encrypted" by (simp flip: append_assoc)
  ultimately have "sealBinding P permanent plain = Inr encrypted" by (simp add: sealBinding_def Let_def mk kdf enc)
  with p show ?sealed by blast
next
  assume ?sealed
  then obtain random padding where rp: "length random = 16" "length padding = 8"
    "sealBinding P permanent (bindingPlaintext (AuthKey_ID P permanent) temp sessionID messageID nonce expiresAt random padding) =
      Inr encrypted" by blast
  define plain where "plain = bindingPlaintext (AuthKey_ID P permanent) temp sessionID messageID nonce expiresAt random padding"
  define msgKey where "msgKey = slice 4 20 (sha1 P (take 72 plain))"
  obtain key iv where kdf: "temporaryBindingKDF P permanent msgKey = (key, iv)" by fastforce
  note kl = temporaryBindingKDF_lengths [OF P kdf]
  have pl: "length plain = 80" using rp(1,2) by (simp add: plain_def bindingPlaintext_def)
  have ml: "length msgKey = 16" using P by (simp add: msgKey_def primitives_ok_def slice_def)
  obtain c where c: "EncryptIGE P 80 plain key iv = Inr c" "encrypted = le_bytes 8 (AuthKey_ID P permanent) @ msgKey @ c"
    using rp(3) pl unfolding plain_def [symmetric]
    by (cases "EncryptIGE P 80 plain key iv") (auto simp: sealBinding_def Let_def msgKey_def [symmetric] kdf)
  have inv: "length c = 80" "cryptIGE P 80 c key iv True = Inr plain"
    using cryptIGE_inverse [OF P kl(1) c(1) [unfolded EncryptIGE_def]] pl by simp_all
  have e: "length encrypted = 104" "slice 0 8 encrypted = le_bytes 8 (AuthKey_ID P permanent)" "slice 8 24 encrypted = msgKey"
    "drop 24 encrypted = c"
    using c(2) ml inv(1) by (simp_all add: slice_def)
  have ige: "NewAESIGEDecrypt key iv = Inr \<lparr>ige_key = key, ige_iv = iv, ige_decrypt = True\<rparr>"
    using kl by (simp add: NewAESIGEDecrypt_def aes256KeySize_def igeIVSize_def)
  obtain m where plain: "CryptBlocks P 80 c \<lparr>ige_key = key, ige_iv = iv, ige_decrypt = True\<rparr> = Inr (plain, m)"
    using CryptBlocks_fresh [OF kl, of P 80 c True] inv(2)
    by (cases "CryptBlocks P 80 c \<lparr>ige_key = key, ige_iv = iv, ige_decrypt = True\<rparr>") auto
  have "le_int (le_bytes 8 (AuthKey_ID P permanent)) = AuthKey_ID P permanent"
    using AuthKey_ID_range [of P permanent] by (simp add: in_u64_def)
  moreover have "\<exists>random padding. length random = 16 \<and> length padding = 8 \<and>
      plain = bindingPlaintext (AuthKey_ID P permanent) temp sessionID messageID nonce expiresAt random padding"
    using rp(1,2) plain_def by blast
  note iffD2 [OF bindingPlaintext_fields [OF pl AuthKey_ID_range [of P permanent] r] this]
  ultimately show ?valid
    by (simp add: ValidateTemporaryKeyBinding_def Let_def e kdf ige plain msgKey_def [symmetric])
qed


section \<open>Properties\<close>

text \<open>C23. Lifetime of temporary keys.  Take any reachable store with a temporary key in it and any further
  history in which that key is not stored again.  If the key can still be fetched at the end, then it is the
  same secret, its original expiry has not been reached, and if it was bound, its permanent key is still
  there and was never deleted in between: neither rebinding, nor sweeps and timers, nor the revocation of
  other keys can prolong it.  The store never holds more than 4096 temporary keys.\<close>

theorem temporary_key_lifetime:
  assumes "m = fold (keyStep P) before NewMemoryAuthKeyManager" "map_of (akTemporary m) i = Some info"
    and "\<forall>op \<in> set later. \<not> stores i op" "AuthKeys_Get now i (fold (keyStep P) later m) = Inr key"
  shows "akKeys m i = Some key \<and> now < tkExpiresAt info \<and>
    (tkPermanentKeyID info \<noteq> 0 \<longrightarrow> OpDelete (tkPermanentKeyID info) \<notin> set later \<and>
       akKeys (fold (keyStep P) later m) (tkPermanentKeyID info) \<noteq> None) \<and>
    length (akTemporary (fold (keyStep P) later m)) \<le> 4096"
proof -
  let ?m = "fold (keyStep P) later m"
  have inv: "keys_inv m" unfolding assms(1) by (rule keySteps_inv [OF NewMemoryAuthKeyManager_inv])
  note inv' = keySteps_inv [OF inv, of P later]
  obtain k where k: "akKeys m i = Some k" using inv assms(2) by (auto simp: keys_inv_def)
  have get: "akKeys ?m i = Some key" using assms(4) by (auto simp: AuthKeys_Get_def Let_def split: option.splits if_splits)
  have "same_temporary i k info m" using k assms(2) by (simp add: same_temporary_def)
  from keySteps_track [OF inv assms(3) this, of P] get
  have same: "same_temporary i k info ?m" "tkPermanentKeyID info \<noteq> 0 \<longrightarrow> OpDelete (tkPermanentKeyID info) \<notin> set later" by simp_all
  then obtain info' where i: "map_of (akTemporary ?m) i = Some info'" "tkExpiresAt info' \<le> tkExpiresAt info"
    "tkPermanentKeyID info \<noteq> 0 \<longrightarrow> tkPermanentKeyID info' = tkPermanentKeyID info" "k = key"
    using get by (auto simp: same_temporary_def)
  have "now < tkExpiresAt info'" using assms(4) i(1) by (auto simp: AuthKeys_Get_def Let_def split: if_splits)
  moreover have "tkPermanentKeyID info' \<noteq> 0 \<longrightarrow> akKeys ?m (tkPermanentKeyID info') \<noteq> None" "length (akTemporary ?m) \<le> 4096"
    using inv' i(1) unfolding keys_inv_def by blast+
  ultimately show ?thesis using k i same(2) by auto
qed

definition exampleKeys :: MemoryAuthKeyManager where
  "exampleKeys = fold (keyStep examplePrimitives)
     [OpPut 5 [5], OpPutTemporary (\<lambda>_. 10) exampleKeyID exampleAuthKey 50, OpBind 11 exampleKeyID 5 40] NewMemoryAuthKeyManager"

lemma exampleKeys_eq:
  "exampleKeys = \<lparr>akKeys = [5 \<mapsto> [5], exampleKeyID \<mapsto> exampleAuthKey],
     akTemporary = [(exampleKeyID, \<lparr>tkExpiresAt = 40, tkPermanentKeyID = 5\<rparr>)]\<rparr>"
  by (simp add: exampleKeys_def NewMemoryAuthKeyManager_def AuthKeys_Put_def PutTemporary_def BindTemporary_def
      exampleKeyID_eq MaxTemporaryAuthKeyLifetime_def second_def Let_def) (simp add: exampleKeyID_def)

theorem temporary_key_lifetime_witness:
  "AuthKeys_Get 39 exampleKeyID (fold (keyStep examplePrimitives) [OpExpireTimer 39 exampleKeyID] exampleKeys) = Inr exampleAuthKey \<and>
   (39::int) < 40"
proof -
  have t: "map_of (akTemporary exampleKeys) exampleKeyID = Some \<lparr>tkExpiresAt = 40, tkPermanentKeyID = 5\<rparr>"
    by (simp add: exampleKeys_eq)
  have g: "AuthKeys_Get 39 exampleKeyID (fold (keyStep examplePrimitives) [OpExpireTimer 39 exampleKeyID] exampleKeys) = Inr exampleAuthKey"
    by (simp add: exampleKeys_eq expireTemporary_def AuthKeys_Get_def)
  show ?thesis using temporary_key_lifetime [OF exampleKeys_def t _ g] g by simp
qed

text \<open>C24. Binding needs the permanent key.  A temporary key is bound only by an envelope that is the
  encryption, under the named permanent key, of exactly this binding: the temporary key and the session it
  is used in, the request's message identifier, the nonce and the expiry.  On success the key is recorded
  under that permanent key with the earlier of the requested and the original expiry; on failure the store
  is unchanged.\<close>

theorem binding_authentic:
  assumes "primitives_ok P" "in_i64 (bdSessionID b)" "in_i64 messageID" "in_i64 nonce" "in_i32 expiresAt"
    and "BindTemporaryAuthKey P clock (Some messageID) (Some b) permanentID nonce expiresAt encrypted m = (err, m')"
  shows "case err of
      Some e \<Rightarrow> m' = m
    | None \<Rightarrow> (\<exists>permanent info random padding. let temp = u64 (bdAuthKeyID b) in
        akKeys m (u64 permanentID) = Some permanent \<and> map_of (akTemporary m) temp = Some info \<and>
        length random = 16 \<and> length padding = 8 \<and>
        sealBinding P permanent (bindingPlaintext (AuthKey_ID P permanent) temp (bdSessionID b) messageID nonce expiresAt
          random padding) = Inr encrypted \<and>
        map_of (akTemporary m') = (map_of (akTemporary m))(temp \<mapsto>
          \<lparr>tkExpiresAt = min (time_Unix expiresAt) (tkExpiresAt info), tkPermanentKeyID = u64 permanentID\<rparr>))"
proof -
  have same: "m'' = m" if "BindTemporary t i p x m = (Some e, m'')" for t i p x e m''
    using that by (auto simp: BindTemporary_def split: option.splits if_splits)
  show ?thesis
  proof (cases err)
    case (Some e)
    then show ?thesis
      using assms(6) same
      by (auto simp: BindTemporaryAuthKey_def Let_def split: option.splits if_splits sum.splits prod.splits go_error.splits crypto_error.splits)
  next
    case None
    let ?temp = "u64 (bdAuthKeyID b)"
    obtain info permanent where i: "TemporaryInfo (clock 0) ?temp m = (Some info, None)"
      "AuthKeys_Get (clock 2) (u64 permanentID) m = Inr permanent"
      "ValidateTemporaryKeyBinding P permanent ?temp (bdSessionID b) messageID nonce expiresAt encrypted = None"
      "BindTemporary (clock 4) ?temp (u64 permanentID) (min (time_Unix expiresAt) (tkExpiresAt info)) m = (None, m')"
      using assms(6) None
      by (auto simp: BindTemporaryAuthKey_def BindingFromContext_def Let_def min_def
        split: option.splits if_splits sum.splits prod.splits go_error.splits crypto_error.splits)
    have "akKeys m (u64 permanentID) = Some permanent"
      using i(2) by (auto simp: AuthKeys_Get_def Let_def split: if_splits option.splits)
    moreover have t: "map_of (akTemporary m) ?temp = Some info"
      using i(1) by (auto simp: TemporaryInfo_def split: option.splits if_splits)
    moreover have "map_of (akTemporary m') = (map_of (akTemporary m))(?temp \<mapsto>
          \<lparr>tkExpiresAt = min (time_Unix expiresAt) (tkExpiresAt info), tkPermanentKeyID = u64 permanentID\<rparr>)"
      using i(4) t by (cases info) (auto simp: BindTemporary_def map_of_update split: if_splits)
    moreover have "\<exists>random padding. length random = 16 \<and> length padding = 8 \<and>
        sealBinding P permanent (bindingPlaintext (AuthKey_ID P permanent) ?temp (bdSessionID b) messageID nonce expiresAt
          random padding) = Inr encrypted"
      using i(3) ValidateTemporaryKeyBinding_iff [OF assms(1) u64_range assms(2-5)] by simp
    ultimately show ?thesis unfolding None by (simp add: Let_def)
  qed
qed


definition exampleBindable :: MemoryAuthKeyManager where
  "exampleBindable = \<lparr>akKeys = [7 \<mapsto> replicate 256 2, exampleKeyID \<mapsto> exampleAuthKey],
     akTemporary = [(exampleKeyID, \<lparr>tkExpiresAt = time_Unix 1000, tkPermanentKeyID = 0\<rparr>)]\<rparr>"

definition exampleBinding :: Binding where
  "exampleBinding = \<lparr>bdConnectionID = 1, bdAuthKeyID = exampleKeyID, bdSessionID = 6, bdLeaseGeneration = 1, bdServerSalt = 0,
     bdUserID = 0, bdLayer = 0\<rparr>"

definition exampleEnvelope :: bytes where
  "exampleEnvelope = projr (sealBinding examplePrimitives (replicate 256 2)
     (bindingPlaintext 0x0202020202020202 exampleKeyID 6 8 9 990 (replicate 16 3) (replicate 8 4)))"

lemma exampleBind_accepts:
  "fst (BindTemporaryAuthKey examplePrimitives (\<lambda>_. time_Unix 900) (Some 8) (Some exampleBinding) 7 9 990 exampleEnvelope exampleBindable) = None"
  by code_simp

theorem binding_authentic_witness:
  "\<exists>permanent random padding. akKeys exampleBindable 7 = Some permanent \<and>
     sealBinding examplePrimitives permanent (bindingPlaintext (AuthKey_ID examplePrimitives permanent) exampleKeyID 6 8 9 990
       random padding) = Inr exampleEnvelope"
proof -
  obtain m' where m': "BindTemporaryAuthKey examplePrimitives (\<lambda>_. time_Unix 900) (Some 8) (Some exampleBinding) 7 9 990
      exampleEnvelope exampleBindable = (None, m')"
    using exampleBind_accepts by (metis prod.collapse)
  have "u64 exampleKeyID = exampleKeyID" "u64 7 = 7" by (simp_all add: exampleKeyID_def u64_def)
  then show ?thesis
    using binding_authentic [OF examplePrimitives_ok _ _ _ _ m']
    by (auto simp: exampleBinding_def range_defs Let_def)
qed

end
