(* ===== verification/Handshake_Crypto.thy ===== *)
theory Handshake_Crypto
  imports Message_Envelope Go_Map
begin

text \<open>
  The cryptography of the authorization handshake: the Diffie-Hellman group, the temporary key and the nonce
  hashes of \<open>crypto/dh.go\<close> with its factorization and its TL byte strings, the \<open>RSA_PAD\<close> decoder of
  \<open>crypto/rsa_pad.go\<close>, and the server keys of \<open>crypto/rsa.go\<close>.  A \<open>big.Int\<close> that is never negative is
  a natural number.  RSA with PKCS #1 padding and the primality test are parameters of the model; a random
  integer is an argument.
\<close>

section \<open>The Diffie-Hellman group\<close>

record dhGroup =
  DHPrime :: nat
  DHGenerator :: nat

text \<open>The values the two package variables are initialised with.\<close>

definition initialGroup :: dhGroup where
  "initialGroup = \<lparr>DHPrime = 0xc71caeb9c6b1c9048e6c522f70f13f73980d40238e3e21c14934d037563d930f48198a0aa7c14058229493d22530f4dbfa336f6e0ac925139543aed44cce7c3720fd51f69458705ac68cd4fe6b6b13abdc9746512969328454f18faf8c595f642477fe96bb2a941d5bcd1d4ac8cc49880708fa9b378e3c4f3a9060bee67cf9a4a4a695811051907e162753b56b0f6b410dba74d8a84b2a14b3144e0ef1284754fd17ed950d5965b4b9dd46582db1178d169c6bc465b0d6ff9ca3928fef5b9ae4e418fc15e83ebea0f87fa9ff5eed70050ded2849f47bf959d956850ce929851f0d8115f635b105ee2e4e15d04b2454bf6f4fadf034b10403119cd8e3b92fcc5b,
     DHGenerator = 3\<rparr>"

text \<open>\<open>big.Int.Exp\<close> with a positive modulus, and \<open>big.Int.BitLen\<close>.\<close>

definition big_Exp :: "nat \<Rightarrow> nat \<Rightarrow> nat \<Rightarrow> nat" where
  "big_Exp x y m = x ^ y mod m"

fun big_BitLen :: "nat \<Rightarrow> nat" where
  "big_BitLen n = (if n = 0 then 0 else Suc (big_BitLen (n div 2)))"

declare big_BitLen.simps [simp del]

record DHParams =
  dpG :: nat
  dpP :: nat
  dpGa :: nat
  dpA :: nat
  dpAuthKey :: nat

definition GenerateDHParams :: "dhGroup \<Rightarrow> go_error + nat \<Rightarrow> go_error + DHParams" where
  "GenerateDHParams G draw =
     (case draw of
        Inl e \<Rightarrow> Inl e
      | Inr a \<Rightarrow> Inr \<lparr>dpG = DHGenerator G, dpP = DHPrime G, dpGa = big_Exp (DHGenerator G) a (DHPrime G),
          dpA = a, dpAuthKey = 0\<rparr>)"

definition ComputeAuthKey :: "nat \<Rightarrow> DHParams \<Rightarrow> DHParams" where
  "ComputeAuthKey gb d = d\<lparr>dpAuthKey := big_Exp gb (dpA d) (dpP d)\<rparr>"

definition padTo256 :: "nat \<Rightarrow> bytes" where
  "padTo256 n =
     (let data = be_digits n in
      if length data < 256 then replicate (256 - length data) 0 @ data else drop (length data - 256) data)"

definition AuthKeyBytes :: "DHParams \<Rightarrow> bytes" where
  "AuthKeyBytes d = padTo256 (dpAuthKey d)"

section \<open>The temporary key and the nonce hashes\<close>

definition DeriveTempKeyIV :: "primitives \<Rightarrow> bytes \<Rightarrow> bytes \<Rightarrow> bytes \<times> bytes" where
  "DeriveTempKeyIV P newNonce serverNonce =
     (let hash1 = sha1 P (newNonce @ serverNonce);
          hash2 = sha1 P (serverNonce @ newNonce);
          hash3 = sha1 P (newNonce @ newNonce)
      in (hash1 @ slice 0 12 hash2, slice 12 20 hash2 @ hash3 @ slice 0 4 newNonce))"

definition computeNewNonceHashAuth :: "primitives \<Rightarrow> bytes \<Rightarrow> bytes \<Rightarrow> 8 word \<Rightarrow> bytes" where
  "computeNewNonceHashAuth P newNonce authKey marker =
     (let authHash = sha1 P authKey;
          sum = sha1 P (newNonce @ [marker] @ slice 0 8 authHash)
      in slice 4 20 sum)"

definition ComputeNewNonceHash1Auth :: "primitives \<Rightarrow> bytes \<Rightarrow> bytes \<Rightarrow> bytes" where
  "ComputeNewNonceHash1Auth P newNonce authKey = computeNewNonceHashAuth P newNonce authKey 1"

definition ComputeNewNonceHash2Auth :: "primitives \<Rightarrow> bytes \<Rightarrow> bytes \<Rightarrow> bytes" where
  "ComputeNewNonceHash2Auth P newNonce authKey = computeNewNonceHashAuth P newNonce authKey 2"

section \<open>Factorization\<close>

text \<open>The loop of \<open>factorize\<close> over \<open>int64\<close>: its square and its increment wrap, and a division by
  zero panics.  \<^const>\<open>None\<close> stands for a loop that never ends; the inner value is the pair of factors
  when one is found.\<close>

partial_function (option) factorizeLoop :: "int \<Rightarrow> int \<Rightarrow> (go_error + (int \<times> int) option) option" where
  "factorizeLoop nInt i =
     (if wrap64 (i * i) \<le> nInt then
        if i = 0 then Some (Inl Panic)
        else if i dvd nInt then Some (Inr (Some (i, wrap64 (nInt div i))))
        else factorizeLoop nInt (wrap64 (i + 1))
      else Some (Inr None))"

definition factorize :: "nat \<Rightarrow> (go_error + (int \<times> int) option) option" where
  "factorize n = (if big_BitLen n > 64 then Some (Inr None) else factorizeLoop (wrap64 (int n)) 2)"

definition FactorizePQ :: "nat option \<Rightarrow> (go_error + int \<times> int) option" where
  "FactorizePQ pq =
     (case pq of
        None \<Rightarrow> Some (Inl (CryptoError InvalidDH))
      | Some n \<Rightarrow>
          (case factorize n of
             None \<Rightarrow> None
           | Some (Inl e) \<Rightarrow> Some (Inl e)
           | Some (Inr None) \<Rightarrow> Some (Inl (CryptoError InvalidDH))
           | Some (Inr (Some (p, q))) \<Rightarrow> Some (Inr (p, q))))"

section \<open>TL byte strings of the crypto package\<close>

definition ReadTLBytes :: "(reader, bytes) io" where
  "ReadTLBytes =
     andThen (ReadFull 1) (\<lambda>lenByte.
     andThen (if uint (hd lenByte) \<ge> 254 then andThen (ReadFull 3) (\<lambda>b. ret (le_int b)) else ret (uint (hd lenByte)))
       (\<lambda>len.
        andThen (ReadFull (nat len)) (\<lambda>data.
          let padding = (4 - ((len + 1) mod 4)) mod 4 in
          if padding > 0 then andThen (ReadFull (nat padding)) (\<lambda>_. ret data) else ret data)))"

definition WriteTLBytes :: "bytes \<Rightarrow> (writer, unit) io" where
  "WriteTLBytes data =
     (let len = int (length data) in
      if len < 254 then
        andThen (boundedRuntimeWriter_Write [word_of_int len]) (\<lambda>_.
        andThen (boundedRuntimeWriter_Write data) (\<lambda>_.
          let padding = (4 - ((len + 1) mod 4)) mod 4 in
          if padding > 0 then boundedRuntimeWriter_Write (replicate (nat padding) 0) else ret ()))
      else
        andThen (boundedRuntimeWriter_Write [254]) (\<lambda>_.
        andThen (boundedRuntimeWriter_Write (le_bytes 3 len)) (\<lambda>_.
        andThen (boundedRuntimeWriter_Write data) (\<lambda>_.
          let padding = (4 - (len mod 4)) mod 4 in
          if padding > 0 then boundedRuntimeWriter_Write (replicate (nat padding) 0) else ret ()))))"

section \<open>RSA keys\<close>

text \<open>An RSA private key; \<open>rsaE\<close> is its public exponent.\<close>

record rsaKey =
  rsaN :: nat
  rsaE :: nat
  rsaD :: nat

record ServerKey =
  skID :: int
  skKey :: rsaKey
  skFingerprint :: bytes

text \<open>What the handshake takes from \<open>crypto/rsa\<close> and \<open>math/big\<close>: decryption and encryption with PKCS #1
  padding (the latter with the random bytes it draws), and the primality test.\<close>

record rsaLibrary =
  DecryptPKCS1v15 :: "rsaKey \<Rightarrow> bytes \<Rightarrow> go_error + bytes"
  EncryptPKCS1v15 :: "rsaKey \<Rightarrow> bytes \<Rightarrow> go_error + bytes"
  ProbablyPrime :: "nat \<Rightarrow> bool"

definition NewMemoryServerKeyManager :: "(int, ServerKey) gomap" where
  "NewMemoryServerKeyManager = []"

definition ServerKeys_AddKey :: "ServerKey \<Rightarrow> (int, ServerKey) gomap \<Rightarrow> (int, ServerKey) gomap" where
  "ServerKeys_AddKey key m = AList.update (skID key) key m"

definition ServerKeys_GetKey :: "bytes \<Rightarrow> (int, ServerKey) gomap \<Rightarrow> go_error + ServerKey" where
  "ServerKeys_GetKey fingerprint m =
     (case find (\<lambda>k. skFingerprint k = fingerprint) (map snd m) of
        Some k \<Rightarrow> Inr k
      | None \<Rightarrow> Inl (CryptoError ServerKeyNotFound))"

definition ServerKeys_GetAllKeys :: "(int, ServerKey) gomap \<Rightarrow> ServerKey list" where
  "ServerKeys_GetAllKeys m = map snd m"

definition writeFingerprintTLBytes :: "bytes \<Rightarrow> bytes \<Rightarrow> bytes" where
  "writeFingerprintTLBytes dst value =
     (let (header, fieldLength) =
        (if length value < 254 then ([word_of_int (int (length value))], 1)
         else (254 # le_bytes 3 (int (length value)), 4))
      in dst @ header @ value @ replicate ((4 - (fieldLength + length value) mod 4) mod 4) 0)"

definition PublicKeyFingerprint :: "primitives \<Rightarrow> rsaKey \<Rightarrow> int" where
  "PublicKeyFingerprint P key =
     (let encoded = writeFingerprintTLBytes [] (be_digits (rsaN key));
          encoded = writeFingerprintTLBytes encoded (be_digits (rsaE key));
          sum = sha1 P encoded
      in wrap64 (le_int (slice 12 20 sum)))"

text \<open>\<open>GenerateServerKey\<close> and \<open>LoadPEMPrivateKey\<close> fill in the identity of a key they made or read.\<close>

definition identifyServerKey :: "primitives \<Rightarrow> rsaKey \<Rightarrow> ServerKey" where
  "identifyServerKey P key =
     (let i = PublicKeyFingerprint P key in \<lparr>skID = i, skKey = key, skFingerprint = le_bytes 8 (u64 i)\<rparr>)"

section \<open>RSA\_PAD\<close>

definition dataWithPaddingLength :: nat where "dataWithPaddingLength = 192"
definition tempKeySize :: nat where "tempKeySize = 32"
definition rsaLen :: nat where "rsaLen = 256"

text \<open>\<open>fillBytes(b, to)\<close> with a buffer of \<open>n\<close> bytes; \<^const>\<open>None\<close> is the result \<open>false\<close>.\<close>

definition fillBytes :: "nat \<Rightarrow> nat \<Rightarrow> bytes option" where
  "fillBytes b n =
     (if (big_BitLen b + 7) div 8 > n then None
      else Some (replicate (n - length (be_digits b)) 0 @ be_digits b))"

definition rsaRawDecrypt :: "bytes \<Rightarrow> rsaKey \<Rightarrow> nat \<Rightarrow> bytes option" where
  "rsaRawDecrypt data key n = fillBytes (big_Exp (be_int data) (rsaD key) (rsaN key)) n"

definition decodeRSAPad :: "primitives \<Rightarrow> bytes \<Rightarrow> rsaKey \<Rightarrow> go_error + bytes" where
  "decodeRSAPad P data key =
     (if length data \<noteq> rsaLen then Inl (CryptoError RSAPadLength)
      else
        (case rsaRawDecrypt data key rsaLen of
           None \<Rightarrow> Inl (CryptoError RSAPadDecrypt)
         | Some encryptedData \<Rightarrow>
             (let tempKeyXor = take tempKeySize encryptedData;
                  aesEncrypted = drop tempKeySize encryptedData;
                  tempKey = map2 (XOR) tempKeyXor (sha256 P aesEncrypted)
              in case DecryptIGE P (length aesEncrypted) aesEncrypted tempKey (replicate 32 0) of
                   Inl e \<Rightarrow> Inl e
                 | Inr dataWithHash \<Rightarrow>
                     (let dataWithPadding = rev (take dataWithPaddingLength dataWithHash);
                          hash = drop dataWithPaddingLength dataWithHash
                      in if hash \<noteq> sha256 P (tempKey @ dataWithPadding) then Inl (CryptoError RSAPadHash)
                         else Inr dataWithPadding))))"

definition DecryptRSA :: "primitives \<Rightarrow> rsaLibrary \<Rightarrow> rsaKey \<Rightarrow> bytes \<Rightarrow> go_error + bytes" where
  "DecryptRSA P R key data =
     (case decodeRSAPad P data key of
        Inr decoded \<Rightarrow> Inr decoded
      | Inl _ \<Rightarrow> DecryptPKCS1v15 R key data)"

section \<open>The simplified exchange\<close>

definition Handshake_Process :: "primitives \<Rightarrow> (nat \<Rightarrow> go_error + bytes) \<Rightarrow> bytes \<Rightarrow> go_error + bytes \<times> bytes" where
  "Handshake_Process P rnd req =
     (if length req \<noteq> 32 then Inl (CryptoError HandshakeRequest)
      else
        (case rnd 32 of
           Inl e \<Rightarrow> Inl e
         | Inr nonce \<Rightarrow> Inr (nonce, sha256 P (req @ nonce) @ replicate (256 - 32) 0)))"

section \<open>Lengths\<close>

lemma DeriveTempKeyIV_length:
  "primitives_ok P \<Longrightarrow> length newNonce = 32 \<Longrightarrow> DeriveTempKeyIV P newNonce serverNonce = (key, iv) \<Longrightarrow>
     length key = 32 \<and> length iv = 32"
  by (auto simp: DeriveTempKeyIV_def primitives_ok_def slice_def Let_def)

lemma computeNewNonceHashAuth_length:
  "primitives_ok P \<Longrightarrow> length (computeNewNonceHashAuth P newNonce authKey marker) = 16"
  by (simp add: computeNewNonceHashAuth_def primitives_ok_def slice_def Let_def)

lemma BitLen_le: "big_BitLen n \<le> k \<longleftrightarrow> n < 2 ^ k"
proof (induction n arbitrary: k rule: big_BitLen.induct)
  case (1 n)
  show ?case
  proof (cases "n = 0")
    case False
    then show ?thesis
    proof (cases k)
      case (Suc j)
      have "n div 2 < 2 ^ j \<longleftrightarrow> n < 2 * 2 ^ j" by linarith
      then show ?thesis using "1.IH" [OF False, of j] Suc False by (subst big_BitLen.simps) simp
    qed (use False in \<open>subst big_BitLen.simps, simp\<close>)
  qed (subst big_BitLen.simps, simp)
qed

lemma length_be_digits_le: "length (be_digits n) \<le> k \<longleftrightarrow> n < 256 ^ k"
proof (induction n arbitrary: k rule: be_digits.induct)
  case (1 n)
  show ?case
  proof (cases "n = 0")
    case False
    then show ?thesis
    proof (cases k)
      case (Suc j)
      have "n div 256 < 256 ^ j \<longleftrightarrow> n < 256 * 256 ^ j" by linarith
      then show ?thesis using "1.IH" [OF False, of j] Suc False by (subst be_digits.simps) simp
    qed (use False in \<open>subst be_digits.simps, simp\<close>)
  qed (subst be_digits.simps, simp)
qed

lemma bits_fit: "(big_BitLen n + 7) div 8 \<le> k \<longleftrightarrow> n < 256 ^ k"
proof -
  have "(big_BitLen n + 7) div 8 \<le> k \<longleftrightarrow> big_BitLen n \<le> 8 * k" by linarith
  also have "\<dots> \<longleftrightarrow> n < 2 ^ (8 * k)" by (rule BitLen_le)
  finally show ?thesis by (simp add: power_mult)
qed

lemma fillBytes_eq:
  "fillBytes b n = (if b < 256 ^ n then Some (replicate (n - length (be_digits b)) 0 @ be_digits b) else None)"
  using bits_fit [of b n] by (simp add: fillBytes_def not_less linorder_not_le [symmetric] del: linorder_not_le)

lemma be_digits_append_zeros:
  "replicate (length bs - length (be_digits (be_int bs))) 0 @ be_digits (be_int bs) = bs"
proof (induction bs rule: rev_induct)
  case (snoc b bs)
  let ?n = "be_int bs"
  have b: "unat b < 256" using unsigned_less [of b, where 'a = nat] by simp
  have n: "be_int (bs @ [b]) = ?n * 256 + unat b" by (rule be_int_snoc)
  show ?case
  proof (cases "be_int (bs @ [b]) = 0")
    case True
    then have "?n = 0" "b = 0" using n by (auto simp: unat_eq_0)
    moreover have "bs = replicate (length bs) 0" using snoc \<open>?n = 0\<close> by (simp add: be_digits.simps)
    ultimately show ?thesis
      using True by (simp add: be_digits.simps) (metis replicate_append_same replicate_Suc)
  next
    case False
    then have "be_digits (be_int (bs @ [b])) = be_digits ?n @ [b]"
      using n b by (subst be_digits.simps) simp
    then show ?thesis using snoc by simp
  qed
qed (simp add: be_digits.simps)

lemma fillBytes_be_int: "fillBytes (be_int bs) (length bs) = Some bs"
  using be_int_less [of bs] be_digits_append_zeros [of bs] by (simp add: fillBytes_eq)

section \<open>RSA\_PAD is undone\<close>

text \<open>The encoding the MTProto documentation gives a client: the data is padded to 192 bytes, reversed,
  followed by a hash, encrypted under a temporary key, and that key is hidden by the hash of the ciphertext.\<close>

definition encodeRSAPad :: "primitives \<Rightarrow> bytes \<Rightarrow> bytes \<Rightarrow> rsaKey \<Rightarrow> (go_error + bytes) option" where
  "encodeRSAPad P tempKey padded key =
     (case EncryptIGE P 224 (rev padded @ sha256 P (tempKey @ padded)) tempKey (replicate 32 0) of
        Inl e \<Rightarrow> Some (Inl e)
      | Inr aesEncrypted \<Rightarrow>
          (let m = be_int (map2 (XOR) tempKey (sha256 P aesEncrypted) @ aesEncrypted) in
           if m \<ge> rsaN key then None else map_option Inr (fillBytes (big_Exp m (rsaE key) (rsaN key)) rsaLen)))"

definition rsaKey_ok :: "rsaKey \<Rightarrow> bool" where
  "rsaKey_ok key \<longleftrightarrow> rsaN key \<le> 256 ^ 256 \<and>
     (\<forall>m < rsaN key. big_Exp (big_Exp m (rsaE key) (rsaN key)) (rsaD key) (rsaN key) = m)"

lemma map2_xor_cancel:
  "length b = length (a :: bytes) \<Longrightarrow> map2 (XOR) (map2 (XOR) a b) b = a"
  by (rule nth_equalityI) (simp_all add: xor.assoc)

lemma be_int_fillBytes: "fillBytes b n = Some bs \<Longrightarrow> be_int bs = b \<and> length bs = n"
  using length_be_digits_le [of b n] by (auto simp: fillBytes_eq be_int_append be_int_be_digits split: if_splits)

lemma decode_encodeRSAPad:
  assumes P: "primitives_ok P" and K: "rsaKey_ok key" and l: "length padded = 192" "length tempKey = 32"
    and e: "encodeRSAPad P tempKey padded key = Some (Inr data)"
  shows "decodeRSAPad P data key = Inr padded"
proof -
  let ?h = "sha256 P (tempKey @ padded)"
  have h: "length ?h = 32" using P by (simp add: primitives_ok_def)
  obtain aes where a: "EncryptIGE P 224 (rev padded @ ?h) tempKey (replicate 32 0) = Inr aes"
    using e by (auto simp: encodeRSAPad_def split: sum.splits)
  note inv = cryptIGE_inverse [OF P l(2) a [unfolded EncryptIGE_def]]
  have aes: "length aes = 224" "DecryptIGE P 224 aes tempKey (replicate 32 0) = Inr (rev padded @ ?h)"
    using inv l h by (simp_all add: DecryptIGE_def)
  let ?s = "sha256 P aes"
  define x where "x = map2 (XOR) tempKey ?s @ aes"
  have s: "length ?s = 32" using P by (simp add: primitives_ok_def)
  have x: "length x = 256" "take 32 x = map2 (XOR) tempKey ?s" "drop 32 x = aes"
    using aes(1) s l(2) by (simp_all add: x_def)
  have m: "be_int x < rsaN key" "fillBytes (big_Exp (be_int x) (rsaE key) (rsaN key)) 256 = Some data"
    using e a by (auto simp: encodeRSAPad_def x_def [symmetric] rsaLen_def Let_def split: if_splits)
  note d = be_int_fillBytes [OF m(2)]
  have "rsaRawDecrypt data key 256 = Some x"
    using d K m(1) fillBytes_be_int [of x] x(1) by (simp add: rsaRawDecrypt_def rsaKey_ok_def)
  moreover have "map2 (XOR) (take 32 x) (sha256 P (drop 32 x)) = tempKey"
    using map2_xor_cancel [of ?s tempKey] s l(2) x by simp
  ultimately show ?thesis
    using d aes l x by (simp add: decodeRSAPad_def rsaLen_def tempKeySize_def dataWithPaddingLength_def Let_def)
qed

section \<open>Factorization ends\<close>

lemma wrap64_small: "0 \<le> x \<Longrightarrow> x < 2 ^ 63 \<Longrightarrow> wrap64 x = x"
  by (simp add: wrap64_def)

text \<open>Below the square of the largest root that fits \<open>int64\<close> the loop meets the least divisor or passes the
  root.\<close>

definition factorization :: "int \<Rightarrow> int \<Rightarrow> (int \<times> int) option \<Rightarrow> bool" where
  "factorization n i r \<longleftrightarrow>
     (case r of
        Some (p, q) \<Rightarrow> p * q = n \<and> i \<le> p \<and> p \<le> q \<and> (\<forall>d. i \<le> d \<and> d dvd n \<longrightarrow> p \<le> d)
      | None \<Rightarrow> \<forall>d. i \<le> d \<and> d * d \<le> n \<longrightarrow> \<not> d dvd n)"

lemma factorizeLoop_small:
  assumes "2 \<le> i" "i \<le> 3037000499" "0 \<le> n" "n < 3037000499 ^ 2"
  shows "\<exists>r. factorizeLoop n i = Some (Inr r) \<and> factorization n i r"
  using assms(1,2)
proof (induction "nat (3037000499 - i)" arbitrary: i rule: less_induct)
  case less
  have sq: "i * i \<le> 3037000499 * 3037000499" using less.prems by (intro mult_mono) auto
  have w: "wrap64 (i * i) = i * i" using sq less.prems by (intro wrap64_small) auto
  show ?case
  proof (cases "i * i \<le> n")
    case False
    have "\<not> d dvd n" if "i \<le> d" "d * d \<le> n" for d
      using mult_mono [of i d i d] that False less.prems by auto
    then show ?thesis using False w by (subst factorizeLoop.simps) (auto simp: factorization_def)
  next
    case True
    then have i: "i < 3037000499"
      using assms(4) mult_mono [of 3037000499 i 3037000499 i] by (force simp: power2_eq_square)
    show ?thesis
    proof (cases "i dvd n")
      case dvd: True
      then obtain q where q: "n = i * q" by (elim dvdE)
      have "i \<le> q" using True q less.prems by simp
      moreover have "q < 2 ^ 63"
      proof -
        have "1 * q \<le> i * q" using less.prems \<open>i \<le> q\<close> by (intro mult_right_mono) auto
        then show ?thesis using q assms(4) by simp
      qed
      ultimately have "factorizeLoop n i = Some (Inr (Some (i, q)))" "factorization n i (Some (i, q))"
        using q True w less.prems dvd by (subst factorizeLoop.simps, simp_all add: factorization_def wrap64_small)
      then show ?thesis by blast
    next
      case ndvd: False
      have "factorizeLoop n i = factorizeLoop n (i + 1)"
        using True ndvd w less.prems i by (subst factorizeLoop.simps) (simp add: wrap64_small)
      moreover obtain r where r: "factorizeLoop n (i + 1) = Some (Inr r)" "factorization n (i + 1) r"
        using less.hyps [of "i + 1"] less.prems i by auto
      moreover have "factorization n i r"
        using r(2) ndvd unfolding factorization_def by (cases r) (auto, (metis zless_add1_eq linorder_not_le order_le_less)+)
      ultimately show ?thesis by auto
    qed
  qed
qed

text \<open>Half of the 64-bit values the length check admits turn negative in \<open>Int64\<close>: none of them is ever
  factored.\<close>

lemma factorize_high_half:
  assumes "2 ^ 63 \<le> n" "n < 2 ^ 64"
  shows "FactorizePQ (Some n) = Some (Inl (CryptoError InvalidDH))"
proof -
  have "(int n - 2 ^ 63 + 2 ^ 64) mod 2 ^ 64 = int n - 2 ^ 63"
    unfolding mod_add_self2 using assms by (intro mod_pos_pos_trivial) auto
  then have "wrap64 (int n) < 0" using assms by (simp add: wrap64_def add.commute)
  moreover have "factorizeLoop m 2 = Some (Inr None)" if "m < 0" for m
    using that by (subst factorizeLoop.simps) (simp add: wrap64_def)
  ultimately show ?thesis using BitLen_le [of n 64] assms by (simp add: FactorizePQ_def factorize_def)
qed

section \<open>The byte strings of the crypto package\<close>

lemma emits_WriteTLBytes:
  assumes "length v < 2 ^ 24"
  shows "emits (WriteTLBytes v) (enc_bytes v)"
proof (cases "length v < 254")
  case True
  have "emits (WriteTLBytes v) ([word_of_int (int (length v))] @ v @ tl_padding 1 (length v))"
    unfolding WriteTLBytes_def Let_def [of "int (length v)"] using True emits_padding [of 1 "length v"]
    by (auto intro!: emits_andThen emits_Write simp: add.commute [of _ 1] simp del: append_Cons)
  with True show ?thesis by (simp add: enc_bytes_def)
next
  case False
  have "(4 + x) mod 4 = x mod (4 :: int)" for x by simp
  then have "emits (WriteTLBytes v) ([254] @ le_bytes 3 (int (length v)) @ v @ tl_padding 4 (length v))"
    unfolding WriteTLBytes_def Let_def [of "int (length v)"] using False emits_padding [of 4 "length v"]
    by (auto intro!: emits_andThen emits_Write simp del: append_Cons)
  with False show ?thesis by (simp add: enc_bytes_def)
qed

text \<open>The reader pads a long string as if its header had one byte: it fails on the writer's own output
  whenever the string ends on a word boundary.\<close>

lemma ReadTLBytes_long:
  assumes "254 \<le> length v" "length v < 2 ^ 24" "length v mod 4 = 0"
  shows "fst (ReadTLBytes \<lparr>rdata = enc_bytes v, rbudget = None\<rparr>) = Inl (IOError EOF)"
proof -
  have "enc_bytes v = 254 # le_bytes 3 (int (length v)) @ v"
    using assms by (auto simp: enc_bytes_def tl_padding_def)
  moreover have "le_int (le_bytes 3 (int (length v))) = int (length v)"
    using assms le_int_le_bytes [of 3 "int (length v)"] by simp
  moreover have "(int (length v) + 1) mod 4 = 1"
    using assms(3) by presburger
  ultimately show ?thesis
    by (simp add: ReadTLBytes_def andThen_def ret_def avail_def ReadFull_short shortError_def spend_def)
qed

section \<open>An example key\<close>

definition exampleRSAKey :: rsaKey where
  "exampleRSAKey = \<lparr>rsaN = 256 ^ 256, rsaE = 1, rsaD = 1\<rparr>"

definition exampleRSALibrary :: rsaLibrary where
  "exampleRSALibrary = \<lparr>DecryptPKCS1v15 = (\<lambda>_ m. Inr m), EncryptPKCS1v15 = (\<lambda>_ m. Inr m), ProbablyPrime = (\<lambda>n. 1 < n)\<rparr>"

lemma exampleRSAKey_ok: "rsaKey_ok exampleRSAKey"
  by (simp add: rsaKey_ok_def exampleRSAKey_def big_Exp_def)

lemma encodeRSAPad_example:
  assumes P: "primitives_ok P" and l: "length tempKey = 32" "length padded = 192"
  shows "\<exists>data. encodeRSAPad P tempKey padded exampleRSAKey = Some (Inr data)"
proof -
  let ?src = "rev padded @ sha256 P (tempKey @ padded)"
  have src: "length ?src = 224" using P l by (simp add: primitives_ok_def)
  obtain aes where a: "EncryptIGE P 224 ?src tempKey (replicate 32 0) = Inr aes"
    using cryptIGEState_total [of ?src 224 P tempKey "replicate 32 0" False] src
    by (auto simp: EncryptIGE_def cryptIGE_def igeIVSize_def)
  have "length aes = 224" using cryptIGE_inverse(1) [OF P l(1) a [unfolded EncryptIGE_def]] src by simp
  then have "length (map2 (XOR) tempKey (sha256 P aes) @ aes) = 256"
    using P l by (simp add: primitives_ok_def)
  then have "be_int (map2 (XOR) tempKey (sha256 P aes) @ aes) < 256 ^ 256"
    using be_int_less [of "map2 (XOR) tempKey (sha256 P aes) @ aes"] by (simp only:)
  then show ?thesis
    using a unfolding encodeRSAPad_def exampleRSAKey_def big_Exp_def rsaLen_def fillBytes_eq Let_def
    by (simp del: power_numeral)
qed

section \<open>Properties\<close>

text \<open>C14. Factoring ends: for every number below the square of 3037000499, the largest root whose square
  fits \<open>int64\<close>, \<open>FactorizePQ\<close> returns.  It gives the least divisor above one and its cofactor, or an
  error when no divisor up to the root exists.\<close>

theorem factorize_terminates:
  assumes "n < 3037000499 ^ 2"
  shows "\<exists>r. FactorizePQ (Some n) = Some r \<and>
     (case r of
        Inr (p, q) \<Rightarrow> p * q = int n \<and> 2 \<le> p \<and> p \<le> q \<and> (\<forall>d. 2 \<le> d \<and> d dvd int n \<longrightarrow> p \<le> d)
      | Inl e \<Rightarrow> e = CryptoError InvalidDH \<and> (\<forall>d. 2 \<le> d \<and> d * d \<le> int n \<longrightarrow> \<not> d dvd int n))"
proof -
  have n: "int n < 3037000499 ^ 2" using assms by (simp add: power2_eq_square)
  then have "big_BitLen n \<le> 64" using BitLen_le [of n 64] assms by simp
  moreover have "wrap64 (int n) = int n" using n by (intro wrap64_small) auto
  moreover obtain r where "factorizeLoop (int n) 2 = Some (Inr r)" "factorization (int n) 2 r"
    using factorizeLoop_small [of 2 "int n"] n by auto
  ultimately show ?thesis
    by (cases r) (auto simp: FactorizePQ_def factorize_def factorization_def)
qed

theorem factorize_terminates_witness:
  "\<exists>r. FactorizePQ (Some 0x17ED48941A08F981) = Some r \<and>
     (case r of
        Inr (p, q) \<Rightarrow> p * q = 0x17ED48941A08F981 \<and> 2 \<le> p \<and> p \<le> q \<and> (\<forall>d. 2 \<le> d \<and> d dvd 0x17ED48941A08F981 \<longrightarrow> p \<le> d)
      | Inl e \<Rightarrow> e = CryptoError InvalidDH \<and> (\<forall>d :: int. 2 \<le> d \<and> d * d \<le> 0x17ED48941A08F981 \<longrightarrow> \<not> d dvd 0x17ED48941A08F981))"
  using factorize_terminates [of "0x17ED48941A08F981", unfolded of_nat_numeral] by simp

text \<open>C15. What a client encodes with \<open>RSA_PAD\<close> for the server's key, the server's \<open>DecryptRSA\<close> gives
  back, whatever RSA with PKCS #1 padding would do with the same bytes.\<close>

theorem rsa_pad_roundtrip:
  assumes "primitives_ok P" "rsaKey_ok key" "length padded = 192" "length tempKey = 32"
    and "encodeRSAPad P tempKey padded key = Some (Inr data)"
  shows "length data = 256 \<and> DecryptRSA P R key data = Inr padded"
proof -
  have "decodeRSAPad P data key = Inr padded" by (rule decode_encodeRSAPad [OF assms])
  moreover from this have "length data = 256" by (auto simp: decodeRSAPad_def rsaLen_def split: if_splits)
  ultimately show ?thesis by (simp add: DecryptRSA_def)
qed

theorem rsa_pad_roundtrip_witness:
  "\<exists>data. encodeRSAPad examplePrimitives (replicate 32 5) (replicate 192 7) exampleRSAKey = Some (Inr data) \<and>
     length data = 256 \<and> DecryptRSA examplePrimitives exampleRSALibrary exampleRSAKey data = Inr (replicate 192 7)"
proof -
  obtain data where "encodeRSAPad examplePrimitives (replicate 32 5) (replicate 192 7) exampleRSAKey = Some (Inr data)"
    using encodeRSAPad_example [of examplePrimitives "replicate 32 5" "replicate 192 7"] examplePrimitives_ok by auto
  with rsa_pad_roundtrip [OF examplePrimitives_ok exampleRSAKey_ok _ _ this, of exampleRSALibrary] show ?thesis by simp
qed

end
