(* ===== verification/Handshake.thy ===== *)
theory Handshake
  imports Handshake_Crypto Auth_Keys
begin

text \<open>
  The server side of the authorization handshake (\<open>internal/handshake/engine.go\<close> and \<open>session.go\<close>).  A
  session is named by its address; the engine keeps the deadline of every session it admitted.  What one call
  of \<open>Handle\<close> reads from outside (the context, the random source and the clock, in the order the code
  reads them) is a record of its inputs.  The authorization keys are those of the in-memory manager.
\<close>

section \<open>The engine\<close>

definition DefaultCapacity :: int where "DefaultCapacity = 4096"
definition DefaultTTL :: duration where "DefaultTTL = 2 * 60 * second"

datatype stage = StageFresh | StagePQIssued | StageDHIssued | StageClosed

record dhState =
  dhNewNonce :: bytes
  dhPrivateA :: nat
  dhTempKey :: bytes
  dhTempIV :: bytes
  dhRetryID :: int

record hsSession =
  hsStage :: stage
  hsNonce :: bytes
  hsServerNonce :: bytes
  hsDH :: "dhState option"
  hsTemporaryExpiresAt :: gotime

text \<open>\<open>enSupportsTemporary\<close>: the key manager also implements \<open>TemporaryAuthKeyManager\<close>.\<close>

record Engine =
  enAuthKeys :: MemoryAuthKeyManager
  enSupportsTemporary :: bool
  enServerKeys :: "(int, ServerKey) gomap"
  enCapacity :: int
  enTTL :: duration
  enSessions :: "(nat, gotime) gomap"

definition Engine_New ::
  "MemoryAuthKeyManager option \<Rightarrow> bool \<Rightarrow> (int, ServerKey) gomap option \<Rightarrow> int \<Rightarrow> duration \<Rightarrow> go_error + Engine" where
  "Engine_New authKeys temporary serverKeys capacity ttl =
     (case (authKeys, serverKeys) of
        (Some ak, Some sk) \<Rightarrow>
          if capacity < 0 \<or> ttl < 0 then Inl (HandshakeError HandshakeConfig)
          else Inr \<lparr>enAuthKeys = ak, enSupportsTemporary = temporary, enServerKeys = sk,
            enCapacity = (if capacity = 0 then DefaultCapacity else capacity),
            enTTL = (if ttl = 0 then DefaultTTL else ttl), enSessions = []\<rparr>
      | _ \<Rightarrow> Inl (HandshakeError HandshakeConfig))"

definition removeExpiredLocked :: "gotime \<Rightarrow> Engine \<Rightarrow> Engine" where
  "removeExpiredLocked now e = e\<lparr>enSessions := filter (\<lambda>(_, expiresAt). now < expiresAt) (enSessions e)\<rparr>"

definition freshSession :: hsSession where
  "freshSession = \<lparr>hsStage = StageFresh, hsNonce = replicate 16 0, hsServerNonce = replicate 16 0, hsDH = None,
     hsTemporaryExpiresAt = 0\<rparr>"

text \<open>\<open>sid\<close> is the address of the session the call allocates.\<close>

definition Engine_NewSession :: "gotime \<Rightarrow> nat \<Rightarrow> Engine \<Rightarrow> (go_error + hsSession) \<times> Engine" where
  "Engine_NewSession now sid e =
     (let e = removeExpiredLocked now e in
      if int (length (enSessions e)) \<ge> enCapacity e then (Inl (HandshakeError HandshakeCapacity), e)
      else (Inr freshSession, e\<lparr>enSessions := AList.update sid (now + enTTL e) (enSessions e)\<rparr>))"

definition Engine_check :: "gotime \<Rightarrow> nat \<Rightarrow> Engine \<Rightarrow> go_error option \<times> Engine" where
  "Engine_check now sid e =
     (case map_of (enSessions e) sid of
        None \<Rightarrow> (Some (HandshakeError HandshakeExpired), e)
      | Some expiresAt \<Rightarrow>
          if \<not> now < expiresAt
          then (Some (HandshakeError HandshakeExpired), e\<lparr>enSessions := AList.delete sid (enSessions e)\<rparr>)
          else (None, e))"

definition Engine_refresh :: "gotime \<Rightarrow> nat \<Rightarrow> Engine \<Rightarrow> Engine" where
  "Engine_refresh now sid e =
     (if map_of (enSessions e) sid \<noteq> None
      then e\<lparr>enSessions := AList.update sid (now + enTTL e) (enSessions e)\<rparr> else e)"

definition Engine_remove :: "nat \<Rightarrow> Engine \<Rightarrow> Engine" where
  "Engine_remove sid e = e\<lparr>enSessions := AList.delete sid (enSessions e)\<rparr>"

section \<open>Messages\<close>

definition reqPQID :: int where "reqPQID = 0x60469778"
definition reqPQMultiID :: int where "reqPQMultiID = 0xbe7e8ef1"
definition resPQID :: int where "resPQID = 0x05162463"
definition reqDHParamsID :: int where "reqDHParamsID = 0xd712e4be"
definition serverDHParamsOKID :: int where "serverDHParamsOKID = 0xd0e8075c"
definition setClientDHParamsID :: int where "setClientDHParamsID = 0xf5045f1f"
definition dhGenOKID :: int where "dhGenOKID = 0x3bcbf734"
definition dhGenRetryID :: int where "dhGenRetryID = 0x46dc1fb9"
definition pqInnerDataID :: int where "pqInnerDataID = 0x83c95aec"
definition pqInnerDataDCID :: int where "pqInnerDataDCID = 0xa9f55f95"
definition pqInnerDataTempDCID :: int where "pqInnerDataTempDCID = 0x56fddf88"
definition serverDHInnerDataID :: int where "serverDHInnerDataID = 0xb5890dba"
definition clientDHInnerDataID :: int where "clientDHInnerDataID = 0x6643b654"
definition handshakeGenerator :: int where "handshakeGenerator = 3"
definition maxHandshakePayloadBytes :: nat where "maxHandshakePayloadBytes = 4096"

definition advertisedPQ :: bytes where
  "advertisedPQ = [0x17, 0xED, 0x48, 0x94, 0x1A, 0x08, 0xF9, 0x81]"

lemmas handshake_ids = reqPQID_def reqPQMultiID_def resPQID_def reqDHParamsID_def serverDHParamsOKID_def
  setClientDHParamsID_def dhGenOKID_def dhGenRetryID_def pqInnerDataID_def pqInnerDataDCID_def
  pqInnerDataTempDCID_def serverDHInnerDataID_def clientDHInnerDataID_def

record hsResult =
  reAuthKeyID :: int
  reInitialServerSalt :: int

record hsOutput =
  ouResponse :: bytes
  ouResult :: "hsResult option"

record handleInputs =
  inContext :: "go_error option"
  inCheck :: gotime
  inRandom :: "nat \<Rightarrow> go_error + bytes"
  inDraws :: "nat \<Rightarrow> go_error + nat"
  inExpiry :: gotime
  inUnix :: gotime
  inTemporary :: gotime
  inStore :: "nat \<Rightarrow> gotime"
  inRefresh :: gotime

abbreviation invalidHandshake :: go_error where
  "invalidHandshake \<equiv> HandshakeError InvalidHandshake"

abbreviation plainReader :: "bytes \<Rightarrow> reader" where
  "plainReader bs \<equiv> \<lparr>rdata = bs, rbudget = None\<rparr>"

record pqInnerData =
  piExpiresIn :: int
  piPQ :: bytes
  piP :: bytes
  piQ :: bytes
  piNonce :: bytes
  piServerNonce :: bytes
  piNewNonce :: bytes

text \<open>One attempt of \<open>parsePQInnerData\<close>: any error makes it try the next offset.\<close>

definition readPQInner :: "(reader, pqInnerData) io" where
  "readPQInner =
     andThen ReadUint32 (\<lambda>constructor.
     if constructor \<noteq> pqInnerDataID \<and> constructor \<noteq> pqInnerDataDCID \<and> constructor \<noteq> pqInnerDataTempDCID
     then raise invalidHandshake
     else
       andThen ReadBytes (\<lambda>pq.
       andThen ReadBytes (\<lambda>p.
       andThen ReadBytes (\<lambda>q.
       andThen ReadInt128 (\<lambda>nonce.
       andThen ReadInt128 (\<lambda>serverNonce.
       andThen ReadInt256 (\<lambda>newNonce.
       andThen (if constructor = pqInnerDataDCID then andThen ReadInt32 (\<lambda>_. ret ()) else ret ()) (\<lambda>_.
       andThen (if constructor = pqInnerDataTempDCID
                then andThen ReadInt32 (\<lambda>_.
                     andThen ReadInt32 (\<lambda>expiresIn.
                       if expiresIn \<le> 0 \<or> expiresIn * second > MaxTemporaryAuthKeyLifetime
                       then raise invalidHandshake else ret expiresIn))
                else ret 0) (\<lambda>expiresIn.
       ret \<lparr>piExpiresIn = expiresIn, piPQ = pq, piP = p, piQ = q, piNonce = nonce, piServerNonce = serverNonce,
            piNewNonce = newNonce\<rparr>)))))))))"

text \<open>Reads a structure at an offset; behind a hash the bytes it consumed must have that hash.\<close>

definition parseAt :: "primitives \<Rightarrow> (reader, 'a) io \<Rightarrow> bytes \<Rightarrow> nat \<Rightarrow> 'a option" where
  "parseAt P m data offset =
     (if length data < offset + 4 then None
      else
        (case m (plainReader (drop offset data)) of
           (Inl _, _) \<Rightarrow> None
         | (Inr inner, r) \<Rightarrow>
             (let consumed = length (drop offset data) - length (rdata r) in
              if offset = 20 \<and> take 20 data \<noteq> sha1 P (slice offset (offset + consumed) data) then None
              else Some inner)))"

definition parsePQInnerData :: "primitives \<Rightarrow> bytes \<Rightarrow> go_error + pqInnerData" where
  "parsePQInnerData P data =
     (case parseAt P readPQInner data 0 of
        Some inner \<Rightarrow> Inr inner
      | None \<Rightarrow> (case parseAt P readPQInner data 20 of Some inner \<Rightarrow> Inr inner | None \<Rightarrow> Inl invalidHandshake))"

record clientDHInnerData =
  ciNonce :: bytes
  ciServerNonce :: bytes
  ciRetryID :: int
  ciGb :: bytes

definition readClientDHInner :: "(reader, clientDHInnerData) io" where
  "readClientDHInner =
     andThen ReadUint32 (\<lambda>constructor.
     if constructor \<noteq> clientDHInnerDataID then raise invalidHandshake
     else
       andThen ReadInt128 (\<lambda>nonce.
       andThen ReadInt128 (\<lambda>serverNonce.
       andThen ReadInt64 (\<lambda>retryID.
       andThen ReadBytes (\<lambda>gb.
       ret \<lparr>ciNonce = nonce, ciServerNonce = serverNonce, ciRetryID = retryID, ciGb = gb\<rparr>)))))"

definition parseClientDHInnerData :: "primitives \<Rightarrow> bytes \<Rightarrow> go_error + clientDHInnerData" where
  "parseClientDHInnerData P data =
     (case parseAt P readClientDHInner data 20 of
        Some inner \<Rightarrow> Inr inner
      | None \<Rightarrow> (case parseAt P readClientDHInner data 0 of Some inner \<Rightarrow> Inr inner | None \<Rightarrow> Inl invalidHandshake))"

section \<open>Checks\<close>

definition validatePQFactors :: "rsaLibrary \<Rightarrow> bytes \<Rightarrow> bytes \<Rightarrow> bytes \<Rightarrow> go_error option" where
  "validatePQFactors R pBytes qBytes pqBytes =
     (let p = be_int pBytes; q = be_int qBytes; pq = be_int pqBytes in
      if p < 2 \<or> q < 2 \<or> \<not> ProbablyPrime R p \<or> \<not> ProbablyPrime R q then Some invalidHandshake
      else if p * q \<noteq> pq then Some invalidHandshake
      else None)"

definition validateDHPublicValue :: "nat \<Rightarrow> nat \<Rightarrow> go_error option" where
  "validateDHPublicValue value prime =
     (let margin = 2 ^ (2048 - 64); upper = int prime - margin in
      if int value \<le> margin \<or> int value \<ge> upper then Some invalidHandshake else None)"

definition equalBigEndian :: "bytes \<Rightarrow> bytes \<Rightarrow> bool" where
  "equalBigEndian a b \<longleftrightarrow> be_int a = be_int b"

definition computeServerSalt :: "bytes \<Rightarrow> bytes \<Rightarrow> int" where
  "computeServerSalt newNonce serverNonce = wrap64 (le_int (take 8 newNonce) XOR le_int (take 8 serverNonce))"

definition normalizeError :: "go_error \<Rightarrow> go_error" where
  "normalizeError err =
     (if err = IOError EOF \<or> err = IOError UnexpectedEOF \<or> err = MessageError InvalidMessageLength
      then invalidHandshake else err)"

section \<open>The three requests\<close>

definition handleReqPQ ::
  "handleInputs \<Rightarrow> Engine \<Rightarrow> bytes \<Rightarrow> hsSession \<Rightarrow> (go_error + bytes) \<times> hsSession" where
  "handleReqPQ I e data s =
     (case ReadInt128 (plainReader (drop 4 data)) of
        (Inl _, _) \<Rightarrow> (Inl invalidHandshake, s)
      | (Inr nonce, r) \<Rightarrow>
          if rdata r \<noteq> [] then (Inl invalidHandshake, s)
          else
            (case inRandom I 16 of
               Inl err \<Rightarrow> (Inl err, s)
             | Inr serverNonce \<Rightarrow>
                 (let keys = ServerKeys_GetAllKeys (enServerKeys e) in
                  if keys = [] then (Inl (HandshakeError HandshakeConfig), s)
                  else
                    (case buffered
                       (andThen (WriteUint32 resPQID) (\<lambda>_.
                        andThen (WriteInt128 nonce) (\<lambda>_.
                        andThen (WriteInt128 serverNonce) (\<lambda>_.
                        andThen (WriteBytes advertisedPQ) (\<lambda>_.
                        andThen (WriteVectorHeader (int (length keys))) (\<lambda>_.
                        forEach keys (\<lambda>key. WriteInt64 (skID key))))))))
                     of Inl err \<Rightarrow> (Inl err, s)
                      | Inr response \<Rightarrow>
                          (Inr response,
                           s\<lparr>hsNonce := nonce, hsServerNonce := serverNonce, hsStage := StagePQIssued\<rparr>)))))"

text \<open>The last field of a request: \<open>if err != nil || r.Len() != 0\<close>.\<close>

definition readLastBytes :: "(reader, bytes) io" where
  "readLastBytes r =
     (case ReadBytes r of
        (Inl _, r') \<Rightarrow> (Inl invalidHandshake, r')
      | (Inr v, r') \<Rightarrow> if rdata r' \<noteq> [] then (Inl invalidHandshake, r') else (Inr v, r'))"

definition readReqDHParams :: "(reader, bytes \<times> bytes \<times> bytes \<times> bytes \<times> int \<times> bytes) io" where
  "readReqDHParams =
     andThen ReadInt128 (\<lambda>nonce.
     andThen ReadInt128 (\<lambda>serverNonce.
     andThen ReadBytes (\<lambda>p.
     andThen ReadBytes (\<lambda>q.
     andThen ReadInt64 (\<lambda>fingerprint.
     andThen readLastBytes (\<lambda>encrypted.
     ret (nonce, serverNonce, p, q, fingerprint, encrypted)))))))"

text \<open>The loop of \<open>generatePrivateExponent\<close>, at most 32 draws.\<close>

fun generatePrivateExponent :: "nat \<Rightarrow> (nat \<Rightarrow> go_error + nat) \<Rightarrow> go_error + nat" where
  "generatePrivateExponent 0 draws = Inl (HandshakeError InvalidDHExponent)"
| "generatePrivateExponent (Suc n) draws =
     (case draws 0 of
        Inl err \<Rightarrow> Inl err
      | Inr a \<Rightarrow> if a \<ge> 2 then Inr a else generatePrivateExponent n (\<lambda>i. draws (Suc i)))"

definition encryptServerDH ::
  "primitives \<Rightarrow> (nat \<Rightarrow> go_error + bytes) \<Rightarrow> bytes \<Rightarrow> bytes \<Rightarrow> bytes \<Rightarrow> go_error + bytes \<times> bytes \<times> bytes" where
  "encryptServerDH P rnd newNonce serverNonce plain =
     (let padded = sha1 P plain @ plain;
          remainder = length padded mod 16
      in case (if remainder \<noteq> 0 then rnd (16 - remainder) else Inr []) of
           Inl err \<Rightarrow> Inl err
         | Inr padding \<Rightarrow>
             (let padded = padded @ padding in
              case DeriveTempKeyIV P newNonce serverNonce of (tempKey, tempIV) \<Rightarrow>
              case NewAESIGE tempKey tempIV of
                Inl err \<Rightarrow> Inl err
              | Inr block \<Rightarrow>
                  (case CryptBlocks P (length padded) padded block of
                     Inl err \<Rightarrow> Inl err
                   | Inr (encrypted, _) \<Rightarrow> Inr (encrypted, tempKey, tempIV))))"

definition serverDHInner :: "dhGroup \<Rightarrow> bytes \<Rightarrow> bytes \<Rightarrow> nat \<Rightarrow> gotime \<Rightarrow> (writer, unit) io" where
  "serverDHInner G nonce serverNonce ga now =
     andThen (WriteUint32 serverDHInnerDataID) (\<lambda>_.
     andThen (WriteInt128 nonce) (\<lambda>_.
     andThen (WriteInt128 serverNonce) (\<lambda>_.
     andThen (WriteUint32 handshakeGenerator) (\<lambda>_.
     andThen (WriteBytes (be_digits (DHPrime G))) (\<lambda>_.
     andThen (WriteBytes (be_digits ga)) (\<lambda>_.
     WriteUint32 (u32 (Unix_of now))))))))"

text \<open>The second half of \<open>handleReqDHParams\<close>, after the request was accepted.\<close>

definition issueServerDH ::
  "primitives \<Rightarrow> dhGroup \<Rightarrow> handleInputs \<Rightarrow> bytes \<Rightarrow> bytes \<Rightarrow> bytes \<Rightarrow> hsSession \<Rightarrow> (go_error + bytes) \<times> hsSession" where
  "issueServerDH P G I nonce serverNonce newNonce s =
     (case generatePrivateExponent 32 (inDraws I) of
        Inl err \<Rightarrow> (Inl err, s)
      | Inr privateA \<Rightarrow>
          (let ga = big_Exp (DHGenerator G) privateA (DHPrime G) in
           case validateDHPublicValue ga (DHPrime G) of
             Some err \<Rightarrow> (Inl err, s)
           | None \<Rightarrow>
               (case buffered (serverDHInner G nonce serverNonce ga (inUnix I)) of
                  Inl err \<Rightarrow> (Inl err, s)
                | Inr plain \<Rightarrow>
                    (case encryptServerDH P (inRandom I) newNonce serverNonce plain of
                       Inl err \<Rightarrow> (Inl err, s)
                     | Inr (encryptedDH, tempKey, tempIV) \<Rightarrow>
                         (case buffered
                            (andThen (WriteUint32 serverDHParamsOKID) (\<lambda>_.
                             andThen (WriteInt128 nonce) (\<lambda>_.
                             andThen (WriteInt128 serverNonce) (\<lambda>_.
                             WriteBytes encryptedDH))))
                          of Inl err \<Rightarrow> (Inl err, s)
                           | Inr response \<Rightarrow>
                               (Inr response,
                                s\<lparr>hsDH := Some \<lparr>dhNewNonce = newNonce, dhPrivateA = privateA, dhTempKey = tempKey,
                                    dhTempIV = tempIV, dhRetryID = 0\<rparr>,
                                  hsStage := StageDHIssued\<rparr>))))))"

definition handleReqDHParams ::
  "primitives \<Rightarrow> rsaLibrary \<Rightarrow> dhGroup \<Rightarrow> handleInputs \<Rightarrow> Engine \<Rightarrow> bytes \<Rightarrow> hsSession \<Rightarrow> (go_error + bytes) \<times> hsSession" where
  "handleReqDHParams P R G I e data s =
     (case fst (readReqDHParams (plainReader (drop 4 data))) of
        Inl err \<Rightarrow> (Inl err, s)
      | Inr (nonce, serverNonce, p, q, fingerprint, encrypted) \<Rightarrow>
          if nonce \<noteq> hsNonce s \<or> serverNonce \<noteq> hsServerNonce s then (Inl invalidHandshake, s)
          else
            (case validatePQFactors R p q advertisedPQ of
               Some err \<Rightarrow> (Inl err, s)
             | None \<Rightarrow>
            (case ServerKeys_GetKey (le_bytes 8 (u64 fingerprint)) (enServerKeys e) of
               Inl err \<Rightarrow> (Inl err, s)
             | Inr serverKey \<Rightarrow>
            (case DecryptRSA P R (skKey serverKey) encrypted of
               Inl err \<Rightarrow> (Inl err, s)
             | Inr decrypted \<Rightarrow>
            (case parsePQInnerData P decrypted of
               Inl err \<Rightarrow> (Inl err, s)
             | Inr inner \<Rightarrow>
                 if piNonce inner \<noteq> nonce \<or> piServerNonce inner \<noteq> serverNonce \<or>
                    \<not> equalBigEndian (piP inner) p \<or> \<not> equalBigEndian (piQ inner) q \<or>
                    \<not> equalBigEndian (piPQ inner) advertisedPQ
                 then (Inl invalidHandshake, s)
                 else
                   (case validatePQFactors R (piP inner) (piQ inner) (piPQ inner) of
                      Some err \<Rightarrow> (Inl err, s)
                    | None \<Rightarrow>
                        if piExpiresIn inner \<noteq> 0 \<and> \<not> enSupportsTemporary e
                        then (Inl (CryptoError TemporaryKeyUnsupported), s)
                        else
                          issueServerDH P G I nonce serverNonce (piNewNonce inner)
                            (if piExpiresIn inner \<noteq> 0
                             then s\<lparr>hsTemporaryExpiresAt := inExpiry I + piExpiresIn inner * second\<rparr> else s)))))))"

definition encodeDHGenResponse :: "int \<Rightarrow> bytes \<Rightarrow> bytes \<Rightarrow> bytes \<Rightarrow> go_error + bytes" where
  "encodeDHGenResponse constructor nonce serverNonce nonceHash =
     buffered
       (andThen (WriteUint32 constructor) (\<lambda>_.
        andThen (WriteInt128 nonce) (\<lambda>_.
        andThen (WriteInt128 serverNonce) (\<lambda>_.
        WriteInt128 nonceHash))))"

definition readSetClientDHParams :: "(reader, bytes \<times> bytes \<times> bytes) io" where
  "readSetClientDHParams =
     andThen ReadInt128 (\<lambda>nonce.
     andThen ReadInt128 (\<lambda>serverNonce.
     andThen readLastBytes (\<lambda>encrypted.
       if length encrypted = 0 \<or> length encrypted mod 16 \<noteq> 0 then raise invalidHandshake
       else ret (nonce, serverNonce, encrypted))))"

text \<open>The store of a new key: temporary when the client asked for a lifetime.\<close>

definition storeAuthKey ::
  "primitives \<Rightarrow> handleInputs \<Rightarrow> gotime \<Rightarrow> int \<Rightarrow> bytes \<Rightarrow> MemoryAuthKeyManager \<Rightarrow> go_error option \<times> MemoryAuthKeyManager" where
  "storeAuthKey P I expires authKeyID authKey m =
     (if expires \<noteq> 0 then
        if \<not> inTemporary I < expires then (Some (CryptoError TemporaryKeyExpiry), m)
        else PutTemporary P (inStore I) authKeyID authKey expires m
      else (None, AuthKeys_Put authKeyID authKey m))"

text \<open>The second half of \<open>handleSetClientDHParams\<close>, from the client's public value on.  The session is passed
  with its stage closed and its exchange taken out, as \<open>Handle\<close> leaves it.\<close>

definition completeClientDH ::
  "primitives \<Rightarrow> dhGroup \<Rightarrow> handleInputs \<Rightarrow> bytes \<Rightarrow> bytes \<Rightarrow> nat \<Rightarrow> dhState \<Rightarrow> hsSession \<Rightarrow> MemoryAuthKeyManager \<Rightarrow>
     (go_error + hsOutput) \<times> hsSession \<times> MemoryAuthKeyManager" where
  "completeClientDH P G I nonce serverNonce gb dh s m =
     (let authKeyBytes = be_digits (big_Exp gb (dhPrivateA dh) (DHPrime G)) in
      if length authKeyBytes \<noteq> 256 then
        (let dh = dh\<lparr>dhRetryID := wrap64 (le_int (take 8 (sha1 P authKeyBytes)))\<rparr> in
         case encodeDHGenResponse dhGenRetryID nonce serverNonce
                (ComputeNewNonceHash2Auth P (dhNewNonce dh) authKeyBytes) of
           Inl err \<Rightarrow> (Inl err, s, m)
         | Inr response \<Rightarrow>
             (Inr \<lparr>ouResponse = response, ouResult = None\<rparr>, s\<lparr>hsDH := Some dh, hsStage := StageDHIssued\<rparr>, m))
      else
        (let authKeyID = AuthKey_ID P authKeyBytes in
         case storeAuthKey P I (hsTemporaryExpiresAt s) authKeyID authKeyBytes m of
           (Some err, m) \<Rightarrow> (Inl err, s, m)
         | (None, m) \<Rightarrow>
             (let serverSalt = computeServerSalt (dhNewNonce dh) serverNonce in
              case encodeDHGenResponse dhGenOKID nonce serverNonce
                     (ComputeNewNonceHash1Auth P (dhNewNonce dh) authKeyBytes) of
                Inl err \<Rightarrow> (Inl err, s, m)
              | Inr response \<Rightarrow>
                  (Inr \<lparr>ouResponse = response,
                     ouResult = Some \<lparr>reAuthKeyID = authKeyID, reInitialServerSalt = serverSalt\<rparr>\<rparr>, s, m))))"

definition handleSetClientDHParams ::
  "primitives \<Rightarrow> dhGroup \<Rightarrow> handleInputs \<Rightarrow> bytes \<Rightarrow> dhState option \<Rightarrow> hsSession \<Rightarrow> MemoryAuthKeyManager \<Rightarrow>
     (go_error + hsOutput) \<times> hsSession \<times> MemoryAuthKeyManager" where
  "handleSetClientDHParams P G I data dhOpt s m =
     (case dhOpt of
        None \<Rightarrow> (Inl invalidHandshake, s, m)
      | Some dh \<Rightarrow>
     (case fst (readSetClientDHParams (plainReader (drop 4 data))) of
        Inl err \<Rightarrow> (Inl err, s, m)
      | Inr (nonce, serverNonce, encrypted) \<Rightarrow>
          if nonce \<noteq> hsNonce s \<or> serverNonce \<noteq> hsServerNonce s then (Inl invalidHandshake, s, m)
          else
     (case NewAESIGEDecrypt (dhTempKey dh) (dhTempIV dh) of
        Inl err \<Rightarrow> (Inl err, s, m)
      | Inr block \<Rightarrow>
     (case CryptBlocks P (length encrypted) encrypted block of
        Inl err \<Rightarrow> (Inl err, s, m)
      | Inr (decrypted, _) \<Rightarrow>
     (case parseClientDHInnerData P decrypted of
        Inl err \<Rightarrow> (Inl err, s, m)
      | Inr inner \<Rightarrow>
          if ciNonce inner \<noteq> nonce \<or> ciServerNonce inner \<noteq> serverNonce then (Inl invalidHandshake, s, m)
          else if ciRetryID inner \<noteq> dhRetryID dh then (Inl invalidHandshake, s, m)
          else
            (let gb = be_int (ciGb inner) in
             case validateDHPublicValue gb (DHPrime G) of
               Some err \<Rightarrow> (Inl err, s, m)
             | None \<Rightarrow> completeClientDH P G I nonce serverNonce gb dh s m))))))"

section \<open>Handling one message\<close>

text \<open>The \<open>switch\<close> on the constructor.\<close>

definition handleConstructor ::
  "primitives \<Rightarrow> rsaLibrary \<Rightarrow> dhGroup \<Rightarrow> handleInputs \<Rightarrow> bytes \<Rightarrow> hsSession \<Rightarrow> Engine \<Rightarrow>
     (go_error + hsOutput) \<times> hsSession \<times> Engine" where
  "handleConstructor P R G I data s e =
     (let constructorID = le_int (take 4 data);
          respond = map_sum id (\<lambda>response. \<lparr>ouResponse = response, ouResult = None\<rparr>)
      in if constructorID = reqPQID \<or> constructorID = reqPQMultiID then
           (case handleReqPQ I e data (s\<lparr>hsDH := None, hsTemporaryExpiresAt := 0\<rparr>) of (r, s) \<Rightarrow> (respond r, s, e))
         else if constructorID = reqDHParamsID then
           if hsStage s \<noteq> StagePQIssued then (Inl invalidHandshake, s, e)
           else (case handleReqDHParams P R G I e data s of (r, s) \<Rightarrow> (respond r, s, e))
         else if constructorID = setClientDHParamsID then
           if hsStage s \<noteq> StageDHIssued then (Inl invalidHandshake, s, e)
           else (case handleSetClientDHParams P G I data (hsDH s) (s\<lparr>hsDH := None, hsStage := StageClosed\<rparr>)
                   (enAuthKeys e) of (r, s, m) \<Rightarrow> (r, s, e\<lparr>enAuthKeys := m\<rparr>))
         else (Inl (HandshakeError UnsupportedMessage), s, e))"

definition Handle ::
  "primitives \<Rightarrow> rsaLibrary \<Rightarrow> dhGroup \<Rightarrow> handleInputs \<Rightarrow> nat \<Rightarrow> bytes \<Rightarrow> hsSession \<Rightarrow> Engine \<Rightarrow>
     (go_error + hsOutput) \<times> hsSession \<times> Engine" where
  "Handle P R G I sid data s e =
     (case inContext I of
        Some err \<Rightarrow> (Inl err, s, e)
      | None \<Rightarrow>
          if length data < 4 \<or> length data > maxHandshakePayloadBytes then (Inl invalidHandshake, s, e)
          else if hsStage s = StageClosed then (Inl (HandshakeError HandshakeClosed), s, e)
          else
            (case Engine_check (inCheck I) sid e of
               (Some err, e) \<Rightarrow> (Inl err, s\<lparr>hsStage := StageClosed, hsDH := None\<rparr>, e)
             | (None, e) \<Rightarrow>
                 (case handleConstructor P R G I data s e of
                    (Inl err, s, e) \<Rightarrow>
                      if hsStage s \<noteq> StageFresh
                      then (Inl (normalizeError err), s\<lparr>hsStage := StageClosed, hsDH := None\<rparr>, Engine_remove sid e)
                      else (Inl (normalizeError err), s, e)
                  | (Inr output, s, e) \<Rightarrow>
                      if ouResult output \<noteq> None \<or> hsStage s = StageClosed
                      then (Inr output, s, Engine_remove sid e)
                      else (Inr output, s, Engine_refresh (inRefresh I) sid e))))"

definition Session_Close :: "nat \<Rightarrow> hsSession \<Rightarrow> Engine \<Rightarrow> hsSession \<times> Engine" where
  "Session_Close sid s e =
     (if hsStage s \<noteq> StageClosed then s\<lparr>hsStage := StageClosed, hsDH := None\<rparr> else s, Engine_remove sid e)"

section \<open>What one message does to the session\<close>

text \<open>The early returns of the handlers.\<close>

lemma return_on_error:
  assumes "(case x of Inl err \<Rightarrow> (Inl err, s) | Inr v \<Rightarrow> f v) = (r, s')"
  obtains "isl r" "s' = s" | v where "x = Inr v" "f v = (r, s')"
  using assms by (cases x) auto

lemma return_on_failed_check:
  assumes "(case x of Some err \<Rightarrow> (Inl err, s) | None \<Rightarrow> y) = (r, s')"
  obtains "isl r" "s' = s" | "x = None" "y = (r, s')"
  using assms by (cases x) auto

lemma return_if:
  assumes "(if b then (Inl err, s) else y) = (r, s')"
  obtains "isl r" "s' = s" | "\<not> b" "y = (r, s')"
  using assms by (cases b) auto

lemmas early_returns = return_on_error return_on_failed_check return_if

lemma handleReqPQ_stage:
  assumes "handleReqPQ I e data s = (r, s')"
  shows "isl r \<Longrightarrow> s' = s" "\<not> isl r \<Longrightarrow> hsStage s' = StagePQIssued \<and> hsDH s' = hsDH s"
  using assms unfolding handleReqPQ_def Let_def
  by (cases "ReadInt128 (plainReader (drop 4 data))"; cases "fst (ReadInt128 (plainReader (drop 4 data)))";
      fastforce elim!: early_returns)+

lemma issueServerDH_stage:
  assumes "issueServerDH P G I nonce serverNonce newNonce s = (r, s')"
  shows "isl r \<Longrightarrow> s' = s" "\<not> isl r \<Longrightarrow> hsStage s' = StageDHIssued \<and> hsDH s' \<noteq> None"
  using assms unfolding issueServerDH_def Let_def by (auto elim!: early_returns split: prod.splits)

lemma handleReqDHParams_stage:
  assumes "handleReqDHParams P R G I e data s = (r, s')"
  shows "isl r \<Longrightarrow> hsStage s' = hsStage s \<and> hsDH s' = hsDH s"
    "\<not> isl r \<Longrightarrow> hsStage s' = StageDHIssued \<and> hsDH s' \<noteq> None"
proof -
  consider "isl r" "s' = s"
    | nonce serverNonce newNonce t where "issueServerDH P G I nonce serverNonce newNonce (s\<lparr>hsTemporaryExpiresAt := t\<rparr>) = (r, s')"
    | nonce serverNonce newNonce where "issueServerDH P G I nonce serverNonce newNonce s = (r, s')"
    using assms unfolding handleReqDHParams_def
    by (auto elim!: early_returns split: prod.splits if_splits)
  then have "(isl r \<longrightarrow> hsStage s' = hsStage s \<and> hsDH s' = hsDH s) \<and>
      (\<not> isl r \<longrightarrow> hsStage s' = StageDHIssued \<and> hsDH s' \<noteq> None)"
    by cases (auto dest: issueServerDH_stage)
  then show "isl r \<Longrightarrow> hsStage s' = hsStage s \<and> hsDH s' = hsDH s"
    "\<not> isl r \<Longrightarrow> hsStage s' = StageDHIssued \<and> hsDH s' \<noteq> None" by simp_all
qed

definition keysSound :: "primitives \<Rightarrow> MemoryAuthKeyManager \<Rightarrow> bool" where
  "keysSound P m \<longleftrightarrow> (\<forall>i k. akKeys m i = Some k \<longrightarrow> AuthKey_ID P k = i \<and> length k = 256)"

lemma keysSound_drop: "keysSound P m \<Longrightarrow> keysSound P (dropTemporary i m)"
  by (simp add: keysSound_def dropTemporary_def)

lemma keysSound_sweep: "keysSound P m \<Longrightarrow> keysSound P (sweepTemporary clock n xs m)"
  by (induction clock n xs m rule: sweepTemporary.induct) (simp_all add: keysSound_drop)

lemma storeAuthKey_sound:
  assumes "storeAuthKey P I t (AuthKey_ID P k) k m = (r, m')" "keysSound P m" "length k = 256"
  shows "keysSound P m' \<and> (r = None \<longrightarrow> akKeys m' (AuthKey_ID P k) = Some k)"
  using assms keysSound_sweep [OF assms(2), of "inStore I" 2 "akTemporary m"]
  by (auto simp: storeAuthKey_def PutTemporary_def AuthKeys_Put_def keysSound_def Let_def split: if_splits)

lemma completeClientDH_cases:
  assumes "completeClientDH P G I nonce serverNonce gb dh s m = (r, s', m')" "keysSound P m"
  obtains (fail) "isl r" "s' = s" "keysSound P m'"
  | (retry) out where "r = Inr out" "ouResult out = None"
      "hsStage s' = StageDHIssued" "hsDH s' \<noteq> None" "m' = m"
  | (ok) out k salt where "r = Inr out"
      "ouResult out = Some \<lparr>reAuthKeyID = AuthKey_ID P k, reInitialServerSalt = salt\<rparr>"
      "s' = s" "keysSound P m'" "akKeys m' (AuthKey_ID P k) = Some k"
proof -
  define k where "k = be_digits (big_Exp gb (dhPrivateA dh) (DHPrime G))"
  show thesis
  proof (cases "length k = 256")
    case False
    then show ?thesis
      using assms fail retry
      by (cases "encodeDHGenResponse dhGenRetryID nonce serverNonce (ComputeNewNonceHash2Auth P (dhNewNonce dh) k)")
        (auto simp: completeClientDH_def k_def [symmetric])
  next
    case True
    obtain err m1 where st: "storeAuthKey P I (hsTemporaryExpiresAt s) (AuthKey_ID P k) k m = (err, m1)" by fastforce
    note snd = storeAuthKey_sound [OF st assms(2) True]
    show ?thesis
      using assms(1) st snd True fail ok
      by (cases err; cases "encodeDHGenResponse dhGenOKID nonce serverNonce (ComputeNewNonceHash1Auth P (dhNewNonce dh) k)")
        (auto simp: completeClientDH_def k_def [symmetric])
  qed
qed

lemma handleSetClientDHParams_cases:
  assumes "handleSetClientDHParams P G I data dh s m = (r, s', m')" "keysSound P m"
  obtains (fail) "isl r" "s' = s" "keysSound P m'"
  | (retry) out where "r = Inr out" "ouResult out = None"
      "hsStage s' = StageDHIssued" "hsDH s' \<noteq> None" "m' = m"
  | (ok) out k salt where "r = Inr out"
      "ouResult out = Some \<lparr>reAuthKeyID = AuthKey_ID P k, reInitialServerSalt = salt\<rparr>"
      "s' = s" "keysSound P m'" "akKeys m' (AuthKey_ID P k) = Some k"
proof -
  consider "isl r" "s' = s" "m' = m"
    | nonce serverNonce gb dh where "completeClientDH P G I nonce serverNonce gb dh s m = (r, s', m')"
    using assms(1) unfolding handleSetClientDHParams_def Let_def
    by (cases dh) (auto elim!: early_returns split: prod.splits)
  then show thesis
    using assms(2) fail retry ok by cases (blast elim: completeClientDH_cases)+
qed

definition session_ok :: "hsSession \<Rightarrow> bool" where
  "session_ok s \<longleftrightarrow> (hsStage s = StageDHIssued \<longleftrightarrow> hsDH s \<noteq> None)"

definition completed :: "go_error + hsOutput \<Rightarrow> bool" where
  "completed r \<longleftrightarrow> (case r of Inl _ \<Rightarrow> False | Inr out \<Rightarrow> ouResult out \<noteq> None)"

lemma handleConstructor_frame:
  assumes "handleConstructor P R G I data s e = (r, s', e')"
  shows "e' = e\<lparr>enAuthKeys := enAuthKeys e'\<rparr>"
  using assms by (auto simp: handleConstructor_def Let_def split: if_splits prod.splits)

definition stage_after :: "hsSession \<Rightarrow> go_error + hsOutput \<Rightarrow> hsSession \<Rightarrow> bool" where
  "stage_after s r s' \<longleftrightarrow>
     (if isl r then hsStage s' = StageFresh \<longrightarrow> hsDH s' = None
      else if completed r then hsStage s' = StageClosed \<and> hsDH s' = None
      else session_ok s' \<and> hsStage s' \<in> {StagePQIssued, StageDHIssued})"

lemma handleConstructor_stage:
  assumes run: "handleConstructor P R G I data s e = (r, s', e')"
    and ok: "session_ok s" "hsStage s \<noteq> StageClosed" and keys: "keysSound P (enAuthKeys e)"
  shows "stage_after s r s' \<and> keysSound P (enAuthKeys e')"
proof -
  let ?c = "le_int (take 4 data)"
  have dh: "hsStage s = StageFresh \<Longrightarrow> hsDH s = None" using ok by (simp add: session_ok_def)
  consider "?c = reqPQID \<or> ?c = reqPQMultiID" | "?c = reqDHParamsID" "\<not> (?c = reqPQID \<or> ?c = reqPQMultiID)"
    | "?c = setClientDHParamsID" "\<not> (?c = reqPQID \<or> ?c = reqPQMultiID)" "?c \<noteq> reqDHParamsID"
    | "\<not> (?c = reqPQID \<or> ?c = reqPQMultiID)" "?c \<noteq> reqDHParamsID" "?c \<noteq> setClientDHParamsID" by blast
  then show ?thesis
  proof cases
    case 1
    obtain x t where h: "handleReqPQ I e data (s\<lparr>hsDH := None, hsTemporaryExpiresAt := 0\<rparr>) = (x, t)" by fastforce
    then show ?thesis
      using run 1 keys handleReqPQ_stage [OF h]
      by (cases x) (auto simp: handleConstructor_def stage_after_def session_ok_def completed_def)
  next
    case 2
    obtain x t where h: "handleReqDHParams P R G I e data s = (x, t)" by fastforce
    then show ?thesis
      using run 2 keys dh handleReqDHParams_stage [OF h]
      by (cases x; cases "hsStage s = StagePQIssued")
        (auto simp: handleConstructor_def stage_after_def session_ok_def completed_def)
  next
    case 3
    let ?t = "s\<lparr>hsDH := None, hsStage := StageClosed\<rparr>"
    obtain x t m where h: "handleSetClientDHParams P G I data (hsDH s) ?t (enAuthKeys e) = (x, t, m)" by (metis prod_cases3)
    show ?thesis
    proof (cases "hsStage s = StageDHIssued")
      case True
      then have *: "r = x" "s' = t" "enAuthKeys e' = m"
        using run 3 h by (auto simp: handleConstructor_def)
      from h keys show ?thesis
        unfolding * by (cases rule: handleSetClientDHParams_cases)
          (use keys in \<open>auto simp: stage_after_def session_ok_def completed_def\<close>)
    next
      case False
      then show ?thesis using run 3 keys dh by (auto simp: handleConstructor_def stage_after_def)
    qed
  next
    case 4
    then show ?thesis using run keys dh by (auto simp: handleConstructor_def stage_after_def)
  qed
qed

text \<open>The whole call: a closed session stays as it is, a result closes the session, and a session that
  closes gives up its place in the engine.\<close>

definition touches :: "nat \<Rightarrow> (nat, gotime) gomap \<Rightarrow> (nat, gotime) gomap \<Rightarrow> bool" where
  "touches sid m m' \<longleftrightarrow> m' = m \<or> m' = AList.delete sid m \<or>
     (\<exists>t. map_of m sid \<noteq> None \<and> m' = AList.update sid t m)"

lemma Handle_summary:
  assumes run: "Handle P R G I sid data s e = (r, s', e')"
    and ok: "session_ok s" and keys: "keysSound P (enAuthKeys e)"
  shows "session_ok s'" "keysSound P (enAuthKeys e')" "enCapacity e' = enCapacity e"
    "touches sid (enSessions e) (enSessions e')"
    "hsStage s = StageClosed \<Longrightarrow> s' = s \<and> e' = e \<and> \<not> completed r"
    "completed r \<Longrightarrow> hsStage s' = StageClosed"
    "hsStage s \<noteq> StageClosed \<Longrightarrow> hsStage s' = StageClosed \<Longrightarrow> map_of (enSessions e') sid = None"
proof -
  have goal: "session_ok s' \<and> keysSound P (enAuthKeys e') \<and> enCapacity e' = enCapacity e \<and>
    touches sid (enSessions e) (enSessions e') \<and>
    (hsStage s = StageClosed \<longrightarrow> s' = s \<and> e' = e \<and> \<not> completed r) \<and>
    (completed r \<longrightarrow> hsStage s' = StageClosed) \<and>
    (hsStage s \<noteq> StageClosed \<and> hsStage s' = StageClosed \<longrightarrow> map_of (enSessions e') sid = None)"
  proof (cases "inContext I \<noteq> None \<or> length data < 4 \<or> length data > maxHandshakePayloadBytes \<or> hsStage s = StageClosed")
    case True
    then show ?thesis
      using run ok keys by (auto simp: Handle_def touches_def completed_def split: option.splits if_splits)
  next
    case False
    obtain c e1 where c: "Engine_check (inCheck I) sid e = (c, e1)" by fastforce
    show ?thesis
    proof (cases c)
      case (Some err)
      then show ?thesis
        using run ok keys False c
        by (auto simp: Handle_def Engine_check_def touches_def completed_def session_ok_def map_of_delete
            split: option.splits if_splits)
    next
      case None
      then have e1: "e1 = e" using c by (auto simp: Engine_check_def split: option.splits if_splits)
      obtain x t e2 where h: "handleConstructor P R G I data s e = (x, t, e2)" by (metis prod_cases3)
      have f: "enSessions e2 = enSessions e" "enCapacity e2 = enCapacity e" "enTTL e2 = enTTL e"
        using handleConstructor_frame [OF h] by (metis Engine.simps Engine.surjective Engine.update_convs)+
      have st: "stage_after s x t" "keysSound P (enAuthKeys e2)"
        using handleConstructor_stage [OF h ok _ keys] False by auto
      show ?thesis
        using run False c None e1 h f st
        by (cases x)
          (auto simp: Handle_def touches_def completed_def session_ok_def stage_after_def map_of_delete
            Engine_remove_def Engine_refresh_def split: if_splits)
    qed
  qed
  from goal show "session_ok s'" "keysSound P (enAuthKeys e')" "enCapacity e' = enCapacity e"
    "touches sid (enSessions e) (enSessions e')"
    "hsStage s = StageClosed \<Longrightarrow> s' = s \<and> e' = e \<and> \<not> completed r"
    "completed r \<Longrightarrow> hsStage s' = StageClosed"
    "hsStage s \<noteq> StageClosed \<Longrightarrow> hsStage s' = StageClosed \<Longrightarrow> map_of (enSessions e') sid = None" by blast+
qed

section \<open>All sessions of an engine\<close>

text \<open>The sessions the engine ever admitted, by address, and the results it emitted, oldest first.\<close>

record hsWorld =
  hwEngine :: Engine
  hwSessions :: "hsSession list"
  hwResults :: "(nat \<times> hsResult) list"

datatype hsOp = OpNewSession gotime | OpHandle handleInputs nat bytes | OpClose nat

fun hsStep :: "primitives \<Rightarrow> rsaLibrary \<Rightarrow> dhGroup \<Rightarrow> hsOp \<Rightarrow> hsWorld \<Rightarrow> hsWorld" where
  "hsStep P R G (OpNewSession now) w =
     (case Engine_NewSession now (length (hwSessions w)) (hwEngine w) of
        (Inl _, e) \<Rightarrow> w\<lparr>hwEngine := e\<rparr>
      | (Inr s, e) \<Rightarrow> w\<lparr>hwEngine := e, hwSessions := hwSessions w @ [s]\<rparr>)"
| "hsStep P R G (OpHandle I sid data) w =
     (if sid < length (hwSessions w) then
        (case Handle P R G I sid data (hwSessions w ! sid) (hwEngine w) of
           (r, s, e) \<Rightarrow>
             w\<lparr>hwEngine := e, hwSessions := (hwSessions w)[sid := s],
               hwResults := hwResults w @
                 (case r of Inr out \<Rightarrow> (case ouResult out of Some x \<Rightarrow> [(sid, x)] | None \<Rightarrow> []) | Inl _ \<Rightarrow> [])\<rparr>)
      else w)"
| "hsStep P R G (OpClose sid) w =
     (if sid < length (hwSessions w) then
        (case Session_Close sid (hwSessions w ! sid) (hwEngine w) of
           (s, e) \<Rightarrow> w\<lparr>hwEngine := e, hwSessions := (hwSessions w)[sid := s]\<rparr>)
      else w)"

definition engine_fits :: "nat \<Rightarrow> Engine \<Rightarrow> bool" where
  "engine_fits n e \<longleftrightarrow> gomap_ok (enSessions e) \<and> int (length (enSessions e)) \<le> enCapacity e \<and>
     (\<forall>sid. map_of (enSessions e) sid \<noteq> None \<longrightarrow> sid < n)"

definition hsInv :: "primitives \<Rightarrow> int \<Rightarrow> hsWorld \<Rightarrow> bool" where
  "hsInv P capacity w \<longleftrightarrow>
     enCapacity (hwEngine w) = capacity \<and> engine_fits (length (hwSessions w)) (hwEngine w) \<and>
     keysSound P (enAuthKeys (hwEngine w)) \<and>
     (\<forall>sid < length (hwSessions w). session_ok (hwSessions w ! sid) \<and>
        (hsStage (hwSessions w ! sid) = StageClosed \<longrightarrow> map_of (enSessions (hwEngine w)) sid = None)) \<and>
     distinct (map fst (hwResults w)) \<and>
     (\<forall>sid \<in> fst ` set (hwResults w). sid < length (hwSessions w) \<and> hsStage (hwSessions w ! sid) = StageClosed)"

lemma length_update_present: "map_of m k \<noteq> None \<Longrightarrow> length (AList.update k v m) = length m"
  by (induction m) auto

lemma touches_other: "touches sid m m' \<Longrightarrow> i \<noteq> sid \<Longrightarrow> map_of m' i = map_of m i"
  by (auto simp: touches_def map_of_update map_of_delete)

lemma touches_fits:
  assumes "touches sid (enSessions e) (enSessions e')" "enCapacity e' = enCapacity e" "engine_fits n e" "sid < n"
  shows "engine_fits n e'"
proof -
  have "length (AList.delete sid (enSessions e)) \<le> length (enSessions e)" by (rule length_delete_le)
  with assms show ?thesis
    by (auto simp: touches_def engine_fits_def map_of_update map_of_delete length_update_present split: if_splits)
qed

lemma hsInv_NewSession:
  assumes "hsInv P c w" shows "hsInv P c (hsStep P R G (OpNewSession now) w)"
proof -
  define e where "e = removeExpiredLocked now (hwEngine w)"
  have sub: "map_of (enSessions e) sid = None" if "map_of (enSessions (hwEngine w)) sid = None" for sid
    using that assms
    by (simp add: e_def removeExpiredLocked_def hsInv_def engine_fits_def map_of_filter_gomap)
  have same: "enCapacity e = c" "enAuthKeys e = enAuthKeys (hwEngine w)"
    using assms by (simp_all add: e_def removeExpiredLocked_def hsInv_def)
  have live: "sid < length (hwSessions w)" if "map_of (enSessions (hwEngine w)) sid \<noteq> None" for sid
    using that assms by (simp add: hsInv_def engine_fits_def)
  have fits: "engine_fits (length (hwSessions w)) e"
    unfolding engine_fits_def
  proof (intro conjI allI impI)
    have "length (enSessions e) \<le> length (enSessions (hwEngine w))" by (simp add: e_def removeExpiredLocked_def)
    then show "int (length (enSessions e)) \<le> enCapacity e"
      using assms same by (auto simp: hsInv_def engine_fits_def)
    show "gomap_ok (enSessions e)" using assms by (simp add: e_def removeExpiredLocked_def hsInv_def engine_fits_def)
    show "sid < length (hwSessions w)" if "map_of (enSessions e) sid \<noteq> None" for sid
      by (rule live, rule notI) (use that sub [of sid] in simp)
  qed
  show ?thesis
  proof (cases "int (length (enSessions e)) \<ge> enCapacity e")
    case True
    then show ?thesis
      using assms fits sub same by (auto simp: Engine_NewSession_def e_def [symmetric] hsInv_def)
  next
    case False
    let ?n = "length (hwSessions w)"
    have fresh: "map_of (enSessions e) ?n = None" using fits by (auto simp: engine_fits_def)
    have "engine_fits (Suc ?n) (e\<lparr>enSessions := AList.update ?n t (enSessions e)\<rparr>)" for t
      using fits False length_update_le [of ?n t "enSessions e"]
      by (auto simp: engine_fits_def map_of_update less_Suc_eq split: if_splits)
    then show ?thesis
      using assms sub same False
      by (auto simp: Engine_NewSession_def e_def [symmetric] hsInv_def nth_append map_of_update less_Suc_eq
          freshSession_def session_ok_def image_iff)
  qed
qed

lemma hsInv_Handle:
  assumes inv: "hsInv P c w" shows "hsInv P c (hsStep P R G (OpHandle I sid data) w)"
proof (cases "sid < length (hwSessions w)")
  case True
  obtain r s e where h: "Handle P R G I sid data (hwSessions w ! sid) (hwEngine w) = (r, s, e)" by (metis prod_cases3)
  let ?s = "hwSessions w ! sid"
  have ok: "session_ok ?s" "keysSound P (enAuthKeys (hwEngine w))" using inv True by (simp_all add: hsInv_def)
  note H = Handle_summary [OF h ok]
  have fits: "engine_fits (length (hwSessions w)) e"
    using touches_fits [OF H(4,3) _ True] inv by (simp add: hsInv_def)
  have closed: "map_of (enSessions e) sid = None" if "hsStage s = StageClosed"
    using H(5,7) that inv True by (cases "hsStage ?s = StageClosed") (auto simp: hsInv_def)
  have kept: "hsStage s = StageClosed" if "sid \<in> fst ` set (hwResults w)"
    using H(5) that inv by (auto simp: hsInv_def)
  have new: "sid \<notin> fst ` set (hwResults w)" if "completed r"
    using H(5) that inv by (auto simp: hsInv_def)
  define results where "results = (case r of Inr out \<Rightarrow> (case ouResult out of Some x \<Rightarrow> [(sid, x)] | None \<Rightarrow> []) | Inl _ \<Rightarrow> [])"
  have res: "completed r \<Longrightarrow> map fst results = [sid]" "\<not> completed r \<Longrightarrow> results = []"
    by (auto simp: results_def completed_def split: sum.splits option.splits)
  have step: "hsStep P R G (OpHandle I sid data) w = w\<lparr>hwEngine := e, hwSessions := (hwSessions w)[sid := s],
      hwResults := hwResults w @ results\<rparr>"
    using True h by (simp add: results_def)
  have d: "distinct (map fst (hwResults w @ results))"
    using new res inv by (cases "completed r") (auto simp: hsInv_def)
  have a: "i < length (hwSessions w) \<and> hsStage ((hwSessions w)[sid := s] ! i) = StageClosed"
    if "i \<in> fst ` set (hwResults w @ results)" for i
  proof (cases "i \<in> fst ` set (hwResults w)")
    case old: True
    then show ?thesis using kept inv by (cases "i = sid") (auto simp: hsInv_def)
  next
    case False
    then have "i \<in> set (map fst results)" using that by (simp add: image_Un)
    then have "completed r \<and> i = sid" using res by (cases "completed r") auto
    then show ?thesis using H(6) True by simp
  qed
  have b: "session_ok ((hwSessions w)[sid := s] ! i) \<and>
      (hsStage ((hwSessions w)[sid := s] ! i) = StageClosed \<longrightarrow> map_of (enSessions e) i = None)"
    if "i < length (hwSessions w)" for i
    using that H(1) closed touches_other [OF H(4)] inv by (cases "i = sid") (auto simp: hsInv_def)
  show ?thesis
    unfolding step using fits H(2,3) d a b inv by (simp add: hsInv_def)
qed (use inv in simp)

lemma hsInv_Close:
  assumes inv: "hsInv P c w" shows "hsInv P c (hsStep P R G (OpClose sid) w)"
proof (cases "sid < length (hwSessions w)")
  case True
  have "touches sid (enSessions (hwEngine w)) (enSessions (Engine_remove sid (hwEngine w)))"
    by (simp add: touches_def Engine_remove_def)
  then have "engine_fits (length (hwSessions w)) (Engine_remove sid (hwEngine w))"
    by (rule touches_fits) (use inv True in \<open>simp_all add: hsInv_def Engine_remove_def\<close>)
  then show ?thesis
    using inv True
    by (auto simp: hsInv_def Session_Close_def session_ok_def Engine_remove_def map_of_delete nth_list_update
        split: if_splits)
qed (use inv in simp)

lemma hsInv_run: "hsInv P c w \<Longrightarrow> hsInv P c (fold (hsStep P R G) ops w)"
proof (induction ops arbitrary: w)
  case (Cons op ops)
  then show ?case
    by (cases op) (simp_all only: fold.simps comp_apply hsInv_NewSession hsInv_Handle hsInv_Close)
qed simp

section \<open>An example server\<close>

definition exampleServerKey :: ServerKey where
  "exampleServerKey = \<lparr>skID = 7, skKey = \<lparr>rsaN = 15, rsaE = 3, rsaD = 3\<rparr>, skFingerprint = le_bytes 8 7\<rparr>"

definition exampleGroup :: dhGroup where
  "exampleGroup = \<lparr>DHPrime = 23, DHGenerator = 3\<rparr>"

definition exampleInputs :: "nat \<Rightarrow> handleInputs" where
  "exampleInputs exponent = \<lparr>inContext = None, inCheck = 1, inRandom = (\<lambda>n. Inr (replicate n 9)),
     inDraws = (\<lambda>_. Inr exponent), inExpiry = 1, inUnix = time_Unix 0, inTemporary = 1, inStore = (\<lambda>_. 1), inRefresh = 1\<rparr>"

definition exampleEngine :: Engine where
  "exampleEngine = \<lparr>enAuthKeys = NewMemoryAuthKeyManager, enSupportsTemporary = True,
     enServerKeys = ServerKeys_AddKey exampleServerKey NewMemoryServerKeyManager, enCapacity = 1, enTTL = 60, enSessions = []\<rparr>"

lemma exampleEngine_New:
  "Engine_New (Some NewMemoryAuthKeyManager) True
     (Some (ServerKeys_AddKey exampleServerKey NewMemoryServerKeyManager)) 1 60 = Inr exampleEngine"
  by (simp add: Engine_New_def exampleEngine_def)

section \<open>Properties\<close>

text \<open>C13. Whatever the sessions of an engine are asked to do, in whatever order: the engine never holds more
  sessions than its capacity; a session emits at most one result, and is closed once it has; a closed session
  gives its place back; and every stored key is a whole authorization key under its own identifier.\<close>

theorem handshake_sessions:
  assumes "Engine_New (Some keys) temporary (Some serverKeys) capacity ttl = Inr e" and "keysSound P keys"
    and "w = fold (hsStep P R G) ops \<lparr>hwEngine = e, hwSessions = [], hwResults = []\<rparr>"
  shows "int (length (enSessions (hwEngine w))) \<le> enCapacity e \<and>
     distinct (map fst (hwResults w)) \<and>
     (\<forall>sid \<in> fst ` set (hwResults w). hsStage (hwSessions w ! sid) = StageClosed) \<and>
     (\<forall>sid < length (hwSessions w). hsStage (hwSessions w ! sid) = StageClosed \<longrightarrow> map_of (enSessions (hwEngine w)) sid = None) \<and>
     keysSound P (enAuthKeys (hwEngine w))"
proof -
  have "hsInv P (enCapacity e) \<lparr>hwEngine = e, hwSessions = [], hwResults = []\<rparr>"
    using assms(1,2) by (auto simp: Engine_New_def hsInv_def engine_fits_def DefaultCapacity_def split: if_splits)
  then have "hsInv P (enCapacity e) w" unfolding assms(3) by (rule hsInv_run)
  then show ?thesis by (auto simp: hsInv_def engine_fits_def)
qed

definition exampleOps :: "hsOp list" where
  "exampleOps = [OpNewSession 0, OpNewSession 0, OpHandle (exampleInputs 5) 0 (le_bytes 4 reqPQID @ replicate 16 3),
     OpHandle (exampleInputs 5) 0 [1, 2, 3, 4], OpNewSession 0]"

theorem handshake_sessions_witness:
  "let w = fold (hsStep examplePrimitives exampleRSALibrary exampleGroup) exampleOps
       \<lparr>hwEngine = exampleEngine, hwSessions = [], hwResults = []\<rparr>
   in map hsStage (hwSessions w) = [StageClosed, StageFresh] \<and> map_of (enSessions (hwEngine w)) 0 = None \<and>
      int (length (enSessions (hwEngine w))) \<le> enCapacity exampleEngine \<and> keysSound examplePrimitives (enAuthKeys (hwEngine w))"
proof -
  let ?w = "fold (hsStep examplePrimitives exampleRSALibrary exampleGroup) exampleOps
       \<lparr>hwEngine = exampleEngine, hwSessions = [], hwResults = []\<rparr>"
  have stages: "map hsStage (hwSessions ?w) = [StageClosed, StageFresh]" by code_simp
  have sound: "keysSound examplePrimitives NewMemoryAuthKeyManager"
    by (simp add: keysSound_def NewMemoryAuthKeyManager_def)
  have "length (hwSessions ?w) = 2" using arg_cong [OF stages, of length] by simp
  moreover have "hsStage (hwSessions ?w ! 0) = StageClosed"
    using arg_cong [OF stages, of "\<lambda>xs. xs ! 0"] calculation by simp
  ultimately show ?thesis
    using handshake_sessions [OF exampleEngine_New sound refl, of exampleRSALibrary exampleGroup exampleOps] stages
    by (simp add: Let_def)
qed

end
