(* ===== verification/Handshake_Client.thy ===== *)
theory Handshake_Client
  imports Handshake
begin

text \<open>
  The compatibility client's side of the handshake (\<open>compat/client/handshake.go\<close>) and its composition with
  the server's.  \<open>exchange\<close> sends one unencrypted message and gives the data of the answer; the client's
  random exponents are an argument, and the loop that draws them may not end.
\<close>

section \<open>The client\<close>

record compatClient =
  ccServerKey :: ServerKey
  ccAuthKeyID :: int
  ccAuthKey :: bytes
  ccServerSalt :: int
  ccSessionID :: int

record SessionInfo =
  siAuthKeyID :: int
  siAuthKey :: bytes
  siServerSalt :: int
  siSessionID :: int
  siSeqNo :: int

definition fixedP :: bytes where "fixedP = [0x49, 0x4c, 0x55, 0x3b]"
definition fixedQ :: bytes where "fixedQ = [0x53, 0x91, 0x10, 0x73]"

text \<open>The local variables \<open>nonce\<close> and \<open>newNonce\<close> of \<open>performHandshake\<close>.\<close>

definition clientNonce :: bytes where "clientNonce = [1, 2, 3, 4] @ replicate 12 0"
definition clientNewNonce :: bytes where "clientNewNonce = map (\<lambda>i. word_of_nat (0x10 + i)) [0..<32]"

definition lift :: "go_error + 'a \<Rightarrow> ('s, 'a) io" where
  "lift r = (\<lambda>s. (r, s))"

abbreviation clientError :: "('s, 'a) io" where
  "clientError \<equiv> raise (HandshakeError CompatClient)"

text \<open>\<open>if got != want { return errors.New(...) }\<close>\<close>

definition expect :: "'a \<Rightarrow> 'a \<Rightarrow> ('s, unit) io" where
  "expect got want = (if got \<noteq> want then clientError else ret ())"

definition readResPQ :: "int \<Rightarrow> (reader, bytes) io" where
  "readResPQ serverKeyID =
     andThen ReadUint32 (\<lambda>ctor.
     andThen (expect ctor resPQID) (\<lambda>_.
     andThen ReadInt128 (\<lambda>gotNonce.
     andThen (expect gotNonce clientNonce) (\<lambda>_.
     andThen ReadInt128 (\<lambda>serverNonce.
     andThen ReadBytes (\<lambda>_.
     andThen ReadUint32 (\<lambda>nxt.
     andThen
       (if nxt = VectorConstructorID then
          andThen ReadInt32 (\<lambda>n. if n < 0 then clientError else repeatM (nat n) ReadInt64)
        else
          andThen ReadUint32 (\<lambda>hi.
            let marker = nxt OR push_bit 32 hi in
            if marker \<noteq> 1 then clientError else ReadVector ReadInt64)) (\<lambda>fingerprints.
       if fingerprints = [] then clientError
       else andThen (expect (hd fingerprints) serverKeyID) (\<lambda>_. ret serverNonce)))))))))"

definition clientPQInner :: "bytes \<Rightarrow> (writer, unit) io" where
  "clientPQInner serverNonce =
     andThen (WriteUint32 pqInnerDataID) (\<lambda>_.
     andThen (WriteBytes [0x17, 0xED, 0x48, 0x94, 0x1A, 0x08, 0xF9, 0x81]) (\<lambda>_.
     andThen (WriteBytes fixedP) (\<lambda>_.
     andThen (WriteBytes fixedQ) (\<lambda>_.
     andThen (WriteInt128 clientNonce) (\<lambda>_.
     andThen (WriteInt128 serverNonce) (\<lambda>_.
     WriteInt256 clientNewNonce))))))"

definition clientReqDH :: "bytes \<Rightarrow> int \<Rightarrow> bytes \<Rightarrow> (writer, unit) io" where
  "clientReqDH serverNonce keyFingerprint encryptedPQInner =
     andThen (WriteUint32 reqDHParamsID) (\<lambda>_.
     andThen (WriteInt128 clientNonce) (\<lambda>_.
     andThen (WriteInt128 serverNonce) (\<lambda>_.
     andThen (WriteBytes fixedP) (\<lambda>_.
     andThen (WriteBytes fixedQ) (\<lambda>_.
     andThen (WriteInt64 keyFingerprint) (\<lambda>_.
     WriteBytes encryptedPQInner))))))"

definition readServerDHParams :: "bytes \<Rightarrow> (reader, bytes) io" where
  "readServerDHParams serverNonce =
     andThen ReadUint32 (\<lambda>ctor.
     andThen (expect ctor serverDHParamsOKID) (\<lambda>_.
     andThen ReadInt128 (\<lambda>gotNonce.
     andThen (expect gotNonce clientNonce) (\<lambda>_.
     andThen ReadInt128 (\<lambda>gotServerNonce.
     andThen (expect gotServerNonce serverNonce) (\<lambda>_.
     andThen ReadBytes (\<lambda>encryptedAnswer.
       if length encryptedAnswer = 0 \<or> length encryptedAnswer mod 16 \<noteq> 0 then clientError
       else ret encryptedAnswer)))))))"

definition parseServerDHInnerData :: "bytes \<Rightarrow> go_error + reader" where
  "parseServerDHInnerData data =
     (case ReadUint32 (plainReader data) of (x, rd) \<Rightarrow>
        if x = Inr serverDHInnerDataID then Inr rd
        else if length data > 24 then
          (case ReadUint32 (plainReader (drop 20 data)) of (x, rd) \<Rightarrow>
             if x = Inr serverDHInnerDataID then Inr rd else Inl (HandshakeError CompatClient))
        else Inl (HandshakeError CompatClient))"

definition readServerDHInner :: "bytes \<Rightarrow> (reader, nat \<times> nat \<times> nat) io" where
  "readServerDHInner serverNonce =
     andThen ReadInt128 (\<lambda>gotNonce.
     andThen (expect gotNonce clientNonce) (\<lambda>_.
     andThen ReadInt128 (\<lambda>gotServerNonce.
     andThen (expect gotServerNonce serverNonce) (\<lambda>_.
     andThen ReadUint32 (\<lambda>gVal.
     andThen ReadBytes (\<lambda>dhPrimeBytes.
     andThen ReadBytes (\<lambda>gABytes.
     ret (nat gVal, be_int dhPrimeBytes, be_int gABytes))))))))"

text \<open>The part of \<open>performHandshake\<close> before the client draws its exponent.\<close>

definition clientStart ::
  "primitives \<Rightarrow> rsaLibrary \<Rightarrow> ServerKey \<Rightarrow> (bytes \<Rightarrow> ('s, bytes) io) \<Rightarrow>
     ('s, bytes \<times> bytes \<times> bytes \<times> nat \<times> nat \<times> nat) io" where
  "clientStart P R key exchange =
     andThen (lift (buffered (andThen (WriteUint32 reqPQMultiID) (\<lambda>_. WriteInt128 clientNonce)))) (\<lambda>reqPQ.
     andThen (exchange reqPQ) (\<lambda>resPQ.
     andThen (lift (fst (readResPQ (skID key) (plainReader resPQ)))) (\<lambda>serverNonce.
     andThen (lift (buffered (clientPQInner serverNonce))) (\<lambda>pqInner.
     andThen (lift (EncryptPKCS1v15 R (skKey key) pqInner)) (\<lambda>encryptedPQInner.
     andThen (lift (buffered (clientReqDH serverNonce (skID key) encryptedPQInner))) (\<lambda>reqDH.
     andThen (exchange reqDH) (\<lambda>serverDHParams.
     andThen (lift (fst (readServerDHParams serverNonce (plainReader serverDHParams)))) (\<lambda>encryptedAnswer.
     case DeriveTempKeyIV P clientNewNonce serverNonce of (tempKey, tempIV) \<Rightarrow>
     andThen (lift (NewAESIGEDecrypt tempKey tempIV)) (\<lambda>block.
     andThen (lift (CryptBlocks P (length encryptedAnswer) encryptedAnswer block)) (\<lambda>(serverDHPlain, _).
     andThen (lift (parseServerDHInnerData serverDHPlain)) (\<lambda>r.
     andThen (lift (fst (readServerDHInner serverNonce r))) (\<lambda>(g, dhPrime, gA).
     ret (serverNonce, tempKey, tempIV, g, dhPrime, gA)))))))))))))"

text \<open>The loop that draws the exponent; a modulus of less than 64 bits makes the shift count wrap and the shift
  panic.  The value is \<^const>\<open>None\<close> when it never ends.\<close>

partial_function (option) clientDraw ::
  "nat \<Rightarrow> nat \<Rightarrow> nat \<Rightarrow> (nat \<Rightarrow> go_error + nat) \<Rightarrow> nat \<Rightarrow> (go_error + nat \<times> bytes) option" where
  "clientDraw g dhPrime gA draws n =
     (if big_BitLen dhPrime < 64 then Some (Inl Panic)
      else
        (let minGB = 2 ^ (big_BitLen dhPrime - 64); maxGB = int dhPrime - int minGB in
         case draws n of
           Inl err \<Rightarrow> Some (Inl err)
         | Inr b \<Rightarrow>
             (let gb = big_Exp g b dhPrime; authKeyBytes = be_digits (big_Exp gA b dhPrime) in
              if gb > minGB \<and> int gb < maxGB \<and> length authKeyBytes = 256 then Some (Inr (gb, authKeyBytes))
              else clientDraw g dhPrime gA draws (Suc n))))"

definition clientDHInner :: "bytes \<Rightarrow> nat \<Rightarrow> (writer, unit) io" where
  "clientDHInner serverNonce gb =
     andThen (WriteUint32 clientDHInnerDataID) (\<lambda>_.
     andThen (WriteInt128 clientNonce) (\<lambda>_.
     andThen (WriteInt128 serverNonce) (\<lambda>_.
     andThen (WriteInt64 0) (\<lambda>_.
     WriteBytes (be_digits gb)))))"

definition readDHGen :: "primitives \<Rightarrow> bytes \<Rightarrow> bytes \<Rightarrow> (reader, unit) io" where
  "readDHGen P serverNonce authKeyBytes =
     andThen ReadUint32 (\<lambda>ctor.
     andThen (expect ctor dhGenOKID) (\<lambda>_.
     andThen ReadInt128 (\<lambda>gotNonce.
     andThen (expect gotNonce clientNonce) (\<lambda>_.
     andThen ReadInt128 (\<lambda>gotServerNonce.
     andThen (expect gotServerNonce serverNonce) (\<lambda>_.
     andThen ReadInt128 (\<lambda>gotHash.
     expect gotHash (ComputeNewNonceHash1Auth P clientNewNonce authKeyBytes))))))))"

text \<open>The part of \<open>performHandshake\<close> after it.\<close>

definition clientFinish ::
  "primitives \<Rightarrow> (bytes \<Rightarrow> ('s, bytes) io) \<Rightarrow> bytes \<Rightarrow> bytes \<Rightarrow> bytes \<Rightarrow> nat \<Rightarrow> bytes \<Rightarrow> ('s, unit) io" where
  "clientFinish P exchange serverNonce tempKey tempIV gb authKeyBytes =
     andThen (lift (buffered (clientDHInner serverNonce gb))) (\<lambda>plain.
       let rem = length plain mod 16;
           clientDHPlain = (if rem \<noteq> 0 then plain @ replicate (16 - rem) 0 else plain) in
       andThen (lift (NewAESIGE tempKey tempIV)) (\<lambda>block.
       andThen (lift (CryptBlocks P (length clientDHPlain) clientDHPlain block)) (\<lambda>(encryptedClientDH, _).
       andThen (lift (buffered
         (andThen (WriteUint32 setClientDHParamsID) (\<lambda>_.
          andThen (WriteInt128 clientNonce) (\<lambda>_.
          andThen (WriteInt128 serverNonce) (\<lambda>_.
          WriteBytes encryptedClientDH)))))) (\<lambda>setClientDH.
       andThen (exchange setClientDH) (\<lambda>dhGen.
       lift (fst (readDHGen P serverNonce authKeyBytes (plainReader dhGen))))))))"

definition performHandshake ::
  "primitives \<Rightarrow> rsaLibrary \<Rightarrow> (bytes \<Rightarrow> ('s, bytes) io) \<Rightarrow> (nat \<Rightarrow> go_error + nat) \<Rightarrow> int \<Rightarrow> compatClient \<Rightarrow> 's \<Rightarrow>
     ((go_error + SessionInfo) \<times> compatClient \<times> 's) option" where
  "performHandshake P R exchange draws sessionID c s =
     (case clientStart P R (ccServerKey c) exchange s of
        (Inl err, s) \<Rightarrow> Some (Inl err, c, s)
      | (Inr (serverNonce, tempKey, tempIV, g, dhPrime, gA), s) \<Rightarrow>
          (case clientDraw g dhPrime gA draws 0 of
             None \<Rightarrow> None
           | Some (Inl err) \<Rightarrow> Some (Inl err, c, s)
           | Some (Inr (gb, authKeyBytes)) \<Rightarrow>
               (let c = c\<lparr>ccAuthKeyID := u64 (ComputeAuthKeyID P authKeyBytes), ccAuthKey := authKeyBytes\<rparr> in
                case clientFinish P exchange serverNonce tempKey tempIV gb authKeyBytes s of
                  (Inl err, s) \<Rightarrow> Some (Inl err, c, s)
                | (Inr _, s) \<Rightarrow>
                    (let c = c\<lparr>ccServerSalt := 0, ccSessionID := sessionID\<rparr> in
                     Some (Inr \<lparr>siAuthKeyID = ccAuthKeyID c, siAuthKey = ccAuthKey c, siServerSalt = ccServerSalt c,
                                siSessionID = ccSessionID c, siSeqNo = 0\<rparr>, c, s)))))"

section \<open>The messages on the wire\<close>

lemma length_clientNonce [simp]: "length clientNonce = 16" "length clientNewNonce = 32"
  by (simp_all add: clientNonce_def clientNewNonce_def)

lemma expect_same [simp]: "expect x x = ret ()"
  by (simp add: expect_def)

lemma handshake_ids_range:
  "in_u32 reqPQMultiID" "in_u32 resPQID" "in_u32 reqDHParamsID" "in_u32 serverDHParamsOKID"
  "in_u32 setClientDHParamsID" "in_u32 dhGenOKID" "in_u32 pqInnerDataID" "in_u32 serverDHInnerDataID"
  "in_u32 clientDHInnerDataID" "in_u32 handshakeGenerator"
  by (simp_all add: handshake_ids handshakeGenerator_def in_u32_def)

lemma length_enc_bytes_le: "length (enc_bytes v) \<le> length v + 7"
  by (auto simp: enc_bytes_def tl_padding_def)

lemma parses_ReadInt128: "length bs = 16 \<Longrightarrow> parses ReadInt128 bs 0 0 0 bs"
  by (simp add: ReadInt128_def parse_intros)

lemma parses_ReadInt256: "length bs = 32 \<Longrightarrow> parses ReadInt256 bs 0 0 0 bs"
  by (simp add: ReadInt256_def parse_intros)

lemma parses_expect:
  "parses m a 0 0 0 x \<Longrightarrow> parses (f ()) b v k d y \<Longrightarrow>
     parses (andThen m (\<lambda>got. andThen (expect got x) f)) (a @ b) v k d y"
  by (erule parses_seq) simp

lemmas parse_expected = parses_expect [OF parses_ReadUint32] parses_expect [OF parses_ReadInt128]

lemmas parse_steps = parses_seq [OF parses_ReadUint32] parses_seq [OF parses_ReadInt32] parses_seq [OF parses_ReadInt64]
  parses_seq [OF parses_ReadInt128] parses_seq [OF parses_ReadInt256] parses_seq [OF parses_ReadBytes]

lemma read_all:
  "parses_all m bs v k d x \<Longrightarrow> m (plainReader bs) = (Inr x, plainReader [])"
  by (auto simp: parses_all_def affords_def spend_def)

lemma read_prefix:
  "parses m bs v k d x \<Longrightarrow> m (plainReader (bs @ rest)) = (Inr x, plainReader rest)"
  using parsesD [of m bs v k d x "plainReader (bs @ rest)" rest] by (simp add: affords_def spend_def)

lemma short_strings: "length advertisedPQ = 8" "length fixedP = 4" "length fixedQ = 4"
  by (simp_all add: advertisedPQ_def fixedP_def fixedQ_def)

text \<open>First round.\<close>

definition reqPQBytes :: bytes where
  "reqPQBytes = le_bytes 4 reqPQMultiID @ clientNonce"

definition resPQBytes :: "bytes \<Rightarrow> ServerKey list \<Rightarrow> bytes" where
  "resPQBytes serverNonce keys = le_bytes 4 resPQID @ clientNonce @ serverNonce @ enc_bytes advertisedPQ @
     le_bytes 4 VectorConstructorID @ le_bytes 4 (int (length keys)) @ concat (map (\<lambda>key. le_bytes 8 (skID key)) keys)"

lemma write_reqPQ: "buffered (andThen (WriteUint32 reqPQMultiID) (\<lambda>_. WriteInt128 clientNonce)) = Inr reqPQBytes"
  unfolding reqPQBytes_def WriteInt128_def by (rule buffered_emits) (simp add: emit_intros)

lemma handleReqPQ_eq:
  assumes "inRandom I 16 = Inr serverNonce" "ServerKeys_GetAllKeys (enServerKeys e) = keys" "keys \<noteq> []"
  shows "handleReqPQ I e reqPQBytes s =
    (Inr (resPQBytes serverNonce keys), s\<lparr>hsNonce := clientNonce, hsServerNonce := serverNonce, hsStage := StagePQIssued\<rparr>)"
proof -
  have r: "ReadInt128 (plainReader (drop 4 reqPQBytes)) = (Inr clientNonce, plainReader [])"
    using read_all [OF parses_all_parses [OF parses_ReadInt128 [of clientNonce]]] by (simp add: reqPQBytes_def)
  have w: "emits (andThen (WriteUint32 resPQID) (\<lambda>_.
      andThen (WriteInt128 clientNonce) (\<lambda>_.
      andThen (WriteInt128 serverNonce) (\<lambda>_.
      andThen (WriteBytes advertisedPQ) (\<lambda>_.
      andThen (WriteVectorHeader (int (length keys))) (\<lambda>_.
      forEach keys (\<lambda>key. WriteInt64 (skID key)))))))) (resPQBytes serverNonce keys)"
    unfolding resPQBytes_def WriteInt128_def
    by (simp add: emit_intros short_strings emits_andThen [OF emits_WriteVectorHeader, simplified])
  show ?thesis using assms by (simp add: handleReqPQ_def r buffered_emits [OF w])
qed

lemma parses_fingerprints:
  "\<forall>x \<in> set xs. in_i64 x \<Longrightarrow> parses (repeatM (length xs) ReadInt64) (concat (map (le_bytes 8) xs)) 0 0 0 xs"
  using parses_repeatM [of xs ReadInt64 "le_bytes 8" "\<lambda>_. 0" "\<lambda>_. 0" 0]
  by (simp add: parses_ReadInt64 map_replicate_const sum_list_replicate)

lemma readResPQ_eq:
  assumes "length serverNonce = 16" "length keys < 2 ^ 31" "\<forall>key \<in> set keys. in_i64 (skID key)" "keys = key # rest"
  shows "fst (readResPQ (skID key) (plainReader (resPQBytes serverNonce keys))) = Inr serverNonce"
proof -
  have tail: "parses (andThen (repeatM (length keys) ReadInt64) (\<lambda>fingerprints.
       if fingerprints = [] then clientError
       else andThen (expect (hd fingerprints) (skID key)) (\<lambda>_. ret serverNonce)))
     (concat (map (\<lambda>key. le_bytes 8 (skID key)) keys)) 0 0 0 serverNonce"
    using parses_seq [OF parses_fingerprints [of "map skID keys"], of _ "[]" 0 0 0 serverNonce] assms(3,4)
    by (simp add: comp_def)
  have count: "in_i32 (int (length keys))" using assms(2) by (simp add: in_i32_def)
  have vec: "parses (andThen ReadUint32 (\<lambda>nxt.
     andThen
       (if nxt = VectorConstructorID then
          andThen ReadInt32 (\<lambda>n. if n < 0 then clientError else repeatM (nat n) ReadInt64)
        else
          andThen ReadUint32 (\<lambda>hi.
            let marker = nxt OR push_bit 32 hi in
            if marker \<noteq> 1 then clientError else ReadVector ReadInt64)) (\<lambda>fingerprints.
       if fingerprints = [] then clientError
       else andThen (expect (hd fingerprints) (skID key)) (\<lambda>_. ret serverNonce))))
     (le_bytes 4 VectorConstructorID @ le_bytes 4 (int (length keys)) @ concat (map (\<lambda>key. le_bytes 8 (skID key)) keys))
     0 0 0 serverNonce"
    by (rule parse_steps, simp add: VectorConstructorID_def in_u32_def, simp only: if_True refl andThen_assoc,
        rule parse_steps, rule count) (simp add: tail)
  have "parses (readResPQ (skID key)) (resPQBytes serverNonce keys) 0 0 0 serverNonce"
    unfolding readResPQ_def resPQBytes_def
    by (intro parse_expected parse_steps vec) (use assms in \<open>simp_all add: handshake_ids_range short_strings\<close>)
  from read_all [OF parses_all_parses [OF this]] show ?thesis by simp
qed

text \<open>One side encrypts, the other decrypts.\<close>

lemma block_roundtrip:
  assumes P: "primitives_ok P" and l: "length key = 32" "length iv = 32" and src: "length src mod 16 = 0"
  obtains c b d st st' where "NewAESIGE key iv = Inr b" "CryptBlocks P (length src) src b = Inr (c, st)"
    "length c = length src" "NewAESIGEDecrypt key iv = Inr d" "CryptBlocks P (length c) c d = Inr (src, st')"
proof -
  obtain c iv' where run: "cryptIGEState P key (length src) src iv False = Inr (c, iv')"
    using cryptIGEState_total [OF src order_refl] by blast
  note inv = cryptIGEState_inverse [OF P l run]
  show thesis
    by (rule that [of "\<lparr>ige_key = key, ige_iv = iv, ige_decrypt = False\<rparr>" c _ "\<lparr>ige_key = key, ige_iv = iv, ige_decrypt = True\<rparr>"])
      (use run inv l in \<open>simp_all add: NewAESIGE_def NewAESIGEDecrypt_def CryptBlocks_def aes256KeySize_def igeIVSize_def\<close>)
qed

text \<open>Second round: the request.\<close>

definition pqInnerBytes :: "bytes \<Rightarrow> bytes" where
  "pqInnerBytes serverNonce = le_bytes 4 pqInnerDataID @ enc_bytes advertisedPQ @ enc_bytes fixedP @ enc_bytes fixedQ @
     clientNonce @ serverNonce @ clientNewNonce"

definition clientInner :: "bytes \<Rightarrow> pqInnerData" where
  "clientInner serverNonce = \<lparr>piExpiresIn = 0, piPQ = advertisedPQ, piP = fixedP, piQ = fixedQ, piNonce = clientNonce,
     piServerNonce = serverNonce, piNewNonce = clientNewNonce\<rparr>"

lemma write_pqInner: "buffered (clientPQInner serverNonce) = Inr (pqInnerBytes serverNonce)"
  unfolding pqInnerBytes_def clientPQInner_def advertisedPQ_def [symmetric] WriteInt128_def WriteInt256_def
  by (rule buffered_emits) (simp add: emit_intros short_strings)

lemma parses_pqInner:
  assumes "length serverNonce = 16"
  shows "parses readPQInner (pqInnerBytes serverNonce) 0 0 0 (clientInner serverNonce)"
proof -
  have "parses (andThen ReadInt256 (\<lambda>newNonce. ret \<lparr>piExpiresIn = 0, piPQ = advertisedPQ, piP = fixedP, piQ = fixedQ,
      piNonce = clientNonce, piServerNonce = serverNonce, piNewNonce = newNonce\<rparr>)) clientNewNonce 0 0 0 (clientInner serverNonce)"
    by (rule parses_map [OF parses_ReadInt256]) (simp_all add: clientInner_def)
  then have "parses (andThen ReadBytes (\<lambda>pq. andThen ReadBytes (\<lambda>p. andThen ReadBytes (\<lambda>q. andThen ReadInt128 (\<lambda>nonce.
      andThen ReadInt128 (\<lambda>serverNonce. andThen ReadInt256 (\<lambda>newNonce.
        ret \<lparr>piExpiresIn = 0, piPQ = pq, piP = p, piQ = q, piNonce = nonce, piServerNonce = serverNonce, piNewNonce = newNonce\<rparr>)))))))
      (enc_bytes advertisedPQ @ enc_bytes fixedP @ enc_bytes fixedQ @ clientNonce @ serverNonce @ clientNewNonce) 0 0 0
      (clientInner serverNonce)"
    by (intro parse_steps) (use assms in \<open>simp_all add: short_strings\<close>)
  moreover have ids: "(pqInnerDataID = pqInnerDataDCID) = False" "(pqInnerDataID = pqInnerDataTempDCID) = False"
    by (simp_all add: handshake_ids)
  ultimately show ?thesis
    unfolding readPQInner_def pqInnerBytes_def
    by (intro parses_seq [OF parses_ReadUint32] handshake_ids_range)
      (simp only: ids simp_thms if_True if_False andThen_ret)
qed

lemma parse_pqInner:
  assumes "length serverNonce = 16"
  shows "parsePQInnerData P (pqInnerBytes serverNonce) = Inr (clientInner serverNonce)"
proof -
  have "4 \<le> length (pqInnerBytes serverNonce)" by (simp add: pqInnerBytes_def)
  then show ?thesis
    using read_all [OF parses_all_parses [OF parses_pqInner [OF assms]]]
    by (simp add: parsePQInnerData_def parseAt_def)
qed

definition reqDHBytes :: "bytes \<Rightarrow> int \<Rightarrow> bytes \<Rightarrow> bytes" where
  "reqDHBytes serverNonce fingerprint encrypted = le_bytes 4 reqDHParamsID @ clientNonce @ serverNonce @
     enc_bytes fixedP @ enc_bytes fixedQ @ le_bytes 8 fingerprint @ enc_bytes encrypted"

lemma write_reqDH:
  "length encrypted < 2 ^ 24 \<Longrightarrow>
     buffered (clientReqDH serverNonce fingerprint encrypted) = Inr (reqDHBytes serverNonce fingerprint encrypted)"
  unfolding reqDHBytes_def clientReqDH_def WriteInt128_def
  by (rule buffered_emits) (simp add: emit_intros short_strings)

lemma parses_readLastBytes: "length v < 2 ^ 24 \<Longrightarrow> parses_all readLastBytes (enc_bytes v) 0 0 0 v"
  unfolding parses_all_def readLastBytes_def
  using parsesD [OF parses_ReadBytes, of v _ "[]"] by auto

lemmas parse_all_steps = parses_all_seq [OF parses_ReadInt128] parses_all_seq [OF parses_ReadBytes] parses_all_seq [OF parses_ReadInt64]

lemma parses_all_map:
  "parses_all m bs v k d x \<Longrightarrow> y = g x \<Longrightarrow> parses_all (andThen m (\<lambda>z. ret (g z))) bs v k d y"
  by (simp add: parses_all_def)

lemma read_reqDH:
  assumes "length serverNonce = 16" "in_i64 fingerprint" "length encrypted < 2 ^ 24"
  shows "readReqDHParams (plainReader (drop 4 (reqDHBytes serverNonce fingerprint encrypted))) =
    (Inr (clientNonce, serverNonce, fixedP, fixedQ, fingerprint, encrypted), plainReader [])"
proof -
  have "parses_all readReqDHParams (clientNonce @ serverNonce @ enc_bytes fixedP @ enc_bytes fixedQ @
      le_bytes 8 fingerprint @ enc_bytes encrypted) 0 0 0 (clientNonce, serverNonce, fixedP, fixedQ, fingerprint, encrypted)"
    unfolding readReqDHParams_def
    by (intro parse_all_steps parses_all_map [OF parses_readLastBytes])
      (use assms in \<open>simp_all add: short_strings\<close>)
  from read_all [OF this] show ?thesis by (simp add: reqDHBytes_def)
qed

lemma factors_accepted:
  assumes "ProbablyPrime R 1229739323" "ProbablyPrime R 1402015859"
  shows "validatePQFactors R fixedP fixedQ advertisedPQ = None"
proof -
  have "be_int fixedP = 1229739323" "be_int fixedQ = 1402015859" "be_int advertisedPQ = 1724114033281923457"
    by (simp_all add: fixedP_def fixedQ_def advertisedPQ_def be_int_def)
  then show ?thesis using assms by (simp add: validatePQFactors_def)
qed

lemma GetKey_first:
  assumes "ServerKeys_GetAllKeys keys = key # rest" "skFingerprint key = le_bytes 8 (skID key)"
  shows "ServerKeys_GetKey (le_bytes 8 (skID key)) keys = Inr key"
  using assms by (auto simp: ServerKeys_GetKey_def ServerKeys_GetAllKeys_def)

lemma handleReqDHParams_eq:
  assumes "length serverNonce = 16" "in_i64 (skID key)" "length encrypted < 2 ^ 24"
    and "hsNonce s = clientNonce" "hsServerNonce s = serverNonce"
    and "ProbablyPrime R 1229739323" "ProbablyPrime R 1402015859"
    and "ServerKeys_GetAllKeys (enServerKeys e) = key # rest" "skFingerprint key = le_bytes 8 (skID key)"
    and "DecryptRSA P R (skKey key) encrypted = Inr (pqInnerBytes serverNonce)"
  shows "handleReqDHParams P R G I e (reqDHBytes serverNonce (skID key) encrypted) s =
    issueServerDH P G I clientNonce serverNonce clientNewNonce s"
  using assms
  by (simp add: handleReqDHParams_def read_reqDH factors_accepted GetKey_first parse_pqInner clientInner_def equalBigEndian_def)

text \<open>The answer.\<close>

definition serverInnerBytes :: "dhGroup \<Rightarrow> bytes \<Rightarrow> nat \<Rightarrow> gotime \<Rightarrow> bytes" where
  "serverInnerBytes G serverNonce ga now = le_bytes 4 serverDHInnerDataID @ clientNonce @ serverNonce @
     le_bytes 4 handshakeGenerator @ enc_bytes (be_digits (DHPrime G)) @ enc_bytes (be_digits ga) @
     le_bytes 4 (u32 (Unix_of now))"

definition dhParamsBytes :: "bytes \<Rightarrow> bytes \<Rightarrow> bytes" where
  "dhParamsBytes serverNonce encrypted = le_bytes 4 serverDHParamsOKID @ clientNonce @ serverNonce @ enc_bytes encrypted"

lemma length_be_digits_256: "n < 2 ^ 2048 \<Longrightarrow> length (be_digits n) \<le> 256"
proof -
  have "(2 :: nat) ^ 2048 = 256 ^ 256" using power_mult [of "2 :: nat" 8 256] by simp
  then show "n < 2 ^ 2048 \<Longrightarrow> length (be_digits n) \<le> 256" using length_be_digits_le [of n 256] by (simp only:)
qed

lemma length_serverInnerBytes:
  assumes "DHPrime G < 2 ^ 2048" "ga < DHPrime G" "length serverNonce = 16"
  shows "length (serverInnerBytes G serverNonce ga now) \<le> 600"
proof -
  have "length (be_digits (DHPrime G)) \<le> 256" "length (be_digits ga) \<le> 256"
    using assms by (auto intro!: length_be_digits_256 simp del: power_numeral)
  then show ?thesis
    using length_enc_bytes_le [of "be_digits (DHPrime G)"] length_enc_bytes_le [of "be_digits ga"] assms(3)
    by (simp add: serverInnerBytes_def)
qed

lemma pad16: "(n + (16 - n mod 16) mod 16) mod 16 = (0 :: nat)"
proof (cases "n mod 16 = 0")
  case False
  have "(n + (16 - n mod 16)) mod 16 = (n mod 16 + (16 - n mod 16)) mod 16" by (rule mod_add_left_eq [symmetric])
  moreover have "n mod 16 + (16 - n mod 16) = 16" by simp
  ultimately show ?thesis using False by simp
qed simp

lemma issueServerDH_eq:
  assumes P: "primitives_ok P" and sn: "length serverNonce = 16" and draw: "inDraws I 0 = Inr a" "2 \<le> a"
    and ga: "ga = big_Exp (DHGenerator G) a (DHPrime G)" "validateDHPublicValue ga (DHPrime G) = None"
    and p: "DHPrime G < 2 ^ 2048" "0 < DHPrime G" and rnd: "random_ok (inRandom I)"
    and kdf: "DeriveTempKeyIV P clientNewNonce serverNonce = (tempKey, tempIV)"
  obtains encrypted pad d st where
    "issueServerDH P G I clientNonce serverNonce clientNewNonce s = (Inr (dhParamsBytes serverNonce encrypted),
       s\<lparr>hsDH := Some \<lparr>dhNewNonce = clientNewNonce, dhPrivateA = a, dhTempKey = tempKey, dhTempIV = tempIV, dhRetryID = 0\<rparr>,
         hsStage := StageDHIssued\<rparr>)"
    "0 < length encrypted" "length encrypted mod 16 = 0" "length encrypted < 1000"
    "NewAESIGEDecrypt tempKey tempIV = Inr d"
    "CryptBlocks P (length encrypted) encrypted d =
       Inr (sha1 P (serverInnerBytes G serverNonce ga (inUnix I)) @ serverInnerBytes G serverNonce ga (inUnix I) @ pad, st)"
proof -
  define plain where "plain = serverInnerBytes G serverNonce ga (inUnix I)"
  have gap: "ga < DHPrime G" using ga(1) p(2) by (simp add: big_Exp_def)
  have small: "length plain \<le> 600" unfolding plain_def by (rule length_serverInnerBytes [OF p(1) gap sn])
  have digits: "length (be_digits (DHPrime G)) \<le> 256" "length (be_digits ga) \<le> 256"
    using p(1) gap by (auto intro!: length_be_digits_256 simp del: power_numeral)
  have w: "buffered (serverDHInner G clientNonce serverNonce ga (inUnix I)) = Inr plain"
    unfolding plain_def serverInnerBytes_def serverDHInner_def WriteInt128_def
    by (rule buffered_emits, intro emit_intros) (use digits in simp_all)
  let ?h = "sha1 P plain @ plain"
  let ?r = "length ?h mod 16"
  obtain pad where pad: "(if ?r \<noteq> 0 then inRandom I (16 - ?r) else Inr []) = Inr pad" "length pad = (16 - ?r) mod 16"
  proof (cases "?r = 0")
    case False
    then obtain bs where "inRandom I (16 - ?r) = Inr bs" "length bs = 16 - ?r"
      using rnd by (auto simp: random_ok_def)
    with False that [of bs] show thesis by simp
  qed (use that in simp)
  define src where "src = ?h @ pad"
  have hl: "length (sha1 P plain) = 20" using P by (simp add: primitives_ok_def)
  have src: "length src mod 16 = 0" "length src \<le> 635" "0 < length src"
  proof -
    show "length src mod 16 = 0" using pad(2) pad16 [of "length ?h"] unfolding src_def length_append [of ?h] by simp
    have "length pad < 16" using pad(2) by simp
    then show "length src \<le> 635" "0 < length src" using small hl by (simp_all add: src_def)
  qed
  have l: "length tempKey = 32" "length tempIV = 32"
    using DeriveTempKeyIV_length [OF P _ kdf] by simp_all
  obtain c b d st st' where crypt: "NewAESIGE tempKey tempIV = Inr b" "CryptBlocks P (length src) src b = Inr (c, st)"
    "length c = length src" "NewAESIGEDecrypt tempKey tempIV = Inr d" "CryptBlocks P (length c) c d = Inr (src, st')"
    by (rule block_roundtrip [OF P l src(1)])
  have enc: "encryptServerDH P (inRandom I) clientNewNonce serverNonce plain = Inr (c, tempKey, tempIV)"
    using pad(1) crypt(1,2) kdf by (simp add: encryptServerDH_def Let_def src_def)
  have "emits (andThen (WriteUint32 serverDHParamsOKID) (\<lambda>_. andThen (WriteInt128 clientNonce) (\<lambda>_.
      andThen (WriteInt128 serverNonce) (\<lambda>_. WriteBytes c)))) (dhParamsBytes serverNonce c)"
    unfolding dhParamsBytes_def WriteInt128_def using crypt(3) src(2) by (simp add: emit_intros)
  note out = buffered_emits [OF this]
  have "generatePrivateExponent 32 (inDraws I) = Inr a"
    using draw by (simp add: numeral_eq_Suc)
  then have run: "issueServerDH P G I clientNonce serverNonce clientNewNonce s = (Inr (dhParamsBytes serverNonce c),
       s\<lparr>hsDH := Some \<lparr>dhNewNonce = clientNewNonce, dhPrivateA = a, dhTempKey = tempKey, dhTempIV = tempIV, dhRetryID = 0\<rparr>,
         hsStage := StageDHIssued\<rparr>)"
    using ga w enc out by (simp add: issueServerDH_def Let_def)
  show thesis
    by (rule that [OF run _ _ _ crypt(4)]) (use crypt src in \<open>simp_all add: src_def plain_def\<close>)
qed

lemma read_dhParams:
  assumes "length serverNonce = 16" "0 < length encrypted" "length encrypted mod 16 = 0" "length encrypted < 1000"
  shows "fst (readServerDHParams serverNonce (plainReader (dhParamsBytes serverNonce encrypted))) = Inr encrypted"
proof -
  have "parses (andThen ReadBytes (\<lambda>v. if length v = 0 \<or> length v mod 16 \<noteq> 0 then clientError else ret v))
      (enc_bytes encrypted @ []) 0 0 0 encrypted"
    by (rule parse_steps) (use assms in \<open>simp_all add: parses_ret\<close>)
  then have "parses (readServerDHParams serverNonce) (dhParamsBytes serverNonce encrypted) 0 0 0 encrypted"
    unfolding readServerDHParams_def dhParamsBytes_def
    by (intro parse_expected) (use assms in \<open>simp_all add: handshake_ids_range\<close>)
  from read_all [OF parses_all_parses [OF this]] show ?thesis by simp
qed

lemma read_serverInner:
  assumes sn: "length serverNonce = 16" and h: "length hash = 20" "le_int (take 4 hash) \<noteq> serverDHInnerDataID"
    and p: "DHPrime G < 2 ^ 2048" "ga < DHPrime G"
  obtains r where "parseServerDHInnerData (hash @ serverInnerBytes G serverNonce ga now @ pad) = Inr r"
    "fst (readServerDHInner serverNonce r) = Inr (3, DHPrime G, ga)"
proof -
  define tail where "tail = clientNonce @ serverNonce @ le_bytes 4 handshakeGenerator @ enc_bytes (be_digits (DHPrime G)) @
    enc_bytes (be_digits ga) @ (le_bytes 4 (u32 (Unix_of now)) @ pad)"
  let ?d = "hash @ serverInnerBytes G serverNonce ga now @ pad"
  have d: "?d = hash @ le_bytes 4 serverDHInnerDataID @ tail" by (simp add: serverInnerBytes_def tail_def)
  have first: "fst (ReadUint32 (plainReader ?d)) \<noteq> Inr serverDHInnerDataID"
    using h by (simp add: ReadUint32_def andThen_def avail_def)
  have second: "ReadUint32 (plainReader (drop 20 ?d)) = (Inr serverDHInnerDataID, plainReader tail)"
    using read_prefix [OF parses_ReadUint32 [of serverDHInnerDataID], of tail] h(1) handshake_ids_range by (simp add: d)
  have long: "length ?d > 24" using h(1) by (simp add: serverInnerBytes_def)
  have digits: "length (be_digits (DHPrime G)) \<le> 256" "length (be_digits ga) \<le> 256"
    using p by (auto intro!: length_be_digits_256 simp del: power_numeral)
  have "parses (readServerDHInner serverNonce) (clientNonce @ serverNonce @ le_bytes 4 handshakeGenerator @
      enc_bytes (be_digits (DHPrime G)) @ enc_bytes (be_digits ga)) 0 0 0 (3, DHPrime G, ga)"
    unfolding readServerDHInner_def
    by (intro parse_expected parse_steps parses_map [OF parses_ReadBytes])
      (use sn digits in \<open>simp_all add: handshake_ids_range be_int_be_digits handshakeGenerator_def in_u32_def\<close>)
  from read_prefix [OF this, of "le_bytes 4 (u32 (Unix_of now)) @ pad"]
  have "fst (readServerDHInner serverNonce (plainReader tail)) = Inr (3, DHPrime G, ga)"
    by (simp add: tail_def)
  moreover have "parseServerDHInnerData ?d = Inr (plainReader tail)"
    using first second long by (cases "ReadUint32 (plainReader ?d)") (simp add: parseServerDHInnerData_def)
  ultimately show thesis by (rule that [rotated])
qed

text \<open>Third round: both sides raise the other's public value.\<close>

lemma shared_secret: "big_Exp (big_Exp g b p) a p = big_Exp (big_Exp g a p) b p"
  by (simp add: big_Exp_def power_mod power_mult [symmetric] mult.commute)

lemma BitLen_eq: "2 ^ k \<le> n \<Longrightarrow> n < 2 ^ Suc k \<Longrightarrow> big_BitLen n = Suc k"
  using BitLen_le [of n k] BitLen_le [of n "Suc k"] by simp

lemma clientDraw_eq:
  assumes "2 ^ 2047 \<le> p" "p < 2 ^ 2048" "draws 0 = Inr b" "gb = big_Exp g b p"
    and "validateDHPublicValue gb p = None" "authKey = be_digits (big_Exp ga b p)" "length authKey = 256"
  shows "clientDraw g p ga draws 0 = Some (Inr (gb, authKey))"
proof -
  have "big_BitLen p = Suc 2047" by (rule BitLen_eq) (use assms(1,2) in \<open>simp_all del: power_numeral power_Suc\<close>)
  then have bits: "big_BitLen p = 2048" by simp
  have "int gb > 2 ^ 1984" "int gb < int p - 2 ^ 1984"
    using assms(5) unfolding validateDHPublicValue_def Let_def by (simp_all del: power_numeral split: if_splits)
  moreover have "int gb > 2 ^ 1984 \<longleftrightarrow> gb > 2 ^ 1984"
    using of_nat_less_iff [of "2 ^ 1984" gb, where 'a = int] by (simp del: power_numeral of_nat_less_iff)
  ultimately show ?thesis
    using assms bits by (subst clientDraw.simps) (simp add: Let_def del: power_numeral)
qed

definition clientInnerBytes :: "bytes \<Rightarrow> nat \<Rightarrow> bytes" where
  "clientInnerBytes serverNonce gb = le_bytes 4 clientDHInnerDataID @ clientNonce @ serverNonce @ le_bytes 8 0 @
     enc_bytes (be_digits gb)"

lemma write_clientInner:
  "gb < 2 ^ 2048 \<Longrightarrow> buffered (clientDHInner serverNonce gb) = Inr (clientInnerBytes serverNonce gb)"
  unfolding clientInnerBytes_def clientDHInner_def WriteInt128_def
  by (rule buffered_emits, intro emit_intros, drule length_be_digits_256) simp_all

lemma parse_clientInner:
  assumes sn: "length serverNonce = 16" "le_int (take 4 serverNonce) \<noteq> clientDHInnerDataID" and gb: "gb < 2 ^ 2048"
  shows "parseClientDHInnerData P (clientInnerBytes serverNonce gb @ pad) =
    Inr \<lparr>ciNonce = clientNonce, ciServerNonce = serverNonce, ciRetryID = 0, ciGb = be_digits gb\<rparr>"
proof -
  let ?d = "clientInnerBytes serverNonce gb @ pad"
  have digits: "length (be_digits gb) \<le> 256" by (rule length_be_digits_256 [OF gb])
  have long: "length ?d \<ge> 24" by (simp add: clientInnerBytes_def)
  have "drop 20 ?d = serverNonce @ le_bytes 8 0 @ enc_bytes (be_digits gb) @ pad"
    by (simp add: clientInnerBytes_def)
  then have "isl (fst (readClientDHInner (plainReader (drop 20 ?d))))"
    using sn by (simp add: readClientDHInner_def ReadUint32_def andThen_def avail_def raise_def)
  then have second: "parseAt P readClientDHInner ?d 20 = None"
    using long by (auto simp: parseAt_def split: prod.splits sum.splits)
  have "parses readClientDHInner (clientInnerBytes serverNonce gb) 0 0 0
      \<lparr>ciNonce = clientNonce, ciServerNonce = serverNonce, ciRetryID = 0, ciGb = be_digits gb\<rparr>"
    unfolding readClientDHInner_def clientInnerBytes_def
    by (rule parse_steps, rule handshake_ids_range, simp only: refl simp_thms if_False,
        intro parse_steps parses_map [OF parses_ReadBytes])
      (use sn digits in \<open>simp_all add: in_i64_def\<close>)
  from read_prefix [OF this, of pad]
  have "parseAt P readClientDHInner ?d 0 = Some \<lparr>ciNonce = clientNonce, ciServerNonce = serverNonce, ciRetryID = 0, ciGb = be_digits gb\<rparr>"
    using long by (simp add: parseAt_def)
  with second show ?thesis by (simp add: parseClientDHInnerData_def)
qed

definition setDHBytes :: "bytes \<Rightarrow> bytes \<Rightarrow> bytes" where
  "setDHBytes serverNonce encrypted = le_bytes 4 setClientDHParamsID @ clientNonce @ serverNonce @ enc_bytes encrypted"

lemma read_setDH:
  assumes "length serverNonce = 16" "0 < length encrypted" "length encrypted mod 16 = 0" "length encrypted < 1000"
  shows "fst (readSetClientDHParams (plainReader (drop 4 (setDHBytes serverNonce encrypted)))) =
    Inr (clientNonce, serverNonce, encrypted)"
proof -
  have tail: "parses_all (andThen readLastBytes (\<lambda>v. if length v = 0 \<or> length v mod 16 \<noteq> 0 then raise invalidHandshake
      else ret (clientNonce, serverNonce, v))) (enc_bytes encrypted) 0 0 0 (clientNonce, serverNonce, encrypted)"
    using parses_readLastBytes [of encrypted] assms by (simp add: parses_all_def)
  have "parses_all readSetClientDHParams (clientNonce @ serverNonce @ enc_bytes encrypted) 0 0 0
      (clientNonce, serverNonce, encrypted)"
    unfolding readSetClientDHParams_def
    by (intro parses_all_seq [OF parses_ReadInt128] tail) (use assms in simp_all)
  from read_all [OF this] show ?thesis by (simp add: setDHBytes_def)
qed

definition dhGenBytes :: "primitives \<Rightarrow> bytes \<Rightarrow> bytes \<Rightarrow> bytes" where
  "dhGenBytes P serverNonce authKey = le_bytes 4 dhGenOKID @ clientNonce @ serverNonce @
     ComputeNewNonceHash1Auth P clientNewNonce authKey"

lemma read_dhGen:
  assumes "primitives_ok P" "length serverNonce = 16"
  shows "fst (readDHGen P serverNonce authKey (plainReader (dhGenBytes P serverNonce authKey))) = Inr ()"
proof -
  have "length (ComputeNewNonceHash1Auth P clientNewNonce authKey) = 16"
    by (simp add: ComputeNewNonceHash1Auth_def computeNewNonceHashAuth_length [OF assms(1)])
  then have "parses (andThen ReadInt128 (\<lambda>gotHash. expect gotHash (ComputeNewNonceHash1Auth P clientNewNonce authKey)))
     (ComputeNewNonceHash1Auth P clientNewNonce authKey @ []) 0 0 0 ()"
    by (intro parse_steps) (simp_all add: parses_ret)
  then have "parses (readDHGen P serverNonce authKey) (dhGenBytes P serverNonce authKey) 0 0 0 ()"
    unfolding readDHGen_def dhGenBytes_def
    by (intro parse_expected) (use assms in \<open>simp_all add: handshake_ids_range\<close>)
  from read_all [OF parses_all_parses [OF this]] show ?thesis by simp
qed

lemma completeClientDH_eq:
  assumes "authKey = be_digits (big_Exp gb (dhPrivateA dh) (DHPrime G))" "length authKey = 256"
    and "hsTemporaryExpiresAt s = 0" "dhNewNonce dh = clientNewNonce"
  shows "completeClientDH P G I clientNonce serverNonce gb dh s m =
    (Inr \<lparr>ouResponse = dhGenBytes P serverNonce authKey,
       ouResult = Some \<lparr>reAuthKeyID = AuthKey_ID P authKey,
         reInitialServerSalt = computeServerSalt clientNewNonce serverNonce\<rparr>\<rparr>,
     s, AuthKeys_Put (AuthKey_ID P authKey) authKey m)"
proof -
  have "emits (andThen (WriteUint32 dhGenOKID) (\<lambda>_. andThen (WriteInt128 clientNonce) (\<lambda>_.
      andThen (WriteInt128 serverNonce) (\<lambda>_. WriteInt128 (ComputeNewNonceHash1Auth P clientNewNonce authKey)))))
      (dhGenBytes P serverNonce authKey)"
    unfolding dhGenBytes_def WriteInt128_def by (simp add: emit_intros)
  note w = buffered_emits [OF this]
  show ?thesis
    using assms(2-4) unfolding completeClientDH_def assms(1) [symmetric]
    by (simp add: storeAuthKey_def encodeDHGenResponse_def w Let_def)
qed

section \<open>The client against the server\<close>

text \<open>The server as the client meets it: message \<open>n\<close> is handled with the inputs \<open>I n\<close>; the last component
  keeps the result the connection would take over.\<close>

type_synonym serverState = "nat \<times> hsSession \<times> Engine \<times> hsResult option"

definition serverExchange ::
  "primitives \<Rightarrow> rsaLibrary \<Rightarrow> dhGroup \<Rightarrow> (nat \<Rightarrow> handleInputs) \<Rightarrow> nat \<Rightarrow> bytes \<Rightarrow> (serverState, bytes) io" where
  "serverExchange P R G I sid data = (\<lambda>(n, s, e, res).
     case Handle P R G (I n) sid data s e of
       (Inl err, s, e) \<Rightarrow> (Inl err, Suc n, s, e, res)
     | (Inr out, s, e) \<Rightarrow> (Inr (ouResponse out), Suc n, s, e, if ouResult out = None then res else ouResult out))"

text \<open>The session as the client's requests leave it.\<close>

definition sessionAt :: "stage \<Rightarrow> bytes \<Rightarrow> dhState option \<Rightarrow> hsSession" where
  "sessionAt st serverNonce dh = \<lparr>hsStage = st, hsNonce = clientNonce, hsServerNonce = serverNonce, hsDH = dh,
     hsTemporaryExpiresAt = 0\<rparr>"

definition admitted :: "handleInputs \<Rightarrow> nat \<Rightarrow> Engine \<Rightarrow> bool" where
  "admitted I sid e \<longleftrightarrow> inContext I = None \<and> (\<exists>t. map_of (enSessions e) sid = Some t \<and> inCheck I < t)"

lemma Handle_admitted:
  assumes "admitted I sid e" "4 \<le> length data" "length data \<le> 4096" "hsStage s \<noteq> StageClosed"
    and "handleConstructor P R G I data s e = (Inr out, s', e')"
  shows "Handle P R G I sid data s e = (Inr out, s',
    if ouResult out \<noteq> None \<or> hsStage s' = StageClosed then Engine_remove sid e' else Engine_refresh (inRefresh I) sid e')"
  using assms
  by (auto simp: Handle_def admitted_def maxHandshakePayloadBytes_def Engine_check_def split: option.splits)

lemma refresh_facts [simp]:
  "enServerKeys (Engine_refresh t sid e) = enServerKeys e" "enAuthKeys (Engine_refresh t sid e) = enAuthKeys e"
  "enTTL (Engine_refresh t sid e) = enTTL e"
  by (simp_all add: Engine_refresh_def)

lemma admitted_refresh:
  assumes "admitted J sid e" "inContext I = None" "inCheck I < t + enTTL e"
  shows "admitted I sid (Engine_refresh t sid e)"
  using assms by (auto simp: admitted_def Engine_refresh_def map_of_update)

lemma constructor_of: "in_u32 c \<Longrightarrow> le_int (take 4 (le_bytes 4 c @ xs)) = c"
  by (simp add: in_u32_def)

lemma round_one:
  assumes "admitted I sid e" "inRandom I 16 = Inr serverNonce" "ServerKeys_GetAllKeys (enServerKeys e) = key # rest"
  shows "Handle P R G I sid reqPQBytes freshSession e =
    (Inr \<lparr>ouResponse = resPQBytes serverNonce (key # rest), ouResult = None\<rparr>,
     sessionAt StagePQIssued serverNonce None, Engine_refresh (inRefresh I) sid e)"
proof -
  have "le_int (take 4 reqPQBytes) = reqPQMultiID"
    unfolding reqPQBytes_def by (rule constructor_of) (rule handshake_ids_range)
  then have c: "handleConstructor P R G I reqPQBytes freshSession e =
      (Inr \<lparr>ouResponse = resPQBytes serverNonce (key # rest), ouResult = None\<rparr>, sessionAt StagePQIssued serverNonce None, e)"
    using assms(2,3)
    by (simp add: handleConstructor_def handleReqPQ_eq freshSession_def sessionAt_def)
  show ?thesis
    by (subst Handle_admitted [OF assms(1) _ _ _ c]) (simp_all add: reqPQBytes_def freshSession_def sessionAt_def)
qed

lemma round_two:
  assumes "admitted I sid e" "length serverNonce = 16" "in_i64 (skID key)" "length encrypted \<le> 2048"
    and "ProbablyPrime R 1229739323" "ProbablyPrime R 1402015859"
    and "ServerKeys_GetAllKeys (enServerKeys e) = key # rest" "skFingerprint key = le_bytes 8 (skID key)"
    and "DecryptRSA P R (skKey key) encrypted = Inr (pqInnerBytes serverNonce)"
    and issue: "issueServerDH P G I clientNonce serverNonce clientNewNonce (sessionAt StagePQIssued serverNonce None) =
      (Inr response, (sessionAt StagePQIssued serverNonce None)\<lparr>hsDH := Some dh, hsStage := StageDHIssued\<rparr>)"
  shows "Handle P R G I sid (reqDHBytes serverNonce (skID key) encrypted) (sessionAt StagePQIssued serverNonce None) e =
    (Inr \<lparr>ouResponse = response, ouResult = None\<rparr>, sessionAt StageDHIssued serverNonce (Some dh), Engine_refresh (inRefresh I) sid e)"
proof -
  let ?d = "reqDHBytes serverNonce (skID key) encrypted" and ?s = "sessionAt StagePQIssued serverNonce None"
  have "le_int (take 4 ?d) = reqDHParamsID"
    unfolding reqDHBytes_def by (rule constructor_of) (rule handshake_ids_range)
  moreover have "handleReqDHParams P R G I e ?d ?s = issueServerDH P G I clientNonce serverNonce clientNewNonce ?s"
    by (rule handleReqDHParams_eq) (use assms in \<open>simp_all add: sessionAt_def\<close>)
  ultimately have c: "handleConstructor P R G I ?d ?s e =
      (Inr \<lparr>ouResponse = response, ouResult = None\<rparr>, sessionAt StageDHIssued serverNonce (Some dh), e)"
    using issue by (simp add: handleConstructor_def handshake_ids sessionAt_def)
  have len: "4 \<le> length ?d" "length ?d \<le> 4096"
    using assms(2,4) length_enc_bytes_le [of encrypted] length_enc_bytes_le [of fixedP] length_enc_bytes_le [of fixedQ]
    by (simp_all add: reqDHBytes_def short_strings)
  show ?thesis
    by (subst Handle_admitted [OF assms(1) len _ c]) (simp_all add: sessionAt_def)
qed

lemma round_three:
  assumes adm: "admitted I sid e" and sn: "length serverNonce = 16" "le_int (take 4 serverNonce) \<noteq> clientDHInnerDataID"
    and enc: "0 < length encrypted" "length encrypted mod 16 = 0" "length encrypted < 1000"
    and dec: "NewAESIGEDecrypt (dhTempKey dh) (dhTempIV dh) = Inr d"
      "CryptBlocks P (length encrypted) encrypted d = Inr (clientInnerBytes serverNonce gb @ pad, st)"
    and dh: "dhNewNonce dh = clientNewNonce" "dhRetryID dh = 0"
    and gb: "gb < 2 ^ 2048" "validateDHPublicValue gb (DHPrime G) = None"
    and key: "authKey = be_digits (big_Exp gb (dhPrivateA dh) (DHPrime G))" "length authKey = 256"
  shows "Handle P R G I sid (setDHBytes serverNonce encrypted) (sessionAt StageDHIssued serverNonce (Some dh)) e =
    (Inr \<lparr>ouResponse = dhGenBytes P serverNonce authKey,
       ouResult = Some \<lparr>reAuthKeyID = AuthKey_ID P authKey,
         reInitialServerSalt = computeServerSalt clientNewNonce serverNonce\<rparr>\<rparr>,
     sessionAt StageClosed serverNonce None,
     Engine_remove sid (e\<lparr>enAuthKeys := AuthKeys_Put (AuthKey_ID P authKey) authKey (enAuthKeys e)\<rparr>))"
proof -
  let ?d = "setDHBytes serverNonce encrypted" and ?s = "sessionAt StageClosed serverNonce None"
  have "le_int (take 4 ?d) = setClientDHParamsID"
    unfolding setDHBytes_def by (rule constructor_of) (rule handshake_ids_range)
  moreover have "handleSetClientDHParams P G I ?d (Some dh) ?s m = completeClientDH P G I clientNonce serverNonce gb dh ?s m" for m
    using sn enc dec dh gb
    by (simp add: handleSetClientDHParams_def read_setDH parse_clientInner be_int_be_digits sessionAt_def del: power_numeral)
  ultimately have c: "handleConstructor P R G I ?d (sessionAt StageDHIssued serverNonce (Some dh)) e =
      (Inr \<lparr>ouResponse = dhGenBytes P serverNonce authKey,
         ouResult = Some \<lparr>reAuthKeyID = AuthKey_ID P authKey,
           reInitialServerSalt = computeServerSalt clientNewNonce serverNonce\<rparr>\<rparr>, ?s,
       e\<lparr>enAuthKeys := AuthKeys_Put (AuthKey_ID P authKey) authKey (enAuthKeys e)\<rparr>)"
    using completeClientDH_eq [OF key _ dh(1), of ?s]
    by (simp add: handleConstructor_def handshake_ids sessionAt_def)
  have len: "4 \<le> length ?d" "length ?d \<le> 4096"
    using sn(1) enc(3) length_enc_bytes_le [of encrypted] by (simp_all add: setDHBytes_def)
  show ?thesis
    by (subst Handle_admitted [OF adm len _ c]) (simp_all add: sessionAt_def)
qed

lemma lift_apply [simp]: "lift r s = (r, s)"
  by (simp add: lift_def)

lemma exchange_ok:
  "Handle P R G (I n) sid data s e = (Inr out, s', e') \<Longrightarrow>
     serverExchange P R G I sid data (n, s, e, res) =
       (Inr (ouResponse out), Suc n, s', e', if ouResult out = None then res else ouResult out)"
  by (simp add: serverExchange_def)

lemma client_start:
  assumes P: "primitives_ok P" and group: "DHGenerator G = 3" "2 ^ 2047 \<le> DHPrime G" "DHPrime G < 2 ^ 2048"
    and time: "admitted (I 0) sid e" "inContext (I 1) = None" "inCheck (I 1) < inRefresh (I 0) + enTTL e"
    and keys: "ServerKeys_GetAllKeys (enServerKeys e) = key # rest" "length (key # rest) < 2 ^ 31"
      "\<forall>k \<in> set (key # rest). in_i64 (skID k)" "skFingerprint key = le_bytes 8 (skID key)"
    and rnd: "inRandom (I 0) 16 = Inr serverNonce" "length serverNonce = 16" "random_ok (inRandom (I 1))"
    and rsa: "EncryptPKCS1v15 R (skKey key) (pqInnerBytes serverNonce) = Inr encrypted" "length encrypted \<le> 2048"
      "DecryptPKCS1v15 R (skKey key) encrypted = Inr (pqInnerBytes serverNonce)" "isl (decodeRSAPad P encrypted (skKey key))"
    and primes: "ProbablyPrime R 1229739323" "ProbablyPrime R 1402015859"
    and draw: "inDraws (I 1) 0 = Inr a" "2 \<le> a" "ga = big_Exp 3 a (DHPrime G)" "validateDHPublicValue ga (DHPrime G) = None"
    and hash: "le_int (take 4 (sha1 P (serverInnerBytes G serverNonce ga (inUnix (I 1))))) \<noteq> serverDHInnerDataID"
    and kdf: "DeriveTempKeyIV P clientNewNonce serverNonce = (tempKey, tempIV)"
  shows "clientStart P R key (serverExchange P R G I sid) (0, freshSession, e, None) =
    (Inr (serverNonce, tempKey, tempIV, 3, DHPrime G, ga),
     2, sessionAt StageDHIssued serverNonce
          (Some \<lparr>dhNewNonce = clientNewNonce, dhPrivateA = a, dhTempKey = tempKey, dhTempIV = tempIV, dhRetryID = 0\<rparr>),
     Engine_refresh (inRefresh (I 1)) sid (Engine_refresh (inRefresh (I 0)) sid e), None)"
proof -
  let ?e = "Engine_refresh (inRefresh (I 0)) sid e"
  have p: "0 < DHPrime G" by (rule less_le_trans [OF _ group(2)]) simp
  have ga: "ga = big_Exp (DHGenerator G) a (DHPrime G)" "ga < DHPrime G"
    using draw(3) group(1) p by (simp_all add: big_Exp_def)
  have rsa': "DecryptRSA P R (skKey key) encrypted = Inr (pqInnerBytes serverNonce)"
    using rsa(3,4) by (cases "decodeRSAPad P encrypted (skKey key)") (simp_all add: DecryptRSA_def)
  note one = exchange_ok [where I = I and n = 0, OF round_one [OF time(1) rnd(1) keys(1)]]
  obtain c pad d st where
    issue: "issueServerDH P G (I 1) clientNonce serverNonce clientNewNonce (sessionAt StagePQIssued serverNonce None) =
      (Inr (dhParamsBytes serverNonce c), (sessionAt StagePQIssued serverNonce None)
        \<lparr>hsDH := Some \<lparr>dhNewNonce = clientNewNonce, dhPrivateA = a, dhTempKey = tempKey, dhTempIV = tempIV, dhRetryID = 0\<rparr>,
          hsStage := StageDHIssued\<rparr>)"
    and c: "0 < length c" "length c mod 16 = 0" "length c < 1000"
    and dec: "NewAESIGEDecrypt tempKey tempIV = Inr d" "CryptBlocks P (length c) c d =
       Inr (sha1 P (serverInnerBytes G serverNonce ga (inUnix (I 1))) @ serverInnerBytes G serverNonce ga (inUnix (I 1)) @ pad, st)"
    by (rule issueServerDH_eq [OF P rnd(2) draw(1,2) ga(1) draw(4) group(3) p rnd(3) kdf])
  have adm: "admitted (I 1) sid ?e" by (rule admitted_refresh [OF time])
  have k: "in_i64 (skID key)" using keys(3) by simp
  have keys': "ServerKeys_GetAllKeys (enServerKeys ?e) = key # rest" using keys(1) by simp
  note two = exchange_ok [where I = I and n = 1,
      OF round_two [OF adm rnd(2) k rsa(2) primes keys' keys(4) rsa' issue]]
  have h: "length (sha1 P (serverInnerBytes G serverNonce ga (inUnix (I 1)))) = 20" using P by (simp add: primitives_ok_def)
  obtain r where inner: "parseServerDHInnerData (sha1 P (serverInnerBytes G serverNonce ga (inUnix (I 1))) @
      serverInnerBytes G serverNonce ga (inUnix (I 1)) @ pad) = Inr r"
    "fst (readServerDHInner serverNonce r) = Inr (3, DHPrime G, ga)"
    by (rule read_serverInner [OF rnd(2) h hash group(3) ga(2)])
  have "length encrypted < 2 ^ 24" using rsa(2) by simp
  note w = write_reqDH [OF this, of serverNonce "skID key"]
  show ?thesis
    using one two rsa(1) kdf dec inner
    by (simp add: clientStart_def write_reqPQ readResPQ_eq [OF rnd(2) keys(2,3) refl] write_pqInner w
        read_dhParams [OF rnd(2) c] numeral_2_eq_2)
qed

lemma client_finish:
  assumes P: "primitives_ok P" and p: "DHPrime G < 2 ^ 2048"
    and adm: "admitted (I 2) sid e" and sn: "length serverNonce = 16" "le_int (take 4 serverNonce) \<noteq> clientDHInnerDataID"
    and kdf: "DeriveTempKeyIV P clientNewNonce serverNonce = (tempKey, tempIV)"
    and dh: "dh = \<lparr>dhNewNonce = clientNewNonce, dhPrivateA = a, dhTempKey = tempKey, dhTempIV = tempIV, dhRetryID = 0\<rparr>"
    and gb: "gb < DHPrime G" "validateDHPublicValue gb (DHPrime G) = None"
    and key: "authKey = be_digits (big_Exp gb a (DHPrime G))" "length authKey = 256"
  shows "clientFinish P (serverExchange P R G I sid) serverNonce tempKey tempIV gb authKey
      (2, sessionAt StageDHIssued serverNonce (Some dh), e, None) =
    (Inr (), 3, sessionAt StageClosed serverNonce None,
     Engine_remove sid (e\<lparr>enAuthKeys := AuthKeys_Put (AuthKey_ID P authKey) authKey (enAuthKeys e)\<rparr>),
     Some \<lparr>reAuthKeyID = AuthKey_ID P authKey, reInitialServerSalt = computeServerSalt clientNewNonce serverNonce\<rparr>)"
proof -
  have gb': "gb < 2 ^ 2048" using gb(1) p by (simp del: power_numeral)
  define plain where "plain = clientInnerBytes serverNonce gb"
  define pad where "pad = replicate ((16 - length plain mod 16) mod 16) (0 :: byte)"
  have small: "length plain \<le> 320" "0 < length plain"
    using length_be_digits_256 [OF gb'] length_enc_bytes_le [of "be_digits gb"] sn(1)
    by (simp_all add: plain_def clientInnerBytes_def)
  have padded: "(let rem = length plain mod 16 in if rem \<noteq> 0 then plain @ replicate (16 - rem) 0 else plain) = plain @ pad"
    by (simp add: pad_def Let_def)
  have src: "length (plain @ pad) mod 16 = 0" "length (plain @ pad) < 1000" "0 < length (plain @ pad)"
    using pad16 [of "length plain"] small by (simp_all add: pad_def trans_less_add1 less_le_trans [OF mod_less_divisor])
  have l: "length tempKey = 32" "length tempIV = 32"
    using DeriveTempKeyIV_length [OF P _ kdf] by simp_all
  obtain c b d st st' where crypt: "NewAESIGE tempKey tempIV = Inr b" "CryptBlocks P (length (plain @ pad)) (plain @ pad) b = Inr (c, st)"
    "length c = length (plain @ pad)" "NewAESIGEDecrypt tempKey tempIV = Inr d" "CryptBlocks P (length c) c d = Inr (plain @ pad, st')"
    by (rule block_roundtrip [OF P l src(1)])
  have c: "0 < length c" "length c mod 16 = 0" "length c < 1000" using crypt(3) src by simp_all
  have "emits (andThen (WriteUint32 setClientDHParamsID) (\<lambda>_. andThen (WriteInt128 clientNonce) (\<lambda>_.
      andThen (WriteInt128 serverNonce) (\<lambda>_. WriteBytes c)))) (setDHBytes serverNonce c)"
    unfolding setDHBytes_def WriteInt128_def using c(3) by (simp add: emit_intros)
  note w = buffered_emits [OF this]
  have dec: "NewAESIGEDecrypt (dhTempKey dh) (dhTempIV dh) = Inr d"
    "CryptBlocks P (length c) c d = Inr (clientInnerBytes serverNonce gb @ pad, st')"
    "dhNewNonce dh = clientNewNonce" "dhRetryID dh = 0" "authKey = be_digits (big_Exp gb (dhPrivateA dh) (DHPrime G))"
    using crypt(4,5) key(1) dh by (simp_all add: plain_def)
  note three = exchange_ok [where I = I and n = 2, OF round_three [OF adm sn c dec(1-4) gb' gb(2) dec(5) key(2)]]
  have srv: "serverExchange P R G I sid (setDHBytes serverNonce c) (2, sessionAt StageDHIssued serverNonce (Some dh), e, None) =
    (Inr (dhGenBytes P serverNonce authKey), 3, sessionAt StageClosed serverNonce None,
     Engine_remove sid (e\<lparr>enAuthKeys := AuthKeys_Put (AuthKey_ID P authKey) authKey (enAuthKeys e)\<rparr>),
     Some \<lparr>reAuthKeyID = AuthKey_ID P authKey, reInitialServerSalt = computeServerSalt clientNewNonce serverNonce\<rparr>)"
    using three by (simp add: numeral_3_eq_3)
  show ?thesis
    using crypt(1,2) srv padded
    by (simp add: clientFinish_def write_clientInner [OF gb'] plain_def [symmetric] w read_dhGen [OF P sn(1)] Let_def)
qed

section \<open>An example run\<close>

text \<open>A group in which the powers are easy to follow: the generator's power 1292 is minus one.\<close>

definition agreementGroup :: dhGroup where
  "agreementGroup = \<lparr>DHPrime = 3 ^ 1292 + 1, DHGenerator = 3\<rparr>"

definition agreementPrimitives :: primitives where
  "agreementPrimitives = \<lparr>aesEncrypt = (\<lambda>k b. xorBlock b k), aesDecrypt = (\<lambda>k b. xorBlock b k),
     sha1 = (\<lambda>_. replicate 20 7), sha256 = (\<lambda>_. replicate 32 7)\<rparr>"

definition agreementEngine :: Engine where
  "agreementEngine = exampleEngine\<lparr>enSessions := [(0, 50)]\<rparr>"

definition agreementClient :: compatClient where
  "agreementClient = \<lparr>ccServerKey = exampleServerKey, ccAuthKeyID = 0, ccAuthKey = [], ccServerSalt = 0, ccSessionID = 0\<rparr>"

lemma agreementPrimitives_ok: "primitives_ok agreementPrimitives"
  by (auto simp: primitives_ok_def agreementPrimitives_def)

lemma odd_power_mod: "1 \<le> x \<Longrightarrow> x ^ (2 * k + 1) mod (x + 1) = (x :: nat)"
proof (induction k)
  case (Suc k)
  have "x * x = (x - 1) * (x + 1) + 1" using Suc.prems by (cases x) simp_all
  then have "x * x mod (x + 1) = 1 mod (x + 1)" by (simp only: mod_mult_self3)
  then have sq: "x * x mod (x + 1) = 1" using Suc.prems by simp
  have "x ^ (2 * Suc k + 1) = x ^ (2 * k + 1) * (x * x)" by (simp add: power_add)
  then have "x ^ (2 * Suc k + 1) mod (x + 1) = (x ^ (2 * k + 1) mod (x + 1)) * (x * x mod (x + 1)) mod (x + 1)"
    by (simp only: mod_mult_eq)
  also have "\<dots> = x * 1 mod (x + 1)" using Suc sq by simp
  finally show ?case by simp
qed simp

lemma minus_mod: "0 < y \<Longrightarrow> y \<le> x \<Longrightarrow> x * y mod (x + 1) = x + 1 - (y :: nat)"
proof -
  assume y: "0 < y" "y \<le> x"
  then have "x * y = (x + 1) * (y - 1) + (x + 1 - y)" by (cases y) (simp_all add: algebra_simps)
  then have "x * y mod (x + 1) = (x + 1 - y) mod (x + 1)" by (simp only: mod_mult_self4)
  then show ?thesis using y by simp
qed

lemma odd_power_minus:
  assumes "0 < y" "y \<le> (x :: nat)" shows "x ^ (2 * k + 1) * y mod (x + 1) = x + 1 - y"
proof -
  have "x ^ (2 * k + 1) * y mod (x + 1) = (x ^ (2 * k + 1) mod (x + 1)) * y mod (x + 1)" by (simp only: mod_mult_left_eq)
  also have "\<dots> = x * y mod (x + 1)" using odd_power_mod [of x k] assms by simp
  also have "\<dots> = x + 1 - y" by (rule minus_mod [OF assms])
  finally show ?thesis .
qed

lemma agreement_secret: "big_Exp 3 (1291 * 1260) (DHPrime agreementGroup) = DHPrime agreementGroup - 3 ^ 32"
proof -
  have "(1291 * 1260 :: nat) = 1292 * (2 * 629 + 1) + 32" by simp
  then have e: "(3 :: nat) ^ (1291 * 1260) = (3 ^ 1292) ^ (2 * 629 + 1) * 3 ^ 32"
    by (simp only: power_add power_mult)
  have le: "(3 :: nat) ^ 32 \<le> 3 ^ 1292" by (rule power_increasing) simp_all
  have "(3 :: nat) ^ 32 > 0" by simp
  from odd_power_minus [OF this le, of 629] show ?thesis
    by (simp only: big_Exp_def agreementGroup_def e dhGroup.simps)
qed

lemma power_split: "k = m * n \<Longrightarrow> (x :: nat) ^ k = (x ^ m) ^ n"
  by (simp add: power_mult)

lemma power_split2: "k = m * n + j \<Longrightarrow> (x :: nat) ^ k = (x ^ m) ^ n * x ^ j"
  by (simp add: power_mult power_add)

lemma three_powers:
  "(2 :: nat) ^ 1984 < 3 ^ 1260" "(2 :: nat) ^ 2047 \<le> 3 ^ 1292" "(3 :: nat) ^ 1292 + 1 < 2 ^ 2048"
proof -
  have a1: "(2 :: nat) ^ 19 \<le> 3 ^ 12" and a2: "(2 :: nat) ^ 84 \<le> 3 ^ 53" and a3: "(2 :: nat) ^ 31 \<le> 3 ^ 20"
    and a4: "(3 :: nat) ^ 94 \<le> 2 ^ 149" and a5: "(3 :: nat) ^ 70 \<le> 2 ^ 111 - 1"
    by simp_all
  have "(2 :: nat) ^ 1984 < 2 ^ 1995" by (rule power_strict_increasing) simp_all
  also have "\<dots> = (2 ^ 19) ^ 105" by (rule power_split) simp
  also have "\<dots> \<le> (3 ^ 12) ^ 105" by (rule power_mono [OF a1 zero_le])
  also have "\<dots> = 3 ^ 1260" by (rule power_split [symmetric]) simp
  finally show "(2 :: nat) ^ 1984 < 3 ^ 1260" .
  have "(2 :: nat) ^ 2047 = (2 ^ 84) ^ 24 * 2 ^ 31" by (rule power_split2) simp
  also have "\<dots> \<le> (3 ^ 53) ^ 24 * 3 ^ 20" by (rule mult_le_mono [OF power_mono [OF a2 zero_le] a3])
  also have "\<dots> = 3 ^ 1292" by (rule power_split2 [symmetric]) simp
  finally show "(2 :: nat) ^ 2047 \<le> 3 ^ 1292" .
  have "(3 :: nat) ^ 1292 = (3 ^ 94) ^ 13 * 3 ^ 70" by (rule power_split2) simp
  also have "\<dots> \<le> (2 ^ 149) ^ 13 * (2 ^ 111 - 1)" by (rule mult_le_mono [OF power_mono [OF a4 zero_le] a5])
  also have "\<dots> = 2 ^ 1937 * (2 ^ 111 - 1)" by (rule arg_cong [where f = "\<lambda>x. x * _"], rule power_split [symmetric]) simp
  finally have a: "(3 :: nat) ^ 1292 \<le> 2 ^ 1937 * 2 ^ 111 - 2 ^ 1937" by (simp only: diff_mult_distrib2 mult_1_right)
  have b: "(2 :: nat) ^ 1937 * 2 ^ 111 = 2 ^ 2048" by (rule power_split2 [of _ 1937 1 111, simplified power_one_right, symmetric]) simp
  have c: "(1 :: nat) < 2 ^ 1937" by (rule one_less_power) simp_all
  have d: "(2 :: nat) ^ 1937 \<le> 2 ^ 2048" by (rule power_increasing) simp_all
  have "x \<le> z - y \<Longrightarrow> 1 < y \<Longrightarrow> y \<le> z \<Longrightarrow> x + 1 < z" for x y z :: nat by simp
  from this [OF a [unfolded b] c d] show "(3 :: nat) ^ 1292 + 1 < 2 ^ 2048" .
qed

lemma validate_iff: "validateDHPublicValue v p = None \<longleftrightarrow> 2 ^ 1984 < v \<and> v + 2 ^ 1984 < p"
proof -
  define m :: nat where "m = 2 ^ 1984"
  have m: "(2 :: int) ^ (2048 - 64) = int m"
    unfolding m_def of_nat_power by (rule arg_cong2 [where f = power]) simp_all
  show ?thesis
    unfolding validateDHPublicValue_def Let_def m m_def [symmetric] by auto
qed

lemma agreement_public:
  assumes "1260 \<le> k" "k \<le> 1291"
  shows "big_Exp 3 k (DHPrime agreementGroup) = 3 ^ k" "validateDHPublicValue (3 ^ k) (DHPrime agreementGroup) = None"
proof -
  have up: "(3 :: nat) ^ k \<le> 3 ^ 1291" using assms(2) by (rule power_increasing) simp
  have low: "(3 :: nat) ^ 1260 \<le> 3 ^ k" using assms(1) by (rule power_increasing) simp
  have s: "(3 :: nat) ^ 1292 = 3 * 3 ^ 1291" by (rule power_split2 [of _ 1 1 1291, simplified power_one_right]) simp
  note m = less_le_trans [OF three_powers(1) low]
  have "x \<le> y \<Longrightarrow> z = 3 * y \<Longrightarrow> w < x \<Longrightarrow> x < z + 1 \<and> x + w < z + 1" for w x y z :: nat by simp
  from this [OF up s m] have "3 ^ k < (3 :: nat) ^ 1292 + 1" "3 ^ k + 2 ^ 1984 < (3 :: nat) ^ 1292 + 1" by blast+
  then show "big_Exp 3 k (DHPrime agreementGroup) = 3 ^ k" "validateDHPublicValue (3 ^ k) (DHPrime agreementGroup) = None"
    using m by (simp_all only: big_Exp_def agreementGroup_def dhGroup.simps mod_less validate_iff simp_thms)
qed

lemma agreement_length: "length (be_digits (DHPrime agreementGroup - 3 ^ 32)) = 256"
proof -
  define x :: nat where "x = 3 ^ 1291"
  define y :: nat where "y = 3 ^ 32"
  define z :: nat where "z = 256 ^ 255"
  have s: "(3 :: nat) ^ 1292 = 3 * x"
    unfolding x_def by (rule power_split2 [of _ 1 1 1291, simplified power_one_right]) simp
  have yx: "y \<le> x" unfolding x_def y_def by (rule power_increasing) simp_all
  have z: "(2 :: nat) ^ 2047 = z * 128" "(2 :: nat) ^ 2048 = z * 256"
    using power_split2 [of 2047 8 255 7 2] power_split2 [of 2048 8 255 8 2] by (simp_all add: z_def)
  have lo: "z * 128 \<le> 3 * x" using three_powers(2) by (simp only: z(1) s)
  have hi: "3 * x + 1 < z * 256" using three_powers(3) by (simp only: z(2) s)
  have top: "(256 :: nat) ^ 256 = z * 256" unfolding z_def by (rule power_split2 [of _ 1 255 1, simplified power_one_right]) simp
  have "3 * x + 1 - y < z * 256" "\<not> 3 * x + 1 - y < z" using lo hi yx by simp_all
  then have "length (be_digits (3 * x + 1 - y)) \<le> 256" "\<not> length (be_digits (3 * x + 1 - y)) \<le> 255"
    unfolding length_be_digits_le top z_def [symmetric] by simp_all
  then show ?thesis by (simp only: agreementGroup_def dhGroup.simps s y_def [symmetric])
qed

section \<open>Properties\<close>

text \<open>C12. The repository's client and server agree.  With a group of 2048 bits and generator 3, a server key
  both hold, factors the primality test accepts, exponents whose public values are in range and a secret of
  full length, an admitted session and messages in time: the client's handshake returns, both ends hold the
  same 256-byte key under the same identifier, the server has stored it, emitted its result with the initial
  salt, and closed the session.\<close>

theorem handshake_agreement:
  assumes P: "primitives_ok P" and group: "DHGenerator G = 3" "2 ^ 2047 \<le> DHPrime G" "DHPrime G < 2 ^ 2048"
    and time: "admitted (I 0) sid e" "inContext (I 1) = None" "inCheck (I 1) < inRefresh (I 0) + enTTL e"
      "inContext (I 2) = None" "inCheck (I 2) < inRefresh (I 1) + enTTL e"
    and keys: "ServerKeys_GetAllKeys (enServerKeys e) = ccServerKey c # rest" "length (ccServerKey c # rest) < 2 ^ 31"
      "\<forall>k \<in> set (ccServerKey c # rest). in_i64 (skID k)" "skFingerprint (ccServerKey c) = le_bytes 8 (skID (ccServerKey c))"
    and rnd: "inRandom (I 0) 16 = Inr serverNonce" "length serverNonce = 16" "random_ok (inRandom (I 1))"
    and rsa: "EncryptPKCS1v15 R (skKey (ccServerKey c)) (pqInnerBytes serverNonce) = Inr encrypted" "length encrypted \<le> 2048"
      "DecryptPKCS1v15 R (skKey (ccServerKey c)) encrypted = Inr (pqInnerBytes serverNonce)"
      "isl (decodeRSAPad P encrypted (skKey (ccServerKey c)))"
    and primes: "ProbablyPrime R 1229739323" "ProbablyPrime R 1402015859"
    and serverDraw: "inDraws (I 1) 0 = Inr a" "2 \<le> a" "validateDHPublicValue (big_Exp 3 a (DHPrime G)) (DHPrime G) = None"
    and clientDraw: "draws 0 = Inr b" "validateDHPublicValue (big_Exp 3 b (DHPrime G)) (DHPrime G) = None"
    and secret: "authKey = be_digits (big_Exp 3 (a * b) (DHPrime G))" "length authKey = 256"
    and prefixes: "le_int (take 4 (sha1 P (serverInnerBytes G serverNonce (big_Exp 3 a (DHPrime G)) (inUnix (I 1))))) \<noteq> serverDHInnerDataID"
      "le_int (take 4 serverNonce) \<noteq> clientDHInnerDataID"
  shows "\<exists>c' s' e'. performHandshake P R (serverExchange P R G I sid) draws sessionID c (0, freshSession, e, None) =
      Some (Inr \<lparr>siAuthKeyID = AuthKey_ID P authKey, siAuthKey = authKey, siServerSalt = 0, siSessionID = sessionID, siSeqNo = 0\<rparr>, c',
        3, s', e', Some \<lparr>reAuthKeyID = AuthKey_ID P authKey, reInitialServerSalt = computeServerSalt clientNewNonce serverNonce\<rparr>) \<and>
      akKeys (enAuthKeys e') (AuthKey_ID P authKey) = Some authKey \<and> hsStage s' = StageClosed \<and> map_of (enSessions e') sid = None"
proof -
  obtain tempKey tempIV where kdf: "DeriveTempKeyIV P clientNewNonce serverNonce = (tempKey, tempIV)" by fastforce
  let ?p = "DHPrime G"
  have p: "0 < ?p" by (rule less_le_trans [OF _ group(2)]) simp
  have gb: "big_Exp 3 b ?p < ?p" using p by (simp add: big_Exp_def)
  have key: "authKey = be_digits (big_Exp (big_Exp 3 b ?p) a ?p)" "authKey = be_digits (big_Exp (big_Exp 3 a ?p) b ?p)"
    using secret(1) by (simp_all add: big_Exp_def power_mod power_mult [symmetric] mult.commute)
  note start = client_start [OF P group time(1-3) keys rnd rsa primes serverDraw(1,2) refl serverDraw(3) prefixes(1) kdf]
  note draw = clientDraw_eq [where g = 3 and draws = draws, OF group(2,3) clientDraw(1) refl clientDraw(2) key(2) secret(2)]
  let ?e = "Engine_refresh (inRefresh (I 1)) sid (Engine_refresh (inRefresh (I 0)) sid e)"
  have adm: "admitted (I 2) sid ?e"
    by (rule admitted_refresh [OF admitted_refresh [OF time(1-3)] time(4)]) (use time(5) in simp)
  note finish = client_finish [where R = R and I = I, OF P group(3) adm rnd(2) prefixes(2) kdf refl gb clientDraw(2) key(1) secret(2)]
  obtain c' where run: "performHandshake P R (serverExchange P R G I sid) draws sessionID c (0, freshSession, e, None) =
      Some (Inr \<lparr>siAuthKeyID = AuthKey_ID P authKey, siAuthKey = authKey, siServerSalt = 0, siSessionID = sessionID, siSeqNo = 0\<rparr>, c',
        3, sessionAt StageClosed serverNonce None,
        Engine_remove sid (?e\<lparr>enAuthKeys := AuthKeys_Put (AuthKey_ID P authKey) authKey (enAuthKeys ?e)\<rparr>),
        Some \<lparr>reAuthKeyID = AuthKey_ID P authKey, reInitialServerSalt = computeServerSalt clientNewNonce serverNonce\<rparr>)"
    by (simp add: performHandshake_def start draw finish Let_def AuthKey_ID_def del: One_nat_def)
  show ?thesis
    by (intro exI conjI, rule run) (simp_all add: AuthKeys_Put_def Engine_remove_def map_of_delete sessionAt_def)
qed

theorem handshake_agreement_witness:
  "\<exists>authKey c' s' e'. length authKey = 256 \<and>
     performHandshake agreementPrimitives exampleRSALibrary
       (serverExchange agreementPrimitives exampleRSALibrary agreementGroup (\<lambda>_. exampleInputs 1291) 0) (\<lambda>_. Inr 1260) 5 agreementClient
       (0, freshSession, agreementEngine, None) =
      Some (Inr \<lparr>siAuthKeyID = AuthKey_ID agreementPrimitives authKey, siAuthKey = authKey, siServerSalt = 0, siSessionID = 5, siSeqNo = 0\<rparr>, c',
        3, s', e', Some \<lparr>reAuthKeyID = AuthKey_ID agreementPrimitives authKey,
          reInitialServerSalt = computeServerSalt clientNewNonce (replicate 16 9)\<rparr>) \<and>
      akKeys (enAuthKeys e') (AuthKey_ID agreementPrimitives authKey) = Some authKey \<and> hsStage s' = StageClosed"
proof -
  let ?P = agreementPrimitives and ?R = exampleRSALibrary and ?G = agreementGroup and ?I = "\<lambda>_ :: nat. exampleInputs 1291"
  let ?sn = "replicate 16 (9 :: byte)" and ?m = "pqInnerBytes (replicate 16 9)"
  have len: "length ?m < 256"
    using length_enc_bytes_le [of advertisedPQ] length_enc_bytes_le [of fixedP] length_enc_bytes_le [of fixedQ]
    by (simp add: pqInnerBytes_def short_strings)
  have group: "DHGenerator ?G = 3" "2 ^ 2047 \<le> DHPrime ?G" "DHPrime ?G < 2 ^ 2048"
    using le_trans [OF three_powers(2) le_add1] three_powers(3) by (simp_all only: agreementGroup_def dhGroup.simps)
  have time: "admitted (?I 0) 0 agreementEngine" "inContext (?I 1) = None" "inCheck (?I 1) < inRefresh (?I 0) + enTTL agreementEngine"
    by (simp_all add: admitted_def exampleInputs_def agreementEngine_def exampleEngine_def)
  have keys: "ServerKeys_GetAllKeys (enServerKeys agreementEngine) = ccServerKey agreementClient # []"
    "length (ccServerKey agreementClient # []) < 2 ^ 31" "\<forall>k \<in> set (ccServerKey agreementClient # []). in_i64 (skID k)"
    "skFingerprint (ccServerKey agreementClient) = le_bytes 8 (skID (ccServerKey agreementClient))"
    by (simp_all add: ServerKeys_GetAllKeys_def ServerKeys_AddKey_def NewMemoryServerKeyManager_def agreementEngine_def
        exampleEngine_def agreementClient_def exampleServerKey_def in_i64_def)
  have rnd: "inRandom (?I 0) 16 = Inr ?sn" "length ?sn = 16" "random_ok (inRandom (?I 1))"
    by (simp_all add: exampleInputs_def random_ok_def)
  have rsa: "EncryptPKCS1v15 ?R (skKey (ccServerKey agreementClient)) ?m = Inr ?m" "length ?m \<le> 2048"
    "DecryptPKCS1v15 ?R (skKey (ccServerKey agreementClient)) ?m = Inr ?m"
    "isl (decodeRSAPad ?P ?m (skKey (ccServerKey agreementClient)))"
    using len by (simp_all add: exampleRSALibrary_def decodeRSAPad_def rsaLen_def)
  have primes: "ProbablyPrime ?R 1229739323" "ProbablyPrime ?R 1402015859" by (simp_all add: exampleRSALibrary_def)
  have draws: "inDraws (?I 1) 0 = Inr 1291" "(2 :: nat) \<le> 1291"
    "validateDHPublicValue (big_Exp 3 1291 (DHPrime ?G)) (DHPrime ?G) = None"
    "(\<lambda>_ :: nat. Inr 1260 :: go_error + nat) 0 = Inr 1260"
    "validateDHPublicValue (big_Exp 3 1260 (DHPrime ?G)) (DHPrime ?G) = None"
    using agreement_public [of 1291] agreement_public [of 1260] by (simp_all add: exampleInputs_def del: power_numeral)
  have secret: "length (be_digits (big_Exp 3 (1291 * 1260) (DHPrime ?G))) = 256"
    unfolding agreement_secret by (rule agreement_length)
  have words: "le_int (replicate 4 7) = 0x07070707" "le_int (replicate 4 9) = 0x09090909" by code_simp+
  have prefixes: "le_int (take 4 (sha1 ?P bs)) \<noteq> serverDHInnerDataID" "le_int (take 4 ?sn) \<noteq> clientDHInnerDataID" for bs
    using words by (simp_all add: agreementPrimitives_def handshake_ids)
  note agree = handshake_agreement [where I = ?I and draws = "\<lambda>_. Inr 1260", OF agreementPrimitives_ok group time time(2,3) keys rnd rsa primes draws refl
    secret prefixes, where sessionID = 5]
  then show ?thesis using secret by blast
qed

end
