(* ===== verification/TL_Types.thy ===== *)
theory TL_Types
  imports TL_Messages
begin

text \<open>
  What the decoders of the service messages deliver.  A reader yields a set of values; the rules follow the
  combinators, so that the type of a message is read off its decoder.
\<close>

section \<open>Readers and the values they deliver\<close>

definition yields :: "('s, 'a) io \<Rightarrow> ('a \<Rightarrow> bool) \<Rightarrow> bool" where
  "yields m Q \<longleftrightarrow> (\<forall>r x r'. m r = (Inr x, r') \<longrightarrow> Q x)"

named_theorems yield_intros \<open>the values a reader delivers\<close>

lemma yields_ret [yield_intros]: "Q x \<Longrightarrow> yields (ret x) Q"
  by (simp add: yields_def)

lemma yields_raise [yield_intros]: "yields (raise e) Q"
  by (simp add: yields_def raise_def)

lemma yields_if [yield_intros]: "(b \<Longrightarrow> yields m Q) \<Longrightarrow> (\<not> b \<Longrightarrow> yields n Q) \<Longrightarrow> yields (if b then m else n) Q"
  by simp

lemma yields_andThen: "yields m Q \<Longrightarrow> (\<And>x. Q x \<Longrightarrow> yields (f x) R) \<Longrightarrow> yields (andThen m f) R"
  unfolding yields_def andThen_Inr_iff by blast

lemma yields_any: "yields m (\<lambda>_. True)"
  by (simp add: yields_def)

lemma yields_then: "(\<And>x. yields (f x) R) \<Longrightarrow> yields (andThen m f) R"
  by (rule yields_andThen [OF yields_any])

lemma yieldsD: "yields m Q \<Longrightarrow> m r = (Inr x, r') \<Longrightarrow> Q x"
  unfolding yields_def by blast

lemma yields_prod: "(\<And>a b. x = (a, b) \<Longrightarrow> yields (f a b) Q) \<Longrightarrow> yields (case x of (a, b) \<Rightarrow> f a b) Q"
  by (cases x) simp

lemma yields_mono: "yields m Q \<Longrightarrow> (\<And>x. Q x \<Longrightarrow> R x) \<Longrightarrow> yields m R"
  by (auto simp: yields_def)

lemma yields_ReadInt32: "yields ReadInt32 in_i32"
  unfolding ReadInt32_def by (rule yields_then) (simp add: yields_ret)

lemma yields_ReadInt64: "yields ReadInt64 in_i64"
  unfolding ReadInt64_def by (rule yields_then) (simp add: yields_ret)

lemma yields_ReadFull: "yields (ReadFull n) (\<lambda>bs. length bs = n)"
  by (auto simp: yields_def ReadFull_Inr_iff dest: le_trans [OF _ avail_le_length])

lemma yields_ReadSizedBytes: "yields (ReadSizedBytes n) (\<lambda>bs. 0 \<le> n \<and> int (length bs) = n)"
  using yields_ReadFull [of "nat n"] by (auto simp: yields_def ReadSizedBytes_def split: if_splits)

lemma le_int_three: "length bs = 3 \<Longrightarrow> le_int (bs @ [0]) < 2 ^ 24"
proof -
  assume l: "length bs = 3"
  have "le_int (bs @ [0]) = le_int bs" by (induction bs) auto
  then show ?thesis using le_int_less [of bs] l by simp
qed

lemma yields_ReadBytes: "yields ReadBytes (\<lambda>bs. length bs < 2 ^ 24)"
proof -
  have header: "yields (if first < 254 then ret (first, 1 :: int) else andThen (ReadFull 3) (\<lambda>b. ret (le_int (b @ [0]), 4)))
      (\<lambda>(len, headerSize). len < 2 ^ 24)" for first
    by (auto intro!: yield_intros yields_andThen [OF yields_ReadFull] simp: le_int_three [simplified])
  have body: "yields (andThen (ReadSizedBytes len) (\<lambda>data.
      let padding = p in if padding > 0 then andThen (ReadFull (nat padding)) (\<lambda>_. ret data) else ret data))
      (\<lambda>bs. length bs < 2 ^ 24)" if "len < 2 ^ 24" for len p :: int
    unfolding Let_def
    by (rule yields_andThen [OF yields_ReadSizedBytes], intro yields_if yields_then yields_ret) (use that in auto)
  show ?thesis
    unfolding ReadBytes_def Let_def [of "uint _"]
    by (rule yields_then, intro yields_if yields_raise yields_andThen [OF header])
      (rule yields_prod, intro yields_if yields_raise body, simp)
qed

lemma yields_ReadString: "yields ReadString (\<lambda>bs. length bs < 2 ^ 24)"
  by (simp add: ReadString_def yields_ReadBytes del: power_numeral)

lemma yields_repeatM: "yields m Q \<Longrightarrow> yields (repeatM n m) (\<lambda>xs. length xs = n \<and> (\<forall>x \<in> set xs. Q x))"
proof (induction n)
  case (Suc n)
  show ?case
    unfolding repeatM.simps
    by (rule yields_andThen [OF Suc.prems], rule yields_andThen [OF Suc.IH [OF Suc.prems]]) (simp add: yields_ret)
qed (simp add: yields_ret)

lemma yields_vectorBody:
  "yields m Q \<Longrightarrow> yields (vectorBody n m) (\<lambda>xs. int (length xs) \<le> n \<and> (\<forall>x \<in> set xs. Q x))"
proof -
  assume m: "yields m Q"
  have "yields (vectorCount n) (\<lambda>c. 0 \<le> c \<and> c \<le> n)"
    unfolding vectorCount_def
    by (rule yields_then, intro yields_if yields_raise yields_then) (simp add: yields_ret)
  then show ?thesis
    unfolding vectorBody_def
    by (rule yields_andThen, intro yields_mono [OF yields_repeatM [OF m]]) auto
qed

lemma yields_ReadVectorBounded:
  "yields m Q \<Longrightarrow> yields (ReadVectorBounded n m) (\<lambda>xs. int (length xs) \<le> n \<and> (\<forall>x \<in> set xs. Q x))"
  unfolding ReadVectorBounded_def
  by (intro yields_if yields_raise yields_then yields_vectorBody)

lemma yields_ReadBareVectorBounded:
  "yields m Q \<Longrightarrow> yields (ReadBareVectorBounded n m) (\<lambda>xs. int (length xs) \<le> n \<and> (\<forall>x \<in> set xs. Q x))"
  unfolding ReadBareVectorBounded_def by (intro yields_if yields_raise yields_vectorBody)

lemma yields_ids: "yields (ReadVectorBounded MaxMessageStateIDs ReadInt64) ids_ok"
  by (rule yields_mono [OF yields_ReadVectorBounded [OF yields_ReadInt64]]) (simp add: ids_ok_def)

lemmas field_types = yields_andThen [OF yields_ReadInt32] yields_andThen [OF yields_ReadInt64]
  yields_andThen [OF yields_ReadBytes] yields_andThen [OF yields_ReadString] yields_andThen [OF yields_ids]

lemma after_constructor: "yields m Q \<Longrightarrow> yields (andThen (readEmptyConstructor c) (\<lambda>_. m)) Q"
  by (rule yields_then)

lemma after_rest: "(\<And>q. Q (g q)) \<Longrightarrow> yields (andThen ReadAll (\<lambda>q. ret (g q))) Q"
  by (rule yields_then) (simp add: yields_ret)

section \<open>The messages\<close>

lemma yields_fixed:
  "yields MsgsAck_DeserializeTL MsgsAck_valid"
  "yields BadMsgNotification_DeserializeTL BadMsgNotification_valid"
  "yields BadServerSalt_DeserializeTL BadServerSalt_valid"
  "yields GzipPacked_DeserializeTL GzipPacked_valid"
  "yields Ping_DeserializeTL Ping_valid"
  "yields PingDelayDisconnect_DeserializeTL PingDelayDisconnect_valid"
  "yields Pong_DeserializeTL Pong_valid"
  "yields RPCError_DeserializeTL RPCError_valid"
  "yields RPCDropAnswer_DeserializeTL RPCDropAnswer_valid"
  "yields RPCAnswerDropped_DeserializeTL RPCAnswerDropped_valid"
  "yields GetFutureSaltsRequest_DeserializeTL GetFutureSaltsRequest_valid"
  "yields NewSessionCreated_DeserializeTL NewSessionCreated_valid"
  "yields MsgResendReq_DeserializeTL MsgResendReq_valid"
  "yields MsgsStateReq_DeserializeTL MsgsStateReq_valid"
  "yields MsgsStateInfo_DeserializeTL MsgsStateInfo_valid"
  unfolding MsgsAck_DeserializeTL_def BadMsgNotification_DeserializeTL_def BadServerSalt_DeserializeTL_def
    GzipPacked_DeserializeTL_def Ping_DeserializeTL_def PingDelayDisconnect_DeserializeTL_def Pong_DeserializeTL_def
    RPCError_DeserializeTL_def RPCDropAnswer_DeserializeTL_def RPCAnswerDropped_DeserializeTL_def
    GetFutureSaltsRequest_DeserializeTL_def NewSessionCreated_DeserializeTL_def MsgResendReq_DeserializeTL_def
    MsgsStateReq_DeserializeTL_def MsgsStateInfo_DeserializeTL_def
  by (intro after_constructor field_types yields_ret;
      simp add: MsgsAck_valid_def BadMsgNotification_valid_def BadServerSalt_valid_def GzipPacked_valid_def Ping_valid_def
        PingDelayDisconnect_valid_def Pong_valid_def RPCError_valid_def RPCDropAnswer_valid_def RPCAnswerDropped_valid_def
        GetFutureSaltsRequest_valid_def NewSessionCreated_valid_def MsgResendReq_valid_def MsgsStateReq_valid_def
        MsgsStateInfo_valid_def)+

lemma yields_nested:
  "yields InvokeWithLayer_DeserializeTL InvokeWithLayer_valid"
  "yields InvokeAfterMsg_DeserializeTL InvokeAfterMsg_valid"
  "yields InvokeAfterMsgs_DeserializeTL InvokeAfterMsgs_valid"
  "yields RPCResult_DeserializeTL RPCResult_valid"
  unfolding InvokeWithLayer_DeserializeTL_def InvokeAfterMsg_DeserializeTL_def InvokeAfterMsgs_DeserializeTL_def
    RPCResult_DeserializeTL_def
  by (intro after_constructor field_types after_rest;
      simp add: InvokeWithLayer_valid_def InvokeAfterMsg_valid_def InvokeAfterMsgs_valid_def RPCResult_valid_def)+

lemma yields_Message: "yields Message_DeserializeTL Message_valid"
proof -
  have "yields (andThen (ReadSizedBytes size) (\<lambda>bodyRaw. ret \<lparr>Message_MsgID = msgID, Message_SeqNo = seqNo,
      Message_Bytes = size, Message_Body = None, Message_BodyRaw = bodyRaw\<rparr>)) Message_valid"
    if "in_i64 msgID" "in_i32 seqNo" "in_i32 size" for msgID seqNo size
    by (rule yields_andThen [OF yields_ReadSizedBytes]) (use that in \<open>auto simp: Message_valid_def in_i32_def intro!: yields_ret\<close>)
  then show ?thesis
    unfolding Message_DeserializeTL_def by (intro field_types yields_if yields_raise)
qed

lemma yields_MsgContainer: "yields MsgContainer_DeserializeTL MsgContainer_valid"
  unfolding MsgContainer_DeserializeTL_def
  by (intro after_constructor yields_andThen [OF yields_ReadBareVectorBounded [OF yields_Message]] yields_ret)
    (simp add: MsgContainer_valid_def)

lemma yields_FutureSalts: "yields FutureSalts_DeserializeTL FutureSalts_valid"
proof -
  have "yields FutureSalt_deserializeBare FutureSalt_valid"
    unfolding FutureSalt_deserializeBare_def by (intro field_types yields_ret) (simp add: FutureSalt_valid_def)
  note salts = yields_andThen [OF yields_repeatM [OF this]]
  show ?thesis
    unfolding FutureSalts_DeserializeTL_def
    by (intro after_constructor field_types yields_if yields_raise salts yields_ret) (simp add: FutureSalts_valid_def)
qed

section \<open>Properties\<close>



end
