(* ===== verification/Outbound_Writer.thy ===== *)
theory Outbound_Writer
  imports Session_Coordinator Runtime_Contracts Reliability_Store Message_Ids TL_Messages Message_Envelope
begin

unbundle bit_operations_syntax

text \<open>
  The outbound writer of \<open>internal/runtime/writer.go\<close>: the one goroutine that numbers, encrypts, retains
  and sends what a session says.  Its methods run over the shared state \<open>world\<close>: the coordinator with
  the lease, the generator of message identifiers, the reliability store and the frames the sink
  has accepted.  What the writer cannot determine is read off the environment \<open>env\<close>, indexed by a
  counter of the interactions: the clock, the random padding, the state of a context, the answer of the
  sink, the iteration order of a Go map, what other goroutines did to the coordinator and which
  identifiers they drew from the generator since the previous call.
\<close>

section \<open>State\<close>

record env =
  clock :: "nat \<Rightarrow> gotime"
  random :: "nat \<Rightarrow> nat \<Rightarrow> go_error + bytes"
  ctxErr :: "nat \<Rightarrow> nat \<Rightarrow> go_error option"
  sinkErr :: "nat \<Rightarrow> go_error option"
  mapOrder :: "nat \<Rightarrow> int list"
  others :: "nat \<Rightarrow> LocalCoordinator \<Rightarrow> LocalCoordinator"
  othersIDs :: "nat \<Rightarrow> (gotime \<times> msgIDKind) list"
  waiting :: "nat \<Rightarrow> nat"
  takesDone :: "nat \<Rightarrow> bool"

record world =
  ticks :: nat
  coordinator :: LocalCoordinator
  messageIDs :: MsgIDGenerator
  reliability :: Store
  frames :: "bytes list"

record Writer =
  wLease :: nat
  wAuthKey :: bytes
  wMaxEncodedBytes :: int

record WriterConfig =
  cfgLease :: "nat option"
  cfgAuthKey :: bytes
  cfgSink :: bool
  cfgReliability :: bool
  cfgMaxEncodedBytes :: int

definition NewWriter :: "WriterConfig \<Rightarrow> go_error + Writer" where
  "NewWriter config =
     (case cfgLease config of
        None \<Rightarrow> Inl (RuntimeError WriterConfig)
      | Some lease \<Rightarrow>
          if \<not> cfgSink config \<or> \<not> cfgReliability config then Inl (RuntimeError WriterConfig)
          else if cfgMaxEncodedBytes config < 0 then Inl (RuntimeError WriterConfig)
          else Inr \<lparr>wLease = lease, wAuthKey = cfgAuthKey config,
                 wMaxEncodedBytes = normalizeMaxEncodedBytes (cfgMaxEncodedBytes config)\<rparr>)"

section \<open>What the writer calls\<close>

definition tick :: "world \<Rightarrow> world" where
  "tick s = s\<lparr>ticks := Suc (ticks s)\<rparr>"

definition now :: "env \<Rightarrow> (world, gotime) io" where
  "now E s = (Inr (clock E (ticks s)), tick s)"

text \<open>Before each call of the lease the other goroutines may have acted.\<close>

definition interfere :: "env \<Rightarrow> world \<Rightarrow> world" where
  "interfere E s = tick (s\<lparr>coordinator := others E (ticks s) (coordinator s)\<rparr>)"

definition leaseSnapshot :: "env \<Rightarrow> nat \<Rightarrow> (world, Snapshot) io" where
  "leaseSnapshot E a s =
     (let s = interfere E s in
      case cheap (coordinator s) a of
        None \<Rightarrow> (Inl Panic, s)
      | Some l \<Rightarrow>
          (case Lease_Snapshot a l (coordinator s) of
             Inl e \<Rightarrow> (Inl e, s)
           | Inr None \<Rightarrow> (Inl Panic, s)
           | Inr (Some snapshot) \<Rightarrow> (Inr snapshot, s)))"

text \<open>\<open>Save\<close> is cut at its call of the store, which sees a context that is cancelled with the lease's own
  and with the caller's.\<close>

definition leaseSave :: "env \<Rightarrow> nat \<Rightarrow> nat \<Rightarrow> Snapshot \<Rightarrow> (world, unit) io" where
  "leaseSave E ctx a nxt s =
     (let s = interfere E s in
      case cheap (coordinator s) a of
        None \<Rightarrow> (Inl Panic, s)
      | Some l \<Rightarrow>
          (case Save_begin (ctxErr E (ticks s) ctx) a l nxt (coordinator s) of
             (Some e, c) \<Rightarrow> (Inl e, s\<lparr>coordinator := c\<rparr>)
           | (None, c) \<Rightarrow>
               (let s = interfere E (s\<lparr>coordinator := c\<rparr>) in
                case cheap (coordinator s) a of
                  None \<Rightarrow> (Inl Panic, s)
                | Some l \<Rightarrow>
                    (let saveErr = (if lcause l \<noteq> None \<or> ctxErr E (ticks s) ctx \<noteq> None
                                    then Some (ContextError Canceled) else None) in
                     case Save_commit saveErr a l nxt (coordinator s) of
                       (Some e, c) \<Rightarrow> (Inl e, s\<lparr>coordinator := c\<rparr>)
                     | (None, c) \<Rightarrow> (Inr (), s\<lparr>coordinator := c\<rparr>)))))"

definition WriteFrame :: "env \<Rightarrow> bytes \<Rightarrow> (world, unit) io" where
  "WriteFrame E frame s =
     (case sinkErr E (ticks s) of
        Some e \<Rightarrow> (Inl e, tick s)
      | None \<Rightarrow> (Inr (), tick (s\<lparr>frames := frames s @ [frame]\<rparr>)))"

text \<open>A method of the reliability store reads the store's own clock.\<close>

definition onStore :: "env \<Rightarrow> (gotime \<Rightarrow> Store \<Rightarrow> 'a \<times> Store) \<Rightarrow> (world, 'a) io" where
  "onStore E f s =
     (case f (clock E (ticks s)) (reliability s) of (x, r) \<Rightarrow> (Inr x, tick (s\<lparr>reliability := r\<rparr>)))"

definition fromResult :: "go_error + 'a \<Rightarrow> (world, 'a) io" where
  "fromResult r = (case r of Inl e \<Rightarrow> raise e | Inr x \<Rightarrow> ret x)"

section \<open>Numbering and encoding\<close>

definition nextMessageID :: "env \<Rightarrow> bool \<Rightarrow> (world, int) io" where
  "nextMessageID E push s =
     (case MsgIDGenerator_Next (clock E (ticks s)) (snd (serverIDs (othersIDs E (ticks s)) (messageIDs s))) of
        (n, g) \<Rightarrow>
          (let base = n AND NOT 3 in
           (Inr (if push then base OR 3 else base OR 1), tick (s\<lparr>messageIDs := g\<rparr>))))"

definition nextSequenceNo :: "Snapshot \<Rightarrow> bool \<Rightarrow> int \<times> Snapshot" where
  "nextSequenceNo snapshot contentRelated =
     (if contentRelated
      then (wrap32 (wrap32 (ServerSeqNo snapshot * 2) + 1),
            snapshot\<lparr>ServerSeqNo := wrap32 (ServerSeqNo snapshot + 1)\<rparr>)
      else (wrap32 (ServerSeqNo snapshot * 2), snapshot))"

fun encodeIntentBodyBounded :: "Intent option \<Rightarrow> int \<Rightarrow> go_error + bytes \<times> bool \<times> bool" where
  "encodeIntentBodyBounded (Some (RPCResult requestMessageID body)) maxBytes =
     (if int (length body) > maxBytes then Inl (RuntimeError EncodedPayloadTooLarge)
      else case serializeRuntimeTLBounded (RPCResult_SerializeTL
            \<lparr>RPCResult_ReqMsgID = requestMessageID, RPCResult_Result = None, RPCResult_ResultRaw = body\<rparr>) maxBytes of
          Inl e \<Rightarrow> Inl e
        | Inr bs \<Rightarrow> Inr (bs, True, False))"
| "encodeIntentBodyBounded (Some (RPCError requestMessageID code message)) maxBytes =
     (case serializeRuntimeTLBounded (RPCError_SerializeTL
            \<lparr>RPCError_ErrorCode = code, RPCError_ErrorMessage = message\<rparr>) maxBytes of
        Inl e \<Rightarrow> Inl e
      | Inr errorBody \<Rightarrow>
          (case serializeRuntimeTLBounded (RPCResult_SerializeTL
              \<lparr>RPCResult_ReqMsgID = requestMessageID, RPCResult_Result = None, RPCResult_ResultRaw = errorBody\<rparr>) maxBytes of
             Inl e \<Rightarrow> Inl e
           | Inr bs \<Rightarrow> Inr (bs, True, False)))"
| "encodeIntentBodyBounded (Some (ProtocolReply body contentRelated unsolicited)) maxBytes =
     (if int (length body) > maxBytes then Inl (RuntimeError EncodedPayloadTooLarge)
      else Inr (body, contentRelated, unsolicited))"
| "encodeIntentBodyBounded (Some (Intent.Acknowledge ids)) maxBytes =
     (case serializeRuntimeTLBounded (MsgsAck_SerializeTL \<lparr>MsgsAck_MsgIDs = ids\<rparr>) maxBytes of
        Inl e \<Rightarrow> Inl e
      | Inr bs \<Rightarrow> Inr (bs, False, False))"
| "encodeIntentBodyBounded (Some (Push body)) maxBytes =
     (if int (length body) > maxBytes then Inl (RuntimeError EncodedPayloadTooLarge)
      else Inr (body, True, True))"
| "encodeIntentBodyBounded _ maxBytes = Inl (RuntimeError InvalidIntent)"

fun responseRequestID :: "Intent option \<Rightarrow> int" where
  "responseRequestID (Some (RPCResult requestMessageID body)) = requestMessageID"
| "responseRequestID (Some (RPCError requestMessageID code message)) = requestMessageID"
| "responseRequestID _ = 0"

section \<open>Preparing a frame\<close>

record retainedFrameMessage =
  rfMessageID :: int
  rfRequestMessageID :: int
  rfSequenceNo :: int

record preparedFrame =
  pfMessageID :: int
  pfRequestMessageID :: int
  pfSequenceNo :: int
  pfFrame :: bytes
  pfRetained :: "retainedFrameMessage list"

text \<open>The loop over the items of a batch, on the container and the list built so far.\<close>

fun prepareChildren ::
  "env \<Rightarrow> int \<Rightarrow> Intent option list \<Rightarrow> Message list \<Rightarrow> retainedFrameMessage list \<Rightarrow> Snapshot \<Rightarrow>
     (world, Message list \<times> retainedFrameMessage list \<times> Snapshot) io" where
  "prepareChildren E maxBytes [] messages retained snapshot = ret (messages, retained, snapshot)"
| "prepareChildren E maxBytes (child # items) messages retained snapshot =
     andThen (fromResult (encodeIntentBodyBounded child maxBytes)) (\<lambda>(childBody, contentRelated, push).
     andThen (nextMessageID E push) (\<lambda>childMessageID.
       (let (childSequenceNo, snapshot) = nextSequenceNo snapshot contentRelated in
        prepareChildren E maxBytes items
          (messages @ [\<lparr>Message_MsgID = childMessageID, Message_SeqNo = childSequenceNo,
             Message_Bytes = wrap32 (int (length childBody)), Message_Body = None, Message_BodyRaw = childBody\<rparr>])
          (retained @ [\<lparr>rfMessageID = childMessageID, rfRequestMessageID = responseRequestID child,
             rfSequenceNo = childSequenceNo\<rparr>])
          snapshot)))"

text \<open>The body, identifier and sequence number of the message a frame carries, what it retains besides
  the message itself, and the snapshot with the numbers used up.\<close>

definition prepareBody ::
  "env \<Rightarrow> int \<Rightarrow> Intent \<Rightarrow> Snapshot \<Rightarrow> (world, bytes \<times> int \<times> int \<times> retainedFrameMessage list \<times> Snapshot) io" where
  "prepareBody E maxBytes intent snapshot =
     (case intent of
        Batch items \<Rightarrow>
          if int (length items) > DefaultMaxVectorElements then raise (RuntimeError EncodedPayloadTooLarge)
          else
            andThen (prepareChildren E maxBytes items [] [] snapshot) (\<lambda>(messages, retained, snapshot).
            andThen (fromResult (serializeRuntimeTLBounded
                (MsgContainer_SerializeTL \<lparr>MsgContainer_Messages = messages\<rparr>) maxBytes)) (\<lambda>body.
            andThen (nextMessageID E False) (\<lambda>messageID.
              (let (sequenceNo, snapshot) = nextSequenceNo snapshot False in
               ret (body, messageID, sequenceNo, retained, snapshot)))))
      | _ \<Rightarrow>
          andThen (fromResult (encodeIntentBodyBounded (Some intent) maxBytes)) (\<lambda>(body, contentRelated, push).
          andThen (nextMessageID E push) (\<lambda>messageID.
            (let (sequenceNo, snapshot) = nextSequenceNo snapshot contentRelated in
             ret (body, messageID, sequenceNo, [], snapshot)))))"

definition drawPadding :: "env \<Rightarrow> (world, nat \<Rightarrow> go_error + bytes) io" where
  "drawPadding E s = (Inr (random E (ticks s)), tick s)"

text \<open>The rest of \<open>prepare\<close>: the encrypted frame, and the snapshot to be saved with it.\<close>

definition sealFrame ::
  "primitives \<Rightarrow> env \<Rightarrow> Writer \<Rightarrow> Intent \<Rightarrow> bytes \<times> int \<times> int \<times> retainedFrameMessage list \<times> Snapshot \<Rightarrow>
     (world, preparedFrame \<times> Snapshot) io" where
  "sealFrame P E w intent = (\<lambda>(body, messageID, sequenceNo, retained, snapshot).
     andThen (drawPadding E) (\<lambda>rnd.
     andThen (fromResult (InnerData_Encrypt P rnd
         \<lparr>idSalt = ServerSalt snapshot, idSessionID = SessionID snapshot, idMsgID = messageID,
          idSeqNo = sequenceNo, idData = body\<rparr> (wAuthKey w) (AuthKeyID snapshot))) (\<lambda>encrypted.
     andThen (now E) (\<lambda>t.
       ret (\<lparr>pfMessageID = messageID, pfRequestMessageID = responseRequestID (Some intent),
             pfSequenceNo = sequenceNo, pfFrame = serializeEncryptedFrame encrypted, pfRetained = retained\<rparr>,
            snapshot\<lparr>LastActivity := t\<rparr>)))))"

definition prepare :: "primitives \<Rightarrow> env \<Rightarrow> Writer \<Rightarrow> Intent \<Rightarrow> (world, preparedFrame \<times> Snapshot) io" where
  "prepare P E w intent =
     andThen (leaseSnapshot E (wLease w)) (\<lambda>snapshot.
     andThen (prepareBody E (wMaxEncodedBytes w) intent snapshot) (sealFrame P E w intent))"

section \<open>Processing a request\<close>

fun resend :: "env \<Rightarrow> int list \<Rightarrow> (world, unit) io" where
  "resend E [] = ret ()"
| "resend E (messageID # ids) =
     andThen (onStore E (\<lambda>t. LookupForResend t messageID)) (\<lambda>found.
       case found of
         None \<Rightarrow> raise (RuntimeError (RetainedMessageNotFound messageID))
       | Some retained \<Rightarrow> andThen (WriteFrame E (smPayload retained)) (\<lambda>_. resend E ids))"

definition retain :: "env \<Rightarrow> bytes \<Rightarrow> gotime \<Rightarrow> retainedFrameMessage \<Rightarrow> (world, unit) io" where
  "retain E frame sentAt message =
     andThen (onStore E (\<lambda>t. Put t \<lparr>smMessageID = rfMessageID message, smRequestMessageID = rfRequestMessageID message,
         smSequenceNumber = rfSequenceNo message, smPayload = frame, smSentAt = sentAt, smAcknowledged = False\<rparr>)) (\<lambda>r.
       andThen (fromResult r) (\<lambda>_. ret ()))"

definition retainedAll :: "preparedFrame \<Rightarrow> retainedFrameMessage list" where
  "retainedAll prepared = pfRetained prepared @
     [\<lparr>rfMessageID = pfMessageID prepared, rfRequestMessageID = pfRequestMessageID prepared,
       rfSequenceNo = pfSequenceNo prepared\<rparr>]"

text \<open>What \<open>process\<close> does with a prepared frame: save, retain, send.\<close>

definition deliver :: "env \<Rightarrow> Writer \<Rightarrow> nat \<Rightarrow> preparedFrame \<times> Snapshot \<Rightarrow> (world, bool) io" where
  "deliver E w ctx = (\<lambda>(prepared, nxt).
     andThen (leaseSave E ctx (wLease w) nxt) (\<lambda>_.
     andThen (now E) (\<lambda>sentAt.
     andThen (forEach (retainedAll prepared) (retain E (pfFrame prepared) sentAt)) (\<lambda>_.
     andThen (WriteFrame E (pfFrame prepared)) (\<lambda>_. ret False)))))"

definition process :: "primitives \<Rightarrow> env \<Rightarrow> Writer \<Rightarrow> nat \<Rightarrow> Intent \<Rightarrow> (world, bool) io" where
  "process P E w ctx intent =
     (case intent of
        Close cause \<Rightarrow> ret True
      | Resend ids \<Rightarrow> andThen (resend E ids) (\<lambda>_. ret False)
      | _ \<Rightarrow> andThen (prepare P E w intent) (deliver E w ctx))"

section \<open>Requests\<close>

text \<open>A context is its dynamic type, whether values of that type can be compared, and its identity.\<close>

record writerContext =
  wcType :: nat
  wcComparable :: bool
  wcID :: nat

datatype writerOperation =
    writerOperationSubmit | writerOperationAcknowledge | writerOperationInspect
  | writerOperationReplayResponse | writerOperationOther nat

record writerRequest =
  wrContext :: writerContext
  wrOperation :: writerOperation
  wrIntent :: "Intent option"
  wrMessageIDs :: "int list"
  wrMessageID :: int

record OutboundReliabilityState =
  orKnown :: bool
  orAcknowledged :: bool
  orResendEligible :: bool

record writerResponse =
  wpState :: OutboundReliabilityState
  wpErr :: "go_error option"

definition noState :: OutboundReliabilityState where
  "noState = \<lparr>orKnown = False, orAcknowledged = False, orResendEligible = False\<rparr>"

definition failedWith :: "go_error \<Rightarrow> writerResponse" where
  "failedWith e = \<lparr>wpState = noState, wpErr = Some e\<rparr>"

text \<open>What the methods of the writer send to its goroutine.\<close>

definition Writer_Submit :: "writerContext \<Rightarrow> Intent option \<Rightarrow> go_error + writerRequest" where
  "Writer_Submit ctx intent =
     (case ValidateIntent intent of
        Some e \<Rightarrow> Inl e
      | None \<Rightarrow> Inr \<lparr>wrContext = ctx, wrOperation = writerOperationSubmit, wrIntent = intent, wrMessageIDs = [], wrMessageID = 0\<rparr>)"

definition AcknowledgeOutbound :: "writerContext \<Rightarrow> int list \<Rightarrow> writerRequest" where
  "AcknowledgeOutbound ctx ids = \<lparr>wrContext = ctx, wrOperation = writerOperationAcknowledge, wrIntent = None,
     wrMessageIDs = ids, wrMessageID = 0\<rparr>"

definition InspectOutbound :: "writerContext \<Rightarrow> int \<Rightarrow> writerRequest" where
  "InspectOutbound ctx messageID = \<lparr>wrContext = ctx, wrOperation = writerOperationInspect, wrIntent = None,
     wrMessageIDs = [], wrMessageID = messageID\<rparr>"

definition ReplayResponse :: "writerContext \<Rightarrow> int \<Rightarrow> writerRequest" where
  "ReplayResponse ctx requestID = \<lparr>wrContext = ctx, wrOperation = writerOperationReplayResponse, wrIntent = None,
     wrMessageIDs = [], wrMessageID = requestID\<rparr>"

definition Acknowledge_all :: "env \<Rightarrow> int list \<Rightarrow> (world, unit) io" where
  "Acknowledge_all E ids =
     forEach ids (\<lambda>messageID. andThen (onStore E (\<lambda>t. Reliability_Store.Acknowledge t messageID)) (\<lambda>_. ret ()))"

text \<open>The response, whether the writer stops, and the error that ends it.\<close>

definition processRequest ::
  "primitives \<Rightarrow> env \<Rightarrow> Writer \<Rightarrow> writerRequest \<Rightarrow> world \<Rightarrow> (writerResponse \<times> bool \<times> go_error option) \<times> world" where
  "processRequest P E w request s =
     (case wrOperation request of
        writerOperationSubmit \<Rightarrow>
          (case wrIntent request of
             None \<Rightarrow>
               (case leaseSnapshot E (wLease w) s of
                  (Inl e, s) \<Rightarrow> ((failedWith e, False, Some e), s)
                | (Inr _, s) \<Rightarrow> ((failedWith (RuntimeError InvalidIntent), False, Some (RuntimeError InvalidIntent)), s))
           | Some intent \<Rightarrow>
               (case process P E w (wcID (wrContext request)) intent s of
                  (Inl e, s) \<Rightarrow> ((failedWith e, False, Some e), s)
                | (Inr stop, s) \<Rightarrow> ((\<lparr>wpState = noState, wpErr = None\<rparr>, stop, None), s)))
      | writerOperationOther _ \<Rightarrow>
          ((failedWith (RuntimeError WriterOperation), False, Some (RuntimeError WriterOperation)), s)
      | operation \<Rightarrow>
          (let err = ctxErr E (ticks s) (wcID (wrContext request)); s = tick s in
           case err of
             Some e \<Rightarrow> ((failedWith e, False, None), s)
           | None \<Rightarrow>
               (case operation of
                  writerOperationAcknowledge \<Rightarrow>
                    ((\<lparr>wpState = noState, wpErr = None\<rparr>, False, None), snd (Acknowledge_all E (wrMessageIDs request) s))
                | writerOperationInspect \<Rightarrow>
                    (case Lookup (clock E (ticks s)) (wrMessageID request) (reliability s) of
                       (found, r) \<Rightarrow>
                         ((\<lparr>wpState = (case found of
                              None \<Rightarrow> noState
                            | Some message \<Rightarrow> \<lparr>orKnown = True, orAcknowledged = smAcknowledged message,
                                orResendEligible = \<not> smAcknowledged message\<rparr>),
                            wpErr = None\<rparr>, False, None), tick (s\<lparr>reliability := r\<rparr>)))
                | _ \<Rightarrow>
                    (case LookupResponse (clock E (ticks s)) (mapOrder E (ticks s)) (wrMessageID request) (reliability s) of
                       (found, r) \<Rightarrow>
                         (let s = tick (s\<lparr>reliability := r\<rparr>);
                              known = \<lparr>wpState = noState\<lparr>orKnown := found \<noteq> None\<rparr>, wpErr = None\<rparr> in
                          case found of
                            None \<Rightarrow> ((known, False, None), s)
                          | Some message \<Rightarrow>
                              if smAcknowledged message then ((known, False, None), s)
                              else (case WriteFrame E (smPayload message) s of
                                  (Inl e, s) \<Rightarrow> ((failedWith e, False, Some e), s)
                                | (Inr _, s) \<Rightarrow> ((known, False, None), s)))))))"

section \<open>Batching pushes\<close>

definition maxOpportunisticPushBatch :: nat where "maxOpportunisticPushBatch = 64"

definition messageContainerHeaderBytes :: int where "messageContainerHeaderBytes = 8"

definition messageContainerChildBytes :: int where "messageContainerChildBytes = 16"

definition pushRequest :: "writerRequest \<Rightarrow> bytes option" where
  "pushRequest request =
     (if wrOperation request \<noteq> writerOperationSubmit then None
      else case wrIntent request of Some (Push body) \<Rightarrow> Some body | _ \<Rightarrow> None)"

definition writerContextComparable :: "writerContext \<Rightarrow> bool" where
  "writerContextComparable ctx \<longleftrightarrow> wcComparable ctx"

definition sameWriterContext :: "writerContext \<Rightarrow> writerContext \<Rightarrow> bool" where
  "sameWriterContext ctx1 ctx2 =
     (if \<not> writerContextComparable ctx1 \<or> wcType ctx1 \<noteq> wcType ctx2 \<or> \<not> writerContextComparable ctx2
      then False else wcID ctx1 = wcID ctx2)"

text \<open>The loop takes the requests whose senders are waiting, in their order.  It returns the batch, the
  request it received but could not add, and those it left waiting.\<close>

fun collectLoop ::
  "int \<Rightarrow> writerRequest \<Rightarrow> writerRequest list \<Rightarrow> int \<Rightarrow> writerRequest list \<Rightarrow>
     writerRequest list \<times> writerRequest option \<times> writerRequest list" where
  "collectLoop maxBytes first requests encodedBytes [] = (requests, None, [])"
| "collectLoop maxBytes first requests encodedBytes (nxt # queue) =
     (if length requests < maxOpportunisticPushBatch then
        (case pushRequest nxt of
           None \<Rightarrow> (requests, Some nxt, queue)
         | Some body \<Rightarrow>
             (let remaining = maxBytes - encodedBytes in
              if \<not> sameWriterContext (wrContext first) (wrContext nxt) \<or> remaining < messageContainerChildBytes \<or>
                 int (length body) > remaining - messageContainerChildBytes
              then (requests, Some nxt, queue)
              else collectLoop maxBytes first (requests @ [nxt])
                     (encodedBytes + messageContainerChildBytes + int (length body)) queue))
      else (requests, None, nxt # queue))"

definition collectPushRequests ::
  "Writer \<Rightarrow> writerRequest \<Rightarrow> writerRequest list \<Rightarrow> writerRequest list \<times> writerRequest option \<times> writerRequest list" where
  "collectPushRequests w first queue =
     (case pushRequest first of
        None \<Rightarrow> ([first], None, queue)
      | Some body \<Rightarrow>
          if \<not> writerContextComparable (wrContext first) then ([first], None, queue)
          else
            (let firstOverhead = messageContainerHeaderBytes + messageContainerChildBytes in
             if wMaxEncodedBytes w < firstOverhead \<or> int (length body) > wMaxEncodedBytes w - firstOverhead
             then ([first], None, queue)
             else collectLoop (wMaxEncodedBytes w) first [first] (firstOverhead + int (length body)) queue))"

definition processRequests ::
  "primitives \<Rightarrow> env \<Rightarrow> Writer \<Rightarrow> writerRequest list \<Rightarrow> world \<Rightarrow> (writerResponse \<times> bool \<times> go_error option) \<times> world" where
  "processRequests P E w requests s =
     (case requests of
        [request] \<Rightarrow> processRequest P E w request s
      | _ \<Rightarrow>
          (case process P E w (wcID (wrContext (hd requests))) (Batch (map wrIntent requests)) s of
             (Inl e, s) \<Rightarrow> ((failedWith e, False, Some e), s)
           | (Inr stop, s) \<Rightarrow> ((\<lparr>wpState = noState, wpErr = None\<rparr>, stop, None), s)))"

section \<open>The loop of the goroutine\<close>

text \<open>What the bytes of a batch of pushes amount to, child headers included.\<close>

definition childBytes :: "writerRequest \<Rightarrow> int" where
  "childBytes request = messageContainerChildBytes + int (length (the (pushRequest request)))"

abbreviation heldFirst :: "'a option \<Rightarrow> 'a list \<Rightarrow> 'a list" where
  "heldFirst x xs \<equiv> (case x of None \<Rightarrow> xs | Some y \<Rightarrow> y # xs)"

lemma collectLoop_spec:
  assumes "collectLoop maxBytes first requests n queue = (batch, nxt, rest)"
    and "n \<le> maxBytes" "length requests \<le> maxOpportunisticPushBatch"
  shows "\<exists>taken. batch = requests @ taken \<and> queue = taken @ heldFirst nxt rest \<and>
    length batch \<le> maxOpportunisticPushBatch \<and> n + sum_list (map childBytes taken) \<le> maxBytes \<and>
    (\<forall>r \<in> set taken. pushRequest r \<noteq> None \<and> sameWriterContext (wrContext first) (wrContext r))"
  using assms
proof (induction queue arbitrary: requests n)
  case (Cons r queue)
  show ?case
  proof (cases "length requests < maxOpportunisticPushBatch \<and>
      collectLoop maxBytes first requests n (r # queue) \<noteq> (requests, Some r, queue)")
    case True
    then obtain body where body: "pushRequest r = Some body" "sameWriterContext (wrContext first) (wrContext r)"
      "messageContainerChildBytes + int (length body) \<le> maxBytes - n"
      by (auto simp: Let_def split: option.splits if_splits)
    then have "collectLoop maxBytes first (requests @ [r]) (n + messageContainerChildBytes + int (length body)) queue =
        (batch, nxt, rest)"
      using Cons.prems(1) True by (auto simp: Let_def split: if_splits)
    from Cons.IH [OF this] body True obtain taken where taken: "batch = (requests @ [r]) @ taken"
      "queue = taken @ heldFirst nxt rest" "length batch \<le> maxOpportunisticPushBatch"
      "n + messageContainerChildBytes + int (length body) + sum_list (map childBytes taken) \<le> maxBytes"
      "\<forall>r \<in> set taken. pushRequest r \<noteq> None \<and> sameWriterContext (wrContext first) (wrContext r)"
      by auto
    then show ?thesis using body by (intro exI [of _ "r # taken"]) (simp add: childBytes_def [of r])
  next
    case False
    then show ?thesis using Cons.prems by (auto split: if_splits)
  qed
qed simp

lemma collectPushRequests_spec:
  assumes "collectPushRequests w first queue = (batch, nxt, rest)"
  shows "\<exists>taken. batch = first # taken \<and> queue = taken @ heldFirst nxt rest \<and>
    length batch \<le> maxOpportunisticPushBatch \<and>
    (taken \<noteq> [] \<longrightarrow> messageContainerHeaderBytes + sum_list (map childBytes batch) \<le> wMaxEncodedBytes w) \<and>
    (\<forall>r \<in> set taken. pushRequest r \<noteq> None \<and> sameWriterContext (wrContext first) (wrContext r)) \<and>
    (taken \<noteq> [] \<longrightarrow> pushRequest first \<noteq> None)"
proof (cases "batch = [first] \<and> nxt = None \<and> rest = queue")
  case True
  then show ?thesis by (simp add: maxOpportunisticPushBatch_def)
next
  case False
  define n where "n = messageContainerHeaderBytes + messageContainerChildBytes + int (length (the (pushRequest first)))"
  have loop: "collectLoop (wMaxEncodedBytes w) first [first] n queue = (batch, nxt, rest)"
    and n: "n \<le> wMaxEncodedBytes w" and push: "pushRequest first \<noteq> None"
    using assms False by (auto simp: collectPushRequests_def Let_def n_def split: option.splits if_splits)
  from collectLoop_spec [OF loop n] push show ?thesis
    by (auto simp: maxOpportunisticPushBatch_def n_def childBytes_def [of first] algebra_simps)
qed

lemma collectPushRequests_length:
  "collectPushRequests w first queue = (batch, nxt, rest) \<Longrightarrow>
     length rest + (if nxt = None then 0 else 1) \<le> length queue"
  by (drule collectPushRequests_spec) (auto split: option.splits)

definition leaseCause :: "Writer \<Rightarrow> world \<Rightarrow> go_error option" where
  "leaseCause w s = (case cheap (coordinator s) (wLease w) of None \<Rightarrow> None | Some l \<Rightarrow> lcause l)"

definition leaseRetire :: "Writer \<Rightarrow> go_error option \<Rightarrow> world \<Rightarrow> world" where
  "leaseRetire w cause s =
     (case cheap (coordinator s) (wLease w) of
        None \<Rightarrow> s
      | Some l \<Rightarrow> s\<lparr>coordinator := Retire cause (wLease w) l (coordinator s)\<rparr>)"

text \<open>How the loop stands once the requests at hand are served: it waits for more, or it has ended with
  the cause its context was cancelled with, has closed its sink and leaves the remaining senders to
  find that out.\<close>

datatype writerStatus = WriterWaiting | WriterEnded "go_error option"

record writerRun =
  rnStatus :: writerStatus
  rnReplies :: "(writerRequest \<times> writerResponse) list"
  rnUnserved :: "writerRequest list"
  rnWorld :: world

text \<open>\<open>queue\<close> are the requests in the order in which their senders reach the channel.  The parent of
  the writer's context is that of the lease, as \<open>newConnectionSession\<close> has it.  When a request and
  a cancellation are both ready the \<open>select\<close> takes either; a request that is already held is
  served only while nothing is cancelled.\<close>

function run ::
  "primitives \<Rightarrow> env \<Rightarrow> Writer \<Rightarrow> writerRequest option \<Rightarrow> writerRequest list \<Rightarrow>
     (writerRequest \<times> writerResponse) list \<Rightarrow> world \<Rightarrow> writerRun" where
  "run P E w pending queue replies s0 =
     (let s = interfere E s0; cause = leaseCause w s;
          arrivals = heldFirst pending queue in
      if cause \<noteq> None \<and> (pending \<noteq> None \<or> queue = [] \<or> takesDone E (ticks s0))
      then \<lparr>rnStatus = WriterEnded cause, rnReplies = replies, rnUnserved = arrivals, rnWorld = s\<rparr>
      else case arrivals of
          [] \<Rightarrow> \<lparr>rnStatus = WriterWaiting, rnReplies = replies, rnUnserved = [], rnWorld = s\<rparr>
        | request # later \<Rightarrow>
            (let n = waiting E (ticks s) in
             case collectPushRequests w request (take n later) of (requests, nxt, rest) \<Rightarrow>
             case processRequests P E w requests s of ((response, stop, fatal), s) \<Rightarrow>
               (let replies = replies @ map (\<lambda>current. (current, response)) requests;
                    unserved = rest @ drop n later;
                    left = heldFirst nxt unserved in
                case fatal of
                  Some e \<Rightarrow> \<lparr>rnStatus = WriterEnded (Some e), rnReplies = replies, rnUnserved = left,
                    rnWorld = leaseRetire w (Some e) s\<rparr>
                | None \<Rightarrow>
                    if stop then
                      (let cause = (case wrIntent request of Some (Close cause) \<Rightarrow> cause | _ \<Rightarrow> Some Panic) in
                       \<lparr>rnStatus = WriterEnded cause, rnReplies = replies, rnUnserved = left,
                        rnWorld = leaseRetire w cause s\<rparr>)
                    else run P E w nxt unserved replies s)))"
  by pat_completeness auto
termination
  by (relation "measure (\<lambda>(P, E, w, pending, queue, replies, s). length queue + (if pending = None then 0 else 1))")
    (auto dest!: collectPushRequests_length [OF sym] split: option.splits if_splits)

section \<open>What each step changes\<close>

text \<open>Numbering and encoding touch nothing but the generator and the counter.\<close>

definition quiet :: "world \<Rightarrow> world \<Rightarrow> bool" where
  "quiet s s' \<longleftrightarrow> coordinator s' = coordinator s \<and> reliability s' = reliability s \<and> frames s' = frames s"

definition quietly :: "(world, 'a) io \<Rightarrow> bool" where
  "quietly m \<longleftrightarrow> (\<forall>s r s'. m s = (r, s') \<longrightarrow> quiet s s')"

named_theorems quiet_intros \<open>computations that leave the shared state alone\<close>

lemma quietly_ret [quiet_intros]: "quietly (ret x)"
  by (simp add: quietly_def quiet_def)

lemma quietly_raise [quiet_intros]: "quietly (raise e)"
  by (simp add: quietly_def quiet_def raise_def)

lemma quietly_andThen [quiet_intros]: "quietly m \<Longrightarrow> (\<And>x. quietly (f x)) \<Longrightarrow> quietly (andThen m f)"
  unfolding quietly_def quiet_def andThen_def by (fastforce split: prod.splits sum.splits)

lemma quietly_fromResult [quiet_intros]: "quietly (fromResult r)"
  by (simp add: fromResult_def quiet_intros split: sum.splits)

lemma quietly_now [quiet_intros]: "quietly (now E)"
  by (simp add: quietly_def quiet_def now_def tick_def)

lemma quietly_drawPadding [quiet_intros]: "quietly (drawPadding E)"
  by (simp add: quietly_def quiet_def drawPadding_def tick_def)

lemma quietly_nextMessageID [quiet_intros]: "quietly (nextMessageID E push)"
  by (auto simp: quietly_def quiet_def nextMessageID_def tick_def Let_def split: prod.splits)

lemma quietly_prod [quiet_intros]: "(\<And>a b. x = (a, b) \<Longrightarrow> quietly (f a b)) \<Longrightarrow> quietly (case x of (a, b) \<Rightarrow> f a b)"
  by (cases x) simp

lemma quietly_if [quiet_intros]: "quietly m \<Longrightarrow> quietly n \<Longrightarrow> quietly (if b then m else n)"
  by simp

lemma quietly_prepareChildren [quiet_intros]: "quietly (prepareChildren E maxBytes items messages retained snapshot)"
proof (induction items arbitrary: messages retained snapshot)
  case (Cons child items)
  show ?case unfolding prepareChildren.simps Let_def by (intro quiet_intros Cons.IH)
qed (simp add: quiet_intros)

lemma quietly_prepareBody: "quietly (prepareBody E maxBytes intent snapshot)"
  unfolding prepareBody_def Let_def by (cases intent; simp only: Intent.case; intro quiet_intros)

lemma quietlyD: "quietly m \<Longrightarrow> m s = (r, s') \<Longrightarrow> quiet s s'"
  unfolding quietly_def by blast

lemma quiet_trans: "quiet s s' \<Longrightarrow> quiet s' s'' \<Longrightarrow> quiet s s''"
  by (simp add: quiet_def)

lemma fromResult_Inr [simp]: "fromResult r s = (Inr x, s') \<longleftrightarrow> r = Inr x \<and> s' = s"
  by (auto simp: fromResult_def raise_def split: sum.splits)

lemma leaseSnapshot_Inr:
  "leaseSnapshot E a s = (Inr snapshot, s') \<longleftrightarrow>
     s' = interfere E s \<and> (\<exists>l. cheap (coordinator s') a = Some l \<and> ensureActiveLocked a l (coordinator s') = None \<and>
       lsnapshot l = Some snapshot)"
  by (auto simp: leaseSnapshot_def Lease_Snapshot_def Let_def split: option.splits sum.splits)

lemma interfere_frame [simp]:
  "reliability (interfere E s) = reliability s" "frames (interfere E s) = frames s"
  "messageIDs (interfere E s) = messageIDs s"
  by (simp_all add: interfere_def tick_def)

text \<open>A save that succeeds has reached the store and the lease, whatever the others did.\<close>

lemma leaseSave_Inr:
  assumes "leaseSave E ctx a nxt s = (Inr u, s')"
  shows "reliability s' = reliability s \<and> frames s' = frames s \<and> messageIDs s' = messageIDs s \<and>
    snapshots (cstore (coordinator s')) (Snapshot_Key nxt) = Some nxt \<and>
    (\<exists>l. cheap (coordinator s') a = Some l \<and> lsnapshot l = Some nxt \<and> lop l = None \<and> lkey l = Snapshot_Key nxt)"
proof -
  obtain s1 l saveErr c where run: "s1 = interfere E (interfere E s\<lparr>coordinator := c\<rparr>)"
    "cheap (coordinator s1) a = Some l" and commit: "Save_commit saveErr a l nxt (coordinator s1) = (None, coordinator s')"
    and s': "s' = s1\<lparr>coordinator := coordinator s'\<rparr>"
    using assms by (auto simp: leaseSave_def Let_def split: option.splits prod.splits if_splits)
  have frame: "reliability s' = reliability s1" "frames s' = frames s1" "messageIDs s' = messageIDs s1"
    by (subst s', simp)+
  have "Snapshot_Key nxt = lkey l" and c': "coordinator s' = setLease a (l\<lparr>lop := None, lsnapshot := Some nxt\<rparr>)
      (coordinator s1\<lparr>cstore := cstore (coordinator s1)\<lparr>snapshots := (snapshots (cstore (coordinator s1)))(lkey l \<mapsto> nxt)\<rparr>\<rparr>)"
    using commit by (auto simp: Save_commit_def MemoryStore_Save_def split: option.splits if_splits)
  then show ?thesis unfolding frame c' by (simp add: run(1) setLease_def)
qed

text \<open>The stages of a message that was sent, each with the state it left.\<close>

definition inner_of :: "bytes \<Rightarrow> int \<Rightarrow> int \<Rightarrow> Snapshot \<Rightarrow> InnerData" where
  "inner_of body messageID sequenceNo snapshot = \<lparr>idSalt = ServerSalt snapshot, idSessionID = SessionID snapshot,
     idMsgID = messageID, idSeqNo = sequenceNo, idData = body\<rparr>"

lemma sealFrame_Inr:
  "sealFrame P E w intent (body, messageID, sequenceNo, retained, snapshot) s = (Inr (prepared, nxt), s') \<longleftrightarrow>
     (\<exists>encrypted. InnerData_Encrypt P (random E (ticks s)) (inner_of body messageID sequenceNo snapshot)
          (wAuthKey w) (AuthKeyID snapshot) = Inr encrypted \<and>
        prepared = \<lparr>pfMessageID = messageID, pfRequestMessageID = responseRequestID (Some intent),
          pfSequenceNo = sequenceNo, pfFrame = serializeEncryptedFrame encrypted, pfRetained = retained\<rparr> \<and>
        nxt = snapshot\<lparr>LastActivity := clock E (Suc (ticks s))\<rparr> \<and> s' = tick (tick s))"
  by (auto simp: sealFrame_def andThen_Inr_iff drawPadding_def now_def inner_of_def tick_def)

lemma deliver_Inr:
  "deliver E w ctx (prepared, nxt) s = (Inr stop, s') \<longleftrightarrow>
     (\<exists>s1 s2. leaseSave E ctx (wLease w) nxt s = (Inr (), s1) \<and>
        forEach (retainedAll prepared) (retain E (pfFrame prepared) (clock E (ticks s1))) (tick s1) = (Inr (), s2) \<and>
        WriteFrame E (pfFrame prepared) s2 = (Inr (), s') \<and> \<not> stop)"
  by (auto simp: deliver_def andThen_Inr_iff now_def)

lemma process_Inr:
  assumes "\<not> is_Close intent" "\<not> is_Resend intent"
  shows "process P E w ctx intent s = (Inr stop, s') \<longleftrightarrow>
    (\<exists>snapshot s1 b s2 p s3. leaseSnapshot E (wLease w) s = (Inr snapshot, s1) \<and>
       prepareBody E (wMaxEncodedBytes w) intent snapshot s1 = (Inr b, s2) \<and>
       sealFrame P E w intent b s2 = (Inr p, s3) \<and> deliver E w ctx p s3 = (Inr stop, s'))"
proof -
  have "process P E w ctx intent = andThen (prepare P E w intent) (deliver E w ctx)"
    using assms by (cases intent) (simp_all add: process_def)
  then show ?thesis by (simp add: prepare_def andThen_Inr_iff) blast
qed

lemma WriteFrame_Inr: "WriteFrame E frame s = (Inr u, s') \<longleftrightarrow>
    sinkErr E (ticks s) = None \<and> s' = tick (s\<lparr>frames := frames s @ [frame]\<rparr>)"
  by (auto simp: WriteFrame_def split: option.splits)

section \<open>Retention\<close>

text \<open>A message is kept with the frame as its payload until \<open>TTL\<close> after it was sent.\<close>

definition kept :: "bytes \<Rightarrow> gotime \<Rightarrow> Store \<Rightarrow> int \<Rightarrow> bool" where
  "kept frame sentAt r mid \<longleftrightarrow> (\<exists>x k. held r mid = Some (x, sentAt + ttl r, k) \<and> smPayload x = frame)"

lemma kept_Lookup:
  "store_inv r \<Longrightarrow> kept frame sentAt r mid \<Longrightarrow> later < sentAt + ttl r \<Longrightarrow>
     \<exists>x. fst (Lookup later mid r) = Some x \<and> smPayload x = frame"
  by (auto simp: Lookup_alive kept_def alive_def)

lemma dom_alive: "dom (alive t c) \<subseteq> dom c"
  by (auto simp: alive_def split: option.splits if_splits)

lemma finite_held: "store_inv s \<Longrightarrow> finite (dom (held s))"
  by (simp add: dom_held store_inv_def store_ok_finite)

lemma card_alive: "store_inv s \<Longrightarrow> card (dom (alive t (held s))) \<le> card (dom (held s))"
  by (intro card_mono finite_held dom_alive)

lemma retain_Inr:
  assumes run: "retain E frame sentAt m s = (Inr u, s')" and inv: "store_inv (reliability s)" and t: "\<not> IsZero sentAt"
  shows "store_inv (reliability s')" "capacity (reliability s') = capacity (reliability s)"
    "ttl (reliability s') = ttl (reliability s)" "coordinator s' = coordinator s" "frames s' = frames s"
    "kept frame sentAt (reliability s') (rfMessageID m)"
    "int (card (dom (held (reliability s)))) < capacity (reliability s) \<Longrightarrow>
       int (card (dom (held (reliability s')))) \<le> int (card (dom (held (reliability s)))) + 1 \<and>
       (kept frame sentAt (reliability s) q \<longrightarrow> kept frame sentAt (reliability s') q)"
proof -
  define now where "now = clock E (ticks s)"
  define x where "x = \<lparr>smMessageID = rfMessageID m, smRequestMessageID = rfRequestMessageID m,
    smSequenceNumber = rfSequenceNo m, smPayload = frame, smSentAt = sentAt, smAcknowledged = False\<rparr>"
  let ?r = "reliability s" and ?c = "alive now (held (reliability s))"
  obtain v r' where put: "Put now x ?r = (Inr v, r')" and s': "s' = tick (s\<lparr>reliability := r'\<rparr>)"
    using run by (auto simp: retain_def onStore_def andThen_Inr_iff now_def x_def split: prod.splits)
  have e: "put_entry now x ?r = (x, sentAt + ttl ?r, u64 (order ?r + 1))"
    using t by (simp add: put_entry_def stamped_def x_def)
  note c = Put_correct [OF inv put refl refl, unfolded e]
  have alive: "now < sentAt + ttl ?r" using c by (auto split: if_splits)
  have r': "reliability s' = r'" "coordinator s' = coordinator s" "frames s' = frames s" by (simp_all add: s' tick_def)
  show "store_inv (reliability s')" "capacity (reliability s') = capacity ?r" and ttl: "ttl (reliability s') = ttl ?r"
    "coordinator s' = coordinator s" "frames s' = frames s"
    using c by (simp_all add: r')
  have id: "smMessageID x = rfMessageID m" "smPayload x = frame" by (simp_all add: x_def)
  have new: "held r' (rfMessageID m) = Some (x, sentAt + ttl ?r, u64 (order ?r + 1))"
    using c alive by (auto simp: id split: if_splits)
  then show "kept frame sentAt (reliability s') (rfMessageID m)" by (simp add: kept_def r' ttl [unfolded r'] id)
  assume room: "int (card (dom (held ?r))) < capacity ?r"
  then have h: "held r' = ?c(rfMessageID m \<mapsto> (x, sentAt + ttl ?r, u64 (order ?r + 1)))"
    using c alive card_alive [OF inv, of now] by (auto simp: id split: if_splits)
  have "finite (dom ?c)" by (rule finite_subset [OF dom_alive finite_held [OF inv]])
  then have "card (dom (held r')) \<le> Suc (card (dom ?c))" unfolding h by (simp add: card_insert_if)
  moreover have "kept frame sentAt r' q" if "kept frame sentAt ?r q"
    using that alive new id h ttl [unfolded r'] by (cases "q = rfMessageID m") (auto simp: kept_def alive_Some)
  ultimately show "int (card (dom (held (reliability s')))) \<le> int (card (dom (held ?r))) + 1 \<and>
      (kept frame sentAt ?r q \<longrightarrow> kept frame sentAt (reliability s') q)"
    using card_alive [OF inv, of now] by (simp add: r')
qed

lemma retain_all:
  assumes "forEach ms (retain E frame sentAt) s = (Inr u, s')" "store_inv (reliability s)" "\<not> IsZero sentAt"
  shows "store_inv (reliability s') \<and> coordinator s' = coordinator s \<and> frames s' = frames s \<and>
    (int (card (dom (held (reliability s)))) + int (length ms) \<le> capacity (reliability s) \<longrightarrow>
      (\<forall>q. kept frame sentAt (reliability s) q \<or> q \<in> rfMessageID ` set ms \<longrightarrow> kept frame sentAt (reliability s') q))"
  using assms
proof (induction ms arbitrary: s)
  case (Cons m ms)
  obtain s1 where one: "retain E frame sentAt m s = (Inr (), s1)" and more: "forEach ms (retain E frame sentAt) s1 = (Inr u, s')"
    using Cons.prems(1) by (auto simp: andThen_Inr_iff)
  note r = retain_Inr [OF one Cons.prems(2,3)]
  note ih = Cons.IH [OF more r(1) Cons.prems(3)]
  show ?case
  proof (intro conjI impI allI)
    fix q assume room: "int (card (dom (held (reliability s)))) + int (length (m # ms)) \<le> capacity (reliability s)"
      and q: "kept frame sentAt (reliability s) q \<or> q \<in> rfMessageID ` set (m # ms)"
    then have "int (card (dom (held (reliability s)))) < capacity (reliability s)" by simp
    note k = r(7) [OF this]
    have "kept frame sentAt (reliability s1) q \<or> q \<in> rfMessageID ` set ms" using q k r(6) by auto
    then show "kept frame sentAt (reliability s') q" using ih k [of q] r(2) room by auto
  qed (use ih r in simp_all)
qed simp

lemma forEach_append: "forEach (xs @ ys) f = andThen (forEach xs f) (\<lambda>_. forEach ys f)"
  by (induction xs) (simp_all add: andThen_assoc)

section \<open>What the client can open\<close>

definition opens :: "primitives \<Rightarrow> bytes \<Rightarrow> bytes \<Rightarrow> go_error + InnerData" where
  "opens P key frame = EncryptedMessage_Decrypt P
     \<lparr>emAuthKeyID = le_int (take 8 frame), emMsgKey = slice 8 24 frame, emEncryptedData = drop 24 frame\<rparr> key"

definition padding_ok :: "(nat \<Rightarrow> go_error + bytes) \<Rightarrow> bool" where
  "padding_ok rnd \<longleftrightarrow> (\<forall>n bs. rnd n = Inr bs \<longrightarrow> length bs = n)"

lemma encrypted_opens:
  assumes P: "primitives_ok P" and m: "inner_ok m" and rnd: "padding_ok rnd" and id: "in_u64 keyID"
    and enc: "InnerData_Encrypt P rnd m key keyID = Inr e"
  shows "opens P key (serializeEncryptedFrame e) = Inr m \<and> le_int (take 8 (serializeEncryptedFrame e)) = keyID"
proof -
  define total :: "nat \<Rightarrow> go_error + bytes" where "total n = (case rnd n of Inr bs \<Rightarrow> Inr bs | Inl _ \<Rightarrow> Inr (replicate n 0))" for n
  have "random_ok total" using rnd by (auto simp: random_ok_def total_def padding_ok_def split: sum.splits)
  then obtain c where c: "encryptWithDirection P total m key keyID False = Inr c" "emAuthKeyID c = keyID"
    "length (emMsgKey c) = 16" "decryptWithDirection P c key False = Inr m"
    by (rule encrypt_decrypt [OF P m])
  have "InnerData_serialize total m = InnerData_serialize rnd m"
    using enc by (auto simp: InnerData_Encrypt_def encryptWithDirection_def InnerData_serialize_def total_def Let_def
        split: sum.splits if_splits)
  then have "e = c" using enc c(1) by (simp add: InnerData_Encrypt_def encryptWithDirection_def)
  moreover have "decryptWithDirection P \<lparr>emAuthKeyID = keyID, emMsgKey = emMsgKey c,
      emEncryptedData = emEncryptedData c\<rparr> key False = Inr m" using c(2,4) by (cases c) simp
  ultimately show ?thesis
    using c frame_parts [OF id c(3), of "emEncryptedData c"]
    by (simp add: opens_def serializeEncryptedFrame_def EncryptedMessage_Decrypt_def)
qed

section \<open>Numbering\<close>

text \<open>How many sequence numbers an intent uses up: one for every content-related message.\<close>

fun contentRelated :: "Intent option \<Rightarrow> bool" where
  "contentRelated (Some (RPCResult i b)) = True"
| "contentRelated (Some (RPCError i c m)) = True"
| "contentRelated (Some (ProtocolReply b c u)) = c"
| "contentRelated (Some (Push b)) = True"
| "contentRelated _ = False"

fun contentCount :: "Intent \<Rightarrow> nat" where
  "contentCount (Batch items) = length (filter contentRelated items)"
| "contentCount intent = (if contentRelated (Some intent) then 1 else 0)"

fun pushed :: "Intent option \<Rightarrow> bool" where
  "pushed (Some (ProtocolReply b c u)) = u"
| "pushed (Some (Push b)) = True"
| "pushed _ = False"

lemma encodeIntentBodyBounded_Inr:
  "encodeIntentBodyBounded i maxBytes = Inr (body, c, p) \<Longrightarrow> c = contentRelated i \<and> p = pushed i"
  by (induction i maxBytes rule: encodeIntentBodyBounded.induct) (auto split: if_splits sum.splits)

definition numbered :: "nat \<Rightarrow> Snapshot \<Rightarrow> Snapshot" where
  "numbered n snapshot = (if n = 0 then snapshot else snapshot\<lparr>ServerSeqNo := wrap32 (ServerSeqNo snapshot + int n)\<rparr>)"

lemma wrap32_add: "wrap32 (wrap32 a + b) = wrap32 (a + b)"
  by (simp add: wrap32_def) (simp add: mod_simps algebra_simps)

lemma numbered_add: "numbered m (numbered n snapshot) = numbered (n + m) snapshot"
  by (simp add: numbered_def wrap32_add add.assoc)

lemma nextSequenceNo_numbered:
  "snd (nextSequenceNo snapshot c) = numbered (if c then 1 else 0) snapshot"
  by (simp add: nextSequenceNo_def numbered_def)

lemma nextSequenceNo_range: "in_i32 (fst (nextSequenceNo snapshot c))"
  by (simp add: nextSequenceNo_def)

text \<open>The bytes an intent becomes.\<close>

fun intentBody :: "Intent option \<Rightarrow> bytes" where
  "intentBody (Some (RPCResult requestMessageID body)) = RPCResult_enc
     \<lparr>RPCResult_ReqMsgID = requestMessageID, RPCResult_Result = None, RPCResult_ResultRaw = body\<rparr>"
| "intentBody (Some (RPCError requestMessageID code message)) = RPCResult_enc
     \<lparr>RPCResult_ReqMsgID = requestMessageID, RPCResult_Result = None,
      RPCResult_ResultRaw = RPCError_enc \<lparr>RPCError_ErrorCode = code, RPCError_ErrorMessage = message\<rparr>\<rparr>"
| "intentBody (Some (ProtocolReply body c u)) = body"
| "intentBody (Some (Intent.Acknowledge ids)) = MsgsAck_enc \<lparr>MsgsAck_MsgIDs = ids\<rparr>"
| "intentBody (Some (Push body)) = body"
| "intentBody _ = []"

lemma emits_RPCResult: "emits (RPCResult_SerializeTL \<lparr>RPCResult_ReqMsgID = i, RPCResult_Result = None, RPCResult_ResultRaw = b\<rparr>)
    (RPCResult_enc \<lparr>RPCResult_ReqMsgID = i, RPCResult_Result = None, RPCResult_ResultRaw = b\<rparr>)"
  unfolding RPCResult_SerializeTL_def RPCResult_enc_def by (simp, intro emit_intros)

lemma emits_MsgsAck: "emits (MsgsAck_SerializeTL \<lparr>MsgsAck_MsgIDs = ids\<rparr>) (MsgsAck_enc \<lparr>MsgsAck_MsgIDs = ids\<rparr>)"
  unfolding MsgsAck_SerializeTL_def MsgsAck_enc_def by (simp, intro emit_intros)

lemma emits_RPCError: "length b < 2 ^ 24 \<Longrightarrow> emits (RPCError_SerializeTL \<lparr>RPCError_ErrorCode = c, RPCError_ErrorMessage = b\<rparr>)
    (RPCError_enc \<lparr>RPCError_ErrorCode = c, RPCError_ErrorMessage = b\<rparr>)"
  unfolding RPCError_SerializeTL_def RPCError_enc_def by (simp only: RPCError.select_convs, intro emit_intros)

lemma long_RPCError:
  assumes "\<not> length b < 2 ^ 24"
  shows "serializeRuntimeTLBounded (RPCError_SerializeTL \<lparr>RPCError_ErrorCode = c, RPCError_ErrorMessage = b\<rparr>) maxBytes \<noteq> Inr bs"
proof -
  have "WriteString b = raise (MTProtoError StringTooLong)"
    using assms by (simp add: WriteString_def WriteBytes_def Let_def MaxTLBytesLength_def)
  then show ?thesis
    by (auto simp: serializeRuntimeTLBounded_def Let_def RPCError_SerializeTL_def andThen_Inr_iff raise_def
        split: prod.splits sum.splits)
qed

lemma encodeIntentBodyBounded_body:
  assumes "encodeIntentBodyBounded i maxBytes = Inr (body, c, p)" "0 < maxBytes"
  shows "body = intentBody i \<and> int (length body) \<le> maxBytes"
proof -
  note s = normalizeMaxEncodedBytes_def serializeRuntimeTLBounded_emits [OF emits_RPCResult] serializeRuntimeTLBounded_emits [OF emits_MsgsAck]
    serializeRuntimeTLBounded_emits [OF emits_RPCError]
  show ?thesis
    using assms
  proof (induction i maxBytes rule: encodeIntentBodyBounded.induct)
    case (2 i code message maxBytes)
    then show ?case
      using long_RPCError [of message code maxBytes]
      by (cases "length message < 2 ^ 24") (auto simp: s split: if_splits sum.splits simp del: power_numeral)
  qed (auto simp: s split: if_splits sum.splits)
qed

section \<open>The body of a frame\<close>

fun batchSeqNos :: "Snapshot \<Rightarrow> Intent option list \<Rightarrow> int list" where
  "batchSeqNos snapshot [] = []"
| "batchSeqNos snapshot (i # items) = fst (nextSequenceNo snapshot (contentRelated i)) #
     batchSeqNos (numbered (if contentRelated i then 1 else 0) snapshot) items"

definition childOf :: "int \<Rightarrow> Intent option \<Rightarrow> Message \<Rightarrow> bool" where
  "childOf maxBytes i m \<longleftrightarrow> Message_BodyRaw m = intentBody i \<and> int (length (intentBody i)) \<le> maxBytes \<and>
     Message_Bytes m = wrap32 (int (length (intentBody i))) \<and> Message_Body m = None \<and> in_i64 (Message_MsgID m)"

lemma in_i64_base:
  assumes "in_i64 n" "0 \<le> k" "k < 4"
  shows "in_i64 (n AND NOT 3 OR k)" "(n AND NOT 3 OR k) mod 4 = k"
proof -
  have m: "(n - n mod 4) mod 2 ^ 2 = 0" by (simp add: minus_mod_eq_mult_div)
  have r: "n AND NOT 3 OR k = n - n mod 4 + k" unfolding and_not_3 by (rule or_low [OF m]) (use assms in simp_all)
  define q where "q = n div 4"
  have q: "n - n mod 4 = 4 * q" by (simp add: minus_mod_eq_mult_div q_def)
  have "-(2 ^ 63) \<le> n" "n < 2 ^ 63" using assms(1) by (simp_all add: in_i64_def)
  then have "-(2 ^ 61) \<le> q" "q < 2 ^ 61" using q pos_mod_bound [of 4 n] pos_mod_sign [of 4 n] by simp_all
  then show "in_i64 (n AND NOT 3 OR k)" unfolding r q using assms(2,3) by (simp add: in_i64_def)
  show "(n AND NOT 3 OR k) mod 4 = k" unfolding r using assms(2,3) by (simp add: minus_mod_eq_mult_div)
qed

lemma MsgIDGenerator_Next_range: "in_i64 (fst (MsgIDGenerator_Next t g))"
proof -
  let ?p = "wrap64 (push_bit 32 (Unix_of t))"
  define f where "f = Nanosecond_of t AND NOT 3"
  have f: "0 \<le> f" "f < 2 ^ 32"
    using nanosecond_range [of t] pos_mod_sign [of 4 "Nanosecond_of t"] by (simp_all add: f_def and_minus_4 minus_mod_eq_mult_div)
  have z: "?p mod 2 ^ 32 = 0" by (simp add: wrap64_def push_bit_eq_mult mod_diff_left_eq [symmetric] mod_mod_cancel)
  obtain q where "?p = 2 ^ 32 * q" using z by blast
  moreover have "in_i64 ?p" by simp
  ultimately have "?p \<le> 2 ^ 63 - 2 ^ 32" "-(2 ^ 63) \<le> ?p" by (simp_all add: in_i64_def)
  then have "in_i64 (?p OR f)" unfolding or_low [OF z f] using f by (simp add: in_i64_def)
  then show ?thesis by (simp add: MsgIDGenerator_Next_def Let_def f_def)
qed

lemma nextMessageID_Inr:
  assumes "nextMessageID E push s = (Inr i, s')"
  shows "in_i64 i" "i mod 4 = (if push then 3 else 1)"
proof -
  obtain n g where n: "MsgIDGenerator_Next (clock E (ticks s)) (snd (serverIDs (othersIDs E (ticks s)) (messageIDs s))) = (n, g)"
    by fastforce
  have r: "in_i64 n" using MsgIDGenerator_Next_range [of "clock E (ticks s)" "snd (serverIDs (othersIDs E (ticks s)) (messageIDs s))"]
    by (simp add: n)
  have "i = n AND NOT 3 OR (if push then 3 else 1)" using assms by (auto simp: nextMessageID_def n Let_def)
  then show "in_i64 i" "i mod 4 = (if push then 3 else 1)" using in_i64_base [OF r, of "if push then 3 else 1"] by auto
qed

lemma prepareChildren_Cons:
  "prepareChildren E maxBytes (i # items) messages retained snapshot s = (Inr r, s') \<longleftrightarrow>
     (\<exists>body c p mid s1. encodeIntentBodyBounded i maxBytes = Inr (body, c, p) \<and> nextMessageID E p s = (Inr mid, s1) \<and>
        prepareChildren E maxBytes items
          (messages @ [\<lparr>Message_MsgID = mid, Message_SeqNo = fst (nextSequenceNo snapshot c),
             Message_Bytes = wrap32 (int (length body)), Message_Body = None, Message_BodyRaw = body\<rparr>])
          (retained @ [\<lparr>rfMessageID = mid, rfRequestMessageID = responseRequestID i,
             rfSequenceNo = fst (nextSequenceNo snapshot c)\<rparr>])
          (snd (nextSequenceNo snapshot c)) s1 = (Inr r, s'))"
  by (simp add: andThen_Inr_iff Let_def split_beta)

lemma prepareChildren_Inr:
  assumes "prepareChildren E maxBytes items messages retained snapshot s = (Inr (messages', retained', snapshot'), s')" "0 < maxBytes"
  shows "\<exists>ms rs. messages' = messages @ ms \<and> retained' = retained @ rs \<and> list_all2 (childOf maxBytes) items ms \<and>
    map Message_SeqNo ms = batchSeqNos snapshot items \<and> map rfMessageID rs = map Message_MsgID ms \<and>
    snapshot' = numbered (length (filter contentRelated items)) snapshot"
  using assms
proof (induction items arbitrary: messages retained snapshot s)
  case (Cons i items)
  obtain body c p mid s1 where enc: "encodeIntentBodyBounded i maxBytes = Inr (body, c, p)"
    and mid: "nextMessageID E p s = (Inr mid, s1)" and
    more: "prepareChildren E maxBytes items
          (messages @ [\<lparr>Message_MsgID = mid, Message_SeqNo = fst (nextSequenceNo snapshot c),
             Message_Bytes = wrap32 (int (length body)), Message_Body = None, Message_BodyRaw = body\<rparr>])
          (retained @ [\<lparr>rfMessageID = mid, rfRequestMessageID = responseRequestID i,
             rfSequenceNo = fst (nextSequenceNo snapshot c)\<rparr>])
          (snd (nextSequenceNo snapshot c)) s1 = (Inr (messages', retained', snapshot'), s')"
    using Cons.prems(1) unfolding prepareChildren_Cons by blast
  note b = encodeIntentBodyBounded_body [OF enc Cons.prems(2)] and cp = encodeIntentBodyBounded_Inr [OF enc]
  obtain ms rs where ih: "messages' = (messages @ [\<lparr>Message_MsgID = mid, Message_SeqNo = fst (nextSequenceNo snapshot c),
             Message_Bytes = wrap32 (int (length body)), Message_Body = None, Message_BodyRaw = body\<rparr>]) @ ms"
    "retained' = (retained @ [\<lparr>rfMessageID = mid, rfRequestMessageID = responseRequestID i,
             rfSequenceNo = fst (nextSequenceNo snapshot c)\<rparr>]) @ rs"
    "list_all2 (childOf maxBytes) items ms" "map Message_SeqNo ms = batchSeqNos (snd (nextSequenceNo snapshot c)) items"
    "map rfMessageID rs = map Message_MsgID ms"
    "snapshot' = numbered (length (filter contentRelated items)) (snd (nextSequenceNo snapshot c))"
    using Cons.IH [OF more Cons.prems(2)] by blast
  show ?case
    by (intro exI conjI, unfold ih(1,2) append_assoc, rule refl, rule refl)
      (use ih(3-) b cp nextMessageID_Inr [OF mid] in \<open>auto simp: childOf_def [of maxBytes i] nextSequenceNo_numbered numbered_add\<close>)
qed (simp add: numbered_def)

lemma emits_MsgContainer:
  assumes "\<forall>m \<in> set ms. Message_Body m = None"
  shows "emits (MsgContainer_SerializeTL \<lparr>MsgContainer_Messages = ms\<rparr>) (MsgContainer_enc \<lparr>MsgContainer_Messages = ms\<rparr>)"
proof -
  have "emits (Message_SerializeTL m) (Message_enc m)" if "m \<in> set ms" for m
    using assms that by (auto simp: Message_SerializeTL_def Message_enc_def intro!: emit_intros)
  then show ?thesis
    unfolding MsgContainer_SerializeTL_def MsgContainer_enc_def by (simp, intro emit_intros)
qed

text \<open>What \<open>prepareBody\<close> yields: a container for a batch, the intent's own bytes otherwise.\<close>

definition batchBody :: "int \<Rightarrow> Intent option list \<Rightarrow> Snapshot \<Rightarrow> Message list \<Rightarrow> bytes \<Rightarrow> bool" where
  "batchBody maxBytes items snapshot ms body \<longleftrightarrow>
     int (length items) \<le> DefaultMaxVectorElements \<and> list_all2 (childOf maxBytes) items ms \<and>
     map Message_SeqNo ms = batchSeqNos snapshot items \<and> body = MsgContainer_enc \<lparr>MsgContainer_Messages = ms\<rparr>"

lemma prepareBody_Batch:
  assumes "prepareBody E maxBytes (Batch items) snapshot s = (Inr (body, messageID, sequenceNo, retained, snapshot'), s')" "0 < maxBytes"
  shows "\<exists>ms. batchBody maxBytes items snapshot ms body \<and> map rfMessageID retained = map Message_MsgID ms"
    "snapshot' = numbered (contentCount (Batch items)) snapshot" "sequenceNo = fst (nextSequenceNo snapshot' False)"
    "in_i64 messageID" "messageID mod 4 = 1" "int (length body) \<le> maxBytes"
proof -
  obtain ms s1 where children: "prepareChildren E maxBytes items [] [] snapshot s = (Inr (ms, retained, snapshot'), s1)"
    and ser: "serializeRuntimeTLBounded (MsgContainer_SerializeTL \<lparr>MsgContainer_Messages = ms\<rparr>) maxBytes = Inr body"
    and mid: "nextMessageID E False s1 = (Inr messageID, s')" and seq: "sequenceNo = fst (nextSequenceNo snapshot' False)"
    and size: "int (length items) \<le> DefaultMaxVectorElements"
    using assms(1) unfolding prepareBody_def Intent.case
    by (cases "int (length items) > DefaultMaxVectorElements")
      (auto simp: andThen_Inr_iff Let_def nextSequenceNo_def raise_def)
  note c = prepareChildren_Inr [OF children assms(2)]
  have "\<forall>m \<in> set ms. Message_Body m = None"
    using c by (auto simp: list_all2_conv_all_nth childOf_def in_set_conv_nth)
  note ser = ser [unfolded serializeRuntimeTLBounded_emits [OF emits_MsgContainer [OF this]]]
  show "\<exists>ms. batchBody maxBytes items snapshot ms body \<and> map rfMessageID retained = map Message_MsgID ms"
    using c ser size by (intro exI [of _ ms]) (auto simp: batchBody_def split: if_splits)
  show "snapshot' = numbered (contentCount (Batch items)) snapshot" "sequenceNo = fst (nextSequenceNo snapshot' False)"
    using c seq by auto
  show "in_i64 messageID" "messageID mod 4 = 1" using nextMessageID_Inr [OF mid] by simp_all
  show "int (length body) \<le> maxBytes" using ser assms(2) by (auto simp: normalizeMaxEncodedBytes_def split: if_splits)
qed

lemma prepareBody_single:
  assumes "prepareBody E maxBytes intent snapshot s = (Inr (body, messageID, sequenceNo, retained, snapshot'), s')" "0 < maxBytes"
    and "\<not> is_Batch intent"
  shows "body = intentBody (Some intent)" "int (length body) \<le> maxBytes" "retained = []"
    "snapshot' = numbered (contentCount intent) snapshot"
    "sequenceNo = fst (nextSequenceNo snapshot (contentRelated (Some intent)))"
    "in_i64 messageID" "messageID mod 4 = (if pushed (Some intent) then 3 else 1)"
proof -
  have "prepareBody E maxBytes intent snapshot = andThen (fromResult (encodeIntentBodyBounded (Some intent) maxBytes)) (\<lambda>(body, contentRelated, push).
          andThen (nextMessageID E push) (\<lambda>messageID.
            (let (sequenceNo, snapshot) = nextSequenceNo snapshot contentRelated in
             ret (body, messageID, sequenceNo, [], snapshot))))"
    using assms(3) by (cases intent) (simp_all add: prepareBody_def)
  with assms(1) have "\<exists>body' c p. encodeIntentBodyBounded (Some intent) maxBytes = Inr (body', c, p) \<and>
      (\<exists>mid s1. nextMessageID E p s = (Inr mid, s1) \<and> body' = body \<and> mid = messageID \<and>
        fst (nextSequenceNo snapshot c) = sequenceNo \<and> [] = retained \<and> snd (nextSequenceNo snapshot c) = snapshot' \<and> s1 = s')"
    by (simp add: andThen_Inr_iff Let_def split_beta)
  then obtain c p where enc: "encodeIntentBodyBounded (Some intent) maxBytes = Inr (body, c, p)"
    and mid: "nextMessageID E p s = (Inr messageID, s')" and "retained = []"
    and seq: "nextSequenceNo snapshot c = (sequenceNo, snapshot')"
    by (elim exE conjE) (simp add: prod_eq_iff)
  note cp = encodeIntentBodyBounded_Inr [OF enc]
  have "contentCount intent = (if contentRelated (Some intent) then 1 else 0)" using assms(3) by (cases intent) simp_all
  then show "body = intentBody (Some intent)" "int (length body) \<le> maxBytes" "retained = []"
    "snapshot' = numbered (contentCount intent) snapshot"
    "sequenceNo = fst (nextSequenceNo snapshot (contentRelated (Some intent)))"
    "in_i64 messageID" "messageID mod 4 = (if pushed (Some intent) then 3 else 1)"
    using encodeIntentBodyBounded_body [OF enc assms(2)] cp seq nextMessageID_Inr [OF mid] \<open>retained = []\<close>
      nextSequenceNo_numbered [of snapshot c] by auto
qed

section \<open>Identifiers\<close>

text \<open>The generator after at most \<open>n\<close> identifiers drawn in the same instant: it stays clear of the largest
  64-bit integer as long as the clock shows a time before 2038.\<close>

definition gen_below :: "nat \<Rightarrow> MsgIDGenerator \<Rightarrow> bool" where
  "gen_below n g \<longleftrightarrow> 0 \<le> gen_last g \<and> gen_last g mod 4 = 0 \<and> gen_last g \<le> 2 ^ 63 - 2 ^ 32 + 4 * int n"

lemma gen_below_step:
  assumes "clock_ok t" "gen_below n g" "n < 2 ^ 29" "nextServerMsgID t kind g = (i, g')"
  shows "gen_below (Suc n) g'" "gen_last g + 4 \<le> gen_last g'" "i = gen_last g' + kindBits kind"
proof -
  have "gen_last g + 4 < 2 ^ 63" using assms(2,3) by (simp add: gen_below_def)
  with assms(2) have g: "0 \<le> gen_last g" "gen_last g mod 4 = 0" "gen_last g + 4 < 2 ^ 63" by (simp_all add: gen_below_def)
  note s = nextServerMsgID_step [OF assms(1) g assms(4)]
  show "i = gen_last g' + kindBits kind" by (rule s(1))
  show "gen_last g + 4 \<le> gen_last g'" using s(2,4) g(2) by presburger
  show "gen_below (Suc n) g'" using s(2,4,5) assms(2) by (auto simp: gen_below_def)
qed

lemma gen_below_mono: "gen_below m g \<Longrightarrow> m \<le> n \<Longrightarrow> gen_below n g"
  by (simp add: gen_below_def)

lemma gen_below_history:
  assumes "\<forall>(t, kind) \<in> set calls. clock_ok t" "gen_below n g" "n + length calls \<le> 2 ^ 29"
  shows "gen_below (n + length calls) (snd (serverIDs calls g)) \<and> gen_last g \<le> gen_last (snd (serverIDs calls g))"
  using assms
proof (induction calls arbitrary: n g)
  case (Cons call calls)
  obtain t kind where call: "call = (t, kind)" by fastforce
  obtain i g1 where i: "nextServerMsgID t kind g = (i, g1)" by fastforce
  have t: "clock_ok t" and n: "n < 2 ^ 29" using Cons.prems by (simp_all add: call)
  note s = gen_below_step [OF t Cons.prems(2) n i]
  have "Suc n + length calls \<le> 2 ^ 29" using Cons.prems(3) by simp
  from Cons.IH [OF _ s(1) this] Cons.prems(1) s(2) show ?case
    by (simp add: call i split_beta)
qed simp

text \<open>The clocks of the process, and the identifiers other sessions of the connection draw meanwhile.\<close>

definition identifiers_ok :: "env \<Rightarrow> bool" where
  "identifiers_ok E \<longleftrightarrow> (\<forall>t. clock_ok (clock E t) \<and> (\<forall>(t', kind) \<in> set (othersIDs E t). clock_ok t') \<and>
     length (othersIDs E t) < 2 ^ 10)"

lemma nextMessageID_server:
  "nextMessageID E push s =
     (case nextServerMsgID (clock E (ticks s)) (if push then msgIDPush else msgIDResponse)
        (snd (serverIDs (othersIDs E (ticks s)) (messageIDs s))) of (i, g) \<Rightarrow> (Inr i, tick (s\<lparr>messageIDs := g\<rparr>)))"
  by (auto simp: nextMessageID_def nextServerMsgID_def Let_def split_beta)

lemma nextMessageID_increases:
  assumes E: "identifiers_ok E" and g: "gen_below n (messageIDs s)" "n + 2 ^ 10 \<le> 2 ^ 29"
    and run: "nextMessageID E push s = (Inr i, s')"
  shows "gen_below (n + 2 ^ 10) (messageIDs s')" "gen_last (messageIDs s) + 4 < i" "i < gen_last (messageIDs s') + 4"
    "gen_last (messageIDs s) \<le> gen_last (messageIDs s')"
proof -
  let ?calls = "othersIDs E (ticks s)"
  have c: "\<forall>(t', kind) \<in> set ?calls. clock_ok t'" "length ?calls < 2 ^ 10" "clock_ok (clock E (ticks s))"
    using E by (auto simp: identifiers_ok_def)
  have n: "n + length ?calls \<le> 2 ^ 29" "n + length ?calls < 2 ^ 29" using c(2) g(2) by linarith+
  note h = gen_below_history [OF c(1) g(1) n(1)]
  obtain g' where g': "nextServerMsgID (clock E (ticks s)) (if push then msgIDPush else msgIDResponse)
      (snd (serverIDs ?calls (messageIDs s))) = (i, g')" "messageIDs s' = g'"
    using run by (auto simp: nextMessageID_server tick_def split: prod.splits)
  note s = gen_below_step [OF c(3) h [THEN conjunct1] n(2) g'(1)]
  show "gen_below (n + 2 ^ 10) (messageIDs s')"
    by (rule gen_below_mono [OF s(1) [folded g'(2)]]) (use c(2) in linarith)
  show "gen_last (messageIDs s) + 4 < i" "i < gen_last (messageIDs s') + 4" "gen_last (messageIDs s) \<le> gen_last (messageIDs s')"
    using s(2,3) h by (simp_all add: g'(2) kindBits_def split: if_splits)
qed

lemma prepareChildren_prefix:
  "prepareChildren E maxBytes items messages retained snapshot s = (Inr (messages', retained', snapshot'), s') \<Longrightarrow>
     \<exists>ms. messages' = messages @ ms"
proof (induction items arbitrary: messages retained snapshot s)
  case (Cons i items)
  then show ?case unfolding prepareChildren_Cons by (metis append_assoc)
qed simp

lemma prepareChildren_ids:
  assumes "prepareChildren E maxBytes items messages retained snapshot s = (Inr (messages @ ms, retained', snapshot'), s')"
    and "identifiers_ok E" "gen_below n (messageIDs s)" "n + length items * 2 ^ 10 \<le> 2 ^ 29"
  shows "sorted_wrt (<) (map Message_MsgID ms) \<and> gen_last (messageIDs s) \<le> gen_last (messageIDs s') \<and>
    (\<forall>m \<in> set ms. gen_last (messageIDs s) + 4 < Message_MsgID m \<and> Message_MsgID m < gen_last (messageIDs s') + 4) \<and>
    gen_below (n + length items * 2 ^ 10) (messageIDs s')"
  using assms
proof (induction items arbitrary: messages retained snapshot s ms n)
  case (Cons i items)
  obtain body c p mid s1 x where x: "Message_MsgID x = mid" and mid: "nextMessageID E p s = (Inr mid, s1)"
    and more: "prepareChildren E maxBytes items (messages @ [x]) (retained @ [\<lparr>rfMessageID = mid,
        rfRequestMessageID = responseRequestID i, rfSequenceNo = fst (nextSequenceNo snapshot c)\<rparr>])
      (snd (nextSequenceNo snapshot c)) s1 = (Inr (messages @ ms, retained', snapshot'), s')"
    using Cons.prems(1) unfolding prepareChildren_Cons by (metis Message.select_convs(1))
  have n: "n + 2 ^ 10 \<le> 2 ^ 29" "n + 2 ^ 10 + length items * 2 ^ 10 \<le> 2 ^ 29" using Cons.prems(4) by simp_all
  note one = nextMessageID_increases [OF Cons.prems(2,3) n(1) mid]
  have "\<exists>ms'. messages @ ms = (messages @ [x]) @ ms'"
    using prepareChildren_prefix [OF more] by simp
  then obtain ms' where ms: "ms = x # ms'" by auto
  have "prepareChildren E maxBytes items (messages @ [x]) (retained @ [\<lparr>rfMessageID = mid,
        rfRequestMessageID = responseRequestID i, rfSequenceNo = fst (nextSequenceNo snapshot c)\<rparr>])
      (snd (nextSequenceNo snapshot c)) s1 = (Inr ((messages @ [x]) @ ms', retained', snapshot'), s')"
    using more by (simp add: ms)
  note ih = Cons.IH [OF this Cons.prems(2) one(1) n(2)]
  show ?case using ih one x by (fastforce simp: ms add.assoc)
qed simp

section \<open>Sending\<close>

text \<open>Everything up to the last step keeps off the wire.\<close>

definition silent :: "(world, 'a) io \<Rightarrow> bool" where
  "silent m \<longleftrightarrow> (\<forall>s r s'. m s = (r, s') \<longrightarrow> frames s' = frames s)"

lemma quietly_silent: "quietly m \<Longrightarrow> silent m"
  by (simp add: quietly_def silent_def quiet_def)

lemma silent_andThen: "silent m \<Longrightarrow> (\<And>x. silent (f x)) \<Longrightarrow> silent (andThen m f)"
  unfolding silent_def andThen_def by (fastforce split: prod.splits sum.splits)

lemma silent_leaseSnapshot: "silent (leaseSnapshot E a)"
  by (auto simp: silent_def leaseSnapshot_def Let_def split: option.splits sum.splits)

lemma silent_leaseSave: "silent (leaseSave E ctx a nxt)"
  by (auto simp: silent_def leaseSave_def Let_def split: option.splits prod.splits)

lemma silent_retain: "silent (retain E frame sentAt m)"
  unfolding retain_def
  by (rule silent_andThen) (auto simp: silent_def onStore_def tick_def fromResult_def raise_def split: prod.splits sum.splits)

lemma silent_forEach: "(\<And>x. silent (f x)) \<Longrightarrow> silent (forEach xs f)"
  by (induction xs) (simp_all add: silent_andThen quietly_silent quietly_ret)

lemma quietly_sealFrame: "quietly (sealFrame P E w intent b)"
  unfolding sealFrame_def by (intro quiet_intros)

lemma deliver_fails_silently:
  assumes "deliver E w ctx (prepared, nxt) s = (Inl e, s')"
  shows "frames s' = frames s"
proof -
  let ?m = "andThen (leaseSave E ctx (wLease w) nxt) (\<lambda>_.
     andThen (now E) (\<lambda>sentAt. forEach (retainedAll prepared) (retain E (pfFrame prepared) sentAt)))"
  have m: "silent ?m"
    by (intro silent_andThen silent_leaseSave quietly_silent quietly_now silent_forEach silent_retain)
  have d: "deliver E w ctx (prepared, nxt) = andThen ?m (\<lambda>_. andThen (WriteFrame E (pfFrame prepared)) (\<lambda>_. ret False))"
    by (simp add: deliver_def andThen_assoc)
  obtain r s1 where r: "?m s = (r, s1)" by fastforce
  have s1: "frames s1 = frames s" using m r unfolding silent_def by blast
  show ?thesis
  proof (cases r)
    case (Inl e')
    then show ?thesis using assms s1 by (simp add: d andThen_Inl [where m = ?m, OF r [unfolded Inl]])
  next
    case (Inr u)
    then have "andThen (WriteFrame E (pfFrame prepared)) (\<lambda>_. ret False) s1 = (Inl e, s')"
      using assms by (simp add: d andThen_Inr [where m = ?m, OF r [unfolded Inr]])
    then show ?thesis using s1 by (auto simp: WriteFrame_def andThen_def tick_def split: option.splits)
  qed
qed

lemma process_fails_silently:
  assumes "process P E w ctx intent s = (Inl e, s')" "\<not> is_Resend intent"
  shows "frames s' = frames s"
proof (cases "is_Close intent")
  case False
  then have p: "process P E w ctx intent = andThen (prepare P E w intent) (deliver E w ctx)"
    using assms(2) by (cases intent) (simp_all add: process_def)
  have prep: "silent (prepare P E w intent)"
    unfolding prepare_def
    by (intro silent_andThen silent_leaseSnapshot quietly_silent quietly_prepareBody quietly_sealFrame)
  show ?thesis
  proof (cases "prepare P E w intent s")
    case (Pair r s1)
    have s1: "frames s1 = frames s" using prep Pair by (simp add: silent_def)
    show ?thesis
    proof (cases r)
      case (Inr b)
      then have "deliver E w ctx b s1 = (Inl e, s')" using assms(1) Pair by (simp add: p)
      then show ?thesis using s1 deliver_fails_silently by (metis surj_pair)
    qed (use assms(1) Pair s1 in \<open>simp add: p\<close>)
  qed
next
  case True
  then show ?thesis using assms by (cases intent) (simp_all add: process_def)
qed

text \<open>What is known of a frame that has gone out: what the lease said when it was prepared, what it carries,
  what is durable and what is retained.\<close>

lemma sent:
  assumes run: "process P E w ctx intent s = (Inr stop, s')" "\<not> is_Close intent" "\<not> is_Resend intent"
    and inv: "store_inv (reliability s)" and clock: "\<forall>t. \<not> IsZero (clock E t)"
  obtains snapshot body messageID sequenceNo retained snapshot' s2 rnd encrypted t sentAt where
    "leaseSnapshot E (wLease w) s = (Inr snapshot, interfere E s)"
    "prepareBody E (wMaxEncodedBytes w) intent snapshot (interfere E s) =
       (Inr (body, messageID, sequenceNo, retained, snapshot'), s2)"
    "InnerData_Encrypt P (random E rnd) (inner_of body messageID sequenceNo snapshot') (wAuthKey w) (AuthKeyID snapshot') = Inr encrypted"
    "\<not> stop" "frames s' = frames s @ [serializeEncryptedFrame encrypted]"
    "snapshots (cstore (coordinator s')) (Snapshot_Key (snapshot'\<lparr>LastActivity := clock E t\<rparr>)) =
       Some (snapshot'\<lparr>LastActivity := clock E t\<rparr>)"
    "store_inv (reliability s')" "kept (serializeEncryptedFrame encrypted) (clock E sentAt) (reliability s') messageID"
    "int (card (dom (held (reliability s)))) + int (length retained) + 1 \<le> capacity (reliability s) \<longrightarrow>
       (\<forall>q \<in> rfMessageID ` set retained. kept (serializeEncryptedFrame encrypted) (clock E sentAt) (reliability s') q)"
    "\<exists>l. cheap (coordinator s') (wLease w) = Some l \<and> lop l = None \<and> lkey l = Snapshot_Key (snapshot'\<lparr>LastActivity := clock E t\<rparr>)"
proof -
  obtain snapshot s1 b s2 p s3 where sn: "leaseSnapshot E (wLease w) s = (Inr snapshot, s1)"
    and body: "prepareBody E (wMaxEncodedBytes w) intent snapshot s1 = (Inr b, s2)"
    and seal: "sealFrame P E w intent b s2 = (Inr p, s3)" and out: "deliver E w ctx p s3 = (Inr stop, s')"
    using run(1) unfolding process_Inr [OF run(2,3)] by blast
  obtain bd mid seq retained sn' where b: "b = (bd, mid, seq, retained, sn')" by (cases b)
  obtain prepared nxt where p: "p = (prepared, nxt)" by (cases p)
  obtain e where enc: "InnerData_Encrypt P (random E (ticks s2)) (inner_of bd mid seq sn') (wAuthKey w) (AuthKeyID sn') = Inr e"
    and pr: "pfFrame prepared = serializeEncryptedFrame e" "pfMessageID prepared = mid" "pfRetained prepared = retained"
    and nxt: "nxt = sn'\<lparr>LastActivity := clock E (Suc (ticks s2))\<rparr>" "s3 = tick (tick s2)"
    using seal unfolding b p sealFrame_Inr by auto
  obtain s4 s5 where save: "leaseSave E ctx (wLease w) nxt s3 = (Inr (), s4)"
    and put: "forEach (retainedAll prepared) (retain E (pfFrame prepared) (clock E (ticks s4))) (tick s4) = (Inr (), s5)"
    and wire: "WriteFrame E (pfFrame prepared) s5 = (Inr (), s')" and stop: "\<not> stop"
    using out unfolding p deliver_Inr by blast
  have s1: "s1 = interfere E s" using sn by (simp add: leaseSnapshot_Inr)
  have s3: "reliability s3 = reliability s" "frames s3 = frames s"
    using quietlyD [OF quietly_prepareBody body] by (simp_all add: quiet_def s1 nxt(2) tick_def)
  note saved = leaseSave_Inr [OF save]
  have s5: "reliability (tick s4) = reliability s" "frames (tick s4) = frames s"
    using saved s3 by (simp_all add: tick_def)
  have inv4: "store_inv (reliability (tick s4))" using inv s5 by simp
  note kept = retain_all [OF put inv4 spec [OF clock]]
  obtain s6 where init: "forEach retained (retain E (pfFrame prepared) (clock E (ticks s4))) (tick s4) = (Inr (), s6)"
    and last: "retain E (pfFrame prepared) (clock E (ticks s4)) \<lparr>rfMessageID = mid,
       rfRequestMessageID = pfRequestMessageID prepared, rfSequenceNo = pfSequenceNo prepared\<rparr> s6 = (Inr (), s5)"
    using put by (auto simp: retainedAll_def forEach_append andThen_Inr_iff pr)
  have inv6: "store_inv (reliability s6)" using retain_all [OF init inv4 spec [OF clock]] by simp
  note final = retain_Inr [OF last inv6 spec [OF clock]]
  have s': "s' = tick (s5\<lparr>frames := frames s5 @ [pfFrame prepared]\<rparr>)" using wire by (simp add: WriteFrame_Inr)
  have f5: "frames s5 = frames s" "coordinator s5 = coordinator s4" using kept s5 by (simp_all add: tick_def)
  show ?thesis
  proof (rule that [OF sn [unfolded s1] body [unfolded b s1] enc stop])
    show "frames s' = frames s @ [serializeEncryptedFrame e]" using f5 by (simp add: s' tick_def pr)
    show "snapshots (cstore (coordinator s')) (Snapshot_Key (sn'\<lparr>LastActivity := clock E (Suc (ticks s2))\<rparr>)) =
        Some (sn'\<lparr>LastActivity := clock E (Suc (ticks s2))\<rparr>)"
      using saved f5 by (simp add: s' tick_def nxt)
    show "store_inv (reliability s')" "kept (serializeEncryptedFrame e) (clock E (ticks s4)) (reliability s') mid"
      using final(1,6) by (simp_all add: s' tick_def pr)
    show "int (card (dom (held (reliability s)))) + int (length retained) + 1 \<le> capacity (reliability s) \<longrightarrow>
       (\<forall>q \<in> rfMessageID ` set retained. kept (serializeEncryptedFrame e) (clock E (ticks s4)) (reliability s') q)"
      using kept s5 by (auto simp: s' tick_def pr retainedAll_def)
    show "\<exists>l. cheap (coordinator s') (wLease w) = Some l \<and> lop l = None \<and>
        lkey l = Snapshot_Key (sn'\<lparr>LastActivity := clock E (Suc (ticks s2))\<rparr>)"
      using saved f5 by (auto simp: s' tick_def nxt)
  qed
qed

lemma numbered_frame [simp]:
  "ServerSalt (numbered n sn) = ServerSalt sn" "SessionID (numbered n sn) = SessionID sn"
  "AuthKeyID (numbered n sn) = AuthKeyID sn" "Snapshot_Key ((numbered n sn)\<lparr>LastActivity := t\<rparr>) = Snapshot_Key sn"
  by (simp_all add: numbered_def Snapshot_Key_def)

definition snapshot_ok :: "Snapshot \<Rightarrow> bool" where
  "snapshot_ok sn \<longleftrightarrow> in_i64 (ServerSalt sn) \<and> in_i64 (SessionID sn) \<and> in_u64 (AuthKeyID sn)"

definition environment_ok :: "env \<Rightarrow> bool" where
  "environment_ok E \<longleftrightarrow> (\<forall>t. padding_ok (random E t) \<and> \<not> IsZero (clock E t))"

lemma prepareBody_facts:
  assumes "prepareBody E maxBytes intent snapshot s = (Inr (body, messageID, sequenceNo, retained, snapshot'), s')" "0 < maxBytes"
  shows "snapshot' = numbered (contentCount intent) snapshot" "int (length body) \<le> maxBytes"
    "in_i64 messageID" "in_i32 sequenceNo"
    "length retained = length (if is_Batch intent then baItems intent else [])"
proof -
  have "snapshot' = numbered (contentCount intent) snapshot \<and> int (length body) \<le> maxBytes \<and> in_i64 messageID \<and>
    in_i32 sequenceNo \<and> length retained = length (if is_Batch intent then baItems intent else [])"
  proof (cases "is_Batch intent")
    case False
    note p = prepareBody_single [OF assms False]
    show ?thesis unfolding p(5) using p(1-4,6) False nextSequenceNo_range by simp
  next
    case True
    then obtain items where i: "intent = Batch items" by (cases intent) simp_all
    note p = prepareBody_Batch [OF assms [unfolded i]]
    obtain ms where "batchBody maxBytes items snapshot ms body" "map rfMessageID retained = map Message_MsgID ms" using p(1) by blast
    then have "length retained = length items" by (metis batchBody_def length_map list_all2_lengthD)
    then show ?thesis unfolding p(3) using p(2,4,6) nextSequenceNo_range by (simp add: i)
  qed
  then show "snapshot' = numbered (contentCount intent) snapshot" "int (length body) \<le> maxBytes"
    "in_i64 messageID" "in_i32 sequenceNo" "length retained = length (if is_Batch intent then baItems intent else [])"
    by - (elim conjE, assumption)+
qed

end
