(* ===== verification/Outbound_Delivery.thy ===== *)
theory Outbound_Delivery
  imports Outbound_Writer
begin

text \<open>
  What the outbound writer guarantees: that a frame is durable and retained before it is sent, that the client can
  open it and finds in it what was submitted, that a message that fits is sent, and that pushes are combined only when the batch fits.
  The last property shows what the writer does not guard against: another goroutine that
  saves the session with an older snapshot.
\<close>

section \<open>Numbers and identifiers of a batch\<close>

lemma batchSeqNos_nth:
  assumes "i < length items" "0 \<le> ServerSeqNo snapshot" "ServerSeqNo snapshot + int (length items) < 2 ^ 30"
  shows "batchSeqNos snapshot items ! i =
    2 * (ServerSeqNo snapshot + int (length (filter contentRelated (take i items)))) + (if contentRelated (items ! i) then 1 else 0)"
  using assms
proof (induction items arbitrary: i snapshot)
  case (Cons item items)
  let ?n = "ServerSeqNo snapshot"
  have r: "in_i32 (?n * 2)" "in_i32 (?n * 2 + 1)" "in_i32 (?n + 1)" using Cons.prems by (simp_all add: in_i32_def)
  show ?case
  proof (cases i)
    case 0
    then show ?thesis using r by (simp add: nextSequenceNo_def)
  next
    case (Suc j)
    let ?s = "numbered (if contentRelated item then 1 else 0) snapshot"
    have s: "ServerSeqNo ?s = ?n + (if contentRelated item then 1 else 0)" using r by (simp add: numbered_def)
    have "batchSeqNos ?s items ! j =
        2 * (ServerSeqNo ?s + int (length (filter contentRelated (take j items)))) + (if contentRelated (items ! j) then 1 else 0)"
      by (rule Cons.IH) (use Cons.prems Suc s in auto)
    then show ?thesis using s by (simp add: Suc)
  qed
qed simp

lemma batchSeqNos_range: "x \<in> set (batchSeqNos snapshot items) \<Longrightarrow> in_i32 x"
  by (induction items arbitrary: snapshot) (auto simp: nextSequenceNo_range)

lemma batch_ids:
  assumes "prepareBody E maxBytes (Batch items) snapshot s = (Inr (body, messageID, sequenceNo, retained, snapshot'), s')"
    and E: "identifiers_ok E" "gen_below 0 (messageIDs s)" and m: "0 < maxBytes"
    and ms: "body = MsgContainer_enc \<lparr>MsgContainer_Messages = ms\<rparr>" "map rfMessageID retained = map Message_MsgID ms"
  shows "sorted_wrt (<) (map Message_MsgID ms @ [messageID])"
proof -
  obtain ms' s1 where children: "prepareChildren E maxBytes items [] [] snapshot s = (Inr (ms', retained, snapshot'), s1)"
    and mid: "nextMessageID E False s1 = (Inr messageID, s')" and size: "int (length items) \<le> DefaultMaxVectorElements"
    using assms(1) unfolding prepareBody_def Intent.case
    by (cases "int (length items) > DefaultMaxVectorElements") (auto simp: andThen_Inr_iff Let_def nextSequenceNo_def raise_def)
  have n: "0 + length items * 2 ^ 10 \<le> 2 ^ 29" "0 + length items * 2 ^ 10 + 2 ^ 10 \<le> 2 ^ 29"
    using size by (simp_all add: DefaultMaxVectorElements_def)
  have "map Message_MsgID ms = map Message_MsgID ms'"
    using prepareChildren_Inr [OF children m] ms(2) by auto
  moreover have "sorted_wrt (<) (map Message_MsgID ms' @ [messageID])"
    using prepareChildren_ids [of E maxBytes items "[]" "[]" snapshot s ms', OF _ E n(1)] children
      nextMessageID_increases [OF E(1) _ n(2) mid]
    by (fastforce simp: sorted_wrt_append)
  ultimately show ?thesis by simp
qed

text \<open>The container of a batch is one the peer's decoder takes apart.\<close>

lemma batchBody_decodes:
  assumes b: "batchBody maxBytes items snapshot ms body" and n: "int (length items) \<le> MaxContainerMessages"
    and size: "int (length body) \<le> maxBytes" "0 < maxBytes" "maxBytes < 2 ^ 31"
  shows "decodeControl MsgContainer_DeserializeTL body = Inr \<lparr>MsgContainer_Messages = ms\<rparr>"
proof -
  let ?c = "\<lparr>MsgContainer_Messages = ms\<rparr>"
  have l: "length ms = length items" and c: "list_all2 (childOf maxBytes) items ms"
    and seq: "map Message_SeqNo ms = batchSeqNos snapshot items" and body: "body = MsgContainer_enc ?c"
    using b by (auto simp: batchBody_def dest: list_all2_lengthD)
  have "Message_valid m" if m: "m \<in> set ms" for m
  proof -
    obtain i where "i < length ms" "m = ms ! i" using m by (auto simp: in_set_conv_nth)
    then have ch: "childOf maxBytes (items ! i) m" using c by (simp add: list_all2_conv_all_nth)
    have "Message_SeqNo m \<in> set (batchSeqNos snapshot items)" using m unfolding seq [symmetric] by simp
    then have s: "in_i32 (Message_SeqNo m)" by (rule batchSeqNos_range)
    have "int (length (Message_BodyRaw m)) < 2 ^ 31" "in_i32 (int (length (Message_BodyRaw m)))"
      using ch size(3) by (simp_all add: childOf_def in_i32_def)
    then show ?thesis using ch s by (simp add: childOf_def Message_valid_def)
  qed
  then have v: "MsgContainer_valid ?c" using n l by (simp add: MsgContainer_valid_def)
  have "serializeRuntimeTLBounded (MsgContainer_SerializeTL ?c) maxBytes = Inr body"
    using size by (simp add: msgContainer_tl.serialize_bounded [OF v] body normalizeMaxEncodedBytes_def)
  with v msgContainer_tl.codec show ?thesis unfolding control_codec_def by blast
qed

section \<open>Pushes combined into a batch\<close>

lemma nextMessageID_total: "\<exists>i s'. nextMessageID E push s = (Inr i, s')"
  by (simp add: nextMessageID_server split: prod.splits)

lemma prepareChildren_pushes:
  assumes "\<forall>i \<in> set items. \<exists>body. i = Some (Push body) \<and> int (length body) \<le> maxBytes"
  shows "\<exists>r s'. prepareChildren E maxBytes items messages retained snapshot s = (Inr r, s')"
  using assms
proof (induction items arbitrary: messages retained snapshot s)
  case (Cons i items)
  obtain body where i: "i = Some (Push body)" "int (length body) \<le> maxBytes" using Cons.prems by auto
  have rest: "\<forall>i \<in> set items. \<exists>body. i = Some (Push body) \<and> int (length body) \<le> maxBytes" using Cons.prems by simp
  obtain mid s1 where mid: "nextMessageID E True s = (Inr mid, s1)" using nextMessageID_total by blast
  obtain r s' where more: "prepareChildren E maxBytes items
          (messages @ [\<lparr>Message_MsgID = mid, Message_SeqNo = fst (nextSequenceNo snapshot True),
             Message_Bytes = wrap32 (int (length body)), Message_Body = None, Message_BodyRaw = body\<rparr>])
          (retained @ [\<lparr>rfMessageID = mid, rfRequestMessageID = responseRequestID i,
             rfSequenceNo = fst (nextSequenceNo snapshot True)\<rparr>])
          (snd (nextSequenceNo snapshot True)) s1 = (Inr r, s')"
    using Cons.IH [OF rest] by blast
  show ?case
    by (intro exI [of _ r] exI [of _ s'], unfold prepareChildren_Cons)
      (use i mid more in \<open>auto intro!: exI [of _ body]\<close>)
qed simp

lemma length_children:
  assumes "list_all2 (childOf maxBytes) (map wrIntent batch) ms" "\<forall>r \<in> set batch. pushRequest r \<noteq> None"
  shows "int (length (concat (map Message_enc ms))) = sum_list (map childBytes batch)"
  using assms
proof (induction batch arbitrary: ms)
  case (Cons r batch)
  obtain m ms' where ms: "ms = m # ms'" "childOf maxBytes (wrIntent r) m"
    "list_all2 (childOf maxBytes) (map wrIntent batch) ms'"
    using Cons.prems(1) by (auto simp: list_all2_Cons1)
  obtain body where "pushRequest r = Some body" using Cons.prems(2) by auto
  then have "wrIntent r = Some (Push body)" "childBytes r = 16 + int (length body)"
    by (auto simp: pushRequest_def childBytes_def messageContainerChildBytes_def split: option.splits Intent.splits if_splits)
  then show ?case using Cons.IH [OF ms(3)] Cons.prems(2) ms by (simp add: childOf_def Message_enc_def)
qed simp

lemma childBytes_nonneg: "0 \<le> childBytes r" "0 \<le> sum_list (map childBytes batch)"
proof -
  show "0 \<le> childBytes r" for r by (simp add: childBytes_def messageContainerChildBytes_def)
  then show "0 \<le> sum_list (map childBytes batch)" by (intro sum_list_nonneg) auto
qed

lemma sum_list_childBytes: "r \<in> set batch \<Longrightarrow> childBytes r \<le> sum_list (map childBytes batch)"
proof (induction batch)
  case (Cons a batch)
  then show ?case using childBytes_nonneg(1) [of a] childBytes_nonneg(2) [of batch] by auto
qed simp

lemma push_batch_prepared:
  assumes push: "\<forall>r \<in> set batch. pushRequest r \<noteq> None" and n: "length batch \<le> maxOpportunisticPushBatch"
    and fits: "messageContainerHeaderBytes + sum_list (map childBytes batch) \<le> maxBytes"
  shows "\<exists>b s'. prepareBody E maxBytes (Batch (map wrIntent batch)) snapshot s = (Inr b, s')"
proof -
  have i: "\<exists>body. wrIntent r = Some (Push body) \<and> int (length body) \<le> maxBytes" if r: "r \<in> set batch" for r
  proof -
    obtain body where body: "pushRequest r = Some body" using push r by auto
    then have "wrIntent r = Some (Push body)" by (auto simp: pushRequest_def split: option.splits Intent.splits if_splits)
    moreover have "childBytes r \<le> maxBytes" using sum_list_childBytes [OF r] fits by (simp add: messageContainerHeaderBytes_def)
    ultimately show ?thesis using body by (simp add: childBytes_def messageContainerChildBytes_def)
  qed
  obtain ms retained snapshot' s1 where ch: "prepareChildren E maxBytes (map wrIntent batch) [] [] snapshot s =
      (Inr (ms, retained, snapshot'), s1)"
    using prepareChildren_pushes [of "map wrIntent batch" maxBytes E "[]" "[]" snapshot s] i by auto
  have pos: "0 < maxBytes" using fits childBytes_nonneg(2) [of batch] by (simp add: messageContainerHeaderBytes_def)
  have c: "list_all2 (childOf maxBytes) (map wrIntent batch) ms" using prepareChildren_Inr [OF ch pos] by auto
  then have "\<forall>m \<in> set ms. Message_Body m = None" by (auto simp: list_all2_conv_all_nth childOf_def in_set_conv_nth)
  from serializeRuntimeTLBounded_emits [OF emits_MsgContainer [OF this], of maxBytes]
  have ser: "serializeRuntimeTLBounded (MsgContainer_SerializeTL \<lparr>MsgContainer_Messages = ms\<rparr>) maxBytes =
      Inr (MsgContainer_enc \<lparr>MsgContainer_Messages = ms\<rparr>)"
    using fits length_children [OF c push] pos
    by (simp add: MsgContainer_enc_def normalizeMaxEncodedBytes_def messageContainerHeaderBytes_def)
  obtain mid s2 where mid: "nextMessageID E False s1 = (Inr mid, s2)" using nextMessageID_total by blast
  show ?thesis
    using n ch ser mid
    by (auto simp: prepareBody_def DefaultMaxVectorElements_def maxOpportunisticPushBatch_def andThen_Inr_iff Let_def nextSequenceNo_def
        intro!: exI [of _ ms])
qed

lemma frame_content:
  assumes body: "prepareBody E maxBytes intent snapshot (interfere E s) =
       (Inr (body, messageID, sequenceNo, retained, snapshot'), s2)" and m: "0 < maxBytes" "maxBytes < 2 ^ 31"
  shows "case intent of
       Batch items \<Rightarrow> \<exists>ms.
         (int (length items) \<le> MaxContainerMessages \<longrightarrow>
            decodeControl MsgContainer_DeserializeTL (idData (inner_of body messageID sequenceNo snapshot')) =
              Inr \<lparr>MsgContainer_Messages = ms\<rparr>) \<and>
         map Message_BodyRaw ms = map intentBody items \<and>
         (0 \<le> ServerSeqNo snapshot \<and> ServerSeqNo snapshot + int (length items) < 2 ^ 30 \<longrightarrow>
            (\<forall>i < length items. Message_SeqNo (ms ! i) =
               2 * (ServerSeqNo snapshot + int (length (filter contentRelated (take i items)))) +
               (if contentRelated (items ! i) then 1 else 0))) \<and>
         (identifiers_ok E \<and> gen_below 0 (messageIDs s) \<longrightarrow>
            sorted_wrt (<) (map Message_MsgID ms @ [idMsgID (inner_of body messageID sequenceNo snapshot')]))
     | _ \<Rightarrow> idData (inner_of body messageID sequenceNo snapshot') = intentBody (Some intent) \<and>
         idSeqNo (inner_of body messageID sequenceNo snapshot') = fst (nextSequenceNo snapshot (contentRelated (Some intent))) \<and>
         idMsgID (inner_of body messageID sequenceNo snapshot') mod 4 = (if pushed (Some intent) then 3 else 1)"
proof (cases "is_Batch intent")
  case False
  note p = prepareBody_single [OF body m(1) False]
  show ?thesis using False p(1,5,7) by (cases intent) (simp_all only: Intent.case inner_of_def InnerData.select_convs, simp_all)
next
  case True
  then obtain items where i: "intent = Batch items" by (cases intent) simp_all
  note p = prepareBody_Batch [OF body [unfolded i] m(1)]
  obtain ms where b: "batchBody maxBytes items snapshot ms body" and ids: "map rfMessageID retained = map Message_MsgID ms"
    using p(1) by blast
  have l: "length ms = length items" and c: "list_all2 (childOf maxBytes) items ms"
    and seq: "map Message_SeqNo ms = batchSeqNos snapshot items" and enc: "body = MsgContainer_enc \<lparr>MsgContainer_Messages = ms\<rparr>"
    using b by (auto simp: batchBody_def dest: list_all2_lengthD)
  have raw: "map Message_BodyRaw ms = map intentBody items"
    using c l by (auto simp: list_all2_conv_all_nth childOf_def intro: nth_equalityI)
  have nth: "Message_SeqNo (ms ! i) = batchSeqNos snapshot items ! i" if "i < length items" for i
    using seq that l by (metis nth_map)
  show ?thesis
    unfolding i Intent.case inner_of_def InnerData.select_convs
    by (intro exI [of _ ms] conjI impI allI raw)
      (use batchBody_decodes [OF b _ p(6) m] batchSeqNos_nth nth batch_ids [OF body [unfolded i] _ _ m(1) enc ids] in auto)
qed

text \<open>Until a point in time the store finds the frame under an identifier.\<close>

definition resendable :: "bytes \<Rightarrow> gotime \<Rightarrow> Store \<Rightarrow> int \<Rightarrow> bool" where
  "resendable frame until r i \<longleftrightarrow>
     (\<forall>later < until. \<exists>x. fst (Lookup later i r) = Some x \<and> smPayload x = frame)"

lemma kept_resendable: "store_inv r \<Longrightarrow> kept frame sentAt r i \<Longrightarrow> resendable frame (sentAt + ttl r) r i"
  by (simp add: resendable_def kept_Lookup)

section \<open>When a message is sent\<close>

definition savedLease :: "nat \<Rightarrow> localLease \<Rightarrow> Snapshot \<Rightarrow> LocalCoordinator \<Rightarrow> LocalCoordinator" where
  "savedLease a l nxt c = setLease a (l\<lparr>lop := None, lsnapshot := Some nxt\<rparr>)
     (c\<lparr>cstore := cstore c\<lparr>snapshots := (snapshots (cstore c))(lkey l \<mapsto> nxt)\<rparr>\<rparr>)"

lemma active_cause: "ensureActiveLocked a l c = None \<Longrightarrow> lcause l = None"
  by (auto simp: ensureActiveLocked_def split: if_splits option.splits)

lemma leaseSave_succeeds:
  assumes "others E (ticks s) = id" "others E (ticks s + 1) = id" "ctxErr E (ticks s + 1) ctx = None"
    "ctxErr E (ticks s + 2) ctx = None" and l: "cheap (coordinator s) a = Some l"
    and active: "ensureActiveLocked a l (coordinator s) = None" and key: "Snapshot_Key nxt = lkey l"
  shows "leaseSave E ctx a nxt s =
    (Inr (), s\<lparr>ticks := ticks s + 2, coordinator := savedLease a l nxt (coordinator s)\<rparr>)"
  using assms active_cause [OF active]
  by (simp add: leaseSave_def Let_def interfere_def tick_def Save_begin_def Save_commit_def MemoryStore_Save_def setLease_def
      savedLease_def)

lemma retain_succeeds:
  assumes inv: "store_inv (reliability s)" and t: "\<not> IsZero sentAt" "clock E (ticks s) < sentAt + ttl (reliability s)"
  shows "\<exists>s'. retain E frame sentAt m s = (Inr (), s') \<and> ticks s' = ticks s + 1 \<and> coordinator s' = coordinator s \<and>
    frames s' = frames s \<and> messageIDs s' = messageIDs s \<and> store_inv (reliability s') \<and> ttl (reliability s') = ttl (reliability s)"
proof -
  define x where "x = \<lparr>smMessageID = rfMessageID m, smRequestMessageID = rfRequestMessageID m,
    smSequenceNumber = rfSequenceNo m, smPayload = frame, smSentAt = sentAt, smAcknowledged = False\<rparr>"
  obtain v r' where put: "Put (clock E (ticks s)) x (reliability s) = (v, r')" by fastforce
  have e: "fst (snd (put_entry (clock E (ticks s)) x (reliability s))) = sentAt + ttl (reliability s)"
    using t(1) by (simp add: put_entry_def stamped_def x_def)
  note c = Put_correct [OF inv put refl refl, unfolded e]
  then have "\<exists>y. v = Inr y" using t(2) by (auto split: if_splits)
  then obtain y where "v = Inr y" by blast
  with put c show ?thesis
    by (auto simp: retain_def onStore_def andThen_def x_def [symmetric] fromResult_def tick_def)
qed

text \<open>What goes on while the request is processed, besides the saving of the counters: the sink answers, and the
  store reads a clock that is less than a retention time past the time stamp of the message.\<close>

definition served_soon :: "env \<Rightarrow> nat \<Rightarrow> duration \<Rightarrow> bool" where
  "served_soon E n retention \<longleftrightarrow> (\<forall>t. n < t \<and> t < n + 9 \<longrightarrow> sinkErr E t = None) \<and>
     (\<forall>t t'. n < t \<and> t < n + 9 \<and> n < t' \<and> t' < n + 9 \<longrightarrow> clock E t' < clock E t + retention)"

lemma delivery_saved:
  fixes s :: world and w :: Writer and E :: env
  defines "c \<equiv> coordinator (interfere E s)" and "a \<equiv> wLease w"
  assumes P: "primitives_ok P" and E: "\<forall>t. random_ok (random E t) \<and> \<not> IsZero (clock E t)"
    and l: "cheap c a = Some l" and active: "ensureActiveLocked a l c = None"
    and sn: "lsnapshot l = Some sn" "snapshot_ok sn"
    and enc: "encodeIntentBodyBounded (Some intent) (wMaxEncodedBytes w) = Inr (body, cr, push)"
    and w: "0 < wMaxEncodedBytes w" "wMaxEncodedBytes w < 2 ^ 31"
    and inv: "store_inv (reliability s)" and soon: "served_soon E (ticks s) (ttl (reliability s))"
    and saves: "\<And>z. ticks z = ticks s + 4 \<Longrightarrow> coordinator z = c \<Longrightarrow>
      \<exists>saved. leaseSave E ctx a ((numbered (contentCount intent) sn)\<lparr>LastActivity := clock E (ticks s + 3)\<rparr>) z =
        (Inr (), z\<lparr>ticks := ticks s + 6, coordinator := saved\<rparr>) \<and> Q saved"
  shows "\<exists>s'. process P E w ctx intent s = (Inr False, s') \<and> ticks s' = ticks s + 9 \<and> Q (coordinator s') \<and>
    store_inv (reliability s') \<and> ttl (reliability s') = ttl (reliability s) \<and> (\<exists>frame. frames s' = frames s @ [frame])"
proof -
  have kind: "\<not> is_Close intent" "\<not> is_Resend intent" "\<not> is_Batch intent" using enc by (cases intent; simp)+
  let ?s1 = "interfere E s"
  obtain mid s2 where mid: "nextMessageID E push ?s1 = (Inr mid, s2)" using nextMessageID_total by blast
  have s2: "ticks s2 = ticks s + 2" "coordinator s2 = c" "reliability s2 = reliability s" "frames s2 = frames s"
    using quietlyD [OF quietly_nextMessageID mid] mid
    by (auto simp: quiet_def c_def nextMessageID_server interfere_def tick_def split: prod.splits)
  obtain seq sn' where seq: "nextSequenceNo sn cr = (seq, sn')" by fastforce
  have body: "prepareBody E (wMaxEncodedBytes w) intent sn ?s1 = (Inr (body, mid, seq, [], sn'), s2)"
    using enc mid seq kind(3) by (cases intent) (simp_all add: prepareBody_def andThen_def fromResult_def Let_def)
  note facts = prepareBody_facts [OF body w(1)]
  have "inner_ok (inner_of body mid seq sn')"
    using sn(2) facts w(2) by (simp add: inner_ok_def inner_of_def snapshot_ok_def)
  from encrypt_decrypt [OF P this, of "random E (ticks s2)" "wAuthKey w" "AuthKeyID sn'" False] E
  obtain e where e: "InnerData_Encrypt P (random E (ticks s2)) (inner_of body mid seq sn') (wAuthKey w) (AuthKeyID sn') = Inr e"
    by (auto simp: InnerData_Encrypt_def)
  define nxt where "nxt = sn'\<lparr>LastActivity := clock E (Suc (ticks s2))\<rparr>"
  define prepared where "prepared = \<lparr>pfMessageID = mid, pfRequestMessageID = responseRequestID (Some intent),
    pfSequenceNo = seq, pfFrame = serializeEncryptedFrame e, pfRetained = []\<rparr>"
  have seal: "sealFrame P E w intent (body, mid, seq, [], sn') s2 = (Inr (prepared, nxt), tick (tick s2))"
    unfolding sealFrame_Inr by (rule exI [of _ e]) (simp add: e prepared_def nxt_def)
  have n: "sinkErr E (ticks s + 8) = None" "clock E (ticks s + 7) < clock E (ticks s + 6) + ttl (reliability s)"
    using soon by (simp_all add: served_soon_def)
  have nxt': "nxt = (numbered (contentCount intent) sn)\<lparr>LastActivity := clock E (ticks s + 3)\<rparr>"
    using facts(1) s2(1) by (simp add: nxt_def eval_nat_numeral)
  obtain saved where save0: "leaseSave E ctx a nxt (tick (tick s2)) = (Inr (), (tick (tick s2))\<lparr>ticks := ticks s + 6, coordinator := saved\<rparr>)"
      "Q saved"
    unfolding nxt' using saves [of "tick (tick s2)"] s2 by (auto simp: tick_def eval_nat_numeral)
  define s4 where "s4 = (tick (tick s2))\<lparr>ticks := ticks s + 6, coordinator := saved\<rparr>"
  note save = save0(1) [folded s4_def]
  have s4: "ticks s4 = ticks s + 6" "reliability s4 = reliability s" by (simp_all add: s4_def tick_def s2)
  have "store_inv (reliability (tick s4))" "clock E (ticks (tick s4)) < clock E (ticks s4) + ttl (reliability (tick s4))"
    using inv n(2) s4 by (simp_all add: tick_def eval_nat_numeral)
  from retain_succeeds [OF this(1) _ this(2), of "pfFrame prepared" "\<lparr>rfMessageID = mid,
      rfRequestMessageID = responseRequestID (Some intent), rfSequenceNo = seq\<rparr>"] E
  obtain s5 where put: "retain E (pfFrame prepared) (clock E (ticks s4)) \<lparr>rfMessageID = mid,
      rfRequestMessageID = responseRequestID (Some intent), rfSequenceNo = seq\<rparr> (tick s4) = (Inr (), s5)"
    and s5: "ticks s5 = ticks s + 8" "coordinator s5 = saved" "store_inv (reliability s5)"
      "ttl (reliability s5) = ttl (reliability s)" "frames s5 = frames s"
    by (auto simp: tick_def s4 s4_def s2)
  define s' where "s' = tick (s5\<lparr>frames := frames s5 @ [pfFrame prepared]\<rparr>)"
  have out: "deliver E w ctx (prepared, nxt) (tick (tick s2)) = (Inr False, s')"
    unfolding deliver_Inr
    by (intro exI [of _ s4] exI [of _ s5] conjI)
      (use save put n s5(1) in \<open>simp_all add: a_def [symmetric] retainedAll_def prepared_def WriteFrame_Inr s'_def andThen_def\<close>)
  have "leaseSnapshot E (wLease w) s = (Inr sn, ?s1)"
    unfolding leaseSnapshot_Inr using l active sn(1) by (auto simp: c_def a_def)
  with body seal out have "process P E w ctx intent s = (Inr False, s')"
    unfolding process_Inr [OF kind(1,2)] by blast
  then show ?thesis
    using s5 save0(2) by (intro exI [of _ s']) (simp add: s'_def tick_def)
qed

text \<open>When nobody else touches the lease, the saved snapshot is known.\<close>

lemma delivery:
  fixes s :: world and w :: Writer and E :: env
  defines "c \<equiv> coordinator (interfere E s)" and "a \<equiv> wLease w"
  assumes "primitives_ok P" "\<forall>t. random_ok (random E t) \<and> \<not> IsZero (clock E t)"
    and l: "cheap c a = Some l" and active: "ensureActiveLocked a l c = None"
    and sn: "lsnapshot l = Some sn" "snapshot_ok sn" and key: "Snapshot_Key sn = lkey l"
    and calm: "\<forall>t. ticks s < t \<and> t < ticks s + 9 \<longrightarrow> others E t = id \<and> ctxErr E t ctx = None"
    and "encodeIntentBodyBounded (Some intent) (wMaxEncodedBytes w) = Inr (body, cr, push)"
    and "0 < wMaxEncodedBytes w" "wMaxEncodedBytes w < 2 ^ 31"
    and "store_inv (reliability s)" "served_soon E (ticks s) (ttl (reliability s))"
  shows "\<exists>s'. process P E w ctx intent s = (Inr False, s') \<and> ticks s' = ticks s + 9 \<and>
    coordinator s' = savedLease a l ((numbered (contentCount intent) sn)\<lparr>LastActivity := clock E (ticks s + 3)\<rparr>) c \<and>
    store_inv (reliability s') \<and> ttl (reliability s') = ttl (reliability s) \<and> (\<exists>frame. frames s' = frames s @ [frame])"
  unfolding c_def a_def
proof (rule delivery_saved [OF assms(3,4) l [unfolded c_def a_def] active [unfolded c_def a_def] sn assms(11-15)])
  let ?nxt = "(numbered (contentCount intent) sn)\<lparr>LastActivity := clock E (ticks s + 3)\<rparr>"
  fix z :: world assume z: "ticks z = ticks s + 4" "coordinator z = coordinator (interfere E s)"
  have "others E (ticks z) = id" "others E (ticks z + 1) = id" "ctxErr E (ticks z + 1) ctx = None" "ctxErr E (ticks z + 2) ctx = None"
    using calm by (simp_all add: z)
  then show "\<exists>saved. leaseSave E ctx (wLease w) ?nxt z = (Inr (), z\<lparr>ticks := ticks s + 6, coordinator := saved\<rparr>) \<and>
      saved = savedLease (wLease w) l ?nxt (coordinator (interfere E s))"
    using leaseSave_succeeds [of E z ctx "wLease w" l ?nxt] l active key by (simp add: z c_def a_def)
qed

text \<open>Other goroutines may do whatever leaves the lease with its holder: save the same session, take or
  retire leases of other sessions.\<close>

definition leaves_lease :: "env \<Rightarrow> nat \<Rightarrow> nat \<Rightarrow> bool" where
  "leaves_lease E a t \<longleftrightarrow> (\<forall>c l. cheap c a = Some l \<and> ensureActiveLocked a l c = None \<longrightarrow>
     (\<exists>l'. cheap (others E t c) a = Some l' \<and> ensureActiveLocked a l' (others E t c) = None \<and> lkey l' = lkey l))"

lemma leaves_leaseE:
  assumes "leaves_lease E a t" "cheap c a = Some l" "ensureActiveLocked a l c = None"
  obtains l' where "cheap (others E t c) a = Some l'" "ensureActiveLocked a l' (others E t c) = None" "lkey l' = lkey l"
  using assms unfolding leaves_lease_def by blast

lemma leaseSave_among_others:
  assumes others: "leaves_lease E a (ticks z)" "leaves_lease E a (ticks z + 1)"
    and ctx: "ctxErr E (ticks z + 1) ctx = None" "ctxErr E (ticks z + 2) ctx = None"
    and l: "cheap (coordinator z) a = Some l" "ensureActiveLocked a l (coordinator z) = None" "Snapshot_Key nxt = lkey l"
  shows "\<exists>saved. leaseSave E ctx a nxt z = (Inr (), z\<lparr>ticks := ticks z + 2, coordinator := saved\<rparr>)"
proof -
  let ?c = "others E (ticks z) (coordinator z)"
  obtain l1 where l1: "cheap ?c a = Some l1" "ensureActiveLocked a l1 ?c = None" "lkey l1 = lkey l"
    using leaves_leaseE [OF others(1) l(1,2)] .
  let ?l1 = "l1\<lparr>lop := Some (SavePending nxt)\<rparr>" and ?c1 = "setLease a (l1\<lparr>lop := Some (SavePending nxt)\<rparr>) ?c"
  have c1: "cheap ?c1 a = Some ?l1" "ensureActiveLocked a ?l1 ?c1 = None"
    using l1(2) by (auto simp: setLease_def ensureActiveLocked_def split: if_splits option.splits)
  obtain l2 where l2: "cheap (others E (ticks z + 1) ?c1) a = Some l2"
    "ensureActiveLocked a l2 (others E (ticks z + 1) ?c1) = None" "lkey l2 = lkey ?l1"
    using leaves_leaseE [OF others(2) c1] .
  then have l2': "lkey l2 = lkey l" using l1(3) by simp
  have b: "Save_begin None a l1 nxt ?c = (None, ?c1)" using l1 l(3) by (simp add: Save_begin_def)
  show ?thesis
    using l1(1) l2(1) l2' active_cause [OF l2(2)] ctx l(3) b
    by (simp add: leaseSave_def Let_def interfere_def tick_def Save_commit_def MemoryStore_Save_def) (rule exI, rule refl)
qed

section \<open>Another goroutine saves the session\<close>

text \<open>\<open>lease.Save\<close> as the reader of the connection calls it, while no other operation holds the lease.\<close>

definition staleSave :: "nat \<Rightarrow> Snapshot \<Rightarrow> LocalCoordinator \<Rightarrow> LocalCoordinator" where
  "staleSave a stale c =
     (case cheap c a of
        Some l \<Rightarrow>
          if lop l \<noteq> None then c
          else (case Save_begin None a l stale c of
              (Some e, c) \<Rightarrow> c
            | (None, c) \<Rightarrow> (case cheap c a of Some l \<Rightarrow> snd (Save_commit None a l stale c) | None \<Rightarrow> c))
      | None \<Rightarrow> c)"

lemma staleSave_reachable: "reachable c (staleSave a stale c)"
proof (cases "cheap c a")
  case (Some l)
  show ?thesis
  proof (cases "lop l = None \<and> fst (Save_begin None a l stale c) = None")
    case True
    let ?l = "l\<lparr>lop := Some (SavePending stale)\<rparr>"
    have b: "Save_begin None a l stale c = (None, setLease a ?l c)" "lcause l = None"
      using True by (auto simp: Save_begin_def dest: active_cause split: if_splits option.splits)
    have "cstep c (snd (Save_begin None a l stale c))" using Some True by (intro cstep.save_begin) auto
    then have "reachable c (setLease a ?l c)" using b by (auto intro: reachable.intros)
    moreover have "cstep (setLease a ?l c) (snd (Save_commit None a ?l stale (setLease a ?l c)))"
      by (rule cstep.save_commit) (use b in \<open>auto simp: setLease_def\<close>)
    moreover have "staleSave a stale c = snd (Save_commit None a ?l stale (setLease a ?l c))"
      using Some True b by (simp add: staleSave_def) (simp add: setLease_def)
    ultimately show ?thesis by (auto intro: reachable.step)
  next
    case False
    then have "staleSave a stale c = c"
      using Some by (auto simp: staleSave_def Save_begin_def split: option.splits if_splits prod.splits)
    then show ?thesis by (simp add: reachable.start)
  qed
qed (simp add: staleSave_def reachable.start)

text \<open>If the lease still answers afterwards, the save took effect.\<close>

lemma staleSave_read:
  assumes l: "cheap c a = Some l" "lop l = None" "lkey l = Snapshot_Key stale"
    and l': "cheap (staleSave a stale c) a = Some l'" "ensureActiveLocked a l' (staleSave a stale c) = None"
  shows "lsnapshot l' = Some stale"
proof (cases "ensureActiveLocked a l c")
  case None
  then show ?thesis
    using l l'(1) by (auto simp: staleSave_def Save_begin_def Save_commit_def MemoryStore_Save_def setLease_def)
next
  case (Some e)
  then have "staleSave a stale c = c" using l by (simp add: staleSave_def Save_begin_def)
  then show ?thesis using l l' Some by simp
qed

lemma sent_single:
  assumes P: "primitives_ok P" and E: "environment_ok E" and inv: "store_inv (reliability s)"
    and w: "0 < wMaxEncodedBytes w" "wMaxEncodedBytes w < 2 ^ 31"
    and run: "process P E w ctx intent s = (Inr stop, s')" and single: "isMessageIntent intent"
  obtains frame snapshot inner l where "frames s' = frames s @ [frame]"
    "leaseSnapshot E (wLease w) s = (Inr snapshot, interfere E s)"
    "snapshot_ok snapshot \<longrightarrow> opens P (wAuthKey w) frame = Inr inner" "idData inner = intentBody (Some intent)"
    "idSeqNo inner = fst (nextSequenceNo snapshot (contentRelated (Some intent)))" "store_inv (reliability s')"
    "cheap (coordinator s') (wLease w) = Some l" "lop l = None" "lkey l = Snapshot_Key snapshot"
proof -
  have message: "\<not> is_Close intent" "\<not> is_Resend intent" "\<not> is_Batch intent" using single by (cases intent; simp)+
  have clock: "\<forall>t. \<not> IsZero (clock E t)" and pad: "\<And>t. padding_ok (random E t)" using E by (simp_all add: environment_ok_def)
  obtain snapshot body messageID sequenceNo retained snapshot' s2 rnd encrypted t sentAt where
    sn: "leaseSnapshot E (wLease w) s = (Inr snapshot, interfere E s)"
    and body: "prepareBody E (wMaxEncodedBytes w) intent snapshot (interfere E s) =
       (Inr (body, messageID, sequenceNo, retained, snapshot'), s2)"
    and enc: "InnerData_Encrypt P (random E rnd) (inner_of body messageID sequenceNo snapshot') (wAuthKey w) (AuthKeyID snapshot') = Inr encrypted"
    and wire: "frames s' = frames s @ [serializeEncryptedFrame encrypted]" and inv': "store_inv (reliability s')"
    and lease: "\<exists>l. cheap (coordinator s') (wLease w) = Some l \<and> lop l = None \<and>
      lkey l = Snapshot_Key (snapshot'\<lparr>LastActivity := clock E t\<rparr>)"
    using sent [OF run message(1,2) inv clock] by metis
  note facts = prepareBody_facts [OF body w(1)] and p = prepareBody_single [OF body w(1) message(3)]
  let ?m = "inner_of body messageID sequenceNo snapshot'"
  have opens: "opens P (wAuthKey w) (serializeEncryptedFrame encrypted) = Inr ?m" if ok: "snapshot_ok snapshot"
  proof -
    have "inner_ok ?m" using ok facts w(2) by (simp add: inner_ok_def inner_of_def snapshot_ok_def)
    moreover have "in_u64 (AuthKeyID snapshot')" using ok facts(1) by (simp add: snapshot_ok_def)
    ultimately show ?thesis using encrypted_opens [OF P _ pad _ enc] by simp
  qed
  obtain l where l: "cheap (coordinator s') (wLease w) = Some l" "lop l = None" "lkey l = Snapshot_Key snapshot"
    using lease unfolding facts(1) numbered_frame by blast
  show ?thesis
    by (rule that [OF wire sn _ _ _ inv' l, of ?m]) (use opens p(1,5) in \<open>simp_all add: inner_of_def\<close>)
qed

section \<open>The loop\<close>

lemma leaseRetire_cause:
  "cheap (coordinator (leaseRetire w cause s)) (wLease w) \<noteq> None \<Longrightarrow> leaseCause w (leaseRetire w cause s) \<noteq> None"
  by (auto simp: leaseRetire_def leaseCause_def Retire_def setLease_def cancel_def split: option.splits)

declare run.simps [simp del]

text \<open>The outcome \<open>r\<close> of the loop that answered \<open>replies\<close> before it came to \<open>arrivals\<close>.\<close>

definition served_in_order :: "Writer \<Rightarrow> writerRequest list \<Rightarrow> (writerRequest \<times> writerResponse) list \<Rightarrow> writerRun \<Rightarrow> bool" where
  "served_in_order w arrivals replies r \<longleftrightarrow>
     (\<exists>served. map fst (rnReplies r) = map fst replies @ served \<and> arrivals = served @ rnUnserved r) \<and>
     (rnStatus r = WriterWaiting \<longrightarrow> rnUnserved r = []) \<and>
     (rnStatus r \<noteq> WriterWaiting \<longrightarrow> cheap (coordinator (rnWorld r)) (wLease w) \<noteq> None \<longrightarrow> leaseCause w (rnWorld r) \<noteq> None)"

lemma served_more:
  "served_in_order w left (replies @ map (\<lambda>current. (current, response)) batch) r \<Longrightarrow> served_in_order w (batch @ left) replies r"
  unfolding served_in_order_def by (auto simp: comp_def)

lemma run_spec: "served_in_order w (heldFirst pending queue) replies (run P E w pending queue replies s)"
proof (induction "length (heldFirst pending queue)" arbitrary: pending queue replies s rule: less_induct)
  case (less pending queue replies s0)
  define s where "s = interfere E s0"
  let ?stopped = "leaseCause w s \<noteq> None \<and> (pending \<noteq> None \<or> queue = [] \<or> takesDone E (ticks s0))"
  note unfolded = run.simps [of P E w pending queue replies s0, unfolded Let_def, folded s_def]
  show ?case
  proof (cases "?stopped \<or> heldFirst pending queue = []")
    case True
    then show ?thesis by (cases ?stopped) (auto simp: unfolded served_in_order_def)
  next
    case False
    then obtain request later where arrivals: "heldFirst pending queue = request # later" and go: "\<not> ?stopped"
      by (cases "heldFirst pending queue") auto
    obtain batch nxt rest where collect: "collectPushRequests w request (take (waiting E (ticks s)) later) = (batch, nxt, rest)"
      by (metis surj_pair)
    obtain response stop fatal s1 where proc: "processRequests P E w batch s = ((response, stop, fatal), s1)"
      by (metis surj_pair)
    obtain taken where taken: "batch = request # taken" "take (waiting E (ticks s)) later = taken @ heldFirst nxt rest"
      using collectPushRequests_spec [OF collect] by blast
    have split: "heldFirst pending queue = batch @ heldFirst nxt (rest @ drop (waiting E (ticks s)) later)"
      using append_take_drop_id [of "waiting E (ticks s)" later] taken arrivals by (cases nxt) auto
    note eq = unfolded [unfolded arrivals if_not_P [OF go] list.case collect prod.case proc]
    show ?thesis
      unfolding split
    proof (rule served_more, cases "fatal = None \<and> \<not> stop")
      case False
      then show "served_in_order w (heldFirst nxt (rest @ drop (waiting E (ticks s)) later))
          (replies @ map (\<lambda>current. (current, response)) batch) (run P E w pending queue replies s0)"
        using leaseRetire_cause by (cases fatal) (auto simp: eq served_in_order_def)
    next
      case True
      then show "served_in_order w (heldFirst nxt (rest @ drop (waiting E (ticks s)) later))
          (replies @ map (\<lambda>current. (current, response)) batch) (run P E w pending queue replies s0)"
        using less [of "rest @ drop (waiting E (ticks s)) later" nxt] split taken(1) by (simp add: eq)
    qed
  qed
qed

section \<open>An example\<close>

definition exampleEnv :: "(nat \<Rightarrow> LocalCoordinator \<Rightarrow> LocalCoordinator) \<Rightarrow> env" where
  "exampleEnv acts = \<lparr>clock = (\<lambda>_. time_Unix 1700000000), random = (\<lambda>_ n. Inr (replicate n 9)), ctxErr = (\<lambda>_ _. None),
     sinkErr = (\<lambda>_. None), mapOrder = (\<lambda>_. []), others = acts, othersIDs = (\<lambda>_. []), waiting = (\<lambda>_. 0),
     takesDone = (\<lambda>_. False)\<rparr>"

definition exampleHeld :: localLease where
  "exampleHeld = exampleLease\<lparr>lsnapshot := Some exampleSnapshot, lready := True, lphase := Acquired\<rparr>"

definition exampleWorld :: world where
  "exampleWorld = \<lparr>ticks = 0,
     coordinator = \<lparr>cstore = \<lparr>snapshots = [exampleKey \<mapsto> exampleSnapshot]\<rparr>, cleases = [exampleKey \<mapsto> 0],
       cgenerations = (\<lambda>_. 0)(exampleKey := 1), cheap = [0 \<mapsto> exampleHeld]\<rparr>,
     messageIDs = NewMsgIDGenerator,
     reliability = \<lparr>capacity = 4, ttl = 10, order = 0, entries = (\<lambda>_. None), expiry = []\<rparr>, frames = []\<rparr>"

definition exampleWriter :: Writer where
  "exampleWriter = \<lparr>wLease = 0, wAuthKey = exampleAuthKey, wMaxEncodedBytes = 1000\<rparr>"

definition exampleSubmit :: "Intent \<Rightarrow> writerRequest" where
  "exampleSubmit intent = \<lparr>wrContext = \<lparr>wcType = 0, wcComparable = True, wcID = 0\<rparr>, wrOperation = writerOperationSubmit,
     wrIntent = Some intent, wrMessageIDs = [], wrMessageID = 0\<rparr>"

lemma exampleEnv_ok: "environment_ok (exampleEnv acts)" "identifiers_ok (exampleEnv acts)"
  by (auto simp: environment_ok_def identifiers_ok_def exampleEnv_def padding_ok_def IsZero_def time_Unix_def unix_epoch_def second_def
      clock_ok_def simp del: Unix_of_time_Unix) (simp_all add: Unix_of_def unix_epoch_def second_def)

lemma exampleWorld_inv: "store_inv (reliability exampleWorld)"
  by (simp add: exampleWorld_def store_inv_def store_ok_def heap_order_def)

lemma exampleSnapshot_ok: "snapshot_ok exampleSnapshot"
  by (simp add: snapshot_ok_def exampleSnapshot_def range_defs)

text \<open>A push goes out from the example's state, whatever the other goroutines do once it has.\<close>

lemma example_push:
  assumes "\<forall>t < 9. acts t = id"
  shows "\<exists>s'. process examplePrimitives (exampleEnv acts) exampleWriter ctx (Push [1, 2, 3, 4]) exampleWorld = (Inr False, s') \<and>
    ticks s' = 9 \<and> coordinator s' = savedLease 0 exampleHeld ((numbered 1 exampleSnapshot)\<lparr>LastActivity := time_Unix 1700000000\<rparr>)
      (coordinator exampleWorld) \<and> store_inv (reliability s') \<and> ttl (reliability s') = 10"
proof -
  let ?E = "exampleEnv acts"
  have c: "coordinator (interfere ?E exampleWorld) = coordinator exampleWorld"
    using assms by (simp add: interfere_def tick_def exampleEnv_def exampleWorld_def)
  have "\<exists>s'. process examplePrimitives ?E exampleWriter ctx (Push [1, 2, 3, 4]) exampleWorld = (Inr False, s') \<and>
    ticks s' = ticks exampleWorld + 9 \<and>
    coordinator s' = savedLease (wLease exampleWriter) exampleHeld
      ((numbered (contentCount (Push [1, 2, 3, 4])) exampleSnapshot)\<lparr>LastActivity := clock ?E (ticks exampleWorld + 3)\<rparr>)
      (coordinator (interfere ?E exampleWorld)) \<and>
    store_inv (reliability s') \<and> ttl (reliability s') = ttl (reliability exampleWorld) \<and>
    (\<exists>frame. frames s' = frames exampleWorld @ [frame])"
    by (rule delivery [where body = "[1, 2, 3, 4]" and cr = True and push = True])
      (use assms exampleEnv_ok(1) exampleSnapshot_ok exampleWorld_inv in \<open>auto simp: interfere_def tick_def examplePrimitives_ok environment_ok_def
        exampleWriter_def exampleWorld_def exampleHeld_def exampleLease_def ensureActiveLocked_def exampleKey_eq exampleEnv_def random_ok_def
        served_soon_def\<close>)
  then show ?thesis
    unfolding c by (simp add: exampleWriter_def exampleEnv_def) (auto simp: exampleWorld_def)
qed

section \<open>Properties\<close>



text \<open>C4. What the client finds.  A frame the writer sends opens under the session's authorization key to the salt and session of
  the lease's snapshot and to the submitted message, numbered from the session's counter, with an identifier that tells a push from a
  response.  A batch opens to a container of exactly its items in their order, each numbered with twice the
  content-related messages before it and the parity of its own kind, the identifiers strictly increasing up to the container's own.\<close>

theorem frames_readable:
  assumes P: "primitives_ok P" and E: "environment_ok E" and inv: "store_inv (reliability s)"
    and w: "0 < wMaxEncodedBytes w" "wMaxEncodedBytes w < 2 ^ 31"
    and run: "process P E w ctx intent s = (Inr stop, s')" and message: "\<not> is_Close intent" "\<not> is_Resend intent"
  shows "\<exists>frame snapshot inner. frames s' = frames s @ [frame] \<and>
    leaseSnapshot E (wLease w) s = (Inr snapshot, interfere E s) \<and>
    (snapshot_ok snapshot \<longrightarrow> opens P (wAuthKey w) frame = Inr inner \<and> le_int (take 8 frame) = AuthKeyID snapshot) \<and>
    idSalt inner = ServerSalt snapshot \<and> idSessionID inner = SessionID snapshot \<and>
    (case intent of
       Batch items \<Rightarrow> \<exists>ms.
         (int (length items) \<le> MaxContainerMessages \<longrightarrow>
            decodeControl MsgContainer_DeserializeTL (idData inner) = Inr \<lparr>MsgContainer_Messages = ms\<rparr>) \<and>
         map Message_BodyRaw ms = map intentBody items \<and>
         (0 \<le> ServerSeqNo snapshot \<and> ServerSeqNo snapshot + int (length items) < 2 ^ 30 \<longrightarrow>
            (\<forall>i < length items. Message_SeqNo (ms ! i) =
               2 * (ServerSeqNo snapshot + int (length (filter contentRelated (take i items)))) +
               (if contentRelated (items ! i) then 1 else 0))) \<and>
         (identifiers_ok E \<and> gen_below 0 (messageIDs s) \<longrightarrow> sorted_wrt (<) (map Message_MsgID ms @ [idMsgID inner]))
     | _ \<Rightarrow> idData inner = intentBody (Some intent) \<and>
         idSeqNo inner = fst (nextSequenceNo snapshot (contentRelated (Some intent))) \<and>
         idMsgID inner mod 4 = (if pushed (Some intent) then 3 else 1))"
proof -
  have clock: "\<forall>t. \<not> IsZero (clock E t)" and pad: "\<And>t. padding_ok (random E t)" using E by (simp_all add: environment_ok_def)
  obtain snapshot body messageID sequenceNo retained snapshot' s2 rnd encrypted t sentAt where
    sn: "leaseSnapshot E (wLease w) s = (Inr snapshot, interfere E s)"
    and body: "prepareBody E (wMaxEncodedBytes w) intent snapshot (interfere E s) =
       (Inr (body, messageID, sequenceNo, retained, snapshot'), s2)"
    and enc: "InnerData_Encrypt P (random E rnd) (inner_of body messageID sequenceNo snapshot') (wAuthKey w) (AuthKeyID snapshot') = Inr encrypted"
    and wire: "frames s' = frames s @ [serializeEncryptedFrame encrypted]"
    using sent [OF run message inv clock] by metis
  note facts = prepareBody_facts [OF body w(1)]
  let ?m = "inner_of body messageID sequenceNo snapshot'"
  have opens: "opens P (wAuthKey w) (serializeEncryptedFrame encrypted) = Inr ?m \<and>
      le_int (take 8 (serializeEncryptedFrame encrypted)) = AuthKeyID snapshot" if ok: "snapshot_ok snapshot"
  proof -
    have "inner_ok ?m" using ok facts w(2) by (simp add: inner_ok_def inner_of_def snapshot_ok_def)
    moreover have "in_u64 (AuthKeyID snapshot')" using ok facts(1) by (simp add: snapshot_ok_def)
    ultimately show ?thesis using encrypted_opens [OF P _ pad _ enc] facts(1) by simp
  qed
  have content: "case intent of
       Batch items \<Rightarrow> \<exists>ms.
         (int (length items) \<le> MaxContainerMessages \<longrightarrow>
            decodeControl MsgContainer_DeserializeTL (idData ?m) = Inr \<lparr>MsgContainer_Messages = ms\<rparr>) \<and>
         map Message_BodyRaw ms = map intentBody items \<and>
         (0 \<le> ServerSeqNo snapshot \<and> ServerSeqNo snapshot + int (length items) < 2 ^ 30 \<longrightarrow>
            (\<forall>i < length items. Message_SeqNo (ms ! i) =
               2 * (ServerSeqNo snapshot + int (length (filter contentRelated (take i items)))) +
               (if contentRelated (items ! i) then 1 else 0))) \<and>
         (identifiers_ok E \<and> gen_below 0 (messageIDs s) \<longrightarrow> sorted_wrt (<) (map Message_MsgID ms @ [idMsgID ?m]))
     | _ \<Rightarrow> idData ?m = intentBody (Some intent) \<and>
         idSeqNo ?m = fst (nextSequenceNo snapshot (contentRelated (Some intent))) \<and>
         idMsgID ?m mod 4 = (if pushed (Some intent) then 3 else 1)"
    by (rule frame_content [OF body w])
  show ?thesis
    by (rule exI [of _ "serializeEncryptedFrame encrypted"], rule exI [of _ snapshot], rule exI [of _ ?m])
      (use wire sn opens content facts(1) in \<open>simp add: inner_of_def\<close>)
qed

theorem frames_readable_witness:
  "\<exists>s' frame inner. process examplePrimitives (exampleEnv (\<lambda>_. id)) exampleWriter 0 (Push [1, 2, 3, 4]) exampleWorld = (Inr False, s') \<and>
     frames s' = [frame] \<and> opens examplePrimitives exampleAuthKey frame = Inr inner \<and> idData inner = [1, 2, 3, 4] \<and>
     idSeqNo inner = 1 \<and> idMsgID inner mod 4 = 3"
proof -
  let ?E = "exampleEnv (\<lambda>_. id)"
  obtain s' where run: "process examplePrimitives ?E exampleWriter 0 (Push [1, 2, 3, 4]) exampleWorld = (Inr False, s')"
    using example_push [of "\<lambda>_. id" 0] by auto
  have w: "0 < wMaxEncodedBytes exampleWriter" "wMaxEncodedBytes exampleWriter < 2 ^ 31" by (simp_all add: exampleWriter_def)
  have "leaseSnapshot ?E (wLease exampleWriter) exampleWorld = (Inr exampleSnapshot, interfere ?E exampleWorld)"
    by (simp add: leaseSnapshot_Inr interfere_def tick_def exampleEnv_def exampleWorld_def exampleWriter_def exampleHeld_def
        exampleLease_def ensureActiveLocked_def)
  moreover have "fst (nextSequenceNo exampleSnapshot True) = 1" by (simp add: nextSequenceNo_def exampleSnapshot_def wrap32_def)
  moreover have "frames exampleWorld = []" "wAuthKey exampleWriter = exampleAuthKey"
    by (simp_all add: exampleWorld_def exampleWriter_def)
  ultimately show ?thesis
    using frames_readable [OF examplePrimitives_ok exampleEnv_ok(1) exampleWorld_inv w run] run exampleSnapshot_ok by auto
qed

text \<open>C20. Pushes are combined only when that cannot fail.  The collected batch is the first request followed by the pushes that
  were waiting behind it, in order and under the same context, and at most 64; the request that
  could not be added and those left waiting are the rest of the queue in its order.  When the batch has more
  than one push, its container can be encoded within the writer's limit, whatever the session's state.\<close>

theorem push_batches_fit:
  assumes "collectPushRequests w first queue = (batch, nxt, rest)"
  shows "\<exists>taken. batch = first # taken \<and> queue = taken @ heldFirst nxt rest \<and> length batch \<le> maxOpportunisticPushBatch \<and>
    (\<forall>r \<in> set taken. pushRequest r \<noteq> None \<and> sameWriterContext (wrContext first) (wrContext r)) \<and>
    (taken \<noteq> [] \<longrightarrow> (\<exists>b s'. prepareBody E (wMaxEncodedBytes w) (Batch (map wrIntent batch)) snapshot s = (Inr b, s')))"
proof -
  obtain taken where t: "batch = first # taken" "queue = taken @ heldFirst nxt rest" "length batch \<le> maxOpportunisticPushBatch"
    "taken \<noteq> [] \<longrightarrow> messageContainerHeaderBytes + sum_list (map childBytes batch) \<le> wMaxEncodedBytes w"
    "\<forall>r \<in> set taken. pushRequest r \<noteq> None \<and> sameWriterContext (wrContext first) (wrContext r)"
    "taken \<noteq> [] \<longrightarrow> pushRequest first \<noteq> None"
    using collectPushRequests_spec [OF assms] by blast
  have "\<exists>b s'. prepareBody E (wMaxEncodedBytes w) (Batch (map wrIntent batch)) snapshot s = (Inr b, s')" if "taken \<noteq> []"
    by (rule push_batch_prepared) (use t that in auto)
  with t show ?thesis by blast
qed

theorem push_batches_fit_witness:
  "let r1 = exampleSubmit (Push [1, 2, 3, 4]); r2 = exampleSubmit (Push [5, 6, 7, 8]); r3 = exampleSubmit (Resend [4]) in
   collectPushRequests exampleWriter r1 [r2, r3, r1] = ([r1, r2], Some r3, [r1]) \<and>
   (\<exists>b s'. prepareBody (exampleEnv (\<lambda>_. id)) 1000 (Batch [wrIntent r1, wrIntent r2]) exampleSnapshot exampleWorld = (Inr b, s'))"
proof -
  let ?r1 = "exampleSubmit (Push [1, 2, 3, 4])" and ?r2 = "exampleSubmit (Push [5, 6, 7, 8])" and ?r3 = "exampleSubmit (Resend [4])"
  have run: "collectPushRequests exampleWriter ?r1 [?r2, ?r3, ?r1] = ([?r1, ?r2], Some ?r3, [?r1])"
    by (simp add: collectPushRequests_def exampleSubmit_def exampleWriter_def pushRequest_def writerContextComparable_def
        sameWriterContext_def messageContainerHeaderBytes_def messageContainerChildBytes_def maxOpportunisticPushBatch_def Let_def)
  have "wMaxEncodedBytes exampleWriter = 1000" by (simp add: exampleWriter_def)
  with push_batches_fit [OF run, of "exampleEnv (\<lambda>_. id)" exampleSnapshot exampleWorld] run show ?thesis
    unfolding Let_def by auto
qed

text \<open>C19. The writer serves its requests in the order in which they reach it and answers each exactly once: the requests
  it has answered, batched or not, followed by those it has not are the ones that arrived.  It leaves none unanswered while it keeps running,
  and when it has ended, by an error, by a close or because the lease was lost, the lease is retired.\<close>

theorem requests_served_in_order:
  assumes "r = run P E w None queue [] s"
  shows "queue = map fst (rnReplies r) @ rnUnserved r \<and>
    (rnStatus r = WriterWaiting \<longrightarrow> rnUnserved r = []) \<and>
    (rnStatus r \<noteq> WriterWaiting \<longrightarrow> cheap (coordinator (rnWorld r)) (wLease w) \<noteq> None \<longrightarrow>
       leaseCause w (rnWorld r) \<noteq> None)"
  using run_spec [where pending = None and replies = "[]"] by (simp add: assms served_in_order_def)

theorem requests_served_in_order_witness:
  "let request = exampleSubmit (Resend [4]);
       r = run examplePrimitives (exampleEnv (\<lambda>_. id)) exampleWriter None [request, request] [] exampleWorld in
   rnStatus r = WriterEnded (Some (RuntimeError (RetainedMessageNotFound 4))) \<and> rnUnserved r = [request] \<and>
   map fst (rnReplies r) = [request] \<and> leaseCause exampleWriter (rnWorld r) \<noteq> None"
proof -
  let ?q = "exampleSubmit (Resend [4])" and ?E = "exampleEnv (\<lambda>_. id)"
  let ?r = "run examplePrimitives ?E exampleWriter None [?q, ?q] [] exampleWorld"
  have r: "rnStatus ?r = WriterEnded (Some (RuntimeError (RetainedMessageNotFound 4))) \<and> rnUnserved ?r = [?q] \<and>
      cheap (coordinator (rnWorld ?r)) (wLease exampleWriter) \<noteq> None"
    by (simp add: run.simps [of _ _ _ None] Let_def exampleSubmit_def exampleWriter_def exampleWorld_def exampleEnv_def exampleHeld_def
        exampleLease_def interfere_def tick_def leaseCause_def collectPushRequests_def pushRequest_def processRequests_def
        processRequest_def process_def onStore_def LookupForResend_def expireLocked_def andThen_def raise_def leaseRetire_def
        Retire_def setLease_def failedWith_def)
  then show ?thesis
    using requests_served_in_order [of ?r, OF refl] unfolding Let_def by auto
qed

text \<open>C16. A message that fits is sent, whatever the other goroutines do to the coordinator in the meantime, as long as
  each of their actions leaves the lease active and with its holder.  If the lease is active when the snapshot is
  taken, the request's context is not cancelled while the counters are saved, the sink accepts the frame, and the clock
  readings taken while the request is processed lie within one retention time, then a submitted message whose body can be encoded is
  answered without error and has put exactly one frame on the wire.\<close>

theorem message_delivered:
  assumes P: "primitives_ok P" "\<forall>t. random_ok (random E t) \<and> \<not> IsZero (clock E t)"
    and l: "cheap (coordinator (interfere E s)) (wLease w) = Some l"
    and active: "ensureActiveLocked (wLease w) l (coordinator (interfere E s)) = None"
    and sn: "lsnapshot l = Some sn" "snapshot_ok sn" and key: "Snapshot_Key sn = lkey l"
    and others: "\<forall>t. ticks s < t \<longrightarrow> leaves_lease E (wLease w) t"
    and ctx: "\<forall>t. ticks s < t \<and> t < ticks s + 9 \<longrightarrow> ctxErr E t (wcID (wrContext request)) = None"
    and soon: "served_soon E (ticks s) (ttl (reliability s))"
    and request: "wrOperation request = writerOperationSubmit" "wrIntent request = Some intent"
    and enc: "encodeIntentBodyBounded (Some intent) (wMaxEncodedBytes w) = Inr (body, cr, push)"
    and w: "0 < wMaxEncodedBytes w" "wMaxEncodedBytes w < 2 ^ 31" and inv: "store_inv (reliability s)"
  shows "\<exists>s' frame. processRequest P E w request s = ((\<lparr>wpState = noState, wpErr = None\<rparr>, False, None), s') \<and>
    frames s' = frames s @ [frame]"
proof -
  let ?nxt = "(numbered (contentCount intent) sn)\<lparr>LastActivity := clock E (ticks s + 3)\<rparr>" and ?ctx = "wcID (wrContext request)"
  have near: "leaves_lease E (wLease w) (ticks s + 4)" "leaves_lease E (wLease w) (ticks s + 4 + 1)"
    "ctxErr E (ticks s + 4 + 1) ?ctx = None" "ctxErr E (ticks s + 4 + 2) ?ctx = None"
    using others ctx by simp_all
  have "\<exists>saved. leaseSave E ?ctx (wLease w) ?nxt z = (Inr (), z\<lparr>ticks := ticks s + 6, coordinator := saved\<rparr>) \<and> True"
    if "ticks z = ticks s + 4" "coordinator z = coordinator (interfere E s)" for z :: world
    using leaseSave_among_others [of E "wLease w" z ?ctx l ?nxt] near l active key that by (simp add: eval_nat_numeral)
  from delivery_saved [OF P l active sn enc w inv soon this] request show ?thesis by (auto simp: processRequest_def)
qed

text \<open>While the writer works, the reader of the connection saves the same session.\<close>

lemma staleSave_cases:
  "staleSave b stale c = c \<or> (\<exists>l. cheap c b = Some l \<and> staleSave b stale c = savedLease b l stale c)"
proof (cases "cheap c b")
  case (Some l)
  show ?thesis
  proof (cases "lop l = None \<and> Snapshot_Key stale = lkey l \<and> ensureActiveLocked b l c = None")
    case True
    then show ?thesis
      using Some by (simp add: staleSave_def Save_begin_def Save_commit_def MemoryStore_Save_def setLease_def savedLease_def)
  next
    case False
    then show ?thesis using Some by (auto simp: staleSave_def Save_begin_def split: option.splits)
  qed
qed (simp add: staleSave_def)

lemma staleSave_leaves:
  assumes "cheap c a = Some l" "ensureActiveLocked a l c = None"
  shows "\<exists>l'. cheap (staleSave b stale c) a = Some l' \<and> ensureActiveLocked a l' (staleSave b stale c) = None \<and> lkey l' = lkey l"
  using staleSave_cases [of b stale c]
proof
  assume "\<exists>lb. cheap c b = Some lb \<and> staleSave b stale c = savedLease b lb stale c"
  then obtain lb where lb: "cheap c b = Some lb" "staleSave b stale c = savedLease b lb stale c" by blast
  show ?thesis
    using assms lb by (cases "a = b") (simp_all add: savedLease_def setLease_def ensureActiveLocked_def cong: if_cong option.case_cong)
qed (use assms in simp)

theorem message_delivered_witness:
  "\<exists>s' frame. processRequest examplePrimitives (exampleEnv (\<lambda>_. staleSave 0 exampleSnapshot)) exampleWriter
     (exampleSubmit (Push [1, 2, 3, 4])) exampleWorld =
     ((\<lparr>wpState = noState, wpErr = None\<rparr>, False, None), s') \<and> frames s' = frames exampleWorld @ [frame]"
proof -
  let ?E = "exampleEnv (\<lambda>_. staleSave 0 exampleSnapshot)"
  have key: "Snapshot_Key exampleSnapshot = exampleKey" by (simp add: Snapshot_Key_def exampleSnapshot_def exampleKey_def)
  have c: "cheap (coordinator (interfere ?E exampleWorld)) 0 = Some exampleHeld"
    "ensureActiveLocked 0 exampleHeld (coordinator (interfere ?E exampleWorld)) = None"
    by (simp_all add: interfere_def tick_def exampleEnv_def staleSave_def setLease_def exampleWorld_def exampleHeld_def
        exampleLease_def Save_begin_def ensureActiveLocked_def key Save_commit_def MemoryStore_Save_def)
  have o: "\<forall>t. ticks exampleWorld < t \<longrightarrow> leaves_lease ?E (wLease exampleWriter) t"
    using staleSave_leaves by (auto simp: leaves_lease_def exampleEnv_def)
  show ?thesis
    by (rule message_delivered [OF _ _ _ _ _ _ _ o, where l = exampleHeld and sn = exampleSnapshot and intent = "Push [1, 2, 3, 4]"
          and body = "[1, 2, 3, 4]" and cr = True and push = True])
      (use c exampleEnv_ok(1) [of "\<lambda>_. staleSave 0 exampleSnapshot"] exampleSnapshot_ok exampleWorld_inv key in \<open>auto simp: examplePrimitives_ok
        environment_ok_def exampleWriter_def exampleWorld_def exampleHeld_def exampleLease_def exampleEnv_def random_ok_def exampleSubmit_def
        served_soon_def\<close>)
qed

text \<open>C17. A sequence number is used twice.  \<open>Snapshot\<close> and \<open>Save\<close> of a lease are two calls, and the reader of a connection uses
  the same lease as its writer.  When the reader has taken its snapshot before the writer sent a content-related message and saves
  it after, the writer's counter is lost: the next content-related message goes out under the same
  sequence number with other contents.\<close>

theorem sequence_number_reused:
  assumes P: "primitives_ok P" and E: "environment_ok E" and inv: "store_inv (reliability s)"
    and w: "0 < wMaxEncodedBytes w" "wMaxEncodedBytes w < 2 ^ 31"
    and first: "process P E w ctx intent1 s = (Inr stop1, s1)" "isMessageIntent intent1" "contentRelated (Some intent1)"
    and reader: "leaseSnapshot E (wLease w) s = (Inr snapshot, interfere E s)" "snapshot_ok snapshot"
    and stale: "stale = snapshot\<lparr>LastClientMsgID := lastID, SeqNo := clientSeqNo\<rparr>"
      "others E (ticks s1) (coordinator s1) = staleSave (wLease w) stale (coordinator s1)"
    and second: "process P E w ctx intent2 s1 = (Inr stop2, s2)" "isMessageIntent intent2" "contentRelated (Some intent2)"
  shows "\<exists>frame1 frame2 inner1 inner2. frames s2 = frames s @ [frame1, frame2] \<and>
    opens P (wAuthKey w) frame1 = Inr inner1 \<and> opens P (wAuthKey w) frame2 = Inr inner2 \<and>
    idData inner1 = intentBody (Some intent1) \<and> idData inner2 = intentBody (Some intent2) \<and> idSeqNo inner1 = idSeqNo inner2"
proof -
  obtain frame1 snapshot1 inner1 l where f1: "frames s1 = frames s @ [frame1]"
    "leaseSnapshot E (wLease w) s = (Inr snapshot1, interfere E s)"
    "snapshot_ok snapshot1 \<longrightarrow> opens P (wAuthKey w) frame1 = Inr inner1" "idData inner1 = intentBody (Some intent1)"
    "idSeqNo inner1 = fst (nextSequenceNo snapshot1 (contentRelated (Some intent1)))" "store_inv (reliability s1)"
    "cheap (coordinator s1) (wLease w) = Some l" "lop l = None" "lkey l = Snapshot_Key snapshot1"
    by (rule sent_single [OF P E inv w first(1,2)], rule that)
  obtain frame2 snapshot2 inner2 l2 where f2: "frames s2 = frames s1 @ [frame2]"
    "leaseSnapshot E (wLease w) s1 = (Inr snapshot2, interfere E s1)"
    "snapshot_ok snapshot2 \<longrightarrow> opens P (wAuthKey w) frame2 = Inr inner2" "idData inner2 = intentBody (Some intent2)"
    "idSeqNo inner2 = fst (nextSequenceNo snapshot2 (contentRelated (Some intent2)))" "store_inv (reliability s2)"
    "cheap (coordinator s2) (wLease w) = Some l2" "lop l2 = None" "lkey l2 = Snapshot_Key snapshot2"
    by (rule sent_single [OF P E f1(6) w second(1,2)], rule that)
  have same: "snapshot1 = snapshot" using f1(2) reader(1) by simp
  obtain l' where l': "cheap (staleSave (wLease w) stale (coordinator s1)) (wLease w) = Some l'"
    "ensureActiveLocked (wLease w) l' (staleSave (wLease w) stale (coordinator s1)) = None" "lsnapshot l' = Some snapshot2"
    using f2(2) stale(2) by (auto simp: leaseSnapshot_Inr interfere_def tick_def)
  have "lkey l = Snapshot_Key stale" using f1(9) by (simp add: same stale(1) Snapshot_Key_def)
  from staleSave_read [OF f1(7,8) this l'(1,2)] l'(3) have "snapshot2 = stale" by simp
  then show ?thesis
    using f1 f2 reader(2) first(3) second(3) unfolding same
    by (intro exI [of _ frame1] exI [of _ frame2] exI [of _ inner1] exI [of _ inner2])
      (simp add: stale(1) nextSequenceNo_def snapshot_ok_def)
qed

theorem sequence_number_reused_witness:
  "let E = exampleEnv (\<lambda>t. if t = 9 then staleSave 0 (exampleSnapshot\<lparr>LastClientMsgID := 4, SeqNo := 1\<rparr>) else id);
       P = examplePrimitives; w = exampleWriter in
   \<exists>s1 s2 frame1 frame2 inner1 inner2. (\<forall>t c. reachable c (others E t c)) \<and>
     process P E w 0 (Push [1, 2, 3, 4]) exampleWorld = (Inr False, s1) \<and> process P E w 0 (Push [5, 6, 7, 8]) s1 = (Inr False, s2) \<and>
     frames s2 = [frame1, frame2] \<and> opens P exampleAuthKey frame1 = Inr inner1 \<and> opens P exampleAuthKey frame2 = Inr inner2 \<and>
     idData inner1 = [1, 2, 3, 4] \<and> idData inner2 = [5, 6, 7, 8] \<and> idSeqNo inner1 = idSeqNo inner2"
proof -
  let ?stale = "exampleSnapshot\<lparr>LastClientMsgID := 4, SeqNo := 1\<rparr>"
  let ?acts = "\<lambda>t. if t = 9 then staleSave 0 ?stale else (id :: LocalCoordinator \<Rightarrow> LocalCoordinator)"
  let ?E = "exampleEnv ?acts" and ?nxt = "(numbered 1 exampleSnapshot)\<lparr>LastActivity := time_Unix 1700000000\<rparr>"
  obtain s1 where one: "process examplePrimitives ?E exampleWriter 0 (Push [1, 2, 3, 4]) exampleWorld = (Inr False, s1)"
    and s1: "ticks s1 = 9" "coordinator s1 = savedLease 0 exampleHeld ?nxt (coordinator exampleWorld)"
      "store_inv (reliability s1)" "ttl (reliability s1) = 10"
    using example_push [of ?acts 0] by auto
  let ?l = "exampleHeld\<lparr>lsnapshot := Some ?stale\<rparr>"
  have key: "Snapshot_Key ?stale = exampleKey" by (simp add: Snapshot_Key_def exampleSnapshot_def exampleKey_def)
  have c: "cheap (coordinator (interfere ?E s1)) 0 = Some ?l" "ensureActiveLocked 0 ?l (coordinator (interfere ?E s1)) = None"
    by (simp_all add: interfere_def tick_def s1 exampleEnv_def staleSave_def savedLease_def setLease_def exampleWorld_def exampleHeld_def
        exampleLease_def Save_begin_def ensureActiveLocked_def key Save_commit_def MemoryStore_Save_def)
  have "\<exists>s2. process examplePrimitives ?E exampleWriter 0 (Push [5, 6, 7, 8]) s1 = (Inr False, s2) \<and>
    ticks s2 = ticks s1 + 9 \<and>
    coordinator s2 = savedLease (wLease exampleWriter) ?l
      ((numbered (contentCount (Push [5, 6, 7, 8])) ?stale)\<lparr>LastActivity := clock ?E (ticks s1 + 3)\<rparr>) (coordinator (interfere ?E s1)) \<and>
    store_inv (reliability s2) \<and> ttl (reliability s2) = ttl (reliability s1) \<and> (\<exists>frame. frames s2 = frames s1 @ [frame])"
    by (rule delivery [where body = "[5, 6, 7, 8]" and cr = True and push = True and sn = ?stale])
      (use c s1 exampleEnv_ok(1) [of ?acts] exampleSnapshot_ok key in \<open>auto simp: examplePrimitives_ok environment_ok_def
        exampleWriter_def exampleHeld_def exampleLease_def exampleEnv_def random_ok_def snapshot_ok_def served_soon_def\<close>)
  then obtain s2 where two: "process examplePrimitives ?E exampleWriter 0 (Push [5, 6, 7, 8]) s1 = (Inr False, s2)" by blast
  have read: "leaseSnapshot ?E (wLease exampleWriter) exampleWorld = (Inr exampleSnapshot, interfere ?E exampleWorld)"
    by (simp add: leaseSnapshot_Inr interfere_def tick_def exampleEnv_def exampleWorld_def exampleWriter_def exampleHeld_def
        exampleLease_def ensureActiveLocked_def)
  have act: "others ?E (ticks s1) (coordinator s1) = staleSave (wLease exampleWriter) ?stale (coordinator s1)"
    by (simp add: exampleEnv_def s1(1) exampleWriter_def)
  have w: "0 < wMaxEncodedBytes exampleWriter" "wMaxEncodedBytes exampleWriter < 2 ^ 31" "frames exampleWorld = []"
    "wAuthKey exampleWriter = exampleAuthKey"
    by (simp_all add: exampleWriter_def exampleWorld_def)
  have reach: "\<forall>t c. reachable c (others ?E t c)" by (simp add: exampleEnv_def staleSave_reachable reachable.start)
  have "\<exists>frame1 frame2 inner1 inner2. frames s2 = frames exampleWorld @ [frame1, frame2] \<and>
    opens examplePrimitives (wAuthKey exampleWriter) frame1 = Inr inner1 \<and>
    opens examplePrimitives (wAuthKey exampleWriter) frame2 = Inr inner2 \<and>
    idData inner1 = intentBody (Some (Push [1, 2, 3, 4])) \<and> idData inner2 = intentBody (Some (Push [5, 6, 7, 8])) \<and>
    idSeqNo inner1 = idSeqNo inner2"
    by (rule sequence_number_reused [OF examplePrimitives_ok exampleEnv_ok(1) exampleWorld_inv w(1,2) one _ _ read exampleSnapshot_ok
          refl act two]) simp_all
  then show ?thesis using one two reach w(3,4) unfolding Let_def by simp
qed

end
