(* ===== verification/Spec2Isabelle.thy ===== *)
theory Spec2Isabelle
  imports Cursor_Codec TL_Messages Protocol_Validator Session_Coordinator Reliability_Store
    Transport_Negotiation Message_Ids Inbound_Pipeline Active_Requests Push_Barrier
    Reliability_Registry Auth_Keys Handshake_Client TL_Types Outbound_Delivery
begin

text \<open>
  A verification development for tlrpc, a server framework for MTProto in Go.

  \<^bold>\<open>The program.\<close>  A client connects over a byte stream.  The transport negotiates a packet codec, obfuscated or not, and
  exchanges packets (\<^verbatim>\<open>transport/\<close>).  A packet is a frame: plaintext while the two sides agree on an authorization key
  (\<^verbatim>\<open>internal/handshake/\<close> over \<^verbatim>\<open>crypto/\<close>), encrypted under that key afterwards (\<^verbatim>\<open>mtproto/message.go\<close>).  The runtime
  (\<^verbatim>\<open>internal/runtime/\<close>) decrypts a frame, validates the message or container against the session
  (\<^verbatim>\<open>mtproto/protocol/\<close>), records it in a ledger, answers protocol controls itself and hands requests to the application, keeping
  a registry of those that run.  A session is durable state behind a lease (\<^verbatim>\<open>session/\<close>).  What a session says goes through one writer
  that numbers, encrypts, saves, retains (\<^verbatim>\<open>mtproto/reliability/\<close>) and sends it.  All data are in the TL format
  (\<^verbatim>\<open>mtproto/deserialize.go\<close>, \<^verbatim>\<open>serialize.go\<close>, \<^verbatim>\<open>cursor.go\<close>, \<^verbatim>\<open>mtproto/tl/\<close>).

  \<^bold>\<open>How Go is modelled.\<close>  A struct is a record, an enumeration or a closed interface a datatype, a machine integer an \<open>int\<close> with
  the wrap-around of its width written out (\<open>wrap32\<close>, \<open>wrap64\<close>, \<open>u32\<close>, \<open>u64\<close>), a slice of bytes a list of 8-bit words.  A function that can fail
  returns a sum; one that reads or writes a stream, or runs over shared state, is of type \<open>('s, 'a) io\<close> and composed with
  \<open>andThen\<close>.  A map whose iteration matters is an association list (\<open>Go_Map\<close>), other maps are partial functions.  The clock, random bytes, contexts and the
  order of an iteration are arguments.  A method that holds a mutex is one step; where goroutines interleave between
  critical sections there is an inductive step relation (\<open>cstep\<close>, \<open>barrierReachable\<close>), or, for the writer, an environment that acts between its calls.
  AES, SHA-1, SHA-256, RSA with PKCS #1 padding and the primality test are parameters, with their documented behaviour as hypotheses (\<open>primitives_ok\<close>,
  \<open>rsaKey_ok\<close>) that the witnesses instantiate.

  \<^bold>\<open>The theories.\<close>

  \<^item> \<open>TLRPC_Prelude\<close>, \<open>Go_Map\<close>, \<open>Container_Heap\<close>: the shared vocabulary; Go's maps; \<^verbatim>\<open>container/heap\<close> as the standard library has it,
    with a locale for its client.
  \<^item> \<open>Budget_Reader\<close>, \<open>Wire_Writer\<close>, \<open>Cursor_Codec\<close>: the two TL codecs with the decode and encode budgets.  Readers are described by what they parse
    (\<open>parses\<close>) and by what they may charge (\<open>within_budget\<close>), writers by what they emit (\<open>emits\<close>).  The cursor codec agrees with
    the stream codec on every input and reads back what it wrote.
  \<^item> \<open>TL_Codec\<close>, \<open>TL_Messages\<close>, \<open>TL_Types\<close>: the service messages.  The locale \<open>tl_object\<close> states the contract of a message type and every type interprets
    it: whatever the serializer accepts is read back, no input drives a decoder past its budget, and what a decoder accepts is well typed.
  \<^item> \<open>AES_IGE\<close>, \<open>Message_Envelope\<close>: the cipher mode and the envelope.  Encryption and decryption are inverse in both directions, a frame is delivered exactly when it
    is authentic.
  \<^item> \<open>Auth_Keys\<close>: key store, temporary keys and their binding.
  \<^item> \<open>Handshake_Crypto\<close>, \<open>Handshake\<close>, \<open>Handshake_Client\<close>: the server's handshake engine and the compatibility client.  The two, run against each other, end
    with the same key, stored by the server; no sequence of calls exceeds the engine's capacity or completes a session out of order; factorization terminates.
  \<^item> \<open>Packet_Codec\<close>, \<open>Transport_Negotiation\<close>: the four framings and the negotiation, composed end to end.
  \<^item> \<open>Protocol_Validator\<close>, \<open>Inbound_Pipeline\<close>: replay protection.  A message is accepted once, also across a restart from a snapshot, and is
    dispatched at most once.
  \<^item> \<open>Session_Store\<close>, \<open>Session_Coordinator\<close>: durable sessions behind the locale \<open>session_store\<close>, and exclusive leases: a stale owner never writes.
  \<^item> \<open>Reliability_Store\<close>, \<open>Reliability_Registry\<close>, \<open>Inbound_Ledger\<close>: bounded retention of what was sent, of sessions, and of what was received.
  \<^item> \<open>Runtime_Contracts\<close>, \<open>Active_Requests\<close>, \<open>Push_Barrier\<close>: intents and outcomes with their validation, lifetimes of requests and of their
    dependencies, the order of pushes and replies.
  \<^item> \<open>Message_Ids\<close>, \<open>Outbound_Writer\<close>, \<open>Outbound_Delivery\<close>: message identifiers and the writer.  A frame is durable and retained before it is sent, the client
    can open it and finds what was submitted, requests are served in order; and the counter of sequence numbers can be lost to another goroutine.

  \<^bold>\<open>Bounds and fuel.\<close>  Loops are structural, or have a termination proof by the length of what is left (\<open>ReadFull_loop\<close>, \<open>ReadAll_loop\<close>, \<open>readLoop\<close>,
  \<open>be_digits\<close>, the heap's \<open>heap_up\<close> and \<open>heap_down\<close>, \<open>run\<close>).  \<open>expire_loop\<close> is given the length of the heap as fuel, which every pass shortens by one.
  The two loops of the handshake that need not end, Pollard's factorization and the client's draw of an exponent, are partial functions in the option monad;
  \<open>factorize_terminates\<close> and \<open>handshake_agreement\<close> show that they return where they are used.  Theorems on identifiers assume clocks before 2038 and fewer than
  \<open>2 ^ 29\<close> identifiers in one instant, so that a 64-bit identifier does not wrap.

  \<^bold>\<open>Not modelled.\<close>  Sockets, WebSockets, deadlines and the timers of a connection: I/O of the operating system.  The connection and its sessions, which wire the modelled stages together with goroutines.  The parser of schemas, the code generator and its
  output, naming and the commands: they produce Go source text, whose meaning is outside the model.  The public facade (server, interceptors, metadata, observers):
  configuration and calls of functions the user supplies.  Compression: \<^verbatim>\<open>compress/gzip\<close>, of which only the limits enter.
  The JSON options of \<^verbatim>\<open>initConnection\<close>.  Logging, tracing and metrics have no effect on the state.
\<close>

section \<open>Decoding within a budget\<close>

text \<open>\<open>io.ReadFull\<close> over a budget reader delivers exactly the requested bytes and charges
  exactly that many to the budget when they are present and affordable.  Otherwise it fails, with
  the byte-limit error if the budget is what ran out and with an end-of-file error if the input
  did, and has charged what it consumed.\<close>

theorem ReadFull_exact:
  "ReadFull n r =
     (if n \<le> avail r then (Inr (take n (rdata r)), advance n r)
      else (Inl (shortError 0 r), advance (avail r) r))"
  by (simp add: ReadFull_short)

end
